(* ===== verification/Prelude.thy ===== *)
theory Prelude
  imports Main "HOL-Library.Word" "HOL-Library.Multiset"
begin

text \<open>
  Shared vocabulary of the development.

  \<^item> \<open>fault\<close> and \<open>res\<close>: what a C routine may do other than return. A dereference of
    NULL or of a pointer outside its table, a failed \<open>assert\<close>, a \<open>panic\<close> and a loop
    that never ends are all values, so that "the routine returns" is something to prove.
  \<^item> \<open>chain\<close>: the abstraction of a NULL-terminated linked list to the list of its
    nodes, for any way of reading a node's link field. Every pointer structure of the
    development (hole table, job queues, name list) is abstracted through it.
  \<^item> small facts on words read as natural numbers.
\<close>

unbundle bit_operations_syntax

named_theorems fault_simps \<open>unfolding and evaluation of the result monad\<close>

type_synonym u8 = "8 word"
type_synonym u32 = "32 word"

section \<open>Faults and the result monad\<close>

datatype fault =
    NullDeref
  | BadPointer
  | IndexFault
  | AssertFail
  | Panic string
  | Diverges

type_synonym 'a res = "fault + 'a"

definition bind_res :: "'a res \<Rightarrow> ('a \<Rightarrow> 'b res) \<Rightarrow> 'b res" where
  "bind_res m f = (case m of Inl e \<Rightarrow> Inl e | Inr x \<Rightarrow> f x)"

lemma bind_res_simps [simp, fault_simps]:
  "bind_res (Inl e) f = Inl e"
  "bind_res (Inr x) f = f x"
  by (simp_all add: bind_res_def)

lemma bind_res_eq_Inr [fault_simps]:
  "bind_res m f = Inr y \<longleftrightarrow> (\<exists>x. m = Inr x \<and> f x = Inr y)"
  by (cases m) auto

lemma bind_res_eq_Inl [fault_simps]:
  "bind_res m f = Inl e \<longleftrightarrow> m = Inl e \<or> (\<exists>x. m = Inr x \<and> f x = Inl e)"
  by (cases m) auto

lemma bind_res_assoc [fault_simps]:
  "bind_res (bind_res m f) g = bind_res m (\<lambda>x. bind_res (f x) g)"
  by (cases m) auto

lemma bind_res_cong [fundef_cong]:
  "m = m' \<Longrightarrow> (\<And>x. m' = Inr x \<Longrightarrow> f x = f' x) \<Longrightarrow> bind_res m f = bind_res m' f'"
  by (cases m') auto

text \<open>Following a pointer that may be NULL, and an \<open>assert\<close>.\<close>

definition deref :: "'a option \<Rightarrow> 'a res" where
  "deref p = (case p of None \<Rightarrow> Inl NullDeref | Some a \<Rightarrow> Inr a)"

lemma deref_simps [simp, fault_simps]:
  "deref None = Inl NullDeref"
  "deref (Some a) = Inr a"
  by (simp_all add: deref_def)

definition assert_res :: "bool \<Rightarrow> unit res" where
  "assert_res b = (if b then Inr () else Inl AssertFail)"

lemma assert_res_simps [simp, fault_simps]:
  "assert_res True = Inr ()"
  "assert_res False = Inl AssertFail"
  by (simp_all add: assert_res_def)

section \<open>Linked lists\<close>

text \<open>
  \<open>seg nxt p xs q\<close>: following \<open>nxt\<close> from \<open>p\<close> visits the nodes \<open>xs\<close> and
  arrives at \<open>q\<close>. A chain is a segment that ends in NULL.
\<close>

primrec seg :: "('a \<Rightarrow> 'a option) \<Rightarrow> 'a option \<Rightarrow> 'a list \<Rightarrow> 'a option \<Rightarrow> bool" where
  "seg nxt p [] q \<longleftrightarrow> p = q"
| "seg nxt p (x # xs) q \<longleftrightarrow> p = Some x \<and> seg nxt (nxt x) xs q"

definition chain :: "('a \<Rightarrow> 'a option) \<Rightarrow> 'a option \<Rightarrow> 'a list \<Rightarrow> bool" where
  "chain nxt p xs \<longleftrightarrow> seg nxt p xs None"

lemma chain_Nil [simp]: "chain nxt p [] \<longleftrightarrow> p = None"
  by (simp add: chain_def)

lemma chain_Cons [simp]: "chain nxt p (x # xs) \<longleftrightarrow> p = Some x \<and> chain nxt (nxt x) xs"
  by (simp add: chain_def)

lemma chain_None_iff [simp]: "chain nxt None xs \<longleftrightarrow> xs = []"
  by (cases xs) auto

lemma chain_Some_iff: "chain nxt (Some a) xs \<longleftrightarrow> (\<exists>ys. xs = a # ys \<and> chain nxt (nxt a) ys)"
  by (cases xs) auto

lemma seg_append: "seg nxt p (xs @ ys) q \<longleftrightarrow> (\<exists>r. seg nxt p xs r \<and> seg nxt r ys q)"
  by (induction xs arbitrary: p) auto

lemma chain_append: "chain nxt p (xs @ ys) \<longleftrightarrow> (\<exists>r. seg nxt p xs r \<and> chain nxt r ys)"
  by (simp add: chain_def seg_append)

lemma seg_cong:
  "(\<And>x. x \<in> set xs \<Longrightarrow> nxt x = nxt' x) \<Longrightarrow> seg nxt p xs q \<longleftrightarrow> seg nxt' p xs q"
  by (induction xs arbitrary: p) auto

lemma chain_cong:
  "(\<And>x. x \<in> set xs \<Longrightarrow> nxt x = nxt' x) \<Longrightarrow> chain nxt p xs \<longleftrightarrow> chain nxt' p xs"
  unfolding chain_def by (rule seg_cong)

lemma seg_fun_upd [simp]: "a \<notin> set xs \<Longrightarrow> seg (nxt(a := v)) p xs q \<longleftrightarrow> seg nxt p xs q"
  by (rule seg_cong) auto

lemma chain_fun_upd [simp]: "a \<notin> set xs \<Longrightarrow> chain (nxt(a := v)) p xs \<longleftrightarrow> chain nxt p xs"
  by (rule chain_cong) auto

lemma seg_snoc:
  "seg nxt p (xs @ [a]) q \<longleftrightarrow> seg nxt p xs (Some a) \<and> nxt a = q"
  by (auto simp: seg_append)

lemma seg_last: "seg nxt p xs q \<Longrightarrow> xs \<noteq> [] \<Longrightarrow> nxt (last xs) = q"
  by (induction xs arbitrary: p) (auto split: if_splits)

lemma seg_first: "seg nxt p xs q \<Longrightarrow> xs \<noteq> [] \<Longrightarrow> p = Some (hd xs)"
  by (cases xs) auto

lemma chain_unique: "chain nxt p xs \<Longrightarrow> chain nxt p ys \<Longrightarrow> xs = ys"
proof (induction xs arbitrary: p ys)
  case Nil
  then show ?case by simp
next
  case (Cons x xs)
  then show ?case by (auto simp: chain_Some_iff)
qed

lemma chain_start: "chain nxt p xs \<Longrightarrow> p = (if xs = [] then None else Some (hd xs))"
  by (cases xs) auto

text \<open>A chain never visits a node twice: it would have to end in two ways.\<close>

lemma chain_suffix_unique:
  assumes "chain nxt p (xs @ a # ys)" and "chain nxt p (us @ a # vs)"
  shows "ys = vs"
  using assms by (auto simp: chain_append intro: chain_unique)

lemma chain_distinct: "chain nxt p xs \<Longrightarrow> distinct xs"
proof (induction xs arbitrary: p)
  case Nil
  then show ?case by simp
next
  case (Cons x xs)
  have "x \<notin> set xs"
  proof
    assume "x \<in> set xs"
    then obtain us vs where xs: "xs = us @ x # vs" by (meson split_list)
    from Cons.prems have tail: "chain nxt (nxt x) xs" by simp
    with xs have "chain nxt (nxt x) vs" by (auto simp: chain_append)
    with tail have "xs = vs" by (rule chain_unique)
    with xs have "length vs = length us + Suc (length vs)" by (metis length_append length_Cons)
    then show False by simp
  qed
  with Cons show ?case by auto
qed

text \<open>
  Splicing: redirecting the link of the last node of a prefix replaces what follows it.
\<close>

lemma seg_redirect:
  assumes "seg nxt p (xs @ [a]) q" and "a \<notin> set xs"
  shows "seg (nxt(a := r)) p (xs @ [a]) r"
  using assms by (simp add: seg_snoc)

lemma chain_splice:
  assumes "chain nxt p (xs @ [a] @ ys)" and "chain (nxt(a := r)) r zs" and "a \<notin> set xs"
  shows "chain (nxt(a := r)) p (xs @ [a] @ zs)"
  using assms by (auto simp: chain_append)

section \<open>Counted loops\<close>

text \<open>
  \<open>for_each xs f s\<close> is a C loop whose counter takes the values \<open>xs\<close>: the body may fault.
  \<open>for_each_prefix\<close> is its Hoare rule, with an invariant on the values already done.
\<close>

primrec for_each :: "'a list \<Rightarrow> ('a \<Rightarrow> 's \<Rightarrow> 's res) \<Rightarrow> 's \<Rightarrow> 's res" where
  "for_each [] f s = Inr s"
| "for_each (x # xs) f s = bind_res (f x s) (for_each xs f)"

lemma for_each_cong [fundef_cong]:
  "xs = ys \<Longrightarrow> s = t \<Longrightarrow> (\<And>x u. x \<in> set ys \<Longrightarrow> f x u = g x u)
    \<Longrightarrow> for_each xs f s = for_each ys g t"
proof (induction ys arbitrary: xs s t)
  case Nil
  then show ?case by simp
next
  case (Cons y ys)
  have "for_each ys f u = for_each ys g u" for u
    by (rule Cons.IH) (use Cons.prems in simp_all)
  with Cons.prems show ?case by (cases "g y t") simp_all
qed

lemma for_each_append:
  "for_each (xs @ ys) f s = bind_res (for_each xs f s) (for_each ys f)"
proof (induction xs arbitrary: s)
  case Nil
  then show ?case by simp
next
  case (Cons x xs)
  then show ?case by (cases "f x s") simp_all
qed

lemma for_each_map: "for_each (map h xs) f s = for_each xs (\<lambda>x. f (h x)) s"
proof (induction xs arbitrary: s)
  case Nil
  then show ?case by simp
next
  case (Cons x xs)
  then show ?case by (cases "f (h x) s") simp_all
qed

lemma for_each_concat:
  "for_each xs (\<lambda>x. for_each (h x) f) s = for_each (concat (map h xs)) f s"
proof (induction xs arbitrary: s)
  case Nil
  then show ?case by simp
next
  case (Cons x xs)
  then show ?case by (cases "for_each (h x) f s") (simp_all add: for_each_append)
qed

lemma for_each_prefix:
  assumes "P [] s"
    and "\<And>ys x zs u. xs = ys @ x # zs \<Longrightarrow> P ys u \<Longrightarrow> \<exists>u'. f x u = Inr u' \<and> P (ys @ [x]) u'"
  shows "\<exists>s'. for_each xs f s = Inr s' \<and> P xs s'"
proof -
  have "\<exists>s'. for_each zs f u = Inr s' \<and> P xs s'" if "xs = ys @ zs" "P ys u" for ys zs u
    using that
  proof (induction zs arbitrary: ys u)
    case Nil
    then show ?case by simp
  next
    case (Cons z zs)
    from assms(2) [OF Cons.prems] obtain u' where "f z u = Inr u'" and "P (ys @ [z]) u'" by blast
    with Cons.IH [of "ys @ [z]" u'] Cons.prems show ?case by simp
  qed
  from this [of "[]" xs s] assms(1) show ?thesis by simp
qed

lemma for_each_inv:
  assumes "I s" and "\<And>x u. x \<in> set xs \<Longrightarrow> I u \<Longrightarrow> \<exists>u'. f x u = Inr u' \<and> I u'"
  shows "\<exists>s'. for_each xs f s = Inr s' \<and> I s'"
  using for_each_prefix [of "\<lambda>_. I" s xs f] assms by fastforce

lemma for_each_eq_inv:
  assumes "I s" and "\<And>x u. x \<in> set xs \<Longrightarrow> I u \<Longrightarrow> f x u = g x u"
    and "\<And>x u u'. x \<in> set xs \<Longrightarrow> I u \<Longrightarrow> g x u = Inr u' \<Longrightarrow> I u'"
  shows "for_each xs f s = for_each xs g s"
  using assms
proof (induction xs arbitrary: s)
  case Nil
  then show ?case by simp
next
  case (Cons x xs)
  show ?case
  proof (cases "g x s")
    case (Inl e)
    with Cons.prems(2) [of x s] Cons.prems(1) show ?thesis by simp
  next
    case (Inr u)
    from Cons.prems(3) [of x s u] Cons.prems(1) Inr have "I u" by simp
    then have "for_each xs f u = for_each xs g u"
    proof (rule Cons.IH)
      show "f y v = g y v" if "y \<in> set xs" "I v" for y v
        using Cons.prems(2) [of y v] that by simp
      show "I v'" if "y \<in> set xs" "I v" "g y v = Inr v'" for y v v'
        using Cons.prems(3) [of y v v'] that by simp
    qed
    with Inr Cons.prems(2) [of x s] Cons.prems(1) show ?thesis by simp
  qed
qed

lemma for_each_pure:
  "(\<And>x u. x \<in> set xs \<Longrightarrow> f x u = Inr (g x u)) \<Longrightarrow> for_each xs f s = Inr (fold g xs s)"
  by (induction xs arbitrary: s) simp_all

section \<open>Reading an updated list\<close>

lemma nth_upd: "xs[i := v] ! j = (if i = j \<and> i < length xs then v else xs ! j)"
  by (cases "i < length xs") (auto simp: nth_list_update list_update_beyond)

section \<open>Words as natural numbers\<close>

lemma unat_plus_no_wrap:
  fixes a b :: "'a::len word"
  assumes "unat a + unat b < 2 ^ LENGTH('a)"
  shows "unat (a + b) = unat a + unat b"
  using assms by (simp add: unat_word_ariths)

lemma unat_minus_le:
  fixes a b :: "'a::len word"
  assumes "b \<le> a"
  shows "unat (a - b) = unat a - unat b"
  using assms by (simp add: unat_sub)

lemma sint_small:
  assumes "unat (w :: u32) < 2 ^ 31"
  shows "sint w = int (unat w)"
proof -
  have "int (unat w) < int (2 ^ 31)" by (rule of_nat_less_iff [THEN iffD2, OF assms])
  then have "uint w < 2 ^ 31" by simp
  moreover have "- (2 ^ 31) \<le> uint w" by (rule order_trans [OF _ uint_ge_0]) simp
  ultimately have "signed_take_bit 31 (uint w) = uint w" by (intro signed_take_bit_int_eq_self)
  then show ?thesis by (simp add: sint_uint)
qed

lemma word_eq_unat: "(a :: 'a::len word) = b \<longleftrightarrow> unat a = unat b"
  by (simp add: word_unat_eq_iff)

end
