(* ===== verification/VmEnv.thy ===== *)
theory VmEnv
  imports Prelude
begin

text \<open>
  What minix/alloc.c takes from headers and from the kernel that are not in the
  repository: the values of its constants, the flag that selects the paged allocator, and
  the result of the kernel call \<open>sys_memset\<close>. All of it is a parameter of the model.

  \<open>memlog\<close> is the state behind \<open>sys_memset\<close>: the list of ranges the kernel was asked
  to clear (address and length in bytes), oldest first.
\<close>

record vm_cfg =
  PAF_CLEAR :: u32
  PAF_CONTIG :: u32
  PAF_ALIGN64K :: u32
  PAF_LOWER16MB :: u32
  PAF_LOWER1MB :: u32
  PAF_FIRSTBLOCK :: u32
  CLICK_SIZE :: u32
  VM_PAGE_SIZE :: u32
  NO_MEM :: u32
  vm_paged :: bool
  sys_memset_rv :: "u32 \<Rightarrow> u32 \<Rightarrow> int"

record memlog =
  memsets :: "(u32 \<times> u32) list"

definition flag_set :: "u32 \<Rightarrow> u32 \<Rightarrow> bool" where
  "flag_set flags f \<longleftrightarrow> flags AND f \<noteq> 0"

text \<open>
  The clearing step of both allocators:
  \<open>if(memflags & PAF_CLEAR) if((s= sys_memset(0, addr, bytes)) != OK) panic(...)\<close>,
  with OK = 0 as in every MINIX release.
\<close>

definition clear_block :: "vm_cfg \<Rightarrow> u32 \<Rightarrow> u32 \<Rightarrow> u32 \<Rightarrow> 'a memlog_scheme \<Rightarrow> 'a memlog_scheme res" where
  "clear_block cfg flags addr bytes s =
     (if flag_set flags (PAF_CLEAR cfg) then
        if sys_memset_rv cfg addr bytes \<noteq> 0 then Inl (Panic ''alloc_mem: sys_memset failed'')
        else Inr (s\<lparr>memsets := memsets s @ [(addr, bytes)]\<rparr>)
      else Inr s)"

text \<open>A concrete configuration, used by the witnesses: 4 KB clicks and pages.\<close>

definition cfg_example :: vm_cfg where
  "cfg_example = \<lparr>PAF_CLEAR = 1, PAF_CONTIG = 2, PAF_ALIGN64K = 4, PAF_LOWER16MB = 8,
     PAF_LOWER1MB = 16, PAF_FIRSTBLOCK = 32, CLICK_SIZE = 4096, VM_PAGE_SIZE = 4096,
     NO_MEM = 0, vm_paged = False, sys_memset_rv = (\<lambda>_ _. 0)\<rparr>"

lemma clear_block_off [simp]:
  "\<not> flag_set flags (PAF_CLEAR cfg) \<Longrightarrow> clear_block cfg flags a n s = Inr s"
  by (simp add: clear_block_def)

lemma clear_block_ok:
  "sys_memset_rv cfg a n = 0 \<Longrightarrow>
     clear_block cfg flags a n s =
       Inr (s\<lparr>memsets := memsets s @ (if flag_set flags (PAF_CLEAR cfg) then [(a, n)] else [])\<rparr>)"
  by (simp add: clear_block_def)

end
