(* ===== verification/Holes.thy ===== *)
theory Holes
  imports VmEnv
begin

text \<open>
  The hole table of minix/alloc.c: an array of \<open>_NR_HOLES\<close> slots threaded into two
  linked lists, the holes (free memory, sorted by address) and the unused slots. The model
  keeps the array and the links: a pointer to a slot is its index, NULL is \<open>None\<close>.

  Operations: \<open>del_slot\<close>, \<open>merge\<close>, the hole branches of \<open>free_mem\<close> and
  \<open>alloc_mem\<close>, and the sanity check \<open>holes_sanity_f\<close>. A traversal of a list has fuel
  one more than the number of slots: a walk that visits more nodes than there are slots
  visits one twice and, since nothing is written while walking, never ends, so running out
  of fuel is the fault \<open>Diverges\<close> and nothing else.
\<close>

section \<open>State\<close>

record hole =
  h_next :: "nat option"
  h_base :: u32
  h_len :: u32
  freelist :: int
  holelist :: int

record holes = memlog +
  hole_tab :: "hole list"
  hole_head :: "nat option"
  free_slots :: "nat option"

definition rd_hole :: "'a holes_scheme \<Rightarrow> nat \<Rightarrow> hole res" where
  "rd_hole s i = (if i < length (hole_tab s) then Inr (hole_tab s ! i) else Inl BadPointer)"

definition wr_hole :: "'a holes_scheme \<Rightarrow> nat \<Rightarrow> (hole \<Rightarrow> hole) \<Rightarrow> 'a holes_scheme res" where
  "wr_hole s i f =
     (if i < length (hole_tab s)
      then Inr (s\<lparr>hole_tab := (hole_tab s)[i := f (hole_tab s ! i)]\<rparr>)
      else Inl BadPointer)"

definition walk_fuel :: "'a holes_scheme \<Rightarrow> nat" where
  "walk_fuel s = Suc (length (hole_tab s))"

section \<open>del\_slot and merge\<close>

definition del_slot :: "'a holes_scheme \<Rightarrow> nat option \<Rightarrow> nat \<Rightarrow> 'a holes_scheme res" where
  "del_slot s prev_ptr hp =
     bind_res (rd_hole s hp) (\<lambda>h.
     bind_res (if Some hp = hole_head s then Inr (s\<lparr>hole_head := h_next h\<rparr>)
               else bind_res (deref prev_ptr) (\<lambda>p. wr_hole s p (\<lambda>q. q\<lparr>h_next := h_next h\<rparr>))) (\<lambda>s1.
     bind_res (wr_hole s1 hp (\<lambda>q. q\<lparr>h_next := free_slots s1, h_base := 0, h_len := 0\<rparr>)) (\<lambda>s2.
     Inr (s2\<lparr>free_slots := Some hp\<rparr>))))"

text \<open>
  One round of \<open>merge\<close>: absorb the successor if it abuts. The result is the hole from
  which the next round starts, \<open>None\<close> when there was no successor (the early return).
\<close>

definition merge_step :: "'a holes_scheme \<Rightarrow> nat \<Rightarrow> ('a holes_scheme \<times> nat option) res" where
  "merge_step s hp =
     bind_res (rd_hole s hp) (\<lambda>h.
     case h_next h of
       None \<Rightarrow> Inr (s, None)
     | Some next_ptr \<Rightarrow>
         bind_res (rd_hole s next_ptr) (\<lambda>n.
         if h_base h + h_len h = h_base n then
           bind_res (wr_hole s hp (\<lambda>q. q\<lparr>h_len := h_len q + h_len n\<rparr>)) (\<lambda>s1.
           bind_res (del_slot s1 (Some hp) next_ptr) (\<lambda>s2. Inr (s2, Some hp)))
         else Inr (s, Some next_ptr)))"

definition merge :: "'a holes_scheme \<Rightarrow> nat \<Rightarrow> 'a holes_scheme res" where
  "merge s hp =
     bind_res (merge_step s hp) (\<lambda>(s1, p).
     case p of
       None \<Rightarrow> Inr s1
     | Some hp1 \<Rightarrow> bind_res (merge_step s1 hp1) (\<lambda>(s2, _). Inr s2))"

section \<open>free\_mem, the hole branch\<close>

text \<open>\<open>while (hp != NULL && base > hp->h_base) { prev_ptr = hp; hp = hp->h_next; }\<close>\<close>

fun find_place ::
  "nat \<Rightarrow> 'a holes_scheme \<Rightarrow> u32 \<Rightarrow> nat option \<Rightarrow> nat option \<Rightarrow> (nat option) res" where
  "find_place 0 s base prev_ptr hp = Inl Diverges"
| "find_place (Suc n) s base prev_ptr None = Inr prev_ptr"
| "find_place (Suc n) s base prev_ptr (Some hp) =
     bind_res (rd_hole s hp) (\<lambda>h.
     if h_base h < base then find_place n s base (Some hp) (h_next h) else Inr prev_ptr)"

definition hole_free :: "u32 \<Rightarrow> u32 \<Rightarrow> 'a holes_scheme \<Rightarrow> 'a holes_scheme res" where
  "hole_free base clicks s =
     (case free_slots s of
        None \<Rightarrow> Inl (Panic ''hole table full'')
      | Some new_ptr \<Rightarrow>
          bind_res (wr_hole s new_ptr (\<lambda>q. q\<lparr>h_base := base, h_len := clicks\<rparr>)) (\<lambda>s1.
          bind_res (rd_hole s1 new_ptr) (\<lambda>nw.
          let s2 = s1\<lparr>free_slots := h_next nw\<rparr> in
          bind_res (case hole_head s2 of
                      None \<Rightarrow> Inr True
                    | Some hp \<Rightarrow> bind_res (rd_hole s2 hp) (\<lambda>h. Inr (base \<le> h_base h))) (\<lambda>front.
          if front then
            bind_res (wr_hole s2 new_ptr (\<lambda>q. q\<lparr>h_next := hole_head s2\<rparr>)) (\<lambda>s3.
            merge (s3\<lparr>hole_head := Some new_ptr\<rparr>) new_ptr)
          else
            bind_res (find_place (walk_fuel s2) s2 base None (hole_head s2)) (\<lambda>prev.
            bind_res (deref prev) (\<lambda>prev_ptr.
            bind_res (rd_hole s2 prev_ptr) (\<lambda>ph.
            bind_res (wr_hole s2 new_ptr (\<lambda>q. q\<lparr>h_next := h_next ph\<rparr>)) (\<lambda>s3.
            bind_res (wr_hole s3 prev_ptr (\<lambda>q. q\<lparr>h_next := Some new_ptr\<rparr>)) (\<lambda>s4.
            merge s4 prev_ptr)))))))))"

section \<open>alloc\_mem, the hole branch\<close>

text \<open>The first-fit search: the first hole with \<open>h_len >= clicks\<close>, and its predecessor.\<close>

fun first_fit ::
  "nat \<Rightarrow> 'a holes_scheme \<Rightarrow> u32 \<Rightarrow> nat option \<Rightarrow> nat option \<Rightarrow> (nat option \<times> nat) option res" where
  "first_fit 0 s clicks prev_ptr hp = Inl Diverges"
| "first_fit (Suc n) s clicks prev_ptr None = Inr None"
| "first_fit (Suc n) s clicks prev_ptr (Some hp) =
     bind_res (rd_hole s hp) (\<lambda>h.
     if clicks \<le> h_len h then Inr (Some (prev_ptr, hp))
     else first_fit n s clicks (Some hp) (h_next h))"

definition hole_alloc ::
  "vm_cfg \<Rightarrow> u32 \<Rightarrow> u32 \<Rightarrow> 'a holes_scheme \<Rightarrow> (u32 \<times> 'a holes_scheme) res" where
  "hole_alloc cfg clicks memflags s =
     bind_res (first_fit (walk_fuel s) s clicks None (hole_head s)) (\<lambda>found.
     case found of
       None \<Rightarrow> Inr (NO_MEM cfg, s)
     | Some (prev_ptr, hp) \<Rightarrow>
         bind_res (rd_hole s hp) (\<lambda>h.
         let old_base = h_base h in
         bind_res (wr_hole s hp (\<lambda>q. q\<lparr>h_base := h_base q + clicks, h_len := h_len q - clicks\<rparr>)) (\<lambda>s1.
         bind_res (rd_hole s1 hp) (\<lambda>h1.
         bind_res (if h_len h1 = 0 then del_slot s1 prev_ptr hp else Inr s1) (\<lambda>s2.
         bind_res (clear_block cfg memflags (CLICK_SIZE cfg * old_base) (CLICK_SIZE cfg * clicks) s2) (\<lambda>s3.
         Inr (old_base, s3)))))))"

section \<open>holes\_sanity\_f\<close>

definition myassert :: "bool \<Rightarrow> unit res" where
  "myassert c = (if c then Inr () else Inl (Panic ''assert failed''))"

lemma myassert_True [simp, fault_simps]: "myassert True = Inr ()"
  by (simp add: myassert_def)

lemma myassert_Inr [simp, fault_simps]: "myassert c = Inr u \<longleftrightarrow> c"
  by (simp add: myassert_def)

text \<open>
  The two marking loops. The list is walked while its nodes are marked; the counter \<open>c\<close>
  is checked against \<open>_NR_HOLES\<close>, so the loop always stops.
\<close>

function mark_list ::
  "(hole \<Rightarrow> hole) \<Rightarrow> 'a holes_scheme \<Rightarrow> nat option \<Rightarrow> nat \<Rightarrow> nat \<Rightarrow> ('a holes_scheme \<times> nat) res" where
  "mark_list mark s hp c n =
     (case hp of
        None \<Rightarrow> Inr (s, n)
      | Some i \<Rightarrow>
          bind_res (rd_hole s i) (\<lambda>h.
          bind_res (myassert (freelist h = 0)) (\<lambda>_.
          bind_res (myassert (holelist h = 0)) (\<lambda>_.
          bind_res (wr_hole s i mark) (\<lambda>s1.
          if c < length (hole_tab s) then mark_list mark s1 (h_next h) (Suc c) (Suc n)
          else Inl (Panic ''assert failed''))))))"
  by pat_completeness auto
termination
  by (relation "measure (\<lambda>(mark, s, hp, c, n). length (hole_tab s) - c)")
     (auto simp: wr_hole_def split: if_splits)

declare mark_list.simps [simp del]

text \<open>"Make sure each slot is on exactly one of the list."\<close>

definition slots_marked :: "hole list \<Rightarrow> bool" where
  "slots_marked hs \<longleftrightarrow> (\<forall>h \<in> set hs.
     (holelist h \<noteq> 0 \<or> freelist h \<noteq> 0) \<and> \<not> (holelist h \<noteq> 0 \<and> freelist h \<noteq> 0))"

text \<open>"Make sure no holes overlap", and none is left uncoalesced.\<close>

fun check_gaps :: "nat \<Rightarrow> 'a holes_scheme \<Rightarrow> nat option \<Rightarrow> 'a holes_scheme res" where
  "check_gaps 0 s hp = Inl Diverges"
| "check_gaps (Suc k) s None = Inr s"
| "check_gaps (Suc k) s (Some i) =
     bind_res (rd_hole s i) (\<lambda>h.
     case h_next h of
       None \<Rightarrow> Inr s
     | Some j \<Rightarrow>
         bind_res (myassert (holelist h \<noteq> 0)) (\<lambda>_.
         bind_res (wr_hole s i (\<lambda>q. q\<lparr>holelist := 1\<rparr>)) (\<lambda>s1.
         bind_res (rd_hole s1 j) (\<lambda>n.
         bind_res (myassert (h_base h + h_len h \<le> h_base n)) (\<lambda>_.
         bind_res (myassert (h_base h + h_len h < h_base n)) (\<lambda>_.
         check_gaps k s1 (Some j)))))))"

definition holes_sanity_f :: "'a holes_scheme \<Rightarrow> 'a holes_scheme res" where
  "holes_sanity_f s =
     (let s0 = s\<lparr>hole_tab := map (\<lambda>h. h\<lparr>freelist := 0, holelist := 0\<rparr>) (hole_tab s)\<rparr> in
      bind_res (mark_list (\<lambda>h. h\<lparr>freelist := 1\<rparr>) s0 (free_slots s0) 0 0) (\<lambda>(s1, n1).
      bind_res (mark_list (\<lambda>h. h\<lparr>holelist := 1\<rparr>) s1 (hole_head s1) 0 n1) (\<lambda>(s2, n2).
      bind_res (myassert (n2 = length (hole_tab s2))) (\<lambda>_.
      bind_res (myassert (slots_marked (hole_tab s2))) (\<lambda>_.
      check_gaps (walk_fuel s2) s2 (hole_head s2))))))"

end
