(* ===== verification/HoleRep.thy ===== *)
theory HoleRep
  imports Holes
begin

text \<open>
  The hole table seen as two lists of slots, and the simulation lemmas of \<open>del_slot\<close>
  and \<open>merge\<close> over that view. \<open>hrep s hl fl\<close> says that the array is threaded into the
  holes \<open>hl\<close> and the unused slots \<open>fl\<close>, each slot on exactly one of them.
  \<open>region s i\<close> is slot \<open>i\<close> read as (base, length) in natural numbers.
\<close>

definition nx :: "'a holes_scheme \<Rightarrow> nat \<Rightarrow> nat option" where
  "nx s i = (if i < length (hole_tab s) then h_next (hole_tab s ! i) else None)"

definition region :: "'a holes_scheme \<Rightarrow> nat \<Rightarrow> nat \<times> nat" where
  "region s i = (unat (h_base (hole_tab s ! i)), unat (h_len (hole_tab s ! i)))"

definition hrep :: "'a holes_scheme \<Rightarrow> nat list \<Rightarrow> nat list \<Rightarrow> bool" where
  "hrep s hl fl \<longleftrightarrow>
     chain (nx s) (hole_head s) hl \<and> chain (nx s) (free_slots s) fl \<and>
     distinct (hl @ fl) \<and> set (hl @ fl) = {..<length (hole_tab s)}"

text \<open>Operations of this file write the table and its two list heads, nothing else.\<close>

definition only_holes :: "'a holes_scheme \<Rightarrow> 'a holes_scheme \<Rightarrow> bool" where
  "only_holes s t \<longleftrightarrow> (\<exists>a h f. t = s\<lparr>hole_tab := a, hole_head := h, free_slots := f\<rparr> \<and>
     length a = length (hole_tab s))"

lemma only_holes_refl [simp]: "only_holes s s"
  unfolding only_holes_def
  by (rule exI [of _ "hole_tab s"], rule exI [of _ "hole_head s"], rule exI [of _ "free_slots s"])
     simp

lemma only_holes_trans: "only_holes s t \<Longrightarrow> only_holes t u \<Longrightarrow> only_holes s u"
  unfolding only_holes_def by fastforce

lemma only_holes_memsets: "only_holes s t \<Longrightarrow> memsets t = memsets s"
  by (auto simp: only_holes_def)

lemma only_holes_len: "only_holes s t \<Longrightarrow> length (hole_tab t) = length (hole_tab s)"
  by (auto simp: only_holes_def)

lemma only_holes_tab [simp]:
  assumes "only_holes s t" "length a = length (hole_tab s)"
  shows "only_holes s (t\<lparr>hole_tab := a\<rparr>)"
proof -
  from assms obtain b h f where "t = s\<lparr>hole_tab := b, hole_head := h, free_slots := f\<rparr>"
    by (auto simp: only_holes_def)
  then have "t\<lparr>hole_tab := a\<rparr> = s\<lparr>hole_tab := a, hole_head := h, free_slots := f\<rparr>" by simp
  with assms(2) show ?thesis unfolding only_holes_def by metis
qed

lemma only_holes_head [simp]:
  assumes "only_holes s t"
  shows "only_holes s (t\<lparr>hole_head := p\<rparr>)"
proof -
  from assms obtain b h f where t: "t = s\<lparr>hole_tab := b, hole_head := h, free_slots := f\<rparr>"
    and "length b = length (hole_tab s)"
    by (auto simp: only_holes_def)
  moreover have "t\<lparr>hole_head := p\<rparr> = s\<lparr>hole_tab := b, hole_head := p, free_slots := f\<rparr>"
    using t by simp
  ultimately show ?thesis unfolding only_holes_def by metis
qed

lemma only_holes_slots [simp]:
  assumes "only_holes s t"
  shows "only_holes s (t\<lparr>free_slots := p\<rparr>)"
proof -
  from assms obtain b h f where t: "t = s\<lparr>hole_tab := b, hole_head := h, free_slots := f\<rparr>"
    and "length b = length (hole_tab s)"
    by (auto simp: only_holes_def)
  moreover have "t\<lparr>free_slots := p\<rparr> = s\<lparr>hole_tab := b, hole_head := h, free_slots := p\<rparr>"
    using t by simp
  ultimately show ?thesis unfolding only_holes_def by metis
qed

lemma hrep_bound: "hrep s hl fl \<Longrightarrow> i \<in> set hl \<union> set fl \<Longrightarrow> i < length (hole_tab s)"
  by (auto simp: hrep_def)

lemma hrep_len: "hrep s hl fl \<Longrightarrow> length hl + length fl = length (hole_tab s)"
proof -
  assume "hrep s hl fl"
  then have "distinct (hl @ fl)" and "set (hl @ fl) = {..<length (hole_tab s)}"
    by (simp_all add: hrep_def)
  then have "length (hl @ fl) = card {..<length (hole_tab s)}"
    by (metis distinct_card)
  then show ?thesis by simp
qed

lemma rd_hole_ok [simp]: "i < length (hole_tab s) \<Longrightarrow> rd_hole s i = Inr (hole_tab s ! i)"
  by (simp add: rd_hole_def)

lemma wr_hole_ok [simp]:
  "i < length (hole_tab s) \<Longrightarrow>
     wr_hole s i f = Inr (s\<lparr>hole_tab := (hole_tab s)[i := f (hole_tab s ! i)]\<rparr>)"
  by (simp add: wr_hole_def)

lemma nx_write [simp]:
  "i < length (hole_tab s) \<Longrightarrow> nx (s\<lparr>hole_tab := (hole_tab s)[i := h]\<rparr>) = (nx s)(i := h_next h)"
  by (auto simp: nx_def fun_eq_iff nth_list_update)

lemma nx_heads [simp]:
  "nx (s\<lparr>hole_head := p\<rparr>) = nx s" "nx (s\<lparr>free_slots := p\<rparr>) = nx s"
  by (simp_all add: nx_def fun_eq_iff)

lemma region_heads [simp]:
  "region (s\<lparr>hole_head := p\<rparr>) = region s" "region (s\<lparr>free_slots := p\<rparr>) = region s"
  by (simp_all add: region_def fun_eq_iff)

lemma hrep_nx: "hrep s (pre @ i # j # post) fl \<Longrightarrow> h_next (hole_tab s ! i) = Some j"
proof -
  assume "hrep s (pre @ i # j # post) fl"
  then have "nx s i = Some j" "i < length (hole_tab s)"
    by (auto simp: hrep_def chain_append)
  then show ?thesis by (simp add: nx_def)
qed

lemma hrep_nx_last: "hrep s (pre @ [i]) fl \<Longrightarrow> h_next (hole_tab s ! i) = None"
proof -
  assume "hrep s (pre @ [i]) fl"
  then have "nx s i = None" "i < length (hole_tab s)"
    by (auto simp: hrep_def chain_append)
  then show ?thesis by (simp add: nx_def)
qed

lemma hrep_head: "hrep s hl fl \<Longrightarrow> hole_head s = (if hl = [] then None else Some (hd hl))"
  by (auto simp: hrep_def dest: chain_start)

lemma hrep_free: "hrep s hl fl \<Longrightarrow> free_slots s = (if fl = [] then None else Some (hd fl))"
  by (auto simp: hrep_def dest: chain_start)

section \<open>del\_slot\<close>

lemma del_slot_sim:
  assumes rep: "hrep s (pre @ hp # post) fl"
    and prev: "pre \<noteq> [] \<Longrightarrow> prev = Some (last pre)"
  shows "\<exists>s'. del_slot s prev hp = Inr s' \<and> hrep s' (pre @ post) (hp # fl) \<and>
    (\<forall>i. i \<noteq> hp \<longrightarrow> region s' i = region s i) \<and> only_holes s s'"
proof -
  let ?t = "hole_tab s"
  let ?h = "?t ! hp"
  from rep have hp: "hp < length ?t" and dist: "distinct (pre @ hp # post @ fl)"
    and all: "set (pre @ hp # post @ fl) = {..<length ?t}"
    by (auto simp: hrep_def)
  from rep obtain seg1: "seg (nx s) (hole_head s) pre (Some hp)"
    and ch: "chain (nx s) (nx s hp) post" and chf: "chain (nx s) (free_slots s) fl"
    by (auto simp: hrep_def chain_append)
  have nxhp: "nx s hp = h_next ?h" using hp by (simp add: nx_def)
  show ?thesis
  proof (cases pre rule: rev_cases)
    case Nil
    then have head: "hole_head s = Some hp" using seg1 by simp
    let ?s' = "s\<lparr>hole_head := h_next ?h,
        hole_tab := ?t[hp := ?h\<lparr>h_next := free_slots s, h_base := 0, h_len := 0\<rparr>],
        free_slots := Some hp\<rparr>"
    have "del_slot s prev hp = Inr ?s'"
      using hp head by (simp add: del_slot_def)
    moreover have "nx ?s' = (nx s)(hp := free_slots s)"
      using hp by (auto simp: nx_def fun_eq_iff nth_list_update)
    moreover have "chain (nx s) (h_next ?h) post" "chain (nx s) (free_slots s) fl"
      using ch chf nxhp by simp_all
    ultimately have "del_slot s prev hp = Inr ?s'" "hrep ?s' post (hp # fl)"
      using Nil dist all by (simp_all add: hrep_def)
    moreover have "\<forall>i. i \<noteq> hp \<longrightarrow> region ?s' i = region s i"
      by (simp add: region_def)
    moreover have "only_holes s ?s'"
      by simp
    ultimately show ?thesis using Nil by auto
  next
    case (snoc pre' q)
    then have ne: "Some hp \<noteq> hole_head s"
      using seg1 dist by (cases pre') auto
    have q: "prev = Some q" "q < length ?t" "q \<noteq> hp"
      using snoc prev dist all by (auto simp: set_eq_iff)
    let ?t1 = "?t[q := (?t ! q)\<lparr>h_next := h_next ?h\<rparr>]"
    let ?s' = "s\<lparr>hole_tab := ?t1[hp := ?h\<lparr>h_next := free_slots s, h_base := 0, h_len := 0\<rparr>],
        free_slots := Some hp\<rparr>"
    have "del_slot s prev hp = Inr ?s'"
      using hp ne q by (simp add: del_slot_def nth_list_update)
    moreover have nx': "nx ?s' = (nx s)(q := h_next ?h, hp := free_slots s)"
      using hp q by (auto simp: nx_def fun_eq_iff nth_list_update)
    have "chain (nx ?s') (hole_head s) (pre @ post)"
      using snoc seg1 ch dist nxhp unfolding nx' by (simp add: chain_append seg_append)
    moreover have "chain (nx ?s') (Some hp) (hp # fl)"
      using chf dist snoc unfolding nx' by simp
    ultimately have "del_slot s prev hp = Inr ?s'" "hrep ?s' (pre @ post) (hp # fl)"
      using dist all by (auto simp: hrep_def)
    moreover have "\<forall>i. i \<noteq> hp \<longrightarrow> region ?s' i = region s i"
      using q hp by (simp add: region_def nth_list_update)
    moreover have "only_holes s ?s'"
      by simp
    ultimately show ?thesis by blast
  qed
qed

end
