(* ===== verification/Regions.thy ===== *)
theory Regions
  imports Prelude
begin

text \<open>
  The abstract memory of the allocators: a list of regions (base, length) sorted by
  address, and the set of addresses it stands for. \<open>alloc_l\<close> and \<open>free_l\<close> are what the
  hole list is meant to do, without links, slots or words: first fit, and insertion with
  coalescing on both sides. The lemmas state both on sets of addresses.
\<close>

type_synonym region = "nat \<times> nat"

fun cells :: "region \<Rightarrow> nat set" where
  "cells (b, l) = {b..<b + l}"

definition area :: "region list \<Rightarrow> nat set" where
  "area rs = (\<Union>r \<in> set rs. cells r)"

lemma area_simps [simp]:
  "area [] = {}"
  "area (r # rs) = cells r \<union> area rs"
  "area (rs @ rs') = area rs \<union> area rs'"
  by (auto simp: area_def)

lemma finite_area [simp]: "finite (area rs)"
  by (induction rs) auto

text \<open>\<open>before r r'\<close>: \<open>r\<close> ends strictly before \<open>r'\<close> starts (no overlap, a gap between).\<close>

fun before :: "region \<Rightarrow> region \<Rightarrow> bool" where
  "before (b, l) (b', l') \<longleftrightarrow> b + l < b'"

fun nonempty :: "region \<Rightarrow> bool" where
  "nonempty (b, l) \<longleftrightarrow> 0 < l"

definition coalesced :: "region list \<Rightarrow> bool" where
  "coalesced rs \<longleftrightarrow> sorted_wrt before rs \<and> (\<forall>r \<in> set rs. nonempty r)"

definition within :: "nat \<Rightarrow> region list \<Rightarrow> bool" where
  "within n rs \<longleftrightarrow> (\<forall>(b, l) \<in> set rs. b + l < n)"

lemma before_trans: "before r s \<Longrightarrow> before s t \<Longrightarrow> before r t"
  by (cases r; cases s; cases t) auto

lemma coalesced_Nil [simp]: "coalesced []"
  by (simp add: coalesced_def)

lemma coalesced_Cons:
  "coalesced (r # rs) \<longleftrightarrow> nonempty r \<and> (\<forall>x \<in> set rs. before r x) \<and> coalesced rs"
  by (auto simp: coalesced_def)

lemma coalesced_append:
  "coalesced (rs @ rs') \<longleftrightarrow>
     coalesced rs \<and> coalesced rs' \<and> (\<forall>x \<in> set rs. \<forall>y \<in> set rs'. before x y)"
  by (auto simp: coalesced_def sorted_wrt_append)

lemma coalesced_hd:
  assumes "coalesced rs" "rs \<noteq> []" "before r (hd rs)"
  shows "\<forall>x \<in> set rs. before r x"
  using assms by (cases rs) (auto simp: coalesced_Cons intro: before_trans)

lemma within_simps [simp]:
  "within n []"
  "within n (r # rs) \<longleftrightarrow> fst r + snd r < n \<and> within n rs"
  "within n (rs @ rs') \<longleftrightarrow> within n rs \<and> within n rs'"
  by (auto simp: within_def)

lemma total_cells: "coalesced rs \<Longrightarrow> card (area rs) = sum_list (map snd rs)"
proof (induction rs)
  case Nil
  then show ?case by simp
next
  case (Cons r rs)
  obtain b l where r: "r = (b, l)" by (cases r)
  have "cells r \<inter> area rs = {}"
    using Cons.prems r by (fastforce simp: coalesced_Cons area_def)
  then have "card (area (r # rs)) = card (cells r) + card (area rs)"
    by (simp add: card_Un_disjoint r)
  with Cons r show ?case by (simp add: coalesced_Cons)
qed

section \<open>First fit\<close>

fun alloc_l :: "nat \<Rightarrow> region list \<Rightarrow> (nat \<times> region list) option" where
  "alloc_l n [] = None"
| "alloc_l n ((b, l) # rs) =
     (if n \<le> l then Some (b, (if l = n then rs else (b + n, l - n) # rs))
      else map_option (\<lambda>(m, rs'). (m, (b, l) # rs')) (alloc_l n rs))"

lemma alloc_l_None: "alloc_l n rs = None \<longleftrightarrow> (\<forall>r \<in> set rs. snd r < n)"
  by (induction n rs rule: alloc_l.induct) auto

lemma alloc_l_before:
  "alloc_l n rs = Some (m, rs') \<Longrightarrow> \<forall>x \<in> set rs. before r x \<Longrightarrow> \<forall>x \<in> set rs'. before r x"
  by (induction n rs arbitrary: m rs' rule: alloc_l.induct)
     (cases r; fastforce split: if_splits)+

lemma alloc_l_coalesced:
  "alloc_l n rs = Some (m, rs') \<Longrightarrow> coalesced rs \<Longrightarrow> coalesced rs'"
proof (induction n rs arbitrary: m rs' rule: alloc_l.induct)
  case (1 n)
  then show ?case by simp
next
  case (2 n b l rs)
  show ?case
  proof (cases "n \<le> l")
    case True
    with 2 show ?thesis by (fastforce simp: coalesced_Cons split: if_splits)
  next
    case False
    with "2.prems" obtain rs1 where "alloc_l n rs = Some (m, rs1)" "rs' = (b, l) # rs1"
      by auto
    with False 2 show ?thesis
      using alloc_l_before [of n rs m rs1 "(b, l)"] by (simp add: coalesced_Cons)
  qed
qed

lemma alloc_l_area:
  "alloc_l n rs = Some (m, rs') \<Longrightarrow> coalesced rs \<Longrightarrow>
     {m..<m + n} \<subseteq> area rs \<and> area rs' = area rs - {m..<m + n}"
proof (induction n rs arbitrary: m rs' rule: alloc_l.induct)
  case (1 n)
  then show ?case by simp
next
  case (2 n b l rs)
  have gap: "\<forall>x \<in> area rs. b + l < x"
    using "2.prems"(2) by (fastforce simp: coalesced_Cons area_def)
  show ?case
  proof (cases "n \<le> l")
    case True
    with "2.prems" gap show ?thesis by (fastforce split: if_splits)
  next
    case False
    with "2.prems" obtain rs1 where r: "alloc_l n rs = Some (m, rs1)" "rs' = (b, l) # rs1"
      by auto
    with False 2 have ih: "{m..<m + n} \<subseteq> area rs" "area rs1 = area rs - {m..<m + n}"
      by (auto simp: coalesced_Cons)
    moreover have "{b..<b + l} \<inter> {m..<m + n} = {}"
      using gap ih(1) by fastforce
    ultimately show ?thesis using r by auto
  qed
qed

lemma alloc_l_within: "alloc_l n rs = Some (m, rs') \<Longrightarrow> within k rs \<Longrightarrow> within k rs'"
  by (induction n rs arbitrary: m rs' rule: alloc_l.induct) (auto split: if_splits)

lemma alloc_l_mem: "alloc_l n rs = Some (m, rs') \<Longrightarrow> \<exists>l. (m, l) \<in> set rs \<and> n \<le> l"
  by (induction n rs arbitrary: m rs' rule: alloc_l.induct) (auto split: if_splits)

text \<open>First fit takes the lowest address at which a region of that length is free.\<close>

lemma alloc_l_lowest:
  assumes "alloc_l n rs = Some (m, rs')" "coalesced rs" "(b, l) \<in> set rs" "n \<le> l"
  shows "m \<le> b"
  using assms
proof (induction n rs arbitrary: m rs' rule: alloc_l.induct)
  case (1 n)
  then show ?case by simp
next
  case (2 n b' l' rs)
  then show ?case by (fastforce simp: coalesced_Cons split: if_splits)
qed

section \<open>Coalescing insertion\<close>

fun merge1 :: "region list \<Rightarrow> region list" where
  "merge1 ((b, l) # (b', l') # rs) =
     (if b + l = b' then (b, l + l') # rs else (b, l) # (b', l') # rs)"
| "merge1 rs = rs"

fun merge_l :: "region list \<Rightarrow> region list" where
  "merge_l ((b, l) # (b', l') # rs) =
     (if b + l = b' then merge1 ((b, l + l') # rs) else (b, l) # merge1 ((b', l') # rs))"
| "merge_l rs = rs"

text \<open>
  Insertion of a block: in front if no region starts below it, otherwise after the last
  region that does, the merge then starting at that region.
\<close>

definition free_l :: "region \<Rightarrow> region list \<Rightarrow> region list" where
  "free_l r rs =
     (let pre = takeWhile (\<lambda>x. fst x < fst r) rs; post = dropWhile (\<lambda>x. fst x < fst r) rs in
      if pre = [] then merge_l (r # post) else butlast pre @ merge_l (last pre # r # post))"

text \<open>The two shapes of the result, for a split of the list at the insertion point.\<close>

lemma free_l_split:
  obtains (front) "rs = [] \<or> fst r \<le> fst (hd rs)"
      "free_l r rs = merge_l (r # rs)"
  | (inside) pre p post where "rs = pre @ p # post" "fst p < fst r"
      "post = [] \<or> fst r \<le> fst (hd post)" "free_l r rs = pre @ merge_l (p # r # post)"
proof (cases "takeWhile (\<lambda>x. fst x < fst r) rs" rule: rev_cases)
  case Nil
  then have "dropWhile (\<lambda>x. fst x < fst r) rs = rs"
    using takeWhile_dropWhile_id [of "\<lambda>x. fst x < fst r" rs] by simp
  with Nil show ?thesis
    by (intro front) (cases rs; auto simp: free_l_def split: if_splits)+
next
  case (snoc pre p)
  let ?post = "dropWhile (\<lambda>x. fst x < fst r) rs"
  have "rs = pre @ p # ?post"
    using takeWhile_dropWhile_id [of "\<lambda>x. fst x < fst r" rs] snoc by simp
  moreover have "fst p < fst r"
    using snoc set_takeWhileD [of p "\<lambda>x. fst x < fst r" rs] by simp
  moreover have "?post = [] \<or> fst r \<le> fst (hd ?post)"
    using hd_dropWhile [of "\<lambda>x. fst x < fst r" rs] by fastforce
  ultimately show ?thesis
    using snoc by (intro inside [of pre p ?post]) (auto simp: free_l_def Let_def)
qed

lemma area_merge1: "area (merge1 rs) = area rs"
  by (induction rs rule: merge1.induct) auto

lemma area_merge_l: "area (merge_l rs) = area rs"
proof (cases rs rule: merge_l.cases)
  case (1 b l b' l' rs')
  have "cells (b, l) \<union> cells (b + l, l') = cells (b, l + l')" by auto
  with 1 show ?thesis by (auto simp: area_merge1 simp del: cells.simps)
qed auto

lemma free_l_area: "area (free_l r rs) = cells r \<union> area rs"
  by (cases rule: free_l_split [of rs r]) (auto simp: area_merge_l)

text \<open>
  A block that overlaps no region: on each side it either abuts or leaves a gap. Then
  the result is again coalesced.
\<close>

fun fits :: "region \<Rightarrow> region \<Rightarrow> bool" where
  "fits (b, n) (b', l') \<longleftrightarrow> b + n \<le> b' \<or> b' + l' \<le> b"

lemma disjoint_fits:
  "0 < n \<Longrightarrow> nonempty r \<Longrightarrow> cells (b, n) \<inter> cells r = {} \<Longrightarrow> fits (b, n) r"
proof (cases r)
  case (Pair b' l')
  assume "0 < n" "nonempty r" and dis: "cells (b, n) \<inter> cells r = {}"
  with Pair have "0 < l'" by simp
  show ?thesis
  proof (rule ccontr)
    assume "\<not> fits (b, n) r"
    with Pair have "b' < b + n" "b < b' + l'" by auto
    then have "max b b' \<in> cells (b, n) \<inter> cells r"
      using Pair \<open>0 < n\<close> \<open>0 < l'\<close> by (auto simp: max_def)
    with dis show False by blast
  qed
qed

text \<open>Merging creates no new start address, and \<open>before r\<close> looks at the start only.\<close>

lemma before_fst: "before r x \<longleftrightarrow> fst r + snd r < fst x"
  by (cases r; cases x) auto

lemma starts_merge1: "fst ` set (merge1 rs) \<subseteq> fst ` set rs"
  by (induction rs rule: merge1.induct) auto

lemma starts_merge_l: "fst ` set (merge_l rs) \<subseteq> fst ` set rs"
proof (cases rs rule: merge_l.cases)
  case (1 b l b' l' rs')
  then show ?thesis
    using starts_merge1 [of "(b, l + l') # rs'"] starts_merge1 [of "(b', l') # rs'"] by auto
qed auto

fun touch :: "region \<Rightarrow> region \<Rightarrow> bool" where
  "touch (b, l) (b', l') \<longleftrightarrow> b + l \<le> b'"

lemma coalesced_merge1:
  assumes "nonempty x" "coalesced rs" "\<forall>y \<in> set rs. touch x y"
  shows "coalesced (merge1 (x # rs))"
proof (cases rs)
  case Nil
  with assms show ?thesis by (cases x) (auto simp: coalesced_Cons)
next
  case (Cons y zs)
  obtain b l b2 l2 where r: "x = (b, l)" "y = (b2, l2)" by (cases x; cases y)
  from assms Cons r have *: "b + l \<le> b2" "0 < l" "0 < l2" "coalesced zs"
    "\<forall>z \<in> set zs. b2 + l2 < fst z" by (auto simp: coalesced_Cons before_fst)
  show ?thesis
  proof (cases "b + l = b2")
    case True
    with * Cons r show ?thesis by (auto simp: coalesced_Cons before_fst)
  next
    case False
    with * Cons r show ?thesis by (fastforce simp: coalesced_Cons before_fst)
  qed
qed

lemma coalesced_merge_l:
  assumes "nonempty x" "nonempty y" "touch x y" "coalesced zs" "\<forall>z \<in> set zs. touch y z"
  shows "coalesced (merge_l (x # y # zs))"
proof -
  obtain b l b2 l2 where r: "x = (b, l)" "y = (b2, l2)" by (cases x; cases y)
  show ?thesis
  proof (cases "b + l = b2")
    case True
    have "\<forall>z \<in> set zs. touch (b, l + l2) z" using assms(5) r True by fastforce
    with True assms r show ?thesis by (simp add: coalesced_merge1)
  next
    case False
    have z: "\<forall>z \<in> set zs. b + l < fst z" using assms(3,5) False r by fastforce
    have "\<forall>z \<in> set (merge1 (y # zs)). b + l < fst z"
      using starts_merge1 [of "y # zs"] z assms(3) False r by fastforce
    moreover have "coalesced (merge1 (y # zs))" using assms by (simp add: coalesced_merge1)
    ultimately show ?thesis using False assms r by (simp add: coalesced_Cons before_fst)
  qed
qed

lemma touch_after:
  assumes "coalesced zs" "nonempty x" "\<forall>z \<in> set zs. fits x z" "zs = [] \<or> fst x \<le> fst (hd zs)"
  shows "\<forall>z \<in> set zs. touch x z"
proof
  fix z assume z: "z \<in> set zs"
  obtain b n where x: "x = (b, n)" by (cases x)
  obtain c l where zz: "z = (c, l)" by (cases z)
  have "fst x \<le> c"
    using z assms(1,4) zz by (cases zs) (auto simp: coalesced_Cons before_fst)
  moreover have "fits x z" "0 < l"
    using z assms(1,3) zz by (auto simp: coalesced_def)
  ultimately show "touch x z" using x zz assms(2) by auto
qed

lemma free_l_coalesced:
  assumes co: "coalesced rs" and n: "0 < n" and fit: "\<forall>r \<in> set rs. fits (b, n) r"
  shows "coalesced (free_l (b, n) rs)"
proof (cases rule: free_l_split [of rs "(b, n)"])
  case front
  have t: "\<forall>z \<in> set rs. touch (b, n) z"
    by (rule touch_after) (use co n fit front in auto)
  show ?thesis
  proof (cases rs)
    case Nil
    with front n show ?thesis by (simp add: coalesced_Cons)
  next
    case (Cons r zs)
    have "\<forall>z \<in> set zs. touch r z"
      using co Cons by (cases r) (fastforce simp: coalesced_Cons before_fst)
    then have "coalesced (merge_l ((b, n) # r # zs))"
      by (intro coalesced_merge_l) (use co n t Cons in \<open>auto simp: coalesced_Cons\<close>)
    with Cons front show ?thesis by simp
  qed
next
  case (inside pre p post)
  have c: "coalesced pre" "coalesced post" "nonempty p" "\<forall>x \<in> set pre. before x p"
    "\<forall>x \<in> set pre. \<forall>y \<in> set post. before x y"
    using co inside(1) by (auto simp: coalesced_append coalesced_Cons)
  have t: "\<forall>z \<in> set post. touch (b, n) z"
    by (rule touch_after) (use c n fit inside in auto)
  have tp: "touch p (b, n)"
    using fit inside(1,2) c(3) n by (cases p) auto
  have "coalesced (merge_l (p # (b, n) # post))"
    by (rule coalesced_merge_l) (use c n t tp in auto)
  moreover have "\<forall>x \<in> set pre. \<forall>y \<in> set (merge_l (p # (b, n) # post)). before x y"
  proof (intro ballI)
    fix x y assume x: "x \<in> set pre" and "y \<in> set (merge_l (p # (b, n) # post))"
    then have "fst y \<in> insert (fst p) (insert b (fst ` set post))"
      using starts_merge_l [of "p # (b, n) # post"] by auto
    then show "before x y" using x c(4,5) inside(2) by (fastforce simp: before_fst)
  qed
  ultimately show ?thesis using inside(4) c(1) by (simp add: coalesced_append)
qed

lemma merge1_within: "within k rs \<Longrightarrow> within k (merge1 rs)"
  by (induction rs rule: merge1.induct) auto

lemma merge_l_within: "within k rs \<Longrightarrow> within k (merge_l rs)"
  by (cases rs rule: merge_l.cases) (auto intro!: merge1_within)

lemma free_l_within:
  assumes "within k rs" "within k [r]"
  shows "within k (free_l r rs)"
proof (cases rule: free_l_split [of rs r])
  case front
  have "within k (merge_l (r # rs))"
    using assms by (intro merge_l_within) simp
  with front show ?thesis by simp
next
  case (inside pre p post)
  have "within k (merge_l (p # r # post))"
    using assms inside(1) by (intro merge_l_within) simp
  with inside assms show ?thesis by simp
qed

section \<open>Taking the end of a region\<close>

definition take_tail :: "nat \<Rightarrow> region list \<Rightarrow> region \<Rightarrow> region list \<Rightarrow> region list" where
  "take_tail n rs r rs' = rs @ (if snd r = n then [] else [(fst r, snd r - n)]) @ rs'"

lemma take_tail_coalesced:
  assumes "coalesced (rs @ r # rs')" "n \<le> snd r"
  shows "coalesced (take_tail n rs r rs')"
  using assms
  by (cases r) (fastforce simp: take_tail_def coalesced_append coalesced_Cons before_fst)

lemma take_tail_area:
  assumes co: "coalesced (rs @ r # rs')" and n: "n \<le> snd r"
  defines "m \<equiv> fst r + snd r - n"
  shows "{m..<m + n} \<subseteq> area (rs @ r # rs')"
    and "area (take_tail n rs r rs') = area (rs @ r # rs') - {m..<m + n}"
proof -
  obtain b l where r: "r = (b, l)" by (cases r)
  have low: "\<forall>x \<in> area rs. x < b"
    using co r by (fastforce simp: coalesced_append coalesced_Cons area_def before_fst)
  have high: "\<forall>x \<in> area rs'. b + l < x"
    using co r by (fastforce simp: coalesced_append coalesced_Cons area_def before_fst)
  show "{m..<m + n} \<subseteq> area (rs @ r # rs')"
    using n r by (auto simp: m_def)
  show "area (take_tail n rs r rs') = area (rs @ r # rs') - {m..<m + n}"
  proof -
    have "area (take_tail n rs r rs') = area rs \<union> {b..<b + l - n} \<union> area rs'"
      using n r by (auto simp: take_tail_def)
    moreover have "{b..<b + l} - {m..<m + n} = {b..<b + l - n}"
      using n r by (auto simp: m_def)
    moreover have "area rs \<inter> {m..<m + n} = {}" "area rs' \<inter> {m..<m + n} = {}"
      using low high n r by (force simp: m_def)+
    ultimately show ?thesis using r by auto
  qed
qed

lemma take_tail_within:
  "within k (rs @ r # rs') \<Longrightarrow> within k (take_tail n rs r rs')"
  by (auto simp: take_tail_def)

lemma take_tail_total:
  "n \<le> snd r \<Longrightarrow> sum_list (map snd (take_tail n rs r rs')) + n = sum_list (map snd (rs @ r # rs'))"
  by (auto simp: take_tail_def)

section \<open>Coalesced lists are canonical\<close>

text \<open>Two coalesced lists with the same area are the same list.\<close>

lemma coalesced_hd_min:
  assumes "coalesced ((b, l) # rs)"
  shows "Min (area ((b, l) # rs)) = b"
    and "b + l \<notin> area ((b, l) # rs)"
    and "{b..<b + l} \<subseteq> area ((b, l) # rs)"
proof -
  have pos: "0 < l" and high: "\<forall>x \<in> area rs. b + l < x"
    using assms by (fastforce simp: coalesced_Cons area_def before_fst)+
  show "Min (area ((b, l) # rs)) = b"
    using pos high by (intro Min_eqI) auto
  show "b + l \<notin> area ((b, l) # rs)" "{b..<b + l} \<subseteq> area ((b, l) # rs)"
    using high by auto
qed

lemma coalesced_area_tl:
  assumes "coalesced ((b, l) # rs)"
  shows "area rs = area ((b, l) # rs) - {b..<b + l}"
proof -
  have "\<forall>x \<in> area rs. b + l < x"
    using assms by (fastforce simp: coalesced_Cons area_def before_fst)
  then show ?thesis by auto
qed

theorem coalesced_unique:
  "coalesced rs \<Longrightarrow> coalesced rs' \<Longrightarrow> area rs = area rs' \<Longrightarrow> rs = rs'"
proof (induction rs arbitrary: rs')
  case Nil
  then show ?case by (cases rs') (auto simp: coalesced_Cons)
next
  case (Cons r rs)
  obtain b l where r: "r = (b, l)" by (cases r)
  have "area rs' \<noteq> {}" using Cons.prems r by (auto simp: coalesced_Cons)
  then obtain r' ss where rs': "rs' = r' # ss" by (cases rs') auto
  obtain b' l' where r': "r' = (b', l')" by (cases r')
  note h = coalesced_hd_min [of b l rs] and h' = coalesced_hd_min [of b' l' ss]
  have b: "b = b'" using h(1) h'(1) Cons.prems r rs' r' by simp
  have l: "l = l'"
  proof (rule ccontr)
    assume "l \<noteq> l'"
    then consider "l < l'" | "l' < l" by linarith
    then show False
    proof cases
      case 1
      then have "b + l \<in> {b'..<b' + l'}" using b by auto
      then show False using h(2) h'(3) Cons.prems r rs' r' by blast
    next
      case 2
      then have "b' + l' \<in> {b..<b + l}" using b by auto
      then show False using h(3) h'(2) Cons.prems r rs' r' by blast
    qed
  qed
  have "area rs = area ss"
    using coalesced_area_tl [of b l rs] coalesced_area_tl [of b l ss] Cons.prems r r' rs' b l
    by metis
  with Cons r r' rs' b l show ?case by (simp add: coalesced_Cons)
qed

section \<open>A free block lies inside one region\<close>

lemma block_in_region:
  assumes "coalesced rs" "0 < n" "{b..<b + n} \<subseteq> area rs"
  shows "\<exists>r \<in> set rs. n \<le> snd r"
  using assms
proof (induction rs)
  case (Cons r rs)
  obtain c l where r: "r = (c, l)" by (cases r)
  have gap: "\<forall>x \<in> area rs. c + l < x"
    using Cons.prems(1) r by (fastforce simp: coalesced_Cons area_def)
  show ?case
  proof (cases "b \<in> cells r")
    case True
    have "c + l \<notin> {b..<b + n}" using Cons.prems(3) gap r by fastforce
    then show ?thesis using True r by auto
  next
    case False
    have "b \<in> {b..<b + n}" using Cons.prems(2) by simp
    then have "b \<in> area (r # rs)" using Cons.prems(3) by blast
    then have "b \<in> area rs" using False by simp
    then have "c + l < b" using gap by blast
    then have "{b..<b + n} \<inter> cells r = {}" using r by auto
    then have "{b..<b + n} \<subseteq> area rs" using Cons.prems(3) by auto
    with Cons show ?thesis by (auto simp: coalesced_Cons)
  qed
qed simp

lemma area_fits:
  assumes "coalesced rs" "0 < n" "{b..<b + n} \<inter> area rs = {}" "r \<in> set rs"
  shows "fits (b, n) r"
proof (rule disjoint_fits)
  show "nonempty r" using assms(1,4) by (simp add: coalesced_def)
  show "cells (b, n) \<inter> cells r = {}" using assms(3,4) by (auto simp: area_def)
qed (fact assms(2))

end
