(* ===== verification/HoleSim.thy ===== *)
theory HoleSim
  imports HoleRep Regions
begin

text \<open>
  The pointer code of the hole table simulates the list functions of \<^theory_text>\<open>Regions\<close>:
  \<open>merge\<close> is \<open>merge_l\<close> at the position of its argument, the hole branch of
  \<open>free_mem\<close> is \<open>free_l\<close>, the hole branch of \<open>alloc_mem\<close> is \<open>alloc_l\<close>. No traversal
  runs out of fuel and no access is out of range.
\<close>

lemma map_region_cong:
  "(\<And>i. i \<in> set xs \<Longrightarrow> region t i = region s i) \<Longrightarrow> map (region t) xs = map (region s) xs"
  by (rule map_cong) auto

lemma unat_eq_if_sum:
  fixes a b c :: u32
  assumes "unat a + unat b < 2 ^ 32"
  shows "a + b = c \<longleftrightarrow> unat a + unat b = unat c"
  using assms by (auto simp: word_eq_unat unat_plus_no_wrap)

section \<open>merge\<close>

lemma merge_step_last:
  assumes "hrep s (pre @ [hp]) fl"
  shows "merge_step s hp = Inr (s, None)"
  using hrep_nx_last [OF assms] hrep_bound [OF assms, of hp]
  by (simp add: merge_step_def)

lemma merge_step_gap:
  assumes rep: "hrep s (pre @ hp # np # post) fl"
    and r: "region s hp = (b, l)" "region s np = (b', l')"
    and "b + l < 2 ^ 32" "b + l \<noteq> b'"
  shows "merge_step s hp = Inr (s, Some np)"
  using hrep_nx [OF rep] hrep_bound [OF rep, of hp] hrep_bound [OF rep, of np] assms
  by (auto simp: merge_step_def region_def unat_eq_if_sum)

lemma merge_step_join:
  assumes rep: "hrep s (pre @ hp # np # post) fl"
    and r: "region s hp = (b, l)" "region s np = (b', l')"
    and w: "b' + l' < 2 ^ 32" and adj: "b + l = b'"
  shows "\<exists>s'. merge_step s hp = Inr (s', Some hp) \<and> hrep s' (pre @ hp # post) (np # fl) \<and>
    region s' hp = (b, l + l') \<and> (\<forall>i. i \<noteq> hp \<and> i \<noteq> np \<longrightarrow> region s' i = region s i) \<and>
    only_holes s s'"
proof -
  let ?t = "hole_tab s"
  have bd: "hp < length ?t" "np < length ?t" "hp \<noteq> np"
    using rep by (auto simp: hrep_def set_eq_iff)
  have nxt: "h_next (?t ! hp) = Some np" by (rule hrep_nx [OF rep])
  let ?s1 = "s\<lparr>hole_tab := ?t[hp := (?t ! hp)\<lparr>h_len := h_len (?t ! hp) + h_len (?t ! np)\<rparr>]\<rparr>"
  have same: "nx ?s1 = nx s"
    using bd by (auto simp: nx_def fun_eq_iff nth_list_update)
  have rep1: "hrep ?s1 ((pre @ [hp]) @ np # post) fl"
    using rep by (simp add: hrep_def same)
  obtain s' where s': "del_slot ?s1 (Some hp) np = Inr s'"
    "hrep s' ((pre @ [hp]) @ post) (np # fl)"
    "\<forall>i. i \<noteq> np \<longrightarrow> region s' i = region ?s1 i" "only_holes ?s1 s'"
    using del_slot_sim [OF rep1, of "Some hp"] by auto
  have adj': "h_base (?t ! hp) + h_len (?t ! hp) = h_base (?t ! np)"
    using r adj w by (simp add: region_def unat_eq_if_sum)
  have "merge_step s hp = Inr (s', Some hp)"
    using bd nxt adj' s'(1) by (simp add: merge_step_def)
  moreover have "region ?s1 hp = (b, l + l')"
    using r adj w bd by (simp add: region_def unat_plus_no_wrap)
  then have "region s' hp = (b, l + l')" using s'(3) bd by simp
  moreover have "\<forall>i. i \<noteq> hp \<and> i \<noteq> np \<longrightarrow> region s' i = region s i"
    using s'(3) bd by (simp add: region_def nth_list_update)
  moreover have "only_holes s s'"
    using s'(4) by (rule only_holes_trans [rotated]) simp
  ultimately show ?thesis using s'(2) by auto
qed

text \<open>The second round is \<open>merge1\<close>.\<close>

lemma merge_step_sim1:
  assumes rep: "hrep s (pre @ hp # post) fl"
    and w: "within (2 ^ 32) (map (region s) (hp # post))"
  shows "\<exists>s' q post' fl'. merge_step s hp = Inr (s', q) \<and> hrep s' (pre @ hp # post') fl' \<and>
    map (region s') (pre @ hp # post') = map (region s) pre @ merge1 (map (region s) (hp # post)) \<and>
    only_holes s s' \<and> length fl \<le> length fl'"
proof (cases post)
  case Nil
  then show ?thesis using rep merge_step_last [of s pre hp fl] by fastforce
next
  case (Cons np post1)
  obtain b l b' l' where r: "region s hp = (b, l)" "region s np = (b', l')" by fastforce
  show ?thesis
  proof (cases "b + l = b'")
    case True
    with rep Cons r w obtain s' where s': "merge_step s hp = Inr (s', Some hp)"
      "hrep s' (pre @ hp # post1) (np # fl)" "region s' hp = (b, l + l')"
      "\<forall>i. i \<noteq> hp \<and> i \<noteq> np \<longrightarrow> region s' i = region s i" "only_holes s s'"
      using merge_step_join [of s pre hp np post1 fl b l b' l'] by auto
    have "hp \<notin> set (pre @ post1)" "np \<notin> set (pre @ post1)"
      using rep Cons by (auto simp: hrep_def)
    then have "map (region s') pre = map (region s) pre" "map (region s') post1 = map (region s) post1"
      using s'(4) by (auto intro!: map_region_cong)
    with s' Cons r True show ?thesis by fastforce
  next
    case False
    with rep Cons r w have "merge_step s hp = Inr (s, Some np)"
      using merge_step_gap [of s pre hp np post1 fl b l b' l'] by simp
    with rep Cons r False show ?thesis by fastforce
  qed
qed

lemma merge_sim:
  assumes rep: "hrep s (pre @ hp # post) fl"
    and w: "within (2 ^ 32) (map (region s) (hp # post))"
  shows "\<exists>s' hl' fl'. merge s hp = Inr s' \<and> hrep s' hl' fl' \<and>
    map (region s') hl' = map (region s) pre @ merge_l (map (region s) (hp # post)) \<and>
    only_holes s s' \<and> length fl \<le> length fl'"
proof (cases post)
  case Nil
  then have "merge s hp = Inr s"
    using rep merge_step_last [of s pre hp fl] by (simp add: merge_def)
  with Nil rep show ?thesis by fastforce
next
  case (Cons np post1)
  obtain b l b' l' where r: "region s hp = (b, l)" "region s np = (b', l')" by fastforce
  show ?thesis
  proof (cases "b + l = b'")
    case True
    with rep Cons r w obtain s1 where s1: "merge_step s hp = Inr (s1, Some hp)"
      "hrep s1 (pre @ hp # post1) (np # fl)" "region s1 hp = (b, l + l')"
      "\<forall>i. i \<noteq> hp \<and> i \<noteq> np \<longrightarrow> region s1 i = region s i" "only_holes s s1"
      using merge_step_join [of s pre hp np post1 fl b l b' l'] by auto
    have "hp \<notin> set (pre @ post1)" "np \<notin> set (pre @ post1)"
      using rep Cons by (auto simp: hrep_def)
    then have m: "map (region s1) pre = map (region s) pre"
      "map (region s1) post1 = map (region s) post1"
      using s1(4) by (auto intro!: map_region_cong)
    have joined: "map (region s1) (hp # post1) = (b, l + l') # map (region s) post1"
      using m(2) s1(3) by simp
    have "within (2 ^ 32) ((b, l + l') # map (region s) post1)"
      using w Cons r True by simp
    then have "within (2 ^ 32) (map (region s1) (hp # post1))" by (simp only: joined)
    with merge_step_sim1 [OF s1(2)] obtain s' q post' fl' where s2:
      "merge_step s1 hp = Inr (s', q)" "hrep s' (pre @ hp # post') fl'"
      "map (region s') (pre @ hp # post') =
         map (region s1) pre @ merge1 (map (region s1) (hp # post1))"
      "only_holes s1 s'" "length (np # fl) \<le> length fl'"
      by blast
    have "merge s hp = Inr s'" using s1(1) s2(1) by (simp add: merge_def)
    moreover have "merge1 (map (region s1) (hp # post1)) = merge_l (map (region s) (hp # post))"
      unfolding joined using Cons r True by simp
    then have "map (region s') (pre @ hp # post') =
        map (region s) pre @ merge_l (map (region s) (hp # post))"
      using s2(3) m(1) by simp
    moreover have "only_holes s s'" using s1(5) s2(4) by (rule only_holes_trans)
    moreover have "length fl \<le> length fl'" using s2(5) by simp
    ultimately show ?thesis using s2(2) by blast
  next
    case False
    with rep Cons r w have m1: "merge_step s hp = Inr (s, Some np)"
      using merge_step_gap [of s pre hp np post1 fl b l b' l'] by simp
    have rep2: "hrep s ((pre @ [hp]) @ np # post1) fl" using rep Cons by simp
    from merge_step_sim1 [OF rep2] w Cons obtain s' q post' fl' where s2:
      "merge_step s np = Inr (s', q)" "hrep s' ((pre @ [hp]) @ np # post') fl'"
      "map (region s') ((pre @ [hp]) @ np # post') =
         map (region s) (pre @ [hp]) @ merge1 (map (region s) (np # post1))"
      "only_holes s s'" "length fl \<le> length fl'"
      by auto
    have "merge s hp = Inr s'" using m1 s2(1) by (simp add: merge_def)
    moreover have "map (region s) (pre @ [hp]) @ merge1 (map (region s) (np # post1)) =
        map (region s) pre @ merge_l (map (region s) (hp # post))"
      using Cons r False by simp
    then have "map (region s') ((pre @ [hp]) @ np # post') =
        map (region s) pre @ merge_l (map (region s) (hp # post))"
      using s2(3) by metis
    ultimately show ?thesis using s2(2,4,5) by blast
  qed
qed

section \<open>free\_mem\<close>

text \<open>The two outcomes of the search for the insertion point.\<close>

lemma find_place_sim:
  assumes "chain (nx s) p xs" "set xs \<subseteq> {..<length (hole_tab s)}" "length xs < fuel"
  shows "find_place fuel s base prev p =
    Inr (let ys = takeWhile (\<lambda>i. fst (region s i) < unat base) xs
         in if ys = [] then prev else Some (last ys))"
  using assms
proof (induction xs arbitrary: p prev fuel)
  case Nil
  then show ?case by (cases fuel) auto
next
  case (Cons i xs)
  then obtain k where k: "fuel = Suc k" by (cases fuel) auto
  from Cons.prems have i: "p = Some i" "i < length (hole_tab s)" "nx s i = h_next (hole_tab s ! i)"
    by (auto simp: nx_def)
  have "h_base (hole_tab s ! i) < base \<longleftrightarrow> fst (region s i) < unat base"
    by (simp add: region_def word_less_nat_alt)
  with Cons.IH [of "nx s i" k "Some i"] Cons.prems i k show ?case
    by (auto simp: Let_def)
qed

lemma takeWhile_region:
  "takeWhile (\<lambda>x. fst x < n) (map (region s) xs) =
     map (region s) (takeWhile (\<lambda>i. fst (region s i) < n) xs)"
  by (induction xs) auto

lemma dropWhile_region:
  "dropWhile (\<lambda>x. fst x < n) (map (region s) xs) =
     map (region s) (dropWhile (\<lambda>i. fst (region s i) < n) xs)"
  by (induction xs) auto

lemma hole_free_front:
  assumes rep: "hrep s hl (k # fl)"
    and first: "takeWhile (\<lambda>i. fst (region s i) < unat base) hl = []"
  shows "\<exists>t. hole_free base clicks s = merge t k \<and> hrep t (k # hl) fl \<and> only_holes s t \<and>
    region t k = (unat base, unat clicks) \<and> (\<forall>i. i \<noteq> k \<longrightarrow> region t i = region s i)"
proof -
  let ?t = "hole_tab s"
  let ?new = "(?t ! k)\<lparr>h_base := base, h_len := clicks\<rparr>"
  have k: "free_slots s = Some k" "k < length ?t" "k \<notin> set hl" "k \<notin> set fl"
    using rep hrep_free [OF rep] by (auto simp: hrep_def set_eq_iff)
  let ?u = "s\<lparr>hole_tab := ?t[k := ?new], free_slots := h_next (?t ! k)\<rparr>"
  let ?t' = "?u\<lparr>hole_tab := (hole_tab ?u)[k := ?new\<lparr>h_next := hole_head s\<rparr>], hole_head := Some k\<rparr>"
  have front: "(case hole_head s of None \<Rightarrow> Inr True
      | Some hp \<Rightarrow> bind_res (rd_hole ?u hp) (\<lambda>h. Inr (base \<le> h_base h))) = Inr True"
  proof (cases hl)
    case Nil
    then show ?thesis using hrep_head [OF rep] by simp
  next
    case (Cons h0 hl0)
    then have "hole_head s = Some h0" "h0 < length ?t" "h0 \<noteq> k"
      using rep k by (auto simp: hrep_def)
    moreover have "base \<le> h_base (?t ! h0)"
      using first Cons by (auto simp: region_def word_le_nat_alt split: if_splits)
    ultimately show ?thesis by simp
  qed
  have "hole_free base clicks s = merge ?t' k"
    using k front by (simp add: hole_free_def)
  moreover have "nx ?t' = (nx s)(k := hole_head s)"
    using k by (auto simp: nx_def fun_eq_iff nth_list_update)
  then have "hrep ?t' (k # hl) fl"
    using rep k by (auto simp: hrep_def nx_def)
  moreover have "region ?t' k = (unat base, unat clicks)"
    using k by (simp add: region_def)
  moreover have "\<forall>i. i \<noteq> k \<longrightarrow> region ?t' i = region s i"
    by (simp add: region_def)
  moreover have "only_holes s ?t'" by simp
  ultimately show ?thesis by blast
qed

lemma hole_free_inside:
  assumes rep: "hrep s (pre @ p # post) (k # fl)"
    and before: "takeWhile (\<lambda>i. fst (region s i) < unat base) (pre @ p # post) = pre @ [p]"
  shows "\<exists>t. hole_free base clicks s = merge t p \<and> hrep t (pre @ p # k # post) fl \<and>
    only_holes s t \<and> region t k = (unat base, unat clicks) \<and>
    (\<forall>i. i \<noteq> k \<longrightarrow> region t i = region s i)"
proof -
  let ?t = "hole_tab s"
  let ?new = "(?t ! k)\<lparr>h_base := base, h_len := clicks\<rparr>"
  have k: "free_slots s = Some k" "k < length ?t" "k \<notin> set (pre @ p # post)" "k \<notin> set fl"
    and p: "p < length ?t" "p \<noteq> k" "p \<notin> set pre" "p \<notin> set post" "p \<notin> set fl"
    using rep hrep_free [OF rep] by (auto simp: hrep_def set_eq_iff)
  let ?u = "s\<lparr>hole_tab := ?t[k := ?new], free_slots := h_next (?t ! k)\<rparr>"
  have nxu: "nx ?u = nx s" and regu: "\<forall>i. i \<noteq> k \<longrightarrow> region ?u i = region s i"
    using k by (auto simp: nx_def region_def fun_eq_iff nth_list_update)
  obtain h0 where h0: "hole_head s = Some h0" "h0 = hd (pre @ [p])"
    using hrep_head [OF rep] by (cases pre) auto
  have h0b: "h0 < length ?t" "h0 \<noteq> k"
    using rep k p h0 by (cases pre; auto simp: hrep_def set_eq_iff)+
  have "fst (region s h0) < unat base"
    using before h0 set_takeWhileD [of h0 _ "pre @ p # post"]
    by (metis (no_types, lifting) append_is_Nil_conv hd_in_set list.distinct(1))
  then have front: "bind_res (rd_hole ?u h0) (\<lambda>h. Inr (base \<le> h_base h)) = Inr False"
    using h0b by (simp add: region_def word_le_nat_alt)
  have ch: "chain (nx ?u) (hole_head s) (pre @ p # post)"
    using rep unfolding nxu by (simp only: hrep_def)
  have len: "length (pre @ p # post) < walk_fuel ?u"
    using hrep_len [OF rep] by (simp add: walk_fuel_def)
  have tw: "takeWhile (\<lambda>i. fst (region ?u i) < unat base) (pre @ p # post) = pre @ [p]"
    using before regu k by (metis (mono_tags, lifting) takeWhile_cong)
  have place: "find_place (walk_fuel ?u) ?u base None (hole_head s) = Inr (Some p)"
    using find_place_sim [OF ch _ len, of base None] rep tw
    by (auto simp: hrep_def)
  let ?v = "?u\<lparr>hole_tab := (hole_tab ?u)[k := ?new\<lparr>h_next := h_next (?t ! p)\<rparr>]\<rparr>"
  let ?w = "?v\<lparr>hole_tab := (hole_tab ?v)[p := (?t ! p)\<lparr>h_next := Some k\<rparr>]\<rparr>"
  have "hole_free base clicks s = merge ?w p"
    using k p h0 front place by (simp add: hole_free_def)
  moreover have nxw: "nx ?w = (nx s)(k := nx s p, p := Some k)"
    using k p by (auto simp: nx_def fun_eq_iff nth_list_update)
  have "chain (nx ?w) (hole_head s) (pre @ p # k # post)"
    using rep k p unfolding nxw by (auto simp: hrep_def chain_append)
  moreover have "chain (nx ?w) (h_next (?t ! k)) fl"
    using rep k p unfolding nxw by (auto simp: hrep_def nx_def)
  ultimately have "hole_free base clicks s = merge ?w p" "hrep ?w (pre @ p # k # post) fl"
    using rep by (auto simp: hrep_def)
  moreover have "region ?w k = (unat base, unat clicks)"
    using k p by (simp add: region_def)
  moreover have "\<forall>i. i \<noteq> k \<longrightarrow> region ?w i = region s i"
    using k p by (auto simp: region_def nth_list_update)
  moreover have "only_holes s ?w" by simp
  ultimately show ?thesis by blast
qed

lemma hole_free_sim:
  assumes rep: "hrep s hl (k # fl)"
    and w: "within (2 ^ 32) (map (region s) hl)" "unat base + unat clicks < 2 ^ 32"
  shows "\<exists>s' hl' fl'. hole_free base clicks s = Inr s' \<and> hrep s' hl' fl' \<and>
    map (region s') hl' = free_l (unat base, unat clicks) (map (region s) hl) \<and>
    only_holes s s' \<and> length fl \<le> length fl'"
proof -
  let ?r = "(unat base, unat clicks)"
  let ?low = "\<lambda>i. fst (region s i) < unat base"
  have k: "k \<notin> set hl" using rep by (auto simp: hrep_def)
  show ?thesis
  proof (cases "takeWhile ?low hl" rule: rev_cases)
    case Nil
    then obtain t where t: "hole_free base clicks s = merge t k" "hrep t (k # hl) fl"
      "only_holes s t" "region t k = ?r" "\<forall>i. i \<noteq> k \<longrightarrow> region t i = region s i"
      using hole_free_front [OF rep] by blast
    have m: "map (region t) (k # hl) = ?r # map (region s) hl"
      using t(4,5) k by (auto intro!: map_region_cong)
    have "hrep t ([] @ k # hl) fl" using t(2) by simp
    moreover have "within (2 ^ 32) (map (region t) (k # hl))"
      unfolding m using w by simp
    ultimately obtain s' hl' fl' where s': "merge t k = Inr s'" "hrep s' hl' fl'"
      "map (region s') hl' = map (region t) [] @ merge_l (map (region t) (k # hl))"
      "only_holes t s'" "length fl \<le> length fl'"
      using merge_sim by blast
    have "dropWhile ?low hl = hl" using Nil takeWhile_dropWhile_id [of ?low hl] by simp
    then have "free_l ?r (map (region s) hl) = merge_l (?r # map (region s) hl)"
      using Nil by (simp add: free_l_def takeWhile_region dropWhile_region del: merge_l.simps)
    then have "map (region s') hl' = free_l ?r (map (region s) hl)"
      using s'(3) unfolding m by simp
    then show ?thesis
      using s' t by (metis only_holes_trans)
  next
    case (snoc pre p)
    let ?post = "dropWhile ?low hl"
    have hl: "hl = pre @ p # ?post"
      using takeWhile_dropWhile_id [of ?low hl] snoc by simp
    then have rep': "hrep s (pre @ p # ?post) (k # fl)" using rep by simp
    obtain t where t: "hole_free base clicks s = merge t p" "hrep t (pre @ p # k # ?post) fl"
      "only_holes s t" "region t k = ?r" "\<forall>i. i \<noteq> k \<longrightarrow> region t i = region s i"
      using hole_free_inside [OF rep', of base clicks] snoc hl by auto
    have kk: "k \<notin> set pre" "k \<noteq> p" "k \<notin> set ?post" using k hl by (metis UnCI list.set_intros set_append)+
    have m: "map (region t) pre = map (region s) pre"
      "map (region t) (p # k # ?post) = region s p # ?r # map (region s) ?post"
      using t(4,5) kk by (auto intro!: map_region_cong)
    have wl: "within (2 ^ 32) (map (region s) (pre @ p # ?post))" using w(1) hl by simp
    have "within (2 ^ 32) (map (region t) (p # k # ?post))"
      unfolding m(2) using wl w(2) by simp
    with merge_sim [OF t(2)] obtain s' hl' fl' where s': "merge t p = Inr s'" "hrep s' hl' fl'"
      "map (region s') hl' = map (region t) pre @ merge_l (map (region t) (p # k # ?post))"
      "only_holes t s'" "length fl \<le> length fl'"
      by blast
    have "free_l ?r (map (region s) hl) =
        map (region s) pre @ merge_l (region s p # ?r # map (region s) ?post)"
      using snoc by (simp add: free_l_def takeWhile_region dropWhile_region map_butlast [symmetric]
          last_map del: merge_l.simps)
    then have "map (region s') hl' = free_l ?r (map (region s) hl)"
      using s'(3) unfolding m by simp
    then show ?thesis
      using s' t by (metis only_holes_trans)
  qed
qed

lemma hole_free_full: "hrep s hl [] \<Longrightarrow> hole_free base clicks s = Inl (Panic ''hole table full'')"
  by (simp add: hole_free_def hrep_free)

section \<open>alloc\_mem\<close>

lemma first_fit_sim:
  assumes "chain (nx s) p xs" "set xs \<subseteq> {..<length (hole_tab s)}" "length xs < fuel"
  shows "(\<forall>i \<in> set xs. snd (region s i) < unat clicks) \<and> first_fit fuel s clicks prev p = Inr None \<or>
    (\<exists>ys i zs. xs = ys @ i # zs \<and> (\<forall>j \<in> set ys. snd (region s j) < unat clicks) \<and>
       unat clicks \<le> snd (region s i) \<and>
       first_fit fuel s clicks prev p = Inr (Some (if ys = [] then prev else Some (last ys), i)))"
  using assms
proof (induction xs arbitrary: p prev fuel)
  case Nil
  then show ?case by (cases fuel) auto
next
  case (Cons i xs)
  then obtain k where k: "fuel = Suc k" by (cases fuel) auto
  from Cons.prems have i: "p = Some i" "i < length (hole_tab s)" "nx s i = h_next (hole_tab s ! i)"
    by (auto simp: nx_def)
  have big: "clicks \<le> h_len (hole_tab s ! i) \<longleftrightarrow> unat clicks \<le> snd (region s i)"
    by (simp add: region_def word_le_nat_alt)
  show ?case
  proof (cases "unat clicks \<le> snd (region s i)")
    case True
    then show ?thesis
      using i k big by (intro disjI2 exI [of _ "[]"] exI [of _ i] exI [of _ xs]) simp
  next
    case False
    then have step: "first_fit fuel s clicks prev p = first_fit k s clicks (Some i) (nx s i)"
      using i k big by simp
    have "chain (nx s) (nx s i) xs" "set xs \<subseteq> {..<length (hole_tab s)}" "length xs < k"
      using Cons.prems k by auto
    from Cons.IH [OF this, of "Some i"] consider
        (none) "first_fit k s clicks (Some i) (nx s i) = Inr None"
          "\<forall>j \<in> set xs. snd (region s j) < unat clicks"
      | (some) ys j zs where "xs = ys @ j # zs" "\<forall>j \<in> set ys. snd (region s j) < unat clicks"
          "unat clicks \<le> snd (region s j)"
          "first_fit k s clicks (Some i) (nx s i) =
             Inr (Some (if ys = [] then Some i else Some (last ys), j))"
      by blast
    then show ?thesis
    proof cases
      case none
      with False step show ?thesis by auto
    next
      case some
      with False step show ?thesis
        by (intro disjI2 exI [of _ "i # ys"] exI [of _ j] exI [of _ zs]) auto
    qed
  qed
qed

lemma alloc_l_at:
  "\<forall>r \<in> set rs. snd r < n \<Longrightarrow> n \<le> l \<Longrightarrow>
     alloc_l n (rs @ (b, l) # rs') = Some (b, rs @ (if l = n then rs' else (b + n, l - n) # rs'))"
  by (induction rs) auto

text \<open>
  The part of \<open>alloc_mem\<close> before the clearing step: either no hole is big enough and the
  table is untouched, or the first one that is has lost its first \<open>clicks\<close> clicks.
\<close>

lemma hole_alloc_none:
  assumes rep: "hrep s hl fl" and none: "alloc_l (unat clicks) (map (region s) hl) = None"
  shows "hole_alloc cfg clicks flags s = Inr (NO_MEM cfg, s)"
proof -
  have small: "\<forall>i \<in> set hl. snd (region s i) < unat clicks"
    using none by (simp add: alloc_l_None)
  have "chain (nx s) (hole_head s) hl" "set hl \<subseteq> {..<length (hole_tab s)}"
    "length hl < walk_fuel s"
    using rep hrep_len [OF rep] by (auto simp: hrep_def walk_fuel_def)
  from first_fit_sim [OF this, of clicks None] small
  have "first_fit (walk_fuel s) s clicks None (hole_head s) = Inr None" by fastforce
  then show ?thesis by (simp add: hole_alloc_def)
qed

lemma hole_alloc_sim:
  assumes rep: "hrep s hl fl" and wf: "within (2 ^ 32) (map (region s) hl)"
    and some: "alloc_l (unat clicks) (map (region s) hl) = Some (m, rs')"
  shows "\<exists>b s' hl' fl'. unat b = m \<and> hole_alloc cfg clicks flags s =
      bind_res (clear_block cfg flags (CLICK_SIZE cfg * b) (CLICK_SIZE cfg * clicks) s')
        (\<lambda>s3. Inr (b, s3)) \<and>
    hrep s' hl' fl' \<and> map (region s') hl' = rs' \<and> only_holes s s' \<and> length fl \<le> length fl'"
proof -
  let ?n = "unat clicks"
  have ch: "chain (nx s) (hole_head s) hl" "set hl \<subseteq> {..<length (hole_tab s)}"
    "length hl < walk_fuel s"
    using rep hrep_len [OF rep] by (auto simp: hrep_def walk_fuel_def)
  have "\<not> (\<forall>i \<in> set hl. snd (region s i) < ?n)"
    using some alloc_l_None [of ?n "map (region s) hl"] by auto
  with first_fit_sim [OF ch, of clicks None] obtain ys hp zs where split: "hl = ys @ hp # zs"
    "\<forall>j \<in> set ys. snd (region s j) < ?n" "?n \<le> snd (region s hp)"
    "first_fit (walk_fuel s) s clicks None (hole_head s) =
       Inr (Some (if ys = [] then None else Some (last ys), hp))"
    by blast
  let ?prev = "if ys = [] then None else Some (last ys)"
  let ?h = "hole_tab s ! hp"
  obtain b l where bl: "region s hp = (b, l)" by fastforce
  have h: "unat (h_base ?h) = b" "unat (h_len ?h) = l" "clicks \<le> h_len ?h" "?n \<le> l"
    using bl split(3) by (auto simp: region_def word_le_nat_alt)
  have hp: "hp < length (hole_tab s)" "hp \<notin> set ys" "hp \<notin> set zs" "hp \<notin> set fl"
    using rep split(1) by (auto simp: hrep_def set_eq_iff)
  have m: "m = b" and rs': "rs' = map (region s) ys @
      (if l = ?n then map (region s) zs else (b + ?n, l - ?n) # map (region s) zs)"
    using some split(1,2) h(4) bl
      alloc_l_at [of "map (region s) ys" ?n l b "map (region s) zs"] by auto
  let ?s1 = "s\<lparr>hole_tab := (hole_tab s)[hp := ?h\<lparr>h_base := h_base ?h + clicks,
      h_len := h_len ?h - clicks\<rparr>]\<rparr>"
  have nx1: "nx ?s1 = nx s" and reg1: "\<forall>i. i \<noteq> hp \<longrightarrow> region ?s1 i = region s i"
    using hp by (auto simp: nx_def region_def fun_eq_iff nth_list_update)
  have w: "b + l < 2 ^ 32" using wf split(1) bl by simp
  have regh: "region ?s1 hp = (b + ?n, l - ?n)"
    using hp h w by (simp add: region_def unat_plus_no_wrap unat_minus_le)
  have maps: "map (region ?s1) ys = map (region s) ys" "map (region ?s1) zs = map (region s) zs"
    using reg1 hp by (auto intro!: map_region_cong)
  have rep1: "hrep ?s1 (ys @ hp # zs) fl"
    using rep split(1) unfolding hrep_def nx1 by simp
  have zero: "h_len ?h - clicks = 0 \<longleftrightarrow> l = ?n"
    using h by (metis eq_iff_diff_eq_0 word_eq_unat)
  have run: "hole_alloc cfg clicks flags s =
      bind_res (if l = ?n then del_slot ?s1 ?prev hp else Inr ?s1) (\<lambda>s2.
      bind_res (clear_block cfg flags (CLICK_SIZE cfg * h_base ?h) (CLICK_SIZE cfg * clicks) s2)
        (\<lambda>s3. Inr (h_base ?h, s3)))"
    using split(4) hp zero by (simp add: hole_alloc_def Let_def)
  show ?thesis
  proof (cases "l = ?n")
    case True
    obtain s' where s': "del_slot ?s1 ?prev hp = Inr s'" "hrep s' (ys @ zs) (hp # fl)"
      "\<forall>i. i \<noteq> hp \<longrightarrow> region s' i = region ?s1 i" "only_holes ?s1 s'"
      using del_slot_sim [OF rep1, of ?prev] by auto
    have "map (region s') ys = map (region s) ys" "map (region s') zs = map (region s) zs"
      using s'(3) reg1 hp by (auto intro!: map_region_cong)
    then have "map (region s') (ys @ zs) = rs'" using rs' True by simp
    moreover have "only_holes s s'" using s'(4) by (rule only_holes_trans [rotated]) simp
    ultimately show ?thesis
      using run True s'(1,2) h(1) m
      by (intro exI [of _ "h_base ?h"] exI [of _ s'] exI [of _ "ys @ zs"] exI [of _ "hp # fl"]) simp
  next
    case False
    have "map (region ?s1) (ys @ hp # zs) = rs'"
      using rs' False maps regh by simp
    moreover have "only_holes s ?s1" by simp
    ultimately show ?thesis
      using run False rep1 h(1) m
      by (intro exI [of _ "h_base ?h"] exI [of _ ?s1] exI [of _ "ys @ hp # zs"] exI [of _ fl]) simp
  qed
qed

end
