(* ===== verification/HoleInv.thy ===== *)
theory HoleInv
  imports HoleSim
begin

text \<open>
  The invariant of the hole table as a computable predicate on the state, and the hole
  branches of \<open>alloc_mem\<close> and \<open>free_mem\<close> restated over it. \<open>hole_list\<close> and \<open>slot_list\<close>
  are the two lists threaded through the table; \<open>hole_regions\<close> and \<open>hole_area\<close> are the
  free memory they stand for.
\<close>

fun walk :: "nat \<Rightarrow> ('a \<Rightarrow> 'a option) \<Rightarrow> 'a option \<Rightarrow> 'a list" where
  "walk 0 nxt p = []"
| "walk (Suc k) nxt None = []"
| "walk (Suc k) nxt (Some i) = i # walk k nxt (nxt i)"

lemma walk_chain: "chain nxt p xs \<Longrightarrow> length xs \<le> k \<Longrightarrow> walk k nxt p = xs"
proof (induction xs arbitrary: p k)
  case Nil
  then show ?case by (cases k) auto
next
  case (Cons x xs)
  then show ?case by (cases k) auto
qed

definition hole_list :: "'a holes_scheme \<Rightarrow> nat list" where
  "hole_list s = walk (length (hole_tab s)) (nx s) (hole_head s)"

definition slot_list :: "'a holes_scheme \<Rightarrow> nat list" where
  "slot_list s = walk (length (hole_tab s)) (nx s) (free_slots s)"

definition hole_regions :: "'a holes_scheme \<Rightarrow> region list" where
  "hole_regions s = map (region s) (hole_list s)"

definition hole_area :: "'a holes_scheme \<Rightarrow> nat set" where
  "hole_area s = area (hole_regions s)"

definition table_ok :: "'a holes_scheme \<Rightarrow> bool" where
  "table_ok s \<longleftrightarrow> hrep s (hole_list s) (slot_list s)"

definition hole_inv :: "'a holes_scheme \<Rightarrow> bool" where
  "hole_inv s \<longleftrightarrow> table_ok s \<and> coalesced (hole_regions s) \<and> within (2 ^ 32) (hole_regions s)"

lemma hrep_lists:
  assumes "hrep s hl fl"
  shows "hole_list s = hl" "slot_list s = fl" "hole_regions s = map (region s) hl" "table_ok s"
proof -
  have l: "length hl \<le> length (hole_tab s)" "length fl \<le> length (hole_tab s)"
    using hrep_len [OF assms] by simp_all
  show hl: "hole_list s = hl" and fl: "slot_list s = fl"
    using assms l by (auto simp: hole_list_def slot_list_def hrep_def intro!: walk_chain)
  show "hole_regions s = map (region s) hl" by (simp add: hole_regions_def hl)
  show "table_ok s" using assms by (simp add: table_ok_def hl fl)
qed

lemma table_ok_iff: "table_ok s \<longleftrightarrow> (\<exists>hl fl. hrep s hl fl)"
  using hrep_lists(4) by (auto simp: table_ok_def)

lemma hole_invD:
  assumes "hole_inv s"
  shows "hrep s (hole_list s) (slot_list s)" "coalesced (hole_regions s)"
    "within (2 ^ 32) (hole_regions s)"
  using assms by (simp_all add: hole_inv_def table_ok_def)

lemma slot_list_Nil: "table_ok s \<Longrightarrow> slot_list s = [] \<longleftrightarrow> free_slots s = None"
  by (cases "slot_list s") (auto simp: table_ok_def hrep_def)

lemma table_full: "table_ok s \<Longrightarrow> free_slots s = None \<longleftrightarrow> length (hole_list s) = length (hole_tab s)"
  using slot_list_Nil [of s] hrep_len [of s] by (fastforce simp: table_ok_def)

lemma hole_inv_eq:
  assumes "hole_tab s' = hole_tab s" "hole_head s' = hole_head s" "free_slots s' = free_slots s"
  shows "hole_inv s' = hole_inv s" "hole_regions s' = hole_regions s" "slot_list s' = slot_list s"
    "hole_list s' = hole_list s"
proof -
  have n: "nx s' = nx s" "region s' = region s"
    using assms by (auto simp: nx_def region_def fun_eq_iff)
  show l: "hole_list s' = hole_list s" "slot_list s' = slot_list s"
    using assms n by (simp_all add: hole_list_def slot_list_def)
  show r: "hole_regions s' = hole_regions s"
    using l n by (simp add: hole_regions_def)
  show "hole_inv s' = hole_inv s"
    using assms n l r by (simp add: hole_inv_def table_ok_def hrep_def)
qed

lemma hole_inv_memsets [simp]:
  "hole_inv (s\<lparr>memsets := m\<rparr>) = hole_inv s"
  "hole_regions (s\<lparr>memsets := m\<rparr>) = hole_regions s"
  "slot_list (s\<lparr>memsets := m\<rparr>) = slot_list s"
  by (rule hole_inv_eq; simp)+

section \<open>The two operations on the invariant\<close>

lemma hole_free_inv:
  assumes inv: "hole_inv s" and slot: "free_slots s \<noteq> None" and n: "0 < unat clicks"
    and w: "unat base + unat clicks < 2 ^ 32"
    and fit: "\<forall>r \<in> set (hole_regions s). fits (unat base, unat clicks) r"
  shows "\<exists>s'. hole_free base clicks s = Inr s' \<and> hole_inv s' \<and>
    hole_regions s' = free_l (unat base, unat clicks) (hole_regions s) \<and>
    only_holes s s' \<and> length (slot_list s) \<le> Suc (length (slot_list s'))"
proof -
  note D = hole_invD [OF inv]
  obtain k fl where fl: "slot_list s = k # fl"
    using slot slot_list_Nil [of s] inv by (cases "slot_list s") (auto simp: hole_inv_def)
  obtain s' hl' fl' where s': "hole_free base clicks s = Inr s'" "hrep s' hl' fl'"
    "map (region s') hl' = free_l (unat base, unat clicks) (hole_regions s)"
    "only_holes s s'" "length fl \<le> length fl'"
    using hole_free_sim [OF D(1) [unfolded fl] D(3) [unfolded hole_regions_def] w]
    unfolding hole_regions_def by blast
  note L = hrep_lists [OF s'(2)]
  have "hole_inv s'"
    unfolding hole_inv_def L(3) s'(3)
    using free_l_coalesced [OF D(2) n fit] free_l_within [OF D(3), of "(unat base, unat clicks)"] w L(4)
    by simp
  then show ?thesis using s' L fl by (intro exI [of _ s']) simp
qed

lemma hole_alloc_inv:
  assumes inv: "hole_inv s" and n: "0 < unat clicks"
    and some: "alloc_l (unat clicks) (hole_regions s) = Some (m, rs')"
  shows "\<exists>b s'. unat b = m \<and> hole_alloc cfg clicks flags s =
      bind_res (clear_block cfg flags (CLICK_SIZE cfg * b) (CLICK_SIZE cfg * clicks) s')
        (\<lambda>s3. Inr (b, s3)) \<and>
    hole_inv s' \<and> hole_regions s' = rs' \<and> only_holes s s' \<and>
    length (slot_list s) \<le> length (slot_list s')"
proof -
  note D = hole_invD [OF inv]
  obtain b s' hl' fl' where s': "unat b = m" "hole_alloc cfg clicks flags s =
      bind_res (clear_block cfg flags (CLICK_SIZE cfg * b) (CLICK_SIZE cfg * clicks) s')
        (\<lambda>s3. Inr (b, s3))"
    "hrep s' hl' fl'" "map (region s') hl' = rs'" "only_holes s s'" "length (slot_list s) \<le> length fl'"
    using hole_alloc_sim [OF D(1) D(3) [unfolded hole_regions_def] some [unfolded hole_regions_def]]
    by blast
  note L = hrep_lists [OF s'(3)]
  have "hole_inv s'"
    unfolding hole_inv_def L(3) s'(4)
    using alloc_l_coalesced [OF some D(2)] alloc_l_within [OF some D(3)] L(4) n by simp
  then show ?thesis using s' L by (intro exI [of _ b] exI [of _ s']) simp
qed

end
