(* ===== verification/Sanity.thy ===== *)
theory Sanity
  imports HoleInv
begin

text \<open>
  What \<open>holes_sanity_f\<close> decides. The check marks the slots it meets on the two lists;
  the lemmas below characterise a marking pass exactly (it returns if and only if the list
  is a chain of slots not marked before), and the theorem turns the whole routine into a
  property of the table.
\<close>

definition unmarked :: "hole \<Rightarrow> bool" where
  "unmarked h \<longleftrightarrow> freelist h = 0 \<and> holelist h = 0"

definition mark_all :: "(hole \<Rightarrow> hole) \<Rightarrow> nat list \<Rightarrow> 'a holes_scheme \<Rightarrow> 'a holes_scheme" where
  "mark_all mark xs s = fold (\<lambda>i t. t\<lparr>hole_tab := (hole_tab t)[i := mark (hole_tab t ! i)]\<rparr>) xs s"

text \<open>A mark leaves the hole itself alone and makes a slot count as marked.\<close>

definition mark_fun :: "(hole \<Rightarrow> hole) \<Rightarrow> bool" where
  "mark_fun mark \<longleftrightarrow> (\<forall>h. h_next (mark h) = h_next h \<and> h_base (mark h) = h_base h \<and>
     h_len (mark h) = h_len h \<and> \<not> unmarked (mark h))"

lemma mark_all_simps [simp]:
  "mark_all mark [] s = s"
  "mark_all mark (i # xs) s =
     mark_all mark xs (s\<lparr>hole_tab := (hole_tab s)[i := mark (hole_tab s ! i)]\<rparr>)"
  by (simp_all add: mark_all_def)

lemma mark_all_len [simp]: "length (hole_tab (mark_all mark xs s)) = length (hole_tab s)"
  by (induction xs arbitrary: s) auto

lemma mark_all_heads [simp]:
  "hole_head (mark_all mark xs s) = hole_head s" "free_slots (mark_all mark xs s) = free_slots s"
  by (induction xs arbitrary: s) auto

lemma mark_all_nth:
  "distinct xs \<Longrightarrow> j < length (hole_tab s) \<Longrightarrow>
     hole_tab (mark_all mark xs s) ! j = (if j \<in> set xs then mark (hole_tab s ! j) else hole_tab s ! j)"
  by (induction xs arbitrary: s) (auto simp: nth_upd)

lemma mark_all_nx [simp]: "mark_fun mark \<Longrightarrow> nx (mark_all mark xs s) = nx s"
proof (induction xs arbitrary: s)
  case (Cons i xs)
  then have "nx (s\<lparr>hole_tab := (hole_tab s)[i := mark (hole_tab s ! i)]\<rparr>) = nx s"
    by (auto simp: nx_def mark_fun_def fun_eq_iff nth_upd)
  with Cons show ?case by simp
qed simp

lemma mark_all_region [simp]: "mark_fun mark \<Longrightarrow> region (mark_all mark xs s) = region s"
proof (induction xs arbitrary: s)
  case (Cons i xs)
  then have "region (s\<lparr>hole_tab := (hole_tab s)[i := mark (hole_tab s ! i)]\<rparr>) = region s"
    by (auto simp: region_def mark_fun_def fun_eq_iff nth_upd)
  with Cons show ?case by simp
qed simp

text \<open>
  One marking pass, exactly: the walk meets unmarked slots only, each once, at most as many
  as the counter allows.
\<close>

definition markable :: "'a holes_scheme \<Rightarrow> nat option \<Rightarrow> nat list \<Rightarrow> bool" where
  "markable s p xs \<longleftrightarrow> chain (nx s) p xs \<and> set xs \<subseteq> {..<length (hole_tab s)} \<and>
     (\<forall>i \<in> set xs. unmarked (hole_tab s ! i))"

lemma markable_Cons:
  assumes "mark_fun mark" "i < length (hole_tab s)"
  defines "s1 \<equiv> s\<lparr>hole_tab := (hole_tab s)[i := mark (hole_tab s ! i)]\<rparr>"
  shows "markable s (Some i) (i # xs) \<longleftrightarrow> unmarked (hole_tab s ! i) \<and> markable s1 (nx s i) xs"
proof -
  have n: "nx s1 = nx s"
    using assms(1) by (auto simp: s1_def nx_def mark_fun_def fun_eq_iff nth_upd)
  have "\<not> unmarked (hole_tab s1 ! i)" using assms by (simp add: mark_fun_def)
  moreover have "\<forall>j. j \<noteq> i \<longrightarrow> hole_tab s1 ! j = hole_tab s ! j" by (simp add: s1_def)
  moreover have "length (hole_tab s1) = length (hole_tab s)" by (simp add: s1_def)
  moreover have "chain (nx s) (Some i) (i # xs) \<Longrightarrow> i \<notin> set xs" by (drule chain_distinct) simp
  ultimately show ?thesis
    using assms(2) unfolding markable_def n by (simp add: subset_iff) metis
qed

lemma mark_list_iff:
  assumes mark: "mark_fun mark"
  shows "mark_list mark s p c n = Inr (s', n') \<longleftrightarrow>
    (\<exists>xs. markable s p xs \<and> (xs \<noteq> [] \<longrightarrow> c + length xs \<le> length (hole_tab s)) \<and>
       s' = mark_all mark xs s \<and> n' = n + length xs)"
  using mark
proof (induction mark s p c n rule: mark_list.induct)
  case (1 mark s hp c n)
  show ?case
  proof (cases hp)
    case None
    then show ?thesis by (auto simp: mark_list.simps [of _ _ None] markable_def)
  next
    case (Some i)
    show ?thesis
    proof (cases "i < length (hole_tab s) \<and> unmarked (hole_tab s ! i) \<and> c < length (hole_tab s)")
      case False
      then have "mark_list mark s hp c n \<noteq> Inr (s', n')"
        using Some by (auto simp: mark_list.simps [of _ _ "Some i"] rd_hole_def bind_res_eq_Inr unmarked_def)
      moreover have "\<not> (markable s (Some i) xs \<and> (xs \<noteq> [] \<longrightarrow> c + length xs \<le> length (hole_tab s)))" for xs
        using False by (cases xs) (auto simp: markable_def)
      ultimately show ?thesis using Some by blast
    next
      case True
      let ?s1 = "s\<lparr>hole_tab := (hole_tab s)[i := mark (hole_tab s ! i)]\<rparr>"
      have run: "mark_list mark s hp c n = mark_list mark ?s1 (nx s i) (Suc c) (Suc n)"
        using True Some by (simp add: mark_list.simps [of _ _ "Some i"] unmarked_def nx_def)
      have ih: "mark_list mark ?s1 (nx s i) (Suc c) (Suc n) = Inr (s', n') \<longleftrightarrow>
        (\<exists>xs. markable ?s1 (nx s i) xs \<and> (xs \<noteq> [] \<longrightarrow> Suc c + length xs \<le> length (hole_tab ?s1)) \<and>
          s' = mark_all mark xs ?s1 \<and> n' = Suc n + length xs)"
        using 1 True Some by (simp add: unmarked_def nx_def)
      have "(\<exists>xs. markable s hp xs \<and> (xs \<noteq> [] \<longrightarrow> c + length xs \<le> length (hole_tab s)) \<and>
          s' = mark_all mark xs s \<and> n' = n + length xs) \<longleftrightarrow>
        (\<exists>xs. markable s (Some i) (i # xs) \<and> c + length (i # xs) \<le> length (hole_tab s) \<and>
          s' = mark_all mark (i # xs) s \<and> n' = n + length (i # xs))"
        unfolding Some
        by (metis (no_types, lifting) chain_Some_iff list.distinct(1) markable_def)
      also have "\<dots> \<longleftrightarrow> (\<exists>xs. markable ?s1 (nx s i) xs \<and>
          (xs \<noteq> [] \<longrightarrow> Suc c + length xs \<le> length (hole_tab ?s1)) \<and>
          s' = mark_all mark xs ?s1 \<and> n' = Suc n + length xs)"
        using True by (intro ex_cong1) (auto simp: markable_Cons [OF "1.prems"])
      finally show ?thesis using run ih by simp
    qed
  qed
qed


text \<open>The pass over neighbouring holes.\<close>

definition gap_after :: "'a holes_scheme \<Rightarrow> nat \<Rightarrow> nat \<Rightarrow> bool" where
  "gap_after s i j \<longleftrightarrow>
     h_base (hole_tab s ! i) + h_len (hole_tab s ! i) < h_base (hole_tab s ! j)"

lemma check_gaps_iff:
  assumes "chain (nx s) p xs" "set xs \<subseteq> {..<length (hole_tab s)}" "length xs < k"
    and "\<forall>i \<in> set xs. holelist (hole_tab s ! i) \<noteq> 0"
  shows "(\<exists>s'. check_gaps k s p = Inr s') \<longleftrightarrow> successively (gap_after s) xs"
  using assms
proof (induction xs arbitrary: k s p)
  case Nil
  then show ?case by (cases k) auto
next
  case (Cons i xs)
  then obtain k' where k: "k = Suc k'" by (cases k) auto
  from Cons.prems have i: "p = Some i" "i < length (hole_tab s)" "h_next (hole_tab s ! i) = nx s i"
    by (auto simp: nx_def)
  show ?case
  proof (cases xs)
    case Nil
    then have "nx s i = None" using Cons.prems by simp
    with Nil k i show ?thesis by simp
  next
    case (Cons j ys)
    then have j: "nx s i = Some j" "j < length (hole_tab s)" "i \<noteq> j"
      using Cons.prems chain_distinct [OF Cons.prems(1)] by auto
    let ?s1 = "s\<lparr>hole_tab := (hole_tab s)[i := (hole_tab s ! i)\<lparr>holelist := 1\<rparr>]\<rparr>"
    have n1: "nx ?s1 = nx s" by (auto simp: nx_def fun_eq_iff nth_upd)
    have g1: "gap_after ?s1 = gap_after s" by (auto simp: gap_after_def fun_eq_iff nth_upd)
    have ih: "(\<exists>s'. check_gaps k' ?s1 (Some j) = Inr s') \<longleftrightarrow> successively (gap_after s) xs"
      unfolding g1 [symmetric]
      by (rule Cons.IH) (use Cons.prems Cons k j n1 in \<open>auto simp: nth_upd\<close>)
    show ?thesis
    proof (cases "gap_after s i j")
      case True
      then have le: "h_base (hole_tab s ! i) + h_len (hole_tab s ! i) < h_base (hole_tab s ! j)"
        by (simp add: gap_after_def)
      then have "check_gaps k s p = check_gaps k' ?s1 (Some j)"
        using i j k Cons.prems by (simp add: nth_upd less_imp_le)
      then show ?thesis using ih True Cons by simp
    next
      case False
      then have "\<not> h_base (hole_tab s ! i) + h_len (hole_tab s ! i) < h_base (hole_tab s ! j)"
        by (simp add: gap_after_def)
      then have "check_gaps k s p \<noteq> Inr s'" for s'
        using i j k by (simp add: nth_upd bind_res_eq_Inr)
      then show ?thesis using False Cons by simp
    qed
  qed
qed

lemma mark_funs [simp]:
  "mark_fun (\<lambda>h. h\<lparr>freelist := 1\<rparr>)" "mark_fun (\<lambda>h. h\<lparr>holelist := 1\<rparr>)"
  by (simp_all add: mark_fun_def unmarked_def)

definition reset_flags :: "'a holes_scheme \<Rightarrow> 'a holes_scheme" where
  "reset_flags s = s\<lparr>hole_tab := map (\<lambda>h. h\<lparr>freelist := 0, holelist := 0\<rparr>) (hole_tab s)\<rparr>"

lemma reset_flags_simps [simp]:
  "nx (reset_flags s) = nx s" "length (hole_tab (reset_flags s)) = length (hole_tab s)"
  "hole_head (reset_flags s) = hole_head s" "free_slots (reset_flags s) = free_slots s"
  "i < length (hole_tab s) \<Longrightarrow> unmarked (hole_tab (reset_flags s) ! i)"
  by (auto simp: reset_flags_def nx_def unmarked_def fun_eq_iff)

lemma markable_reset:
  "markable (reset_flags s) p xs \<longleftrightarrow> chain (nx s) p xs \<and> set xs \<subseteq> {..<length (hole_tab s)}"
  by (auto simp: markable_def)

lemma markable_second:
  assumes "distinct fl"
  shows "markable (mark_all (\<lambda>h. h\<lparr>freelist := 1\<rparr>) fl (reset_flags s)) p xs \<longleftrightarrow>
    chain (nx s) p xs \<and> set xs \<subseteq> {..<length (hole_tab s)} \<and> set xs \<inter> set fl = {}"
proof -
  have "unmarked (hole_tab (mark_all (\<lambda>h. h\<lparr>freelist := 1\<rparr>) fl (reset_flags s)) ! i) \<longleftrightarrow> i \<notin> set fl"
    if "i < length (hole_tab s)" for i
    using that assms by (auto simp: mark_all_nth unmarked_def [of "_\<lparr>freelist := 1\<rparr>"])
  then show ?thesis by (auto simp: markable_def subset_iff)
qed

abbreviation marked_table :: "nat list \<Rightarrow> nat list \<Rightarrow> 'a holes_scheme \<Rightarrow> 'a holes_scheme" where
  "marked_table fl hl s \<equiv>
     mark_all (\<lambda>h. h\<lparr>holelist := 1\<rparr>) hl (mark_all (\<lambda>h. h\<lparr>freelist := 1\<rparr>) fl (reset_flags s))"

lemma marked_table_nth:
  assumes "distinct fl" "distinct hl" "i < length (hole_tab s)"
  shows "holelist (hole_tab (marked_table fl hl s) ! i) = (if i \<in> set hl then 1 else 0)"
    and "freelist (hole_tab (marked_table fl hl s) ! i) = (if i \<in> set fl then 1 else 0)"
  using assms by (auto simp: mark_all_nth) (auto simp: reset_flags_def)

lemma marked_table_gap:
  assumes "set hl \<subseteq> {..<length (hole_tab s)}" "distinct fl" "distinct hl"
  shows "successively (gap_after (marked_table fl hl s)) hl = successively (gap_after s) hl"
proof (rule successively_cong)
  fix i j assume "i \<in> set hl" "j \<in> set hl"
  then show "gap_after (marked_table fl hl s) i j = gap_after s i j"
    using assms by (auto simp: gap_after_def mark_all_nth subset_iff reset_flags_def)
qed simp

lemma sanity_run:
  assumes fl: "chain (nx s) (free_slots s) fl" "set fl \<subseteq> {..<length (hole_tab s)}"
    and hl: "chain (nx s) (hole_head s) hl" "set hl \<subseteq> {..<length (hole_tab s)}"
    and disj: "set hl \<inter> set fl = {}" and len: "length hl + length fl = length (hole_tab s)"
  shows "(\<exists>s'. holes_sanity_f s = Inr s') \<longleftrightarrow> successively (gap_after s) hl"
proof -
  let ?s1 = "mark_all (\<lambda>h. h\<lparr>freelist := 1\<rparr>) fl (reset_flags s)"
  let ?s2 = "marked_table fl hl s"
  have d: "distinct fl" "distinct hl" using fl(1) hl(1) by (auto dest: chain_distinct)
  have m1: "mark_list (\<lambda>h. h\<lparr>freelist := 1\<rparr>) (reset_flags s) (free_slots s) 0 0 = Inr (?s1, length fl)"
    using fl len by (subst mark_list_iff) (auto simp: markable_reset intro!: exI [of _ fl])
  have m2: "mark_list (\<lambda>h. h\<lparr>holelist := 1\<rparr>) ?s1 (hole_head s) 0 (length fl) =
      Inr (?s2, length fl + length hl)"
    using hl d disj len by (subst mark_list_iff) (auto simp: markable_second intro!: exI [of _ hl])
  have "card (set hl \<union> set fl) = card {..<length (hole_tab s)}"
    using d disj len by (simp add: card_Un_disjoint distinct_card)
  then have all: "set hl \<union> set fl = {..<length (hole_tab s)}"
    using fl(2) hl(2) by (intro card_subset_eq) auto
  have marked: "slots_marked (hole_tab ?s2)"
  proof -
    have one: "(i \<in> set hl) \<noteq> (i \<in> set fl)" if "i < length (hole_tab s)" for i
      using that all disj by auto
    show ?thesis
      unfolding slots_marked_def
    proof
      fix h assume "h \<in> set (hole_tab ?s2)"
      then obtain i where i: "i < length (hole_tab s)" "h = hole_tab ?s2 ! i"
        by (metis in_set_conv_nth mark_all_len reset_flags_simps(2))
      show "(holelist h \<noteq> 0 \<or> freelist h \<noteq> 0) \<and> \<not> (holelist h \<noteq> 0 \<and> freelist h \<noteq> 0)"
        using one [OF i(1)] marked_table_nth [OF d i(1)] unfolding i(2) by (simp split: if_splits)
    qed
  qed
  have "holes_sanity_f s = check_gaps (walk_fuel ?s2) ?s2 (hole_head s)"
    using m1 m2 len marked
    by (simp add: holes_sanity_f_def Let_def reset_flags_def [symmetric] add.commute)
  moreover have "(\<exists>s'. check_gaps (walk_fuel ?s2) ?s2 (hole_head s) = Inr s') \<longleftrightarrow>
      successively (gap_after ?s2) hl"
  proof (rule check_gaps_iff)
    show "\<forall>i \<in> set hl. holelist (hole_tab ?s2 ! i) \<noteq> 0"
    proof
      fix i assume "i \<in> set hl"
      then have "i < length (hole_tab s)" using hl(2) by auto
      from marked_table_nth(1) [OF d this] \<open>i \<in> set hl\<close>
      show "holelist (hole_tab ?s2 ! i) \<noteq> 0" by simp
    qed
  qed (use hl len in \<open>simp_all add: walk_fuel_def\<close>)
  ultimately show ?thesis using marked_table_gap [OF hl(2) d] by simp
qed

lemma sanity_lists:
  assumes "holes_sanity_f s = Inr s'"
  shows "\<exists>hl fl. hrep s hl fl"
proof -
  from assms obtain s1 n1 s2 n2 where
    m1: "mark_list (\<lambda>h. h\<lparr>freelist := 1\<rparr>) (reset_flags s) (free_slots s) 0 0 = Inr (s1, n1)" and
    m2: "mark_list (\<lambda>h. h\<lparr>holelist := 1\<rparr>) s1 (hole_head s1) 0 n1 = Inr (s2, n2)" and
    n2: "n2 = length (hole_tab s2)"
    by (auto simp: holes_sanity_f_def Let_def reset_flags_def [symmetric] bind_res_eq_Inr)
  from m1 obtain fl where fl: "chain (nx s) (free_slots s) fl" "set fl \<subseteq> {..<length (hole_tab s)}"
    "s1 = mark_all (\<lambda>h. h\<lparr>freelist := 1\<rparr>) fl (reset_flags s)" "n1 = length fl"
    by (subst (asm) mark_list_iff) (auto simp: markable_reset)
  have dfl: "distinct fl" using fl(1) by (rule chain_distinct)
  from m2 obtain hl where hl: "markable s1 (hole_head s1) hl" "s2 = mark_all (\<lambda>h. h\<lparr>holelist := 1\<rparr>) hl s1"
    "n2 = n1 + length hl"
    by (subst (asm) mark_list_iff) auto
  then have h: "chain (nx s) (hole_head s) hl" "set hl \<subseteq> {..<length (hole_tab s)}"
    "set hl \<inter> set fl = {}" and len: "length fl + length hl = length (hole_tab s)"
    using n2 fl(3,4) by (auto simp: markable_second [OF dfl])
  have dhl: "distinct hl" using h(1) by (rule chain_distinct)
  have "card (set hl \<union> set fl) = card {..<length (hole_tab s)}"
    using dfl dhl h(3) len by (simp add: card_Un_disjoint distinct_card)
  then have "set hl \<union> set fl = {..<length (hole_tab s)}"
    using fl(2) h(2) by (intro card_subset_eq) auto
  then have "hrep s hl fl" using h fl(1) dfl dhl by (simp add: hrep_def)
  then show ?thesis by blast
qed

lemma sanity_decides:
  "(\<exists>s'. holes_sanity_f s = Inr s') \<longleftrightarrow> table_ok s \<and> successively (gap_after s) (hole_list s)"
proof (cases "table_ok s")
  case True
  then have rep: "hrep s (hole_list s) (slot_list s)" by (simp add: table_ok_def)
  then show ?thesis
    using True sanity_run [of s "slot_list s" "hole_list s"] hrep_len [OF rep]
    by (auto simp: hrep_def)
next
  case False
  then show ?thesis using sanity_lists table_ok_iff by blast
qed

text \<open>The invariant implies the check.\<close>

lemma region_gap:
  assumes "before (region s i) (region s j)" "fst (region s i) + snd (region s i) < 2 ^ 32"
  shows "gap_after s i j"
  using assms by (simp add: region_def gap_after_def word_less_nat_alt unat_plus_no_wrap)

lemma hole_inv_gaps:
  assumes "hole_inv s"
  shows "successively (gap_after s) (hole_list s)"
proof -
  have "successively (gap_after s) xs"
    if "coalesced (map (region s) xs)" "within (2 ^ 32) (map (region s) xs)" for xs
    using that
  proof (induction xs)
    case (Cons i xs)
    then show ?case
      by (cases xs) (auto simp: coalesced_Cons intro!: region_gap)
  qed simp
  then show ?thesis using hole_invD(2,3) [OF assms] by (simp add: hole_regions_def)
qed

lemma hole_inv_sane: "hole_inv s \<Longrightarrow> \<exists>s'. holes_sanity_f s = Inr s'"
  using sanity_decides [of s] hole_inv_gaps [of s] by (auto simp: hole_inv_def)

end
