(* ===== verification/Pages.thy ===== *)
theory Pages
  imports Holes
begin

text \<open>
  The page allocator of minix/alloc.c: free memory as an AVL tree of page ranges.

  The tree itself (\<open>addravl.h\<close>, generated from cavl) and the slab allocator are not in the
  repository. They are the parameter \<open>avl_ops\<close>: the calls alloc.c makes, on an abstract
  tree type. Nodes are addresses of \<open>pagerange\<close> structures in \<open>pr_heap\<close>; the tree orders
  them by the \<open>addr\<close> field it reads there, so the in-place updates of alloc.c are updates
  of the heap. \<open>avl_laws\<close> states what a search tree promises; it is a hypothesis of the
  theorems about this file, and \<open>list_avl\<close> shows it can hold.
\<close>

record pagerange =
  pr_addr :: u32
  pr_size :: u32

type_synonym pr_heap = "nat \<rightharpoonup> pagerange"

record 't avl_ops =
  addr_init :: 't
  addr_search :: "pr_heap \<Rightarrow> 't \<Rightarrow> u32 \<Rightarrow> nat option"
  addr_insert :: "pr_heap \<Rightarrow> 't \<Rightarrow> nat \<Rightarrow> 't"
  addr_remove :: "pr_heap \<Rightarrow> 't \<Rightarrow> u32 \<Rightarrow> 't \<times> nat option"
  addr_up :: "'t \<Rightarrow> nat list"
  addr_down :: "'t \<Rightarrow> nat list"
  addr_pred :: "pr_heap \<Rightarrow> 't \<Rightarrow> nat \<Rightarrow> nat option"
  slab_alloc :: "pr_heap \<Rightarrow> nat option"

text \<open>
  \<open>addr_up\<close> and \<open>addr_down\<close> are the nodes an iterator delivers from
  \<open>addr_start_iter_least\<close> by \<open>addr_incr_iter\<close>, and from \<open>addr_start_iter_greatest\<close> by
  \<open>addr_decr_iter\<close>; \<open>addr_pred\<close> is one \<open>addr_decr_iter\<close> from a node; \<open>addr_search\<close> is
  the search with \<open>AVL_EQUAL\<close>, also the start of an iterator there.
\<close>

definition key :: "pr_heap \<Rightarrow> nat \<Rightarrow> u32" where
  "key h p = (case h p of None \<Rightarrow> 0 | Some r \<Rightarrow> pr_addr r)"

definition tree_ok :: "'t avl_ops \<Rightarrow> pr_heap \<Rightarrow> 't \<Rightarrow> bool" where
  "tree_ok A h t \<longleftrightarrow> set (addr_up A t) \<subseteq> dom h \<and> sorted_wrt (<) (map (key h) (addr_up A t))"

definition avl_laws :: "'t avl_ops \<Rightarrow> bool" where
  "avl_laws A \<longleftrightarrow>
     addr_up A (addr_init A) = [] \<and>
     (\<forall>t. addr_down A t = rev (addr_up A t)) \<and>
     (\<forall>h t k. tree_ok A h t \<longrightarrow> addr_search A h t k = find (\<lambda>p. key h p = k) (addr_up A t)) \<and>
     (\<forall>h t p. tree_ok A h t \<and> p \<in> dom h \<and> key h p \<notin> key h ` set (addr_up A t) \<longrightarrow>
        addr_up A (addr_insert A h t p) =
          takeWhile (\<lambda>q. key h q < key h p) (addr_up A t) @
          p # dropWhile (\<lambda>q. key h q < key h p) (addr_up A t)) \<and>
     (\<forall>h t k. tree_ok A h t \<longrightarrow>
        addr_up A (fst (addr_remove A h t k)) = filter (\<lambda>p. key h p \<noteq> k) (addr_up A t) \<and>
        snd (addr_remove A h t k) = find (\<lambda>p. key h p = k) (addr_up A t)) \<and>
     (\<forall>h t xs q p ys. tree_ok A h t \<and> addr_up A t = xs @ q # p # ys \<longrightarrow> addr_pred A h t p = Some q) \<and>
     (\<forall>h t p ys. tree_ok A h t \<and> addr_up A t = p # ys \<longrightarrow> addr_pred A h t p = None) \<and>
     (\<forall>h p. slab_alloc A h = Some p \<longrightarrow> h p = None)"

section \<open>State\<close>

record 't vm = holes +
  addravl :: 't
  pr_heap :: pr_heap
  mem_low :: u32
  mem_high :: u32
  total_pages :: u32

definition rd_pr :: "('t, 'a) vm_scheme \<Rightarrow> nat \<Rightarrow> pagerange res" where
  "rd_pr s p = (case pr_heap s p of None \<Rightarrow> Inl BadPointer | Some r \<Rightarrow> Inr r)"

definition wr_pr :: "('t, 'a) vm_scheme \<Rightarrow> nat \<Rightarrow> pagerange \<Rightarrow> ('t, 'a) vm_scheme" where
  "wr_pr s p r = s\<lparr>pr_heap := (pr_heap s)(p \<mapsto> r)\<rparr>"

definition slab_free :: "('t, 'a) vm_scheme \<Rightarrow> nat \<Rightarrow> ('t, 'a) vm_scheme" where
  "slab_free s p = s\<lparr>pr_heap := (pr_heap s)(p := None)\<rparr>"

section \<open>memstats\<close>

fun memstats_loop :: "pr_heap \<Rightarrow> nat list \<Rightarrow> u32 \<times> u32 \<times> u32 \<Rightarrow> (u32 \<times> u32 \<times> u32) res" where
  "memstats_loop h [] st = Inr st"
| "memstats_loop h (p # ps) (nodes, pages, largest) =
     (case h p of
        None \<Rightarrow> Inl BadPointer
      | Some r \<Rightarrow>
          memstats_loop h ps
            (nodes + 1, pages + pr_size r, if largest < pr_size r then pr_size r else largest))"

definition memstats :: "'t avl_ops \<Rightarrow> ('t, 'a) vm_scheme \<Rightarrow> (u32 \<times> u32 \<times> u32) res" where
  "memstats A s = memstats_loop (pr_heap s) (addr_up A (addravl s)) (0, 0, 0)"

section \<open>alloc\_pages\<close>

definition boundary16 :: "vm_cfg \<Rightarrow> u32" where
  "boundary16 cfg = 16 * 1024 * 1024 div VM_PAGE_SIZE cfg"

definition boundary1 :: "vm_cfg \<Rightarrow> u32" where
  "boundary1 cfg = 1024 * 1024 div VM_PAGE_SIZE cfg"

text \<open>
  The scan over the iterator. \<open>Found p\<close> is the \<open>break\<close> with a good block, \<open>Refused\<close> the
  early return of NO_MEM at a boundary, \<open>Exhausted\<close> the end of the tree.
\<close>

datatype scan = Found nat | Refused | Exhausted

fun page_scan :: "vm_cfg \<Rightarrow> pr_heap \<Rightarrow> u32 \<Rightarrow> u32 \<Rightarrow> nat list \<Rightarrow> scan res" where
  "page_scan cfg h pages memflags [] = Inr Exhausted"
| "page_scan cfg h pages memflags (p # ps) =
     (case h p of
        None \<Rightarrow> Inl BadPointer
      | Some pr \<Rightarrow>
          bind_res (assert_res (pr_size pr > 0)) (\<lambda>_.
          if pages \<le> pr_size pr \<or> flag_set memflags (PAF_FIRSTBLOCK cfg) then
            if flag_set memflags (PAF_LOWER16MB cfg) \<and> boundary16 cfg < pr_addr pr + pages
            then Inr Refused
            else if flag_set memflags (PAF_LOWER1MB cfg) \<and> boundary1 cfg < pr_addr pr + pages
            then Inr Refused
            else Inr (Found p)
          else page_scan cfg h pages memflags ps))"

text \<open>
  \<open>has_len\<close> is whether the caller passed a \<open>len\<close> pointer; the second component of the
  result is what was stored through it, \<open>None\<close> if nothing was.
\<close>

definition alloc_pages ::
  "vm_cfg \<Rightarrow> 't avl_ops \<Rightarrow> u32 \<Rightarrow> u32 \<Rightarrow> bool \<Rightarrow> ('t, 'a) vm_scheme \<Rightarrow>
     (u32 \<times> u32 option \<times> ('t, 'a) vm_scheme) res" where
  "alloc_pages cfg A pages memflags has_len s =
     (let order = (if flag_set memflags (PAF_LOWER16MB cfg OR PAF_LOWER1MB cfg)
                   then addr_up A (addravl s) else addr_down A (addravl s)) in
      bind_res (page_scan cfg (pr_heap s) pages memflags order) (\<lambda>found.
      case found of
        Refused \<Rightarrow> Inr (NO_MEM cfg, None, s)
      | Exhausted \<Rightarrow> Inr (NO_MEM cfg, if has_len then Some 0 else None, s)
      | Found p \<Rightarrow>
          bind_res (rd_pr s p) (\<lambda>pr.
          bind_res (if flag_set memflags (PAF_FIRSTBLOCK cfg) then assert_res has_len else Inr ()) (\<lambda>_.
          let pages = (if flag_set memflags (PAF_FIRSTBLOCK cfg) \<and> pr_size pr < pages
                       then pr_size pr else pages);
              len = (if has_len then Some pages else None);
              mem = pr_addr pr + pr_size pr - pages in
          bind_res (assert_res (pages \<le> pr_size pr)) (\<lambda>_.
          bind_res
            (if pr_size pr = pages then
               (case addr_remove A (pr_heap s) (addravl s) (pr_addr pr) of (t, prr) \<Rightarrow>
                 bind_res (assert_res (prr \<noteq> None)) (\<lambda>_.
                 bind_res (assert_res (prr = Some p)) (\<lambda>_.
                 Inr (slab_free (s\<lparr>addravl := t\<rparr>) p))))
             else Inr (wr_pr s p (pr\<lparr>pr_size := pr_size pr - pages\<rparr>))) (\<lambda>s1.
          bind_res (clear_block cfg memflags (CLICK_SIZE cfg * mem) (VM_PAGE_SIZE cfg * pages) s1)
            (\<lambda>s2. Inr (mem, len, s2))))))))"

section \<open>free\_pages\<close>

text \<open>First half: extend the higher neighbour downwards, or insert a new range.\<close>

definition free_pages_place ::
  "'t avl_ops \<Rightarrow> u32 \<Rightarrow> u32 \<Rightarrow> ('t, 'a) vm_scheme \<Rightarrow> (nat \<times> ('t, 'a) vm_scheme) res" where
  "free_pages_place A pageno npages s =
     (case addr_search A (pr_heap s) (addravl s) (pageno + npages) of
        Some pr \<Rightarrow>
          bind_res (rd_pr s pr) (\<lambda>r.
          Inr (pr, wr_pr s pr (r\<lparr>pr_addr := pr_addr r - npages, pr_size := pr_size r + npages\<rparr>)))
      | None \<Rightarrow>
          (case slab_alloc A (pr_heap s) of
             None \<Rightarrow> Inl (Panic ''alloc_pages: can't alloc'')
           | Some pr \<Rightarrow>
               bind_res (assert_res (0 < sint npages)) (\<lambda>_.
               let s1 = wr_pr s pr \<lparr>pr_addr = pageno, pr_size = npages\<rparr> in
               Inr (pr, s1\<lparr>addravl := addr_insert A (pr_heap s1) (addravl s1) pr\<rparr>))))"

definition free_pages ::
  "'t avl_ops \<Rightarrow> u32 \<Rightarrow> u32 \<Rightarrow> ('t, 'a) vm_scheme \<Rightarrow> ('t, 'a) vm_scheme res" where
  "free_pages A pageno npages s =
     bind_res (assert_res (addr_search A (pr_heap s) (addravl s) pageno = None)) (\<lambda>_.
     bind_res (free_pages_place A pageno npages s) (\<lambda>(pr, s1).
     bind_res (rd_pr s1 pr) (\<lambda>r.
     bind_res (assert_res (addr_search A (pr_heap s1) (addravl s1) (pr_addr r) \<noteq> None)) (\<lambda>_.
     bind_res (assert_res (addr_search A (pr_heap s1) (addravl s1) (pr_addr r) = Some pr)) (\<lambda>_.
     case addr_pred A (pr_heap s1) (addravl s1) pr of
       None \<Rightarrow> Inr s1
     | Some p \<Rightarrow>
         bind_res (rd_pr s1 p) (\<lambda>q.
         if pr_addr q + pr_size q = pr_addr r then
           (let s2 = wr_pr s1 p (q\<lparr>pr_size := pr_size q + pr_size r\<rparr>);
                s3 = s2\<lparr>addravl := fst (addr_remove A (pr_heap s2) (addravl s2) (pr_addr r))\<rparr>
            in Inr (slab_free s3 pr))
         else Inr s1))))))"

text \<open>A tree kept as the sorted list of its nodes satisfies the laws.\<close>

definition list_avl :: "nat list avl_ops" where
  "list_avl = \<lparr>addr_init = [],
     addr_search = (\<lambda>h t k. find (\<lambda>p. key h p = k) t),
     addr_insert = (\<lambda>h t p. takeWhile (\<lambda>q. key h q < key h p) t @ p # dropWhile (\<lambda>q. key h q < key h p) t),
     addr_remove = (\<lambda>h t k. (filter (\<lambda>p. key h p \<noteq> k) t, find (\<lambda>p. key h p = k) t)),
     addr_up = (\<lambda>t. t), addr_down = rev,
     addr_pred = (\<lambda>h t p. case rev (takeWhile (\<lambda>q. q \<noteq> p) t) of [] \<Rightarrow> None | q # _ \<Rightarrow> Some q),
     slab_alloc = (\<lambda>h. find (\<lambda>p. h p = None) [0..<64])\<rparr>"

end
