(* ===== verification/PageSim.thy ===== *)
theory PageSim
  imports Pages Regions
begin

text \<open>
  The page allocator over an AVL tree simulates the list functions of
  \<^theory_text>\<open>Regions\<close>: \<open>alloc_pages\<close> takes the tail of the range its scan finds,
  \<open>free_pages\<close> is \<open>free_l\<close>. \<open>avl_laws\<close> is the hypothesis throughout; \<open>list_avl\<close>
  satisfies it.
\<close>

definition preg :: "pr_heap \<Rightarrow> nat \<Rightarrow> region" where
  "preg h p = (case h p of None \<Rightarrow> (0, 0) | Some r \<Rightarrow> (unat (pr_addr r), unat (pr_size r)))"

definition page_nodes :: "'t avl_ops \<Rightarrow> ('t, 'a) vm_scheme \<Rightarrow> nat list" where
  "page_nodes A s = addr_up A (addravl s)"

definition page_regions :: "'t avl_ops \<Rightarrow> ('t, 'a) vm_scheme \<Rightarrow> region list" where
  "page_regions A s = map (preg (pr_heap s)) (page_nodes A s)"

definition pages_inv :: "'t avl_ops \<Rightarrow> ('t, 'a) vm_scheme \<Rightarrow> bool" where
  "pages_inv A s \<longleftrightarrow> set (page_nodes A s) \<subseteq> dom (pr_heap s) \<and>
     coalesced (page_regions A s) \<and> within (2 ^ 32) (page_regions A s)"

lemma fst_preg: "fst (preg h p) = unat (key h p)"
  by (auto simp: preg_def key_def split: option.splits)

lemma key_less: "key h p < key h q \<longleftrightarrow> fst (preg h p) < fst (preg h q)"
  by (simp add: fst_preg word_less_nat_alt)

lemma key_eq: "key h p = key h q \<longleftrightarrow> fst (preg h p) = fst (preg h q)"
  by (simp add: fst_preg word_eq_unat)

lemma coalesced_keys: "coalesced (map (preg h) ps) \<Longrightarrow> sorted_wrt (<) (map (key h) ps)"
proof (induction ps)
  case (Cons p ps)
  then show ?case by (fastforce simp: coalesced_Cons key_less before_fst)
qed simp

lemma coalesced_keys_distinct: "coalesced (map (preg h) ps) \<Longrightarrow> distinct (map (key h) ps)"
  using coalesced_keys strict_sorted_iff by blast

lemma inv_tree_ok: "pages_inv A s \<Longrightarrow> tree_ok A (pr_heap s) (addravl s)"
  by (simp add: pages_inv_def tree_ok_def page_nodes_def page_regions_def coalesced_keys)

lemma avl_lawsD:
  assumes "avl_laws A"
  shows "addr_up A (addr_init A) = []"
    and "addr_down A t = rev (addr_up A t)"
    and "tree_ok A h t \<Longrightarrow> addr_search A h t k = find (\<lambda>p. key h p = k) (addr_up A t)"
    and "tree_ok A h t \<Longrightarrow> p \<in> dom h \<Longrightarrow> key h p \<notin> key h ` set (addr_up A t) \<Longrightarrow>
      addr_up A (addr_insert A h t p) = takeWhile (\<lambda>q. key h q < key h p) (addr_up A t) @
          p # dropWhile (\<lambda>q. key h q < key h p) (addr_up A t)"
    and "tree_ok A h t \<Longrightarrow>
      addr_up A (fst (addr_remove A h t k)) = filter (\<lambda>p. key h p \<noteq> k) (addr_up A t)"
    and "tree_ok A h t \<Longrightarrow> snd (addr_remove A h t k) = find (\<lambda>p. key h p = k) (addr_up A t)"
    and "tree_ok A h t \<Longrightarrow> addr_up A t = xs @ q # p # ys \<Longrightarrow> addr_pred A h t p = Some q"
    and "tree_ok A h t \<Longrightarrow> addr_up A t = p # ys \<Longrightarrow> addr_pred A h t p = None"
    and "slab_alloc A h = Some p \<Longrightarrow> h p = None"
  using assms by (simp_all add: avl_laws_def) blast?

section \<open>The parameter can be instantiated\<close>

lemma list_avl_pred:
  "distinct t \<Longrightarrow> t = xs @ q # p # ys \<Longrightarrow> addr_pred list_avl h t p = Some q"
proof -
  assume d: "distinct t" and t: "t = xs @ q # p # ys"
  have "takeWhile (\<lambda>r. r \<noteq> p) t = xs @ [q]"
    using d unfolding t by (auto simp: takeWhile_append)
  then show ?thesis by (simp add: list_avl_def)
qed

lemma list_avl_laws: "avl_laws list_avl"
proof -
  have "distinct t" if "tree_ok list_avl h t" for h t
  proof -
    have "distinct (map (key h) t)"
      using that strict_sorted_iff by (auto simp: tree_ok_def list_avl_def)
    then show ?thesis by (simp add: distinct_map)
  qed
  then have "\<forall>h t xs q p ys. tree_ok list_avl h t \<and> t = xs @ q # p # ys \<longrightarrow>
      addr_pred list_avl h t p = Some q"
    using list_avl_pred by blast
  then show ?thesis
    unfolding avl_laws_def by (auto simp: list_avl_def find_Some_iff)
qed

section \<open>Looking up a node\<close>

lemma other_keys:
  assumes "coalesced (map (preg h) (xs @ p # ys))"
  shows "\<forall>q \<in> set xs \<union> set ys. key h q \<noteq> key h p"
proof -
  have "key h p \<notin> key h ` (set xs \<union> set ys)"
    using coalesced_keys_distinct [OF assms] by auto
  then show ?thesis by (metis image_eqI)
qed

lemma find_key:
  assumes "coalesced (map (preg h) (xs @ p # ys))"
  shows "find (\<lambda>q. key h q = key h p) (xs @ p # ys) = Some p"
proof -
  have "\<forall>q \<in> set xs. key h q \<noteq> key h p"
    using other_keys [OF assms] by blast
  then show ?thesis by (induction xs) auto
qed

lemma filter_key:
  assumes "coalesced (map (preg h) (xs @ p # ys))"
  shows "filter (\<lambda>q. key h q \<noteq> key h p) (xs @ p # ys) = xs @ ys"
  using other_keys [OF assms] by simp

lemma preg_upd:
  "p \<notin> set ps \<Longrightarrow> map (preg (h(p \<mapsto> r))) ps = map (preg h) ps"
  by (auto simp: preg_def)

lemma preg_upd_None:
  "p \<notin> set ps \<Longrightarrow> map (preg (h(p := None))) ps = map (preg h) ps"
  by (auto simp: preg_def)

lemma preg_same [simp]: "preg (h(p \<mapsto> r)) p = (unat (pr_addr r), unat (pr_size r))"
  by (simp add: preg_def)

lemma coalesced_preg_distinct: "coalesced (map (preg h) ps) \<Longrightarrow> distinct ps"
  using coalesced_keys_distinct distinct_map by blast

section \<open>alloc\_pages\<close>

text \<open>What the scan of a list of live ranges returns.\<close>

lemma page_scan_cases:
  assumes "set ps \<subseteq> dom h" "\<forall>p \<in> set ps. 0 < snd (preg h p)"
  shows "\<exists>r. page_scan cfg h n flags ps = Inr r \<and>
    (case r of
       Found p \<Rightarrow> \<exists>xs ys. ps = xs @ p # ys \<and>
         (unat n \<le> snd (preg h p) \<or> flag_set flags (PAF_FIRSTBLOCK cfg)) \<and>
         (\<forall>q \<in> set xs. snd (preg h q) < unat n) \<and>
         (flag_set flags (PAF_LOWER16MB cfg) \<longrightarrow> key h p + n \<le> boundary16 cfg) \<and>
         (flag_set flags (PAF_LOWER1MB cfg) \<longrightarrow> key h p + n \<le> boundary1 cfg)
     | Refused \<Rightarrow> flag_set flags (PAF_LOWER16MB cfg) \<or> flag_set flags (PAF_LOWER1MB cfg)
     | Exhausted \<Rightarrow> \<forall>q \<in> set ps. snd (preg h q) < unat n \<and>
         \<not> flag_set flags (PAF_FIRSTBLOCK cfg))"
  using assms
proof (induction ps)
  case Nil
  then show ?case by simp
next
  case (Cons p ps)
  then obtain pr where pr: "h p = Some pr" by auto
  then have size: "0 < pr_size pr" "snd (preg h p) = unat (pr_size pr)" "key h p = pr_addr pr"
    using Cons.prems by (auto simp: preg_def key_def word_gt_0)
  show ?case
  proof (cases "n \<le> pr_size pr \<or> flag_set flags (PAF_FIRSTBLOCK cfg)")
    case True
    then show ?thesis
      using pr size by (auto simp: word_le_nat_alt not_less intro: exI [of _ "[]"])
  next
    case False
    then have small: "snd (preg h p) < unat n"
      using size by (simp add: word_le_nat_alt)
    from Cons obtain r where r: "page_scan cfg h n flags ps = Inr r" and
      cs: "case r of
       Found p \<Rightarrow> \<exists>xs ys. ps = xs @ p # ys \<and>
         (unat n \<le> snd (preg h p) \<or> flag_set flags (PAF_FIRSTBLOCK cfg)) \<and>
         (\<forall>q \<in> set xs. snd (preg h q) < unat n) \<and>
         (flag_set flags (PAF_LOWER16MB cfg) \<longrightarrow> key h p + n \<le> boundary16 cfg) \<and>
         (flag_set flags (PAF_LOWER1MB cfg) \<longrightarrow> key h p + n \<le> boundary1 cfg)
     | Refused \<Rightarrow> flag_set flags (PAF_LOWER16MB cfg) \<or> flag_set flags (PAF_LOWER1MB cfg)
     | Exhausted \<Rightarrow> \<forall>q \<in> set ps. snd (preg h q) < unat n \<and>
         \<not> flag_set flags (PAF_FIRSTBLOCK cfg)"
      by auto
    have step: "page_scan cfg h n flags (p # ps) = Inr r"
      using False pr size r by simp
    show ?thesis
    proof (cases r)
      case (Found q)
      with cs obtain xs ys where q: "ps = xs @ q # ys"
        "unat n \<le> snd (preg h q) \<or> flag_set flags (PAF_FIRSTBLOCK cfg)"
        "\<forall>q \<in> set xs. snd (preg h q) < unat n"
        "flag_set flags (PAF_LOWER16MB cfg) \<longrightarrow> key h q + n \<le> boundary16 cfg"
        "flag_set flags (PAF_LOWER1MB cfg) \<longrightarrow> key h q + n \<le> boundary1 cfg"
        by auto
      then have "p # ps = (p # xs) @ q # ys" "\<forall>q \<in> set (p # xs). snd (preg h q) < unat n"
        using small by auto
      with q(2,4,5) show ?thesis
        unfolding step Found by (intro exI [of _ "Found q"]) (simp only: scan.case, blast)
    qed (use cs step small False in \<open>auto simp del: page_scan.simps\<close>)
  qed
qed

text \<open>Operations of this file write the tree and its heap, nothing else.\<close>

definition only_pages :: "('t, 'a) vm_scheme \<Rightarrow> ('t, 'a) vm_scheme \<Rightarrow> bool" where
  "only_pages s s' \<longleftrightarrow> (\<exists>t h. s' = s\<lparr>addravl := t, pr_heap := h\<rparr>)"

lemma only_pagesI: "only_pages s (s\<lparr>addravl := t, pr_heap := h\<rparr>)"
  by (auto simp: only_pages_def)

lemma only_pages_refl [simp]: "only_pages s s"
  using only_pagesI [where s = s and t = "addravl s" and h = "pr_heap s"] by simp

lemma only_pages_heap [simp]: "only_pages s (s\<lparr>pr_heap := h\<rparr>)"
  using only_pagesI [where s = s and t = "addravl s" and h = h] by simp

lemma only_pages_trans: "only_pages s s1 \<Longrightarrow> only_pages s1 s2 \<Longrightarrow> only_pages s s2"
proof -
  assume "only_pages s s1" "only_pages s1 s2"
  then obtain t h t' h' where "s1 = s\<lparr>addravl := t, pr_heap := h\<rparr>" "s2 = s1\<lparr>addravl := t', pr_heap := h'\<rparr>"
    by (auto simp: only_pages_def)
  then have "s2 = s\<lparr>addravl := t', pr_heap := h'\<rparr>" by simp
  then show ?thesis by (simp add: only_pagesI)
qed

definition page_order :: "vm_cfg \<Rightarrow> 't avl_ops \<Rightarrow> u32 \<Rightarrow> ('t, 'a) vm_scheme \<Rightarrow> nat list" where
  "page_order cfg A flags s =
     (if flag_set flags (PAF_LOWER16MB cfg OR PAF_LOWER1MB cfg)
      then page_nodes A s else rev (page_nodes A s))"

lemma page_order_set [simp]: "set (page_order cfg A flags s) = set (page_nodes A s)"
  by (simp add: page_order_def)

lemma inv_scan:
  assumes "pages_inv A s"
  shows "set (page_order cfg A flags s) \<subseteq> dom (pr_heap s)"
    and "\<forall>p \<in> set (page_order cfg A flags s). 0 < snd (preg (pr_heap s) p)"
proof -
  show "set (page_order cfg A flags s) \<subseteq> dom (pr_heap s)"
    using assms by (simp add: pages_inv_def)
  have "\<forall>r \<in> set (page_regions A s). nonempty r"
    using assms by (simp add: pages_inv_def coalesced_def)
  then show "\<forall>p \<in> set (page_order cfg A flags s). 0 < snd (preg (pr_heap s) p)"
    by (metis (no_types, lifting) image_eqI list.set_map nonempty.simps page_order_set
        page_regions_def prod.collapse)
qed

text \<open>
  A block found by the scan: \<open>alloc_pages\<close> passes every assertion and cuts \<open>eff\<close> pages
  off the end of that range, \<open>eff\<close> being the request, or the whole range if it is smaller
  and the caller accepts any first block.
\<close>

lemma alloc_pages_found:
  assumes laws: "avl_laws A" and inv: "pages_inv A s"
    and scan: "page_scan cfg (pr_heap s) pages flags (page_order cfg A flags s) = Inr (Found p)"
    and nodes: "page_nodes A s = xs @ p # ys"
    and fits: "unat pages \<le> snd (preg (pr_heap s) p) \<or> flag_set flags (PAF_FIRSTBLOCK cfg)"
    and len: "flag_set flags (PAF_FIRSTBLOCK cfg) \<longrightarrow> has_len"
  shows "\<exists>mem eff s1. unat eff = min (unat pages) (snd (preg (pr_heap s) p)) \<and>
    unat mem = fst (preg (pr_heap s) p) + snd (preg (pr_heap s) p) - unat eff \<and>
    alloc_pages cfg A pages flags has_len s =
      bind_res (clear_block cfg flags (CLICK_SIZE cfg * mem) (VM_PAGE_SIZE cfg * eff) s1)
        (\<lambda>s2. Inr (mem, if has_len then Some eff else None, s2)) \<and>
    page_regions A s1 = take_tail (unat eff) (map (preg (pr_heap s)) xs) (preg (pr_heap s) p)
      (map (preg (pr_heap s)) ys) \<and>
    set (page_nodes A s1) \<subseteq> dom (pr_heap s1) \<and> only_pages s s1"
proof -
  let ?h = "pr_heap s"
  have tree: "tree_ok A ?h (addravl s)" by (rule inv_tree_ok [OF inv])
  have co: "coalesced (map (preg ?h) (xs @ p # ys))" and wi: "within (2 ^ 32) (map (preg ?h) (xs @ p # ys))"
    and dom: "set (xs @ p # ys) \<subseteq> dom ?h"
    using inv nodes by (simp_all add: pages_inv_def page_regions_def)
  obtain pr where pr: "?h p = Some pr" using dom by auto
  have reg: "preg ?h p = (unat (pr_addr pr), unat (pr_size pr))" and kp: "key ?h p = pr_addr pr"
    using pr by (simp_all add: preg_def key_def)
  have dist: "p \<notin> set xs" "p \<notin> set ys" using coalesced_preg_distinct [OF co] by auto
  define e where "e = (if flag_set flags (PAF_FIRSTBLOCK cfg) \<and> pr_size pr < pages then pr_size pr else pages)"
  let ?mem = "pr_addr pr + pr_size pr - e"
  have eff: "unat e = min (unat pages) (unat (pr_size pr))" "e \<le> pr_size pr"
    using fits reg by (auto simp: e_def word_less_nat_alt word_le_nat_alt)
  have "unat (pr_addr pr) + unat (pr_size pr) < 2 ^ 32"
    using wi reg by simp
  then have "unat (pr_addr pr + pr_size pr) = unat (pr_addr pr) + unat (pr_size pr)"
    by (intro unat_plus_no_wrap) simp
  then have mem: "unat ?mem = unat (pr_addr pr) + unat (pr_size pr) - unat e"
    using eff(2) by (intro trans [OF unat_minus_le]) (auto simp: word_le_nat_alt)
  define rm where "rm = addr_remove A ?h (addravl s) (pr_addr pr)"
  have rm: "snd rm = Some p" "addr_up A (fst rm) = xs @ ys"
    using avl_lawsD(5,6) [OF laws tree, of "pr_addr pr"] nodes find_key [OF co] filter_key [OF co]
    unfolding kp rm_def page_nodes_def by auto
  let ?s1 = "if pr_size pr = e then slab_free (s\<lparr>addravl := fst rm\<rparr>) p
             else wr_pr s p (pr\<lparr>pr_size := pr_size pr - e\<rparr>)"
  have order: "(if flag_set flags (PAF_LOWER16MB cfg OR PAF_LOWER1MB cfg)
      then addr_up A (addravl s) else addr_down A (addravl s)) = page_order cfg A flags s"
    by (simp add: page_order_def page_nodes_def avl_lawsD(2) [OF laws])
  have guard: "(if flag_set flags (PAF_FIRSTBLOCK cfg) then assert_res has_len else Inr ()) = Inr ()"
    using len by simp
  have read: "rd_pr s p = Inr pr" by (simp add: rd_pr_def pr)
  have cut: "(if pr_size pr = e then
       (case addr_remove A ?h (addravl s) (pr_addr pr) of (t, prr) \<Rightarrow>
         bind_res (assert_res (prr \<noteq> None)) (\<lambda>_.
         bind_res (assert_res (prr = Some p)) (\<lambda>_. Inr (slab_free (s\<lparr>addravl := t\<rparr>) p))))
     else Inr (wr_pr s p (pr\<lparr>pr_size := pr_size pr - e\<rparr>))) = Inr ?s1"
    using rm(1) unfolding rm_def by (simp add: split_beta)
  have chk: "assert_res (e \<le> pr_size pr) = Inr ()" using eff(2) by simp
  have "alloc_pages cfg A pages flags has_len s =
      bind_res (clear_block cfg flags (CLICK_SIZE cfg * ?mem) (VM_PAGE_SIZE cfg * e) ?s1)
        (\<lambda>s2. Inr (?mem, if has_len then Some e else None, s2))"
    unfolding alloc_pages_def order Let_def
    by (simp only: scan bind_res_simps scan.case read guard e_def [symmetric] chk cut)
  moreover have "page_regions A ?s1 = take_tail (unat e) (map (preg ?h) xs) (preg ?h p) (map (preg ?h) ys)"
  proof (cases "pr_size pr = e")
    case True
    then have "snd (preg ?h p) = unat e" using reg by simp
    with True rm(2) dist show ?thesis
      by (simp add: page_regions_def page_nodes_def slab_free_def take_tail_def preg_upd_None)
  next
    case False
    then have "snd (preg ?h p) \<noteq> unat e" using reg by (simp add: word_eq_unat [symmetric])
    with False dist nodes reg eff(2) show ?thesis
      by (simp add: page_regions_def page_nodes_def wr_pr_def take_tail_def preg_upd unat_minus_le)
  qed
  moreover have "set (page_nodes A ?s1) \<subseteq> dom (pr_heap ?s1)"
    using dom rm(2) dist nodes by (auto simp: page_nodes_def slab_free_def wr_pr_def)
  moreover have "only_pages s ?s1"
    using only_pagesI [of s] by (auto simp: slab_free_def wr_pr_def)
  moreover have "unat e = min (unat pages) (snd (preg ?h p))" using eff(1) reg by simp
  moreover have "unat ?mem = fst (preg ?h p) + snd (preg ?h p) - unat e" using mem reg by simp
  ultimately show ?thesis by blast
qed

section \<open>free\_pages\<close>

text \<open>
  The list of nodes splits at the freed block: everything below it, everything above.
\<close>

lemma split_at_block:
  assumes co: "coalesced rs" and fit: "\<forall>r \<in> set rs. fits (b, n) r" and n: "0 < n"
  obtains rs1 rs2 where "rs = rs1 @ rs2" "\<forall>r \<in> set rs1. fst r + snd r \<le> b"
    "\<forall>r \<in> set rs2. b + n \<le> fst r"
    "rs1 = takeWhile (\<lambda>r. fst r < b) rs" "rs2 = dropWhile (\<lambda>r. fst r < b) rs"
proof (rule that [OF takeWhile_dropWhile_id [symmetric] _ _ refl refl])
  show "\<forall>r \<in> set (takeWhile (\<lambda>r. fst r < b) rs). fst r + snd r \<le> b"
    using fit n by (auto dest!: set_takeWhileD)
  show "\<forall>r \<in> set (dropWhile (\<lambda>r. fst r < b) rs). b + n \<le> fst r"
  proof
    fix r assume r: "r \<in> set (dropWhile (\<lambda>r. fst r < b) rs)"
    then have "r \<in> set rs" by (rule set_dropWhileD)
    then have "fits (b, n) r" "nonempty r" using fit co by (auto simp: coalesced_def)
    moreover have "\<not> fst r < b"
    proof -
      let ?ds = "dropWhile (\<lambda>r. fst r < b) rs"
      have "coalesced ?ds"
        using co takeWhile_dropWhile_id [of "\<lambda>r. fst r < b" rs]
        by (metis coalesced_append)
      moreover have "?ds \<noteq> []" using r by (metis empty_iff empty_set)
      ultimately have "fst (hd ?ds) \<le> fst r"
        using r by (cases ?ds) (auto simp: coalesced_Cons before_fst)
      moreover have "\<not> fst (hd ?ds) < b"
        using \<open>?ds \<noteq> []\<close> by (rule hd_dropWhile)
      ultimately show ?thesis by simp
    qed
    ultimately show "b + n \<le> fst r" by (cases r) auto
  qed
qed

lemma only_pagesI2: "only_pages s (s\<lparr>pr_heap := h, addravl := t\<rparr>)"
  unfolding only_pages_def by (intro exI [of _ t] exI [of _ h]) simp

lemma nodes_wr_pr [simp]: "page_nodes A (wr_pr s p r) = page_nodes A s"
  by (simp add: page_nodes_def wr_pr_def)

lemma inserted_dom:
  assumes "set ns \<subseteq> dom h" "ns = xs @ ys" "ms = xs @ p # ys" "h1 = h(p \<mapsto> r)"
  shows "set ms \<subseteq> dom h1"
  using assms by auto

lemma gap_above:
  assumes co: "coalesced (map (preg h) (xs @ ys))"
    and hi: "\<forall>r \<in> set (map (preg h) ys). b + n \<le> fst r"
    and "\<not> (ys \<noteq> [] \<and> fst (preg h (hd ys)) = b + n)"
  shows "\<forall>q \<in> set ys. b + n < fst (preg h q)"
proof (cases ys)
  case (Cons y zs)
  have "b + n < fst (preg h y)" using assms Cons by force
  moreover have "\<forall>z \<in> set zs. before (preg h y) (preg h z)"
    using co Cons by (simp add: coalesced_append coalesced_Cons)
  ultimately show ?thesis using Cons by (fastforce simp: before_fst)
qed simp

lemma merge1_gap:
  "rs \<noteq> [] \<Longrightarrow> b + n < fst (hd rs) \<Longrightarrow> merge1 ((b, n) # rs) = (b, n) # rs"
  by (cases rs) auto

lemma insert_nodes:
  assumes laws: "avl_laws A" and inv: "pages_inv A s" and fresh: "pr_heap s pr = None"
    and low: "\<forall>q \<in> set xs. fst (preg (pr_heap s) q) < unat (pr_addr r)"
    and high: "\<forall>q \<in> set ys. unat (pr_addr r) < fst (preg (pr_heap s) q)"
    and nodes: "page_nodes A s = xs @ ys"
  shows "addr_up A (addr_insert A ((pr_heap s)(pr \<mapsto> r)) (addravl s) pr) = xs @ pr # ys"
proof -
  let ?h = "pr_heap s" let ?h1 = "?h(pr \<mapsto> r)"
  have dom: "set (xs @ ys) \<subseteq> dom ?h" using inv nodes by (simp add: pages_inv_def)
  then have nin: "pr \<notin> set (xs @ ys)" using fresh by auto
  have k: "key ?h1 q = key ?h q" if "q \<in> set (xs @ ys)" for q
    using that nin by (auto simp: key_def)
  have kp: "key ?h1 pr = pr_addr r" by (simp add: key_def)
  have kk: "map (key ?h1) (xs @ ys) = map (key ?h) (xs @ ys)"
    using k by (intro map_cong) auto
  have tree: "tree_ok A ?h1 (addravl s)"
    using inv_tree_ok [OF inv] dom nodes kk unfolding tree_ok_def page_nodes_def
    by (simp only:) auto
  have lx: "\<forall>q \<in> set xs. key ?h1 q < pr_addr r"
    using low k by (auto simp: fst_preg word_less_nat_alt)
  have hy: "\<forall>q \<in> set ys. pr_addr r < key ?h1 q"
    using high k by (auto simp: fst_preg word_less_nat_alt)
  have tk: "takeWhile (\<lambda>q. key ?h1 q < pr_addr r) (xs @ ys) = xs"
    and dk: "dropWhile (\<lambda>q. key ?h1 q < pr_addr r) (xs @ ys) = ys"
    using lx hy by (cases ys; force simp: takeWhile_append2 dropWhile_append2)+
  have "key ?h1 pr \<notin> key ?h1 ` set (addr_up A (addravl s))"
    using lx hy unfolding nodes [unfolded page_nodes_def] kp by auto
  moreover have "pr \<in> dom ?h1" by simp
  ultimately have "addr_up A (addr_insert A ?h1 (addravl s) pr) =
      takeWhile (\<lambda>q. key ?h1 q < key ?h1 pr) (addr_up A (addravl s)) @
      pr # dropWhile (\<lambda>q. key ?h1 q < key ?h1 pr) (addr_up A (addravl s))"
    by (intro avl_lawsD(4) [OF laws tree])
  then show ?thesis unfolding nodes [unfolded page_nodes_def] kp tk dk .
qed

text \<open>First half: the block is now the start of the range at node \<open>pr\<close>.\<close>

lemma free_pages_place_sim:
  assumes laws: "avl_laws A" and inv: "pages_inv A s"
    and n: "0 < sint npages" and w: "unat pageno + unat npages < 2 ^ 32"
    and fit: "\<forall>r \<in> set (page_regions A s). fits (unat pageno, unat npages) r"
    and slab: "slab_alloc A (pr_heap s) \<noteq> None \<or>
      addr_search A (pr_heap s) (addravl s) (pageno + npages) \<noteq> None"
  shows "\<exists>pr s1 xs zs n'. free_pages_place A pageno npages s = Inr (pr, s1) \<and>
    page_nodes A s1 = xs @ pr # zs \<and> preg (pr_heap s1) pr = (unat pageno, n') \<and>
    set (page_nodes A s1) \<subseteq> dom (pr_heap s1) \<and> pr \<notin> set xs \<and> pr \<notin> set zs \<and>
    map (preg (pr_heap s1)) xs = takeWhile (\<lambda>r. fst r < unat pageno) (page_regions A s) \<and>
    map (preg (pr_heap s1)) (pr # zs) =
      merge1 ((unat pageno, unat npages) # dropWhile (\<lambda>r. fst r < unat pageno) (page_regions A s)) \<and>
    only_pages s s1"
proof -
  let ?h = "pr_heap s" and ?b = "unat pageno" and ?n = "unat npages"
  let ?low = "\<lambda>q. fst (preg ?h q) < ?b"
  let ?xs = "takeWhile ?low (page_nodes A s)" and ?ys = "dropWhile ?low (page_nodes A s)"
  have npos: "0 < ?n" using n by (metis sint_0 unat_gt_0 word_neq_0_conv less_irrefl)
  have co: "coalesced (page_regions A s)" and wi: "within (2 ^ 32) (page_regions A s)"
    and dom: "set (page_nodes A s) \<subseteq> dom ?h"
    using inv by (simp_all add: pages_inv_def)
  have tree: "tree_ok A ?h (addravl s)" by (rule inv_tree_ok [OF inv])
  have tw: "takeWhile (\<lambda>r. fst r < ?b) (page_regions A s) = map (preg ?h) ?xs"
    and dw: "dropWhile (\<lambda>r. fst r < ?b) (page_regions A s) = map (preg ?h) ?ys"
    by (simp_all add: page_regions_def takeWhile_map dropWhile_map comp_def)
  have nodes: "page_nodes A s = ?xs @ ?ys" by simp
  have lo: "\<forall>r \<in> set (map (preg ?h) ?xs). fst r + snd r \<le> ?b"
    and hi: "\<forall>r \<in> set (map (preg ?h) ?ys). ?b + ?n \<le> fst r"
    using split_at_block [OF co fit npos] tw dw by metis+
  have sum: "unat (pageno + npages) = ?b + ?n" using w by (simp add: unat_plus_no_wrap)
  have dist: "distinct (page_nodes A s)"
    using co coalesced_preg_distinct by (simp add: page_regions_def)
  show ?thesis
  proof (cases "?ys \<noteq> [] \<and> fst (preg ?h (hd ?ys)) = ?b + ?n")
    case True
    then obtain pr zs where ys: "?ys = pr # zs" "fst (preg ?h pr) = ?b + ?n" by (cases ?ys) auto
    obtain r where r: "?h pr = Some r" using dom nodes ys by (metis domD in_set_conv_decomp subsetD)
    have kpr: "key ?h pr = pageno + npages"
      using ys(2) sum by (simp add: fst_preg word_eq_unat)
    have "addr_search A ?h (addravl s) (pageno + npages) = Some pr"
      using avl_lawsD(3) [OF laws tree] find_key [of ?h ?xs pr zs] co nodes ys kpr
      unfolding page_nodes_def page_regions_def by metis
    let ?r = "r\<lparr>pr_addr := pr_addr r - npages, pr_size := pr_size r + npages\<rparr>"
    have place: "free_pages_place A pageno npages s = Inr (pr, wr_pr s pr ?r)"
      using \<open>addr_search A ?h (addravl s) (pageno + npages) = Some pr\<close> r
      by (simp add: free_pages_place_def rd_pr_def)
    have rr: "pr_addr r = pageno + npages" using kpr r by (simp add: key_def)
    have "?b + ?n + unat (pr_size r) < 2 ^ 32"
      using wi nodes ys r sum rr unfolding page_regions_def
      by (metis (no_types, lifting) fst_conv list.simps(9) map_append option.simps(5) preg_def
          snd_conv within_simps(2) within_simps(3))
    then have reg: "preg (?h(pr \<mapsto> ?r)) pr = (?b, ?n + unat (pr_size r))"
      using rr by (simp add: unat_plus_no_wrap)
    have nin: "pr \<notin> set ?xs" "pr \<notin> set zs" using dist nodes ys by (metis distinct_append distinct.simps(2) IntI disjoint_iff list.set_intros(1))+
    have "preg ?h pr = (?b + ?n, unat (pr_size r))" using r ys(2) by (simp add: preg_def)
    then have m: "map (preg (?h(pr \<mapsto> ?r))) (pr # zs) = merge1 ((?b, ?n) # map (preg ?h) ?ys)"
      using ys(1) reg nin(2) by (simp add: preg_upd)
    show ?thesis
    proof (intro exI conjI)
      show "free_pages_place A pageno npages s = Inr (pr, wr_pr s pr ?r)" by (rule place)
      show "page_nodes A (wr_pr s pr ?r) = ?xs @ pr # zs"
        using nodes unfolding nodes_wr_pr ys(1) .
      show "preg (pr_heap (wr_pr s pr ?r)) pr = (?b, ?n + unat (pr_size r))"
        using reg by (simp add: wr_pr_def)
      show "set (page_nodes A (wr_pr s pr ?r)) \<subseteq> dom (pr_heap (wr_pr s pr ?r))"
        using dom by (auto simp: wr_pr_def page_nodes_def)
      show "map (preg (pr_heap (wr_pr s pr ?r))) ?xs = takeWhile (\<lambda>r. fst r < ?b) (page_regions A s)"
        using nin(1) unfolding tw by (simp add: wr_pr_def preg_upd)
      show "map (preg (pr_heap (wr_pr s pr ?r))) (pr # zs) =
          merge1 ((?b, ?n) # dropWhile (\<lambda>r. fst r < ?b) (page_regions A s))"
        using m unfolding dw by (simp add: wr_pr_def)
      show "only_pages s (wr_pr s pr ?r)" by (simp add: wr_pr_def)
    qed (rule nin)+
  next
    case False
    have above: "\<forall>q \<in> set ?ys. ?b + ?n < fst (preg ?h q)"
      using False hi co nodes gap_above [of ?h ?xs ?ys ?b ?n] unfolding page_regions_def by metis
    have below: "\<forall>q \<in> set ?xs. fst (preg ?h q) < ?b"
      by (auto dest: set_takeWhileD)
    have none: "addr_search A ?h (addravl s) (pageno + npages) = None"
    proof -
      have "key ?h q \<noteq> pageno + npages" if "q \<in> set (page_nodes A s)" for q
      proof -
        have "q \<in> set ?xs \<or> q \<in> set ?ys" using that nodes by (metis Un_iff set_append)
        then have "fst (preg ?h q) \<noteq> ?b + ?n" using above below by fastforce
        then show ?thesis using sum by (auto simp: fst_preg)
      qed
      then show ?thesis
        using avl_lawsD(3) [OF laws tree] unfolding page_nodes_def by (simp add: find_None_iff)
    qed
    obtain pr where pr: "slab_alloc A ?h = Some pr" using slab none by auto
    have fresh: "?h pr = None" by (rule avl_lawsD(9) [OF laws pr])
    let ?r = "\<lparr>pr_addr = pageno, pr_size = npages\<rparr>"
    let ?h1 = "?h(pr \<mapsto> ?r)"
    let ?s1 = "s\<lparr>pr_heap := ?h1, addravl := addr_insert A ?h1 (addravl s) pr\<rparr>"
    have place: "free_pages_place A pageno npages s = Inr (pr, ?s1)"
      using none pr n by (simp add: free_pages_place_def wr_pr_def)
    have nin: "pr \<notin> set (page_nodes A s)" using dom fresh by auto
    then have ninxy: "pr \<notin> set ?xs" "pr \<notin> set ?ys"
      by (metis Un_iff nodes set_append)+
    have up: "addr_up A (addr_insert A ?h1 (addravl s) pr) = ?xs @ pr # ?ys"
      by (rule insert_nodes [OF laws inv fresh]) (use above below npos nodes in auto)
    have reg: "preg ?h1 pr = (?b, ?n)" by simp
    have m: "map (preg ?h1) (pr # ?ys) = merge1 ((?b, ?n) # map (preg ?h) ?ys)"
    proof (cases "?ys = []")
      case True
      then show ?thesis unfolding True by simp
    next
      case False
      then have "?b + ?n < fst (hd (map (preg ?h) ?ys))" using above by (simp add: list.map_sel(1))
      with False have "merge1 ((?b, ?n) # map (preg ?h) ?ys) = (?b, ?n) # map (preg ?h) ?ys"
        by (intro merge1_gap) (metis map_is_Nil_conv)
      then show ?thesis using ninxy(2) by (simp add: preg_upd)
    qed
    show ?thesis
    proof (intro exI conjI)
      show "free_pages_place A pageno npages s = Inr (pr, ?s1)" by (rule place)
      show n1: "page_nodes A ?s1 = ?xs @ pr # ?ys"
        using up by (simp add: page_nodes_def del: takeWhile_dropWhile_id)
      show "preg (pr_heap ?s1) pr = (?b, ?n)" by simp
      show "set (page_nodes A ?s1) \<subseteq> dom (pr_heap ?s1)"
        by (rule inserted_dom [OF dom nodes n1]) simp
      show "map (preg (pr_heap ?s1)) ?xs = takeWhile (\<lambda>r. fst r < ?b) (page_regions A s)"
        using ninxy unfolding tw by (simp add: preg_upd)
      show "map (preg (pr_heap ?s1)) (pr # ?ys) =
          merge1 ((?b, ?n) # dropWhile (\<lambda>r. fst r < ?b) (page_regions A s))"
        using m unfolding dw by simp
      show "only_pages s ?s1" by (rule only_pagesI2)
    qed (rule ninxy)+
  qed
qed

text \<open>
  The list side: joining with the region below after joining with the one above is
  \<open>free_l\<close>.
\<close>

lemma merge1_coalesced: "coalesced rs \<Longrightarrow> merge1 rs = rs"
  by (cases rs rule: merge1.cases) (auto simp: coalesced_Cons)

lemma merge1_extended:
  assumes "\<forall>x \<in> set zs. before (b + n, l) x" "0 < l" "coalesced zs"
  shows "merge1 ((b, n + l) # zs) = (b, n + l) # zs"
proof (rule merge1_coalesced)
  have "before (b, n + l) x" if "before (b + n, l) x" for x using that by (cases x) simp
  then show "coalesced ((b, n + l) # zs)" using assms by (simp add: coalesced_Cons)
qed

lemma free_l_two_steps:
  fixes rs b n
  defines "pre \<equiv> takeWhile (\<lambda>x. fst x < b) rs" and "post \<equiv> dropWhile (\<lambda>x. fst x < b) rs"
  assumes co: "coalesced rs" and m: "merge1 ((b, n) # post) = (b, n') # zs"
  shows "pre = [] \<Longrightarrow> free_l (b, n) rs = (b, n') # zs"
    and "pre = us @ [(c, l)] \<Longrightarrow> c + l = b \<Longrightarrow> free_l (b, n) rs = us @ (c, l + n') # zs"
    and "pre = us @ [(c, l)] \<Longrightarrow> c + l \<noteq> b \<Longrightarrow> free_l (b, n) rs = pre @ (b, n') # zs"
proof -
  have "coalesced (pre @ post)" unfolding pre_def post_def using co by simp
  then have cp: "coalesced post" by (simp add: coalesced_append)
  have f: "free_l (b, n) rs = (if pre = [] then merge_l ((b, n) # post)
      else butlast pre @ merge_l (last pre # (b, n) # post))"
    by (simp add: free_l_def pre_def post_def Let_def)
  have m2: "merge_l ((b, n) # post) = (b, n') # zs"
    using m cp merge1_extended by (cases post) (auto simp: coalesced_Cons merge1_coalesced split: if_splits)
  show "pre = [] \<Longrightarrow> free_l (b, n) rs = (b, n') # zs" using f m2 by simp
  show "pre = us @ [(c, l)] \<Longrightarrow> c + l \<noteq> b \<Longrightarrow> free_l (b, n) rs = pre @ (b, n') # zs"
    using f m by simp
  show "pre = us @ [(c, l)] \<Longrightarrow> c + l = b \<Longrightarrow> free_l (b, n) rs = us @ (c, l + n') # zs"
  proof -
    assume p: "pre = us @ [(c, l)]" "c + l = b"
    have "merge1 ((c, l + n) # post) = (c, l + n') # zs"
      using m p(2) by (cases post) (auto split: if_splits)
    then show ?thesis using f p by simp
  qed
qed

lemma find_sorted:
  "sorted_wrt (<) (map (key h) (xs @ p # ys)) \<Longrightarrow> find (\<lambda>q. key h q = key h p) (xs @ p # ys) = Some p"
  by (induction xs) auto

lemma filter_sorted:
  "sorted_wrt (<) (map (key h) (xs @ p # ys)) \<Longrightarrow>
     filter (\<lambda>q. key h q \<noteq> key h p) (xs @ p # ys) = xs @ ys"
proof -
  assume "sorted_wrt (<) (map (key h) (xs @ p # ys))"
  then have "\<forall>q \<in> set xs \<union> set ys. key h q \<noteq> key h p" by (fastforce simp: sorted_wrt_append)
  then show ?thesis by simp
qed

lemma placed_sorted:
  assumes "coalesced (map (preg h) xs)" "coalesced (map (preg h) (p # zs))"
    and "\<forall>q \<in> set xs. fst (preg h q) < fst (preg h p)"
  shows "sorted_wrt (<) (map (key h) (xs @ p # zs))"
proof -
  have "key h q < key h z" if "q \<in> set xs" "z \<in> set (p # zs)" for q z
  proof -
    have "fst (preg h p) \<le> fst (preg h z)"
      using that(2) assms(2) by (auto simp: coalesced_Cons before_fst)
    moreover have "fst (preg h q) < fst (preg h p)" using that(1) assms(3) by blast
    ultimately show ?thesis by (simp add: key_less)
  qed
  then show ?thesis
    using coalesced_keys [OF assms(1)] coalesced_keys [OF assms(2)] by (auto simp: sorted_wrt_append)
qed

text \<open>Second half: join the range at \<open>pr\<close> with the one just below it, if they touch.\<close>

definition free_pages_join ::
  "'t avl_ops \<Rightarrow> nat \<Rightarrow> ('t, 'a) vm_scheme \<Rightarrow> ('t, 'a) vm_scheme res" where
  "free_pages_join A pr s1 =
     bind_res (rd_pr s1 pr) (\<lambda>r.
     bind_res (assert_res (addr_search A (pr_heap s1) (addravl s1) (pr_addr r) \<noteq> None)) (\<lambda>_.
     bind_res (assert_res (addr_search A (pr_heap s1) (addravl s1) (pr_addr r) = Some pr)) (\<lambda>_.
     case addr_pred A (pr_heap s1) (addravl s1) pr of
       None \<Rightarrow> Inr s1
     | Some p \<Rightarrow>
         bind_res (rd_pr s1 p) (\<lambda>q.
         if pr_addr q + pr_size q = pr_addr r then
           (let s2 = wr_pr s1 p (q\<lparr>pr_size := pr_size q + pr_size r\<rparr>);
                s3 = s2\<lparr>addravl := fst (addr_remove A (pr_heap s2) (addravl s2) (pr_addr r))\<rparr>
            in Inr (slab_free s3 pr))
         else Inr s1))))"

lemma free_pages_join_sim:
  assumes laws: "avl_laws A" and nodes: "page_nodes A s = xs @ pr # zs"
    and dom: "set (page_nodes A s) \<subseteq> dom (pr_heap s)"
    and low: "\<forall>q \<in> set xs. fst (preg (pr_heap s) q) < b"
    and reg: "preg (pr_heap s) pr = (b, n)"
    and cx: "coalesced (map (preg (pr_heap s)) xs)" and cz: "coalesced (map (preg (pr_heap s)) (pr # zs))"
    and wi: "within (2 ^ 32) (page_regions A s)"
    and touch: "\<forall>us c l. map (preg (pr_heap s)) xs = us @ [(c, l)] \<longrightarrow> c + l \<le> b"
  shows "\<exists>s'. free_pages_join A pr s = Inr s' \<and> only_pages s s' \<and>
    set (page_nodes A s') \<subseteq> dom (pr_heap s') \<and>
    (xs = [] \<longrightarrow> page_regions A s' = page_regions A s) \<and>
    (\<forall>us c l. map (preg (pr_heap s)) xs = us @ [(c, l)] \<and> c + l \<noteq> b \<longrightarrow>
       page_regions A s' = page_regions A s) \<and>
    (\<forall>us c l. map (preg (pr_heap s)) xs = us @ [(c, l)] \<and> c + l = b \<longrightarrow>
       page_regions A s' = us @ (c, l + n) # map (preg (pr_heap s)) zs)"
proof -
  let ?h = "pr_heap s"
  have srt: "sorted_wrt (<) (map (key ?h) (xs @ pr # zs))"
    by (rule placed_sorted [OF cx cz]) (simp add: low reg)
  have tree: "tree_ok A ?h (addravl s)"
    using dom srt unfolding tree_ok_def nodes [unfolded page_nodes_def] page_nodes_def by blast
  obtain r where r: "?h pr = Some r" using dom nodes by auto
  then have rd: "rd_pr s pr = Inr r" and kr: "key ?h pr = pr_addr r"
    and rr: "unat (pr_addr r) = b" "unat (pr_size r) = n"
    using reg by (simp_all add: rd_pr_def key_def preg_def)
  have srch: "addr_search A ?h (addravl s) (pr_addr r) = Some pr"
    using avl_lawsD(3) [OF laws tree] find_sorted [OF srt]
    unfolding nodes [unfolded page_nodes_def] kr by simp
  show ?thesis
  proof (cases xs rule: rev_cases)
    case Nil
    have "addr_pred A ?h (addravl s) pr = None"
      by (rule avl_lawsD(8) [OF laws tree]) (use nodes Nil in \<open>simp add: page_nodes_def\<close>)
    then have "free_pages_join A pr s = Inr s"
      by (simp add: free_pages_join_def rd srch)
    then show ?thesis using dom Nil by auto
  next
    case (snoc us p)
    have pred: "addr_pred A ?h (addravl s) pr = Some p"
      by (rule avl_lawsD(7) [OF laws tree]) (use nodes snoc in \<open>simp add: page_nodes_def\<close>)
    obtain q where q: "?h p = Some q" using dom nodes snoc by auto
    have rq: "rd_pr s p = Inr q" using q by (simp add: rd_pr_def)
    have pq: "preg ?h p = (unat (pr_addr q), unat (pr_size q))" using q by (simp add: preg_def)
    have wq: "unat (pr_addr q) + unat (pr_size q) < 2 ^ 32" "unat (pr_addr r) + unat (pr_size r) < 2 ^ 32"
      using wi nodes snoc pq reg rr unfolding page_regions_def by simp_all
    have le: "unat (pr_addr q) + unat (pr_size q) \<le> b"
      using touch snoc pq by simp
    have iff: "pr_addr q + pr_size q = pr_addr r \<longleftrightarrow> unat (pr_addr q) + unat (pr_size q) = b"
      using wq rr by (simp add: word_eq_unat unat_plus_no_wrap)
    show ?thesis
    proof (cases "unat (pr_addr q) + unat (pr_size q) = b")
      case False
      then have "free_pages_join A pr s = Inr s"
        using iff by (simp add: free_pages_join_def rd srch pred rq)
      with False show ?thesis using dom snoc pq by auto
    next
      case True
      let ?q = "q\<lparr>pr_size := pr_size q + pr_size r\<rparr>"
      let ?h2 = "?h(p \<mapsto> ?q)"
      let ?t = "fst (addr_remove A ?h2 (addravl s) (pr_addr r))"
      let ?s' = "s\<lparr>pr_heap := ?h2(pr := None), addravl := ?t\<rparr>"
      have dist: "distinct (us @ p # pr # zs)"
        using srt snoc strict_sorted_iff distinct_map by (metis append_Cons append_assoc append_Nil)
      have k2: "key ?h2 = key ?h" by (auto simp: key_def q)
      have tree2: "tree_ok A ?h2 (addravl s)" using tree by (auto simp: tree_ok_def k2)
      have up: "addr_up A ?t = us @ p # zs"
        using avl_lawsD(5) [OF laws tree2] filter_sorted [OF srt] snoc
        unfolding nodes [unfolded page_nodes_def] k2 kr by simp
      have run: "free_pages_join A pr s = Inr ?s'"
        using True iff by (simp add: free_pages_join_def rd srch pred rq wr_pr_def slab_free_def Let_def)
      have "b + n < 2 ^ 32" using wq(2) rr by simp
      then have "unat (pr_size q + pr_size r) = unat (pr_size q) + n"
        using True rr by (subst unat_plus_no_wrap) auto
      then have "page_regions A ?s' = map (preg ?h) us @ (unat (pr_addr q), unat (pr_size q) + n) # map (preg ?h) zs"
        using dist by (simp add: page_regions_def page_nodes_def up preg_upd preg_upd_None fun_upd_twist)
      moreover have "set (page_nodes A ?s') \<subseteq> dom (pr_heap ?s')"
        using dom nodes snoc dist by (auto simp: page_nodes_def up)
      moreover have "only_pages s ?s'" by (rule only_pagesI2)
      ultimately show ?thesis
        using run snoc pq True by (intro exI [of _ ?s']) auto
    qed
  qed
qed

lemma free_pages_split:
  "free_pages A pageno npages s =
     bind_res (assert_res (addr_search A (pr_heap s) (addravl s) pageno = None)) (\<lambda>_.
     bind_res (free_pages_place A pageno npages s) (\<lambda>(pr, s1). free_pages_join A pr s1))"
  by (simp add: free_pages_def free_pages_join_def)

lemma block_not_present:
  assumes laws: "avl_laws A" and inv: "pages_inv A s" and n: "0 < n"
    and fit: "\<forall>r \<in> set (page_regions A s). fits (unat pageno, n) r"
  shows "addr_search A (pr_heap s) (addravl s) pageno = None"
proof -
  have "key (pr_heap s) q \<noteq> pageno" if "q \<in> set (page_nodes A s)" for q
  proof -
    have m: "preg (pr_heap s) q \<in> set (page_regions A s)" using that by (simp add: page_regions_def)
    then have "nonempty (preg (pr_heap s) q)" using inv by (simp add: pages_inv_def coalesced_def)
    moreover have "fits (unat pageno, n) (preg (pr_heap s) q)" using m fit by blast
    ultimately have "fst (preg (pr_heap s) q) \<noteq> unat pageno"
      using n by (cases "preg (pr_heap s) q") auto
    then show ?thesis by (auto simp: fst_preg)
  qed
  then show ?thesis
    using avl_lawsD(3) [OF laws inv_tree_ok [OF inv]] unfolding page_nodes_def
    by (simp add: find_None_iff)
qed

text \<open>
  A block of \<open>npages\<close> pages that overlaps no free range: \<open>free_pages\<close> passes every
  assertion, joins it with the ranges it touches, and leaves a coalesced tree.
\<close>

lemma free_pages_sim:
  assumes laws: "avl_laws A" and inv: "pages_inv A s"
    and n: "0 < sint npages" and w: "unat pageno + unat npages < 2 ^ 32"
    and fit: "\<forall>r \<in> set (page_regions A s). fits (unat pageno, unat npages) r"
    and slab: "slab_alloc A (pr_heap s) \<noteq> None \<or>
      addr_search A (pr_heap s) (addravl s) (pageno + npages) \<noteq> None"
  shows "\<exists>s'. free_pages A pageno npages s = Inr s' \<and>
    page_regions A s' = free_l (unat pageno, unat npages) (page_regions A s) \<and>
    pages_inv A s' \<and> only_pages s s'"
proof -
  let ?b = "unat pageno" and ?n = "unat npages" and ?rs = "page_regions A s"
  let ?pre = "takeWhile (\<lambda>r. fst r < ?b) ?rs" and ?post = "dropWhile (\<lambda>r. fst r < ?b) ?rs"
  have npos: "0 < ?n" using n by (metis sint_0 unat_gt_0 less_irrefl)
  have co: "coalesced ?rs" and wi: "within (2 ^ 32) ?rs"
    using inv by (simp_all add: pages_inv_def)
  obtain pr s1 xs zs n' where place: "free_pages_place A pageno npages s = Inr (pr, s1)"
    and nodes: "page_nodes A s1 = xs @ pr # zs" and reg: "preg (pr_heap s1) pr = (?b, n')"
    and dom: "set (page_nodes A s1) \<subseteq> dom (pr_heap s1)"
    and lo: "map (preg (pr_heap s1)) xs = ?pre"
    and hi: "map (preg (pr_heap s1)) (pr # zs) = merge1 ((?b, ?n) # ?post)"
    and only: "only_pages s s1"
    using free_pages_place_sim [OF assms] by blast
  have sp: "\<forall>r \<in> set ?pre. fst r + snd r \<le> ?b" "\<forall>r \<in> set ?post. ?b + ?n \<le> fst r"
    using split_at_block [OF co fit npos] by metis+
  have "coalesced (?pre @ ?post)" using co by simp
  then have cx: "coalesced ?pre" and cp: "coalesced ?post" by (simp_all only: coalesced_append)
  have cz: "coalesced (merge1 ((?b, ?n) # ?post))"
    by (rule coalesced_merge1) (use npos cp sp(2) in auto)
  have wz: "within (2 ^ 32) (merge1 ((?b, ?n) # ?post))"
    by (rule merge1_within) (use wi w in \<open>auto simp: within_def dest: set_dropWhileD\<close>)
  have ws: "within (2 ^ 32) (page_regions A s1)"
    using wi wz hi unfolding page_regions_def [of A s1] nodes map_append lo
    by (auto simp: within_def dest: set_takeWhileD)
  have low: "\<forall>q \<in> set xs. fst (preg (pr_heap s1) q) < ?b"
  proof
    fix q assume "q \<in> set xs"
    then have "preg (pr_heap s1) q \<in> set ?pre" unfolding lo [symmetric] by simp
    then show "fst (preg (pr_heap s1) q) < ?b" by (auto dest: set_takeWhileD)
  qed
  have touch: "\<forall>us c l. map (preg (pr_heap s1)) xs = us @ [(c, l)] \<longrightarrow> c + l \<le> ?b"
    using sp(1) unfolding lo by (metis fst_conv snd_conv in_set_conv_decomp)
  obtain s' where run: "free_pages_join A pr s1 = Inr s'" and only': "only_pages s1 s'"
    and dom': "set (page_nodes A s') \<subseteq> dom (pr_heap s')"
    and nil: "xs = [] \<Longrightarrow> page_regions A s' = page_regions A s1"
    and gap: "\<And>us c l. ?pre = us @ [(c, l)] \<Longrightarrow> c + l \<noteq> ?b \<Longrightarrow> page_regions A s' = page_regions A s1"
    and join: "\<And>us c l. ?pre = us @ [(c, l)] \<Longrightarrow> c + l = ?b \<Longrightarrow>
      page_regions A s' = us @ (c, l + n') # map (preg (pr_heap s1)) zs"
    using free_pages_join_sim [OF laws nodes dom low reg cx [folded lo] cz [folded hi] ws touch]
    unfolding lo by blast
  have r1: "page_regions A s1 = ?pre @ (?b, n') # map (preg (pr_heap s1)) zs"
    using reg by (simp add: page_regions_def nodes lo)
  have m: "merge1 ((?b, ?n) # ?post) = (?b, n') # map (preg (pr_heap s1)) zs"
    using hi reg by simp
  have res: "page_regions A s' = free_l (?b, ?n) ?rs"
  proof (cases ?pre rule: rev_cases)
    case Nil
    then have "xs = []" using lo by (metis map_is_Nil_conv)
    with Nil show ?thesis using nil r1 free_l_two_steps(1) [OF co m] by simp
  next
    case (snoc us p)
    obtain c l where "p = (c, l)" by (cases p)
    with snoc have p: "?pre = us @ [(c, l)]" by simp
    show ?thesis
    proof (cases "c + l = ?b")
      case True
      show ?thesis using join [OF p True] free_l_two_steps(2) [OF co m p True] by simp
    next
      case False
      show ?thesis using gap [OF p False] r1 free_l_two_steps(3) [OF co m p False] by simp
    qed
  qed
  have "pages_inv A s'"
    using dom' free_l_coalesced [OF co npos fit] free_l_within [OF wi, of "(?b, ?n)"] w res
    by (simp add: pages_inv_def)
  moreover have "free_pages A pageno npages s = Inr s'"
    using block_not_present [OF laws inv npos fit] place run by (simp add: free_pages_split)
  moreover have "only_pages s s'"
    using only only' by (rule only_pages_trans)
  ultimately show ?thesis using res by blast
qed

text \<open>No node to be had and no higher neighbour to extend: the panic.\<close>

lemma free_pages_no_slab:
  assumes laws: "avl_laws A" and inv: "pages_inv A s" and n: "0 < unat npages"
    and fit: "\<forall>r \<in> set (page_regions A s). fits (unat pageno, unat npages) r"
    and slab: "slab_alloc A (pr_heap s) = None"
      "addr_search A (pr_heap s) (addravl s) (pageno + npages) = None"
  shows "free_pages A pageno npages s = Inl (Panic ''alloc_pages: can't alloc'')"
  using block_not_present [OF laws inv n fit] slab
  by (simp add: free_pages_split free_pages_place_def)

section \<open>memstats\<close>

lemma memstats_loop_sim:
  assumes "set ps \<subseteq> dom h"
  shows "memstats_loop h ps (nodes, pages, largest) =
    Inr (nodes + of_nat (length ps), pages + of_nat (sum_list (map (snd \<circ> preg h) ps)),
      of_nat (fold max (map (snd \<circ> preg h) ps) (unat largest)))"
  using assms
proof (induction ps arbitrary: nodes pages largest)
  case (Cons p ps)
  then obtain r where r: "h p = Some r" by auto
  then have "unat (if largest < pr_size r then pr_size r else largest) =
      max (snd (preg h p)) (unat largest)"
    by (simp add: preg_def word_less_nat_alt max_def)
  with Cons r show ?case by (simp add: preg_def algebra_simps)
qed simp

end
