(* ===== verification/PageLaws.thy ===== *)
theory PageLaws
  imports PageSim
begin

text \<open>
  \<open>alloc_pages\<close>, \<open>free_pages\<close> and \<open>memstats\<close> restated over the list of free ranges
  and the set of free pages (\<open>page_area\<close>), under \<open>avl_laws\<close>.
\<close>

definition page_area :: "'t avl_ops \<Rightarrow> ('t, 'a) vm_scheme \<Rightarrow> nat set" where
  "page_area A s = area (page_regions A s)"

definition memset_ok :: "vm_cfg \<Rightarrow> u32 \<Rightarrow> bool" where
  "memset_ok cfg flags \<longleftrightarrow>
     \<not> flag_set flags (PAF_CLEAR cfg) \<or> sys_memset_rv cfg = (\<lambda>_ _. 0)"

lemma clear_block_returns:
  assumes "memset_ok cfg flags"
  shows "\<exists>m. clear_block cfg flags a n s = Inr (s\<lparr>memsets := m\<rparr>)"
proof (cases "flag_set flags (PAF_CLEAR cfg)")
  case True
  with assms show ?thesis by (auto simp: memset_ok_def clear_block_ok)
next
  case False
  then have "clear_block cfg flags a n s = Inr (s\<lparr>memsets := memsets s\<rparr>)" by simp
  then show ?thesis by blast
qed

lemma flag_set_OR: "flag_set flags (a OR b) \<longleftrightarrow> flag_set flags a \<or> flag_set flags b"
  by (simp add: flag_set_def bit.conj_disj_distrib or_eq_0_iff)

lemma pages_memsets [simp]:
  "page_regions A (s\<lparr>memsets := m\<rparr>) = page_regions A s"
  "page_nodes A (s\<lparr>memsets := m\<rparr>) = page_nodes A s"
  "pages_inv A (s\<lparr>memsets := m\<rparr>) = pages_inv A s"
  by (simp_all add: page_regions_def page_nodes_def pages_inv_def)

text \<open>
  The outcome of \<open>alloc_pages\<close>. Either nothing changed and NO_MEM is returned; without the
  low-memory flags this happens only if no range is large enough. Or \<open>eff\<close> pages were cut
  off the end of a range, the last suitable one when the low-memory flags are off.
\<close>

definition low_flags :: "vm_cfg \<Rightarrow> u32 \<Rightarrow> bool" where
  "low_flags cfg flags \<longleftrightarrow> flag_set flags (PAF_LOWER16MB cfg) \<or> flag_set flags (PAF_LOWER1MB cfg)"

abbreviation first_block :: "vm_cfg \<Rightarrow> u32 \<Rightarrow> bool" where
  "first_block cfg flags \<equiv> flag_set flags (PAF_FIRSTBLOCK cfg)"

lemma alloc_pages_sim:
  assumes laws: "avl_laws A" and inv: "pages_inv A s" and ms: "memset_ok cfg flags"
    and n: "0 < unat pages" and len: "first_block cfg flags \<longrightarrow> has_len"
  shows "(\<exists>l. alloc_pages cfg A pages flags has_len s = Inr (NO_MEM cfg, l, s) \<and>
      (\<not> low_flags cfg flags \<longrightarrow>
        (\<forall>r \<in> set (page_regions A s). snd r < unat pages \<and> \<not> first_block cfg flags))) \<or>
    (\<exists>mem eff s' xs r ys.
      alloc_pages cfg A pages flags has_len s = Inr (mem, if has_len then Some eff else None, s') \<and>
      page_regions A s = xs @ r # ys \<and> page_regions A s' = take_tail (unat eff) xs r ys \<and>
      pages_inv A s' \<and> unat eff = min (unat pages) (snd r) \<and> 0 < unat eff \<and>
      unat mem = fst r + snd r - unat eff \<and> (unat pages \<le> snd r \<or> first_block cfg flags) \<and>
      (\<not> low_flags cfg flags \<longrightarrow> (\<forall>q \<in> set ys. snd q < unat pages)))"
  (is "?none \<or> ?some")
proof -
  let ?h = "pr_heap s" and ?order = "page_order cfg A flags s"
  have order: "?order = (if low_flags cfg flags then page_nodes A s else rev (page_nodes A s))"
    by (simp add: page_order_def low_flags_def flag_set_OR)
  obtain r where scan: "page_scan cfg ?h pages flags ?order = Inr r" and
    cs: "case r of
       Found p \<Rightarrow> \<exists>xs ys. ?order = xs @ p # ys \<and>
         (unat pages \<le> snd (preg ?h p) \<or> first_block cfg flags) \<and>
         (\<forall>q \<in> set xs. snd (preg ?h q) < unat pages) \<and>
         (flag_set flags (PAF_LOWER16MB cfg) \<longrightarrow> key ?h p + pages \<le> boundary16 cfg) \<and>
         (flag_set flags (PAF_LOWER1MB cfg) \<longrightarrow> key ?h p + pages \<le> boundary1 cfg)
     | Refused \<Rightarrow> flag_set flags (PAF_LOWER16MB cfg) \<or> flag_set flags (PAF_LOWER1MB cfg)
     | Exhausted \<Rightarrow> \<forall>q \<in> set ?order. snd (preg ?h q) < unat pages \<and> \<not> first_block cfg flags"
    using page_scan_cases [OF inv_scan [OF inv]] by blast
  have ap: "addr_up A (addravl s) = page_nodes A s" "addr_down A (addravl s) = rev (page_nodes A s)"
    by (simp_all add: page_nodes_def avl_lawsD(2) [OF laws])
  have run: "alloc_pages cfg A pages flags has_len s = Inr (NO_MEM cfg, l, s)"
    if "(r = Refused \<and> l = None) \<or> (r = Exhausted \<and> l = (if has_len then Some 0 else None))" for l
    using that scan unfolding alloc_pages_def ap page_order_def [symmetric] by (auto simp: Let_def)
  show ?thesis
  proof (cases r)
    case Refused
    then show ?thesis using run cs by (auto simp: low_flags_def)
  next
    case Exhausted
    then show ?thesis using run cs by (intro disjI1) (auto simp: page_regions_def)
  next
    case (Found p)
    with cs obtain us vs where p: "?order = us @ p # vs"
      "unat pages \<le> snd (preg ?h p) \<or> first_block cfg flags"
      "\<forall>q \<in> set us. snd (preg ?h q) < unat pages" by auto
    obtain xs ys where nodes: "page_nodes A s = xs @ p # ys"
      and small: "\<not> low_flags cfg flags \<longrightarrow> (\<forall>q \<in> set ys. snd (preg ?h q) < unat pages)"
    proof (cases "low_flags cfg flags")
      case True
      then have "page_nodes A s = us @ p # vs" using p(1) order by simp
      with True show ?thesis using that by blast
    next
      case False
      then have "page_nodes A s = rev vs @ p # rev us" using p(1) order
        by (metis append.assoc append_Cons append_Nil rev.simps(2) rev_append rev_rev_ident)
      then show ?thesis using that p(3) by simp
    qed
    obtain mem eff s1 where f: "unat eff = min (unat pages) (snd (preg ?h p))"
      "unat mem = fst (preg ?h p) + snd (preg ?h p) - unat eff"
      "alloc_pages cfg A pages flags has_len s =
        bind_res (clear_block cfg flags (CLICK_SIZE cfg * mem) (VM_PAGE_SIZE cfg * eff) s1)
          (\<lambda>s2. Inr (mem, if has_len then Some eff else None, s2))"
      "page_regions A s1 = take_tail (unat eff) (map (preg ?h) xs) (preg ?h p) (map (preg ?h) ys)"
      "set (page_nodes A s1) \<subseteq> dom (pr_heap s1)"
      using alloc_pages_found [OF laws inv scan [unfolded Found] nodes p(2) len] by blast
    obtain m where m: "clear_block cfg flags (CLICK_SIZE cfg * mem) (VM_PAGE_SIZE cfg * eff) s1 =
        Inr (s1\<lparr>memsets := m\<rparr>)"
      using clear_block_returns [OF ms] by blast
    have regs: "page_regions A s = map (preg ?h) xs @ preg ?h p # map (preg ?h) ys"
      by (simp add: page_regions_def nodes)
    have co: "coalesced (map (preg ?h) xs @ preg ?h p # map (preg ?h) ys)"
      and wi: "within (2 ^ 32) (map (preg ?h) xs @ preg ?h p # map (preg ?h) ys)"
      using inv unfolding pages_inv_def regs by auto
    have "0 < snd (preg ?h p)"
      using co by (cases "preg ?h p") (auto simp: coalesced_append coalesced_Cons)
    then have pos: "0 < unat eff" using f(1) n by simp
    have "pages_inv A s1"
      using f(5) take_tail_coalesced [OF co] take_tail_within [OF wi] f(1) pos
      unfolding pages_inv_def f(4) by simp
    then show ?thesis
      using f m regs p(2) small pos
      by (intro disjI2 exI [of _ mem] exI [of _ eff] exI [of _ "s1\<lparr>memsets := m\<rparr>"]
          exI [of _ "map (preg ?h) xs"] exI [of _ "preg ?h p"] exI [of _ "map (preg ?h) ys"]) simp
  qed
qed

text \<open>The case of a caller that wants exactly \<open>pages\<close> pages, anywhere.\<close>

lemma alloc_pages_plain:
  assumes laws: "avl_laws A" and inv: "pages_inv A s" and ms: "memset_ok cfg flags"
    and n: "0 < unat pages" and plain: "\<not> low_flags cfg flags" "\<not> first_block cfg flags"
  obtains (none) l where "alloc_pages cfg A pages flags has_len s = Inr (NO_MEM cfg, l, s)"
      "\<forall>r \<in> set (page_regions A s). snd r < unat pages"
  | (some) mem s' xs r ys where
      "alloc_pages cfg A pages flags has_len s = Inr (mem, if has_len then Some pages else None, s')"
      "page_regions A s = xs @ r # ys" "page_regions A s' = take_tail (unat pages) xs r ys"
      "pages_inv A s'" "unat mem = fst r + snd r - unat pages" "unat pages \<le> snd r"
      "\<forall>q \<in> set ys. snd q < unat pages"
proof -
  have len: "first_block cfg flags \<longrightarrow> has_len" using plain by simp
  from alloc_pages_sim [OF laws inv ms n len] show thesis
  proof
    assume "\<exists>l. alloc_pages cfg A pages flags has_len s = Inr (NO_MEM cfg, l, s) \<and>
      (\<not> low_flags cfg flags \<longrightarrow>
        (\<forall>r \<in> set (page_regions A s). snd r < unat pages \<and> \<not> first_block cfg flags))"
    then show thesis using none plain by blast
  next
    assume "\<exists>mem eff s' xs r ys.
      alloc_pages cfg A pages flags has_len s = Inr (mem, if has_len then Some eff else None, s') \<and>
      page_regions A s = xs @ r # ys \<and> page_regions A s' = take_tail (unat eff) xs r ys \<and>
      pages_inv A s' \<and> unat eff = min (unat pages) (snd r) \<and> 0 < unat eff \<and>
      unat mem = fst r + snd r - unat eff \<and> (unat pages \<le> snd r \<or> first_block cfg flags) \<and>
      (\<not> low_flags cfg flags \<longrightarrow> (\<forall>q \<in> set ys. snd q < unat pages))"
    then obtain mem eff s' xs r ys where
      f: "alloc_pages cfg A pages flags has_len s = Inr (mem, if has_len then Some eff else None, s')"
        "page_regions A s = xs @ r # ys" "page_regions A s' = take_tail (unat eff) xs r ys"
        "pages_inv A s'" "unat eff = min (unat pages) (snd r)" "unat mem = fst r + snd r - unat eff"
        "unat pages \<le> snd r" "\<forall>q \<in> set ys. snd q < unat pages"
      using plain by auto
    have "eff = pages" using f(5,7) by (simp add: word_eq_unat)
    with f show thesis by (intro some [of mem s' xs r ys]) simp_all
  qed
qed

end
