(* ===== verification/Allocator.thy ===== *)
theory Allocator
  imports Regions
begin

text \<open>
  The contract shared by the allocators of the repository, as a locale, and what a client
  may conclude from it. A state \<open>s\<close> owns the free units \<open>free s\<close>; \<open>get n s\<close> hands out a
  block of \<open>n\<close> units or the value \<open>no_mem\<close>; \<open>put b n s\<close> takes one back, and may stop with
  the fault \<open>full\<close> when it has no descriptor left for it.

  The client is a sequence of requests. \<open>live\<close> is what it holds at the moment.
\<close>

definition block :: "u32 \<Rightarrow> u32 \<Rightarrow> nat set" where
  "block b n = {unat b..<unat b + unat n}"

datatype req = Get u32 | Put u32 u32

fun serve ::
  "(u32 \<Rightarrow> 's \<Rightarrow> (u32 \<times> 's) res) \<Rightarrow> (u32 \<Rightarrow> u32 \<Rightarrow> 's \<Rightarrow> 's res) \<Rightarrow> u32 \<Rightarrow>
     req list \<Rightarrow> 's \<times> (u32 \<times> u32) list \<Rightarrow> ('s \<times> (u32 \<times> u32) list) res" where
  "serve get put no_mem [] st = Inr st"
| "serve get put no_mem (Get n # rs) (s, live) =
     bind_res (get n s) (\<lambda>(b, s').
     serve get put no_mem rs (s', if b = no_mem then live else (b, n) # live))"
| "serve get put no_mem (Put b n # rs) (s, live) =
     (if (b, n) \<in> set live then
        bind_res (put b n s) (\<lambda>s'. serve get put no_mem rs (s', remove1 (b, n) live))
      else serve get put no_mem rs (s, live))"

definition req_ok :: "(u32 \<Rightarrow> bool) \<Rightarrow> req \<Rightarrow> bool" where
  "req_ok size_ok r = (case r of Get n \<Rightarrow> size_ok n | Put b n \<Rightarrow> True)"

definition live_area :: "(u32 \<times> u32) list \<Rightarrow> nat set" where
  "live_area live = (\<Union>(b, n) \<in> set live. block b n)"

text \<open>The client's blocks overlap neither each other nor the free memory.\<close>

definition apart :: "nat set \<Rightarrow> (u32 \<times> u32) list \<Rightarrow> bool" where
  "apart free live \<longleftrightarrow>
     sorted_wrt (\<lambda>(b, n) (b', n'). block b n \<inter> block b' n' = {}) live \<and>
     live_area live \<inter> free = {}"

lemma live_area_simps [simp]:
  "live_area [] = {}"
  "live_area ((b, n) # live) = block b n \<union> live_area live"
  by (auto simp: live_area_def)

lemma apart_Nil [simp]: "apart free []"
  by (simp add: apart_def)

lemma apart_get:
  "apart free live \<Longrightarrow> block b n \<subseteq> free \<Longrightarrow> apart (free - block b n) ((b, n) # live)"
  by (fastforce simp: apart_def live_area_def)

lemma live_area_remove:
  assumes "apart free live" "(b, n) \<in> set live"
  shows "live_area live = block b n \<union> live_area (remove1 (b, n) live)"
    "block b n \<inter> live_area (remove1 (b, n) live) = {}"
    "block b n \<inter> free = {}"
    "apart (free \<union> block b n) (remove1 (b, n) live)"
proof -
  obtain xs ys where l: "live = xs @ (b, n) # ys" "(b, n) \<notin> set xs"
    by (meson assms(2) split_list_first)
  then have r: "remove1 (b, n) live = xs @ ys" by (simp add: remove1_append)
  show 1: "live_area live = block b n \<union> live_area (remove1 (b, n) live)"
    unfolding r unfolding l(1) live_area_def by auto
  show 2: "block b n \<inter> live_area (remove1 (b, n) live) = {}"
  proof -
    have "\<forall>x \<in> set xs. case x of (c, m) \<Rightarrow> block c m \<inter> block b n = {}"
      and "\<forall>y \<in> set ys. case y of (c, m) \<Rightarrow> block b n \<inter> block c m = {}"
      using assms(1) unfolding apart_def l(1) by (auto simp: sorted_wrt_append)
    then show ?thesis unfolding r live_area_def by fastforce
  qed
  show 3: "block b n \<inter> free = {}"
    using assms(1) unfolding apart_def 1 by blast
  have "live_area (xs @ ys) \<inter> (free \<union> block b n) = {}"
    using assms(1) 2 unfolding apart_def 1 r by blast
  moreover have "sorted_wrt (\<lambda>(b, n) (b', n'). block b n \<inter> block b' n' = {}) (xs @ ys)"
    using assms(1) unfolding apart_def l(1) by (auto simp: sorted_wrt_append)
  ultimately show "apart (free \<union> block b n) (remove1 (b, n) live)"
    unfolding r apart_def by blast
qed

locale region_allocator =
  fixes inv :: "'s \<Rightarrow> bool"
    and free :: "'s \<Rightarrow> nat set"
    and get :: "u32 \<Rightarrow> 's \<Rightarrow> (u32 \<times> 's) res"
    and put :: "u32 \<Rightarrow> u32 \<Rightarrow> 's \<Rightarrow> 's res"
    and size_ok :: "u32 \<Rightarrow> bool"
    and no_mem :: u32
    and full :: fault
  assumes get_law: "inv s \<Longrightarrow> size_ok n \<Longrightarrow> \<exists>b s'. get n s = Inr (b, s') \<and> inv s' \<and>
      (if b = no_mem then free s' = free s \<and> (\<forall>c. \<not> block c n \<subseteq> free s)
       else block b n \<subseteq> free s \<and> free s' = free s - block b n \<and> unat b + unat n < 2 ^ 32)"
    and put_law: "inv s \<Longrightarrow> size_ok n \<Longrightarrow> unat b + unat n < 2 ^ 32 \<Longrightarrow>
      unat no_mem \<notin> block b n \<Longrightarrow> block b n \<inter> free s = {} \<Longrightarrow>
      put b n s = Inl full \<or>
      (\<exists>s'. put b n s = Inr s' \<and> inv s' \<and> free s' = free s \<union> block b n)"
    and no_mem_not_free: "inv s \<Longrightarrow> unat no_mem \<notin> free s"
begin

text \<open>What holds between requests, \<open>whole\<close> being all memory there is.\<close>

definition account :: "nat set \<Rightarrow> 's \<times> (u32 \<times> u32) list \<Rightarrow> bool" where
  "account whole st \<longleftrightarrow> (case st of (s, live) \<Rightarrow>
     inv s \<and> apart (free s) live \<and> free s \<union> live_area live = whole \<and> unat no_mem \<notin> whole \<and>
     (\<forall>(b, n) \<in> set live. size_ok n \<and> unat b + unat n < 2 ^ 32))"

lemma account_start: "inv s \<Longrightarrow> account (free s) (s, [])"
  by (simp add: account_def no_mem_not_free)

lemma account_get:
  assumes "account whole (s, live)" "size_ok n"
  shows "\<exists>b s'. get n s = Inr (b, s') \<and> account whole (s', if b = no_mem then live else (b, n) # live)"
proof -
  from assms have "inv s" by (simp add: account_def)
  from get_law [OF this assms(2)] obtain b s' where g: "get n s = Inr (b, s')" "inv s'"
    "if b = no_mem then free s' = free s \<and> (\<forall>c. \<not> block c n \<subseteq> free s)
     else block b n \<subseteq> free s \<and> free s' = free s - block b n \<and> unat b + unat n < 2 ^ 32"
    by blast
  have "account whole (s', if b = no_mem then live else (b, n) # live)"
  proof (cases "b = no_mem")
    case True
    with g assms show ?thesis by (simp add: account_def)
  next
    case False
    with g have f: "block b n \<subseteq> free s" "free s' = free s - block b n" "unat b + unat n < 2 ^ 32"
      by auto
    have "apart (free s') ((b, n) # live)"
      using assms(1) f by (simp add: account_def apart_get)
    moreover have "free s' \<union> live_area ((b, n) # live) = whole"
      using assms(1) f by (auto simp: account_def)
    ultimately show ?thesis using False g(2) f(3) assms by (simp add: account_def)
  qed
  with g(1) show ?thesis by blast
qed

lemma account_put:
  assumes acc: "account whole (s, live)" and held: "(b, n) \<in> set live"
  shows "put b n s = Inl full \<or>
    (\<exists>s'. put b n s = Inr s' \<and> account whole (s', remove1 (b, n) live))"
proof -
  from acc have a: "inv s" "apart (free s) live" "free s \<union> live_area live = whole"
    "unat no_mem \<notin> whole" "size_ok n" "unat b + unat n < 2 ^ 32"
    using held by (auto simp: account_def)
  note R = live_area_remove [OF a(2) held]
  have "unat no_mem \<notin> block b n" using a(3,4) R(1) by auto
  from put_law [OF a(1,5,6) this R(3)] consider "put b n s = Inl full"
    | s' where "put b n s = Inr s'" "inv s'" "free s' = free s \<union> block b n" by blast
  then show ?thesis
  proof cases
    case 2
    have "free s' \<union> live_area (remove1 (b, n) live) = whole" using 2(3) R(1) a(3) by auto
    moreover have "\<forall>(b, n) \<in> set (remove1 (b, n) live). size_ok n \<and> unat b + unat n < 2 ^ 32"
      using acc set_remove1_subset by (fastforce simp: account_def)
    ultimately show ?thesis using 2 R(4) a(4) by (simp add: account_def)
  qed simp
qed

lemma serve_account:
  assumes "account whole st" "\<forall>r \<in> set rs. req_ok size_ok r"
  shows "serve get put no_mem rs st = Inl full \<or>
    (\<exists>st'. serve get put no_mem rs st = Inr st' \<and> account whole st')"
  using assms
proof (induction rs arbitrary: st)
  case (Cons r rs)
  obtain s live where st: "st = (s, live)" by (cases st)
  have rs: "\<forall>r \<in> set rs. req_ok size_ok r" using Cons.prems by simp
  show ?case
  proof (cases r)
    case (Get n)
    then have "size_ok n" using Cons.prems by (simp add: req_ok_def)
    from account_get [OF Cons.prems(1) [unfolded st] this] obtain b s' where
      g: "get n s = Inr (b, s')" "account whole (s', if b = no_mem then live else (b, n) # live)"
      by blast
    from Cons.IH [OF g(2) rs] show ?thesis by (simp add: st Get g(1))
  next
    case (Put b n)
    show ?thesis
    proof (cases "(b, n) \<in> set live")
      case False
      then show ?thesis using Cons.IH [OF Cons.prems(1) rs] by (simp add: st Put)
    next
      case True
      from account_put [OF Cons.prems(1) [unfolded st] True] consider "put b n s = Inl full"
        | s' where "put b n s = Inr s'" "account whole (s', remove1 (b, n) live)" by blast
      then show ?thesis
      proof cases
        case 2
        from Cons.IH [OF 2(2) rs] show ?thesis using True by (simp add: st Put 2(1))
      qed (simp add: st Put True)
    qed
  qed
qed auto

end

end
