(* ===== verification/VmAlloc.thy ===== *)
theory VmAlloc
  imports Sanity PageLaws Allocator
begin

text \<open>
  The entry points of minix/alloc.c: \<open>alloc_mem\<close>, \<open>free_mem\<close> and \<open>mem_init\<close>, over the hole
  table (\<open>vm_paged\<close> off) or the page tree (\<open>vm_paged\<close> on). \<open>free_yielded\<close>, defined in
  another file of the VM server, is a parameter: it may change the state and returns the
  number of bytes it freed.
\<close>

section \<open>free\_mem and alloc\_mem\<close>

definition free_mem ::
  "vm_cfg \<Rightarrow> 't avl_ops \<Rightarrow> u32 \<Rightarrow> u32 \<Rightarrow> ('t, 'a) vm_scheme \<Rightarrow> ('t, 'a) vm_scheme res" where
  "free_mem cfg A base clicks s =
     (if clicks = 0 then Inr s
      else if vm_paged cfg then
        bind_res (assert_res (CLICK_SIZE cfg = VM_PAGE_SIZE cfg)) (\<lambda>_. free_pages A base clicks s)
      else hole_free base clicks s)"

definition align_clicks :: "vm_cfg \<Rightarrow> u32 \<Rightarrow> u32" where
  "align_clicks cfg memflags =
     (if flag_set memflags (PAF_ALIGN64K cfg) then 64 * 1024 div CLICK_SIZE cfg else 0)"

definition alloc_mem ::
  "vm_cfg \<Rightarrow> 't avl_ops \<Rightarrow> (u32 \<Rightarrow> ('t, 'a) vm_scheme \<Rightarrow> ('t, 'a) vm_scheme \<times> u32) \<Rightarrow>
     u32 \<Rightarrow> u32 \<Rightarrow> ('t, 'a) vm_scheme \<Rightarrow> (u32 \<times> ('t, 'a) vm_scheme) res" where
  "alloc_mem cfg A free_yielded clicks0 memflags s =
     (let align = align_clicks cfg memflags; clicks = clicks0 + align in
      bind_res
        (if vm_paged cfg then
           bind_res (alloc_pages cfg A clicks memflags False s) (\<lambda>(mem, _, s1).
           if mem = NO_MEM cfg then
             bind_res (alloc_pages cfg A clicks memflags False (fst (free_yielded (clicks * CLICK_SIZE cfg) s1)))
               (\<lambda>(mem, _, s2). Inr (mem, s2))
           else Inr (mem, s1))
         else hole_alloc cfg clicks memflags s) (\<lambda>(mem, s1).
      if mem = NO_MEM cfg then Inr (mem, s1)
      else if align \<noteq> 0 then
        (let off = mem mod align in
         if 0 < off then
           (let e = align - off in
            bind_res (free_mem cfg A mem e s1) (\<lambda>s2. Inr (mem + e, s2)))
         else Inr (mem, s1))
      else Inr (mem, s1)))"

section \<open>mem\_init\<close>

record memory =
  chunk_base :: u32
  chunk_size :: u32

definition CLICK2ABS :: "vm_cfg \<Rightarrow> u32 \<Rightarrow> u32" where
  "CLICK2ABS cfg v = v * CLICK_SIZE cfg"

fun init_chunks ::
  "vm_cfg \<Rightarrow> 't avl_ops \<Rightarrow> bool \<Rightarrow> memory list \<Rightarrow> ('t, 'a) vm_scheme \<Rightarrow> ('t, 'a) vm_scheme res" where
  "init_chunks cfg A first [] s = Inr s"
| "init_chunks cfg A first (c # cs) s =
     (if 0 < chunk_size c then
        (let from_a = CLICK2ABS cfg (chunk_base c);
             to_a = CLICK2ABS cfg (chunk_base c + chunk_size c) - 1;
             s1 = (if first \<or> from_a < mem_low s then s\<lparr>mem_low := from_a\<rparr> else s);
             s2 = (if first \<or> mem_high s1 < to_a then s1\<lparr>mem_high := to_a\<rparr> else s1) in
         bind_res (free_mem cfg A (chunk_base c) (chunk_size c) s2) (\<lambda>s3.
         init_chunks cfg A False cs (s3\<lparr>total_pages := total_pages s3 + chunk_size c\<rparr>)))
      else init_chunks cfg A first cs s)"

text \<open>The array of chunks is traversed from its last element down.\<close>

definition empty_table :: "nat \<Rightarrow> hole list \<Rightarrow> hole list" where
  "empty_table n hs = map (\<lambda>i. (hs ! i)\<lparr>
     h_next := (if Suc i = n then None else Some (Suc i)), h_base := 0, h_len := 0\<rparr>) [0..<n]"

definition mem_init ::
  "vm_cfg \<Rightarrow> 't avl_ops \<Rightarrow> memory list \<Rightarrow> ('t, 'a) vm_scheme \<Rightarrow> ('t, 'a) vm_scheme res" where
  "mem_init cfg A chunks s =
     init_chunks cfg A False (rev chunks)
       (s\<lparr>hole_tab := empty_table (length (hole_tab s)) (hole_tab s), hole_head := None,
          free_slots := Some 0, addravl := addr_init A, total_pages := 0\<rparr>)"

section \<open>The hole branch\<close>

lemma within_area: "within k rs \<Longrightarrow> x \<in> area rs \<Longrightarrow> x + 1 < k"
  by (fastforce simp: within_def area_def)

lemma area_disjoint_fits:
  assumes "hole_inv s" "0 < unat n" "block b n \<inter> hole_area s = {}"
  shows "\<forall>r \<in> set (hole_regions s). fits (unat b, unat n) r"
  using assms area_fits [OF hole_invD(2) [OF assms(1)]]
  by (simp add: block_def hole_area_def)

text \<open>\<open>free_mem\<close> with the table not full.\<close>

lemma hole_free_mem:
  assumes "hole_inv s" "\<not> vm_paged cfg" "0 < clicks" "free_slots s \<noteq> None"
    "unat base + unat clicks < 2 ^ 32" "block base clicks \<inter> hole_area s = {}"
  shows "\<exists>s'. free_mem cfg A base clicks s = Inr s' \<and> hole_inv s' \<and>
    hole_regions s' = free_l (unat base, unat clicks) (hole_regions s) \<and>
    hole_area s' = hole_area s \<union> block base clicks \<and>
    only_holes s s' \<and> length (slot_list s) \<le> Suc (length (slot_list s'))"
proof -
  have n: "0 < unat clicks" using assms(3) by (simp add: word_less_nat_alt)
  obtain s' where s': "hole_free base clicks s = Inr s'" "hole_inv s'"
    "hole_regions s' = free_l (unat base, unat clicks) (hole_regions s)" "only_holes s s'"
    "length (slot_list s) \<le> Suc (length (slot_list s'))"
    using hole_free_inv [OF assms(1,4) n assms(5) area_disjoint_fits [OF assms(1) n assms(6)]] by blast
  have "hole_area s' = hole_area s \<union> block base clicks"
    by (auto simp: hole_area_def s'(3) free_l_area block_def)
  moreover have "clicks \<noteq> 0" using assms(3) by simp
  ultimately show ?thesis using s' assms(2) by (simp add: free_mem_def)
qed

lemma hole_free_mem_full:
  assumes "hole_inv s" "\<not> vm_paged cfg" "0 < clicks" "free_slots s = None"
  shows "free_mem cfg A base clicks s = Inl (Panic ''hole table full'')"
  using assms by (simp add: free_mem_def hole_free_def)

text \<open>The search and the cut of \<open>alloc_mem\<close>, the clearing included.\<close>

lemma hole_alloc_cases:
  assumes inv: "hole_inv s" and n: "0 < unat clicks" and ms: "memset_ok cfg flags"
  shows "hole_alloc cfg clicks flags s = Inr (NO_MEM cfg, s) \<and>
      (\<forall>r \<in> set (hole_regions s). snd r < unat clicks) \<or>
    (\<exists>b s' rs'. hole_alloc cfg clicks flags s = Inr (b, s') \<and>
      alloc_l (unat clicks) (hole_regions s) = Some (unat b, rs') \<and>
      hole_inv s' \<and> hole_regions s' = rs' \<and> length (slot_list s) \<le> length (slot_list s'))"
proof (cases "alloc_l (unat clicks) (hole_regions s)")
  case None
  with hole_alloc_none [OF hole_invD(1) [OF inv], of clicks cfg flags] show ?thesis
    by (simp add: hole_regions_def alloc_l_None)
next
  case (Some a)
  obtain m rs' where a: "a = (m, rs')" by (cases a)
  from hole_alloc_inv [OF inv n Some [unfolded a], of cfg flags]
  obtain b s' where s': "unat b = m" "hole_alloc cfg clicks flags s =
      bind_res (clear_block cfg flags (CLICK_SIZE cfg * b) (CLICK_SIZE cfg * clicks) s')
        (\<lambda>s3. Inr (b, s3))" "hole_inv s'" "hole_regions s' = rs'"
    "length (slot_list s) \<le> length (slot_list s')" by blast
  obtain m' where "clear_block cfg flags (CLICK_SIZE cfg * b) (CLICK_SIZE cfg * clicks) s' =
      Inr (s'\<lparr>memsets := m'\<rparr>)"
    using clear_block_returns [OF ms] by blast
  with s' Some a show ?thesis
    by (intro disjI2 exI [of _ b] exI [of _ "s'\<lparr>memsets := m'\<rparr>"] exI [of _ rs']) simp
qed

lemma hole_alloc_area:
  assumes inv: "hole_inv s" and n: "0 < unat clicks" and ms: "memset_ok cfg flags"
    and nm: "unat (NO_MEM cfg) \<notin> hole_area s"
  shows "\<exists>b s'. hole_alloc cfg clicks flags s = Inr (b, s') \<and> hole_inv s' \<and>
    length (slot_list s) \<le> length (slot_list s') \<and>
    (if b = NO_MEM cfg then s' = s \<and> (\<forall>c. \<not> block c clicks \<subseteq> hole_area s)
     else block b clicks \<subseteq> hole_area s \<and> hole_area s' = hole_area s - block b clicks \<and>
       unat b + unat clicks < 2 ^ 32)"
  using hole_alloc_cases [OF inv n ms]
proof
  assume none: "hole_alloc cfg clicks flags s = Inr (NO_MEM cfg, s) \<and>
      (\<forall>r \<in> set (hole_regions s). snd r < unat clicks)"
  have "\<not> block c clicks \<subseteq> hole_area s" for c
    using none block_in_region [OF hole_invD(2) [OF inv] n, of "unat c"]
    unfolding block_def hole_area_def by fastforce
  with none inv show ?thesis by simp
next
  assume "\<exists>b s' rs'. hole_alloc cfg clicks flags s = Inr (b, s') \<and>
      alloc_l (unat clicks) (hole_regions s) = Some (unat b, rs') \<and>
      hole_inv s' \<and> hole_regions s' = rs' \<and> length (slot_list s) \<le> length (slot_list s')"
  then obtain b s' where s': "hole_alloc cfg clicks flags s = Inr (b, s')"
      "alloc_l (unat clicks) (hole_regions s) = Some (unat b, hole_regions s')"
      "hole_inv s'" "length (slot_list s) \<le> length (slot_list s')" by blast
  note ar = alloc_l_area [OF s'(2) hole_invD(2) [OF inv]]
  have sub: "block b clicks \<subseteq> hole_area s" using ar by (simp add: block_def hole_area_def)
  have "unat b \<in> block b clicks" using n by (simp add: block_def)
  then have "b \<noteq> NO_MEM cfg" using sub nm by auto
  moreover have "hole_area s' = hole_area s - block b clicks"
    using ar by (simp add: block_def hole_area_def)
  moreover have "unat b + unat clicks < 2 ^ 32"
  proof -
    have "unat b + unat clicks - 1 \<in> block b clicks" using n by (auto simp: block_def)
    then have "unat b + unat clicks - 1 \<in> area (hole_regions s)"
      using sub by (auto simp: hole_area_def)
    then show ?thesis using within_area [OF hole_invD(3) [OF inv]] n by fastforce
  qed
  ultimately show ?thesis using s' sub by auto
qed

section \<open>The contract, for first fit\<close>

lemma align_off [simp]: "\<not> flag_set flags (PAF_ALIGN64K cfg) \<Longrightarrow> align_clicks cfg flags = 0"
  by (simp add: align_clicks_def)

lemma alloc_mem_holes:
  assumes "\<not> vm_paged cfg" "align_clicks cfg flags = 0"
  shows "alloc_mem cfg A fy clicks flags s = hole_alloc cfg clicks flags s"
  using assms by (cases "hole_alloc cfg clicks flags s") (auto simp: alloc_mem_def Let_def)

definition holes_ready :: "vm_cfg \<Rightarrow> u32 \<Rightarrow> 'a holes_scheme \<Rightarrow> bool" where
  "holes_ready cfg flags s \<longleftrightarrow> hole_inv s \<and> \<not> vm_paged cfg \<and> memset_ok cfg flags \<and>
     align_clicks cfg flags = 0 \<and> unat (NO_MEM cfg) \<notin> hole_area s"

lemma holes_get_law:
  assumes "holes_ready cfg flags s" "n \<noteq> 0"
  shows "\<exists>b s'. alloc_mem cfg A fy n flags s = Inr (b, s') \<and> holes_ready cfg flags s' \<and>
    (if b = NO_MEM cfg then hole_area s' = hole_area s \<and> (\<forall>c. \<not> block c n \<subseteq> hole_area s)
     else block b n \<subseteq> hole_area s \<and> hole_area s' = hole_area s - block b n \<and>
       unat b + unat n < 2 ^ 32)"
proof -
  have n: "0 < unat n" using assms(2) by (simp add: unat_gt_0)
  from hole_alloc_area [OF _ n, of s cfg flags] assms(1)
  obtain b s' where "hole_alloc cfg n flags s = Inr (b, s')" "hole_inv s'"
    "if b = NO_MEM cfg then s' = s \<and> (\<forall>c. \<not> block c n \<subseteq> hole_area s)
     else block b n \<subseteq> hole_area s \<and> hole_area s' = hole_area s - block b n \<and>
       unat b + unat n < 2 ^ 32"
    by (auto simp: holes_ready_def)
  then show ?thesis
    using assms(1)
    by (intro exI [of _ b] exI [of _ s']) (auto simp: holes_ready_def alloc_mem_holes split: if_splits)
qed

lemma holes_put_law:
  assumes "holes_ready cfg flags s" "n \<noteq> 0" "unat b + unat n < 2 ^ 32"
    "unat (NO_MEM cfg) \<notin> block b n" "block b n \<inter> hole_area s = {}"
  shows "free_mem cfg A b n s = Inl (Panic ''hole table full'') \<or>
    (\<exists>s'. free_mem cfg A b n s = Inr s' \<and> holes_ready cfg flags s' \<and>
       hole_area s' = hole_area s \<union> block b n)"
proof (cases "free_slots s = None")
  case True
  then show ?thesis using assms hole_free_mem_full [of s cfg n A b]
    by (simp add: holes_ready_def word_gt_0)
next
  case False
  then show ?thesis using assms hole_free_mem [of s cfg n b A]
    by (auto simp: holes_ready_def word_gt_0)
qed

interpretation first_fit_alloc: region_allocator
  "holes_ready cfg flags" hole_area "\<lambda>n. alloc_mem cfg A fy n flags"
  "free_mem cfg A" "\<lambda>n. n \<noteq> 0" "NO_MEM cfg" "Panic ''hole table full''"
  for cfg flags A fy
proof unfold_locales
  show "\<exists>b s'. alloc_mem cfg A fy n flags s = Inr (b, s') \<and> holes_ready cfg flags s' \<and>
    (if b = NO_MEM cfg then hole_area s' = hole_area s \<and> (\<forall>c. \<not> block c n \<subseteq> hole_area s)
     else block b n \<subseteq> hole_area s \<and> hole_area s' = hole_area s - block b n \<and>
       unat b + unat n < 2 ^ 32)"
    if "holes_ready cfg flags s" "n \<noteq> 0" for s n
    using that by (rule holes_get_law)
  show "free_mem cfg A b n s = Inl (Panic ''hole table full'') \<or>
    (\<exists>s'. free_mem cfg A b n s = Inr s' \<and> holes_ready cfg flags s' \<and>
       hole_area s' = hole_area s \<union> block b n)"
    if "holes_ready cfg flags s" "n \<noteq> 0" "unat b + unat n < 2 ^ 32"
      "unat (NO_MEM cfg) \<notin> block b n" "block b n \<inter> hole_area s = {}" for s n b
    using that by (rule holes_put_law)
qed (simp add: holes_ready_def)

section \<open>The contract, for the page tree\<close>

definition get_pages ::
  "vm_cfg \<Rightarrow> 't avl_ops \<Rightarrow> u32 \<Rightarrow> u32 \<Rightarrow> ('t, 'a) vm_scheme \<Rightarrow> (u32 \<times> ('t, 'a) vm_scheme) res" where
  "get_pages cfg A flags n s =
     bind_res (alloc_pages cfg A n flags False s) (\<lambda>(b, _, s'). Inr (b, s'))"

definition pages_ready :: "vm_cfg \<Rightarrow> 't avl_ops \<Rightarrow> u32 \<Rightarrow> ('t, 'a) vm_scheme \<Rightarrow> bool" where
  "pages_ready cfg A flags s \<longleftrightarrow> avl_laws A \<and> pages_inv A s \<and> memset_ok cfg flags \<and>
     \<not> low_flags cfg flags \<and> \<not> first_block cfg flags \<and> unat (NO_MEM cfg) \<notin> page_area A s"

lemma sint_pos_unat: "0 < sint (n :: u32) \<Longrightarrow> 0 < unat n"
  by (metis sint_0 unat_gt_0 less_irrefl)

lemma pages_get_law:
  assumes ready: "pages_ready cfg A flags s" and n: "0 < sint n"
  shows "\<exists>b s'. get_pages cfg A flags n s = Inr (b, s') \<and> pages_ready cfg A flags s' \<and>
    (if b = NO_MEM cfg then page_area A s' = page_area A s \<and> (\<forall>c. \<not> block c n \<subseteq> page_area A s)
     else block b n \<subseteq> page_area A s \<and> page_area A s' = page_area A s - block b n \<and>
       unat b + unat n < 2 ^ 32)"
proof -
  have r: "avl_laws A" "pages_inv A s" "memset_ok cfg flags" "\<not> low_flags cfg flags"
    "\<not> first_block cfg flags" "unat (NO_MEM cfg) \<notin> page_area A s"
    using ready by (simp_all add: pages_ready_def)
  have npos: "0 < unat n" by (rule sint_pos_unat [OF n])
  have co: "coalesced (page_regions A s)" and wi: "within (2 ^ 32) (page_regions A s)"
    using r(2) by (simp_all add: pages_inv_def)
  show ?thesis
  proof (cases rule: alloc_pages_plain [OF r(1-3) npos r(4,5), of False, case_names none some])
    case (none l)
    have "\<not> block c n \<subseteq> page_area A s" for c
      using none block_in_region [OF co npos, of "unat c"]
      unfolding block_def page_area_def by fastforce
    with none ready show ?thesis by (simp add: get_pages_def)
  next
    case (some mem s' xs q ys)
    note ta = take_tail_area [OF co [unfolded some(2)] some(6)]
    have m: "unat mem = fst q + snd q - unat n" "unat mem + unat n = fst q + snd q"
      using some(5,6) by simp_all
    have sub: "block mem n \<subseteq> page_area A s"
      and area': "page_area A s' = page_area A s - block mem n"
      using ta unfolding block_def page_area_def some(2) some(3) m(1) by auto
    have "unat mem \<in> block mem n" using npos by (simp add: block_def)
    then have "mem \<noteq> NO_MEM cfg" using sub r(6) by auto
    moreover have "unat mem + unat n < 2 ^ 32" using wi m(2) unfolding some(2) by simp
    moreover have "pages_ready cfg A flags s'"
      using r some(4) area' by (simp add: pages_ready_def)
    ultimately show ?thesis using some(1) sub area' by (simp add: get_pages_def)
  qed
qed

lemma pages_put_law:
  assumes ready: "pages_ready cfg A flags s" and n: "0 < sint n" and w: "unat b + unat n < 2 ^ 32"
    and nm: "unat (NO_MEM cfg) \<notin> block b n" and disj: "block b n \<inter> page_area A s = {}"
  shows "free_pages A b n s = Inl (Panic ''alloc_pages: can't alloc'') \<or>
    (\<exists>s'. free_pages A b n s = Inr s' \<and> pages_ready cfg A flags s' \<and>
       page_area A s' = page_area A s \<union> block b n)"
proof -
  have r: "avl_laws A" "pages_inv A s" using ready by (simp_all add: pages_ready_def)
  have npos: "0 < unat n" by (rule sint_pos_unat [OF n])
  have co: "coalesced (page_regions A s)" using r(2) by (simp add: pages_inv_def)
  have fit: "\<forall>q \<in> set (page_regions A s). fits (unat b, unat n) q"
    using disj area_fits [OF co npos, of "unat b"] by (simp add: block_def page_area_def)
  show ?thesis
  proof (cases "slab_alloc A (pr_heap s) = None \<and>
      addr_search A (pr_heap s) (addravl s) (b + n) = None")
    case True
    then show ?thesis using free_pages_no_slab [OF r npos fit] by simp
  next
    case False
    then obtain s' where s': "free_pages A b n s = Inr s'"
      "page_regions A s' = free_l (unat b, unat n) (page_regions A s)" "pages_inv A s'"
      using free_pages_sim [OF r n w fit] by blast
    have "page_area A s' = page_area A s \<union> block b n"
      by (auto simp: page_area_def s'(2) free_l_area block_def)
    with s' ready nm show ?thesis by (auto simp: pages_ready_def)
  qed
qed

interpretation page_tree_alloc: region_allocator
  "pages_ready cfg A flags" "page_area A" "get_pages cfg A flags" "free_pages A"
  "\<lambda>n. 0 < sint n" "NO_MEM cfg" "Panic ''alloc_pages: can't alloc''"
  for cfg A flags
proof unfold_locales
  show "\<exists>b s'. get_pages cfg A flags n s = Inr (b, s') \<and> pages_ready cfg A flags s' \<and>
    (if b = NO_MEM cfg then page_area A s' = page_area A s \<and> (\<forall>c. \<not> block c n \<subseteq> page_area A s)
     else block b n \<subseteq> page_area A s \<and> page_area A s' = page_area A s - block b n \<and>
       unat b + unat n < 2 ^ 32)"
    if "pages_ready cfg A flags s" "0 < sint n" for s n
    using that by (rule pages_get_law)
  show "free_pages A b n s = Inl (Panic ''alloc_pages: can't alloc'') \<or>
    (\<exists>s'. free_pages A b n s = Inr s' \<and> pages_ready cfg A flags s' \<and>
       page_area A s' = page_area A s \<union> block b n)"
    if "pages_ready cfg A flags s" "0 < sint n" "unat b + unat n < 2 ^ 32"
      "unat (NO_MEM cfg) \<notin> block b n" "block b n \<inter> page_area A s = {}" for s n b
    using that by (rule pages_put_law)
qed (simp add: pages_ready_def)

end
