(* ===== verification/VmInit.thy ===== *)
theory VmInit
  imports VmAlloc
begin

text \<open>
  \<open>mem_init\<close>: the hole table it builds, and what it records as the bounds of memory.
\<close>

lemma vm_fields [simp]:
  "hole_inv (s\<lparr>mem_low := a\<rparr>) = hole_inv s" "hole_inv (s\<lparr>mem_high := a\<rparr>) = hole_inv s"
  "hole_inv (s\<lparr>total_pages := a\<rparr>) = hole_inv s"
  "hole_regions (s\<lparr>mem_low := a\<rparr>) = hole_regions s" "hole_regions (s\<lparr>mem_high := a\<rparr>) = hole_regions s"
  "hole_regions (s\<lparr>total_pages := a\<rparr>) = hole_regions s"
  "slot_list (s\<lparr>mem_low := a\<rparr>) = slot_list s" "slot_list (s\<lparr>mem_high := a\<rparr>) = slot_list s"
  "slot_list (s\<lparr>total_pages := a\<rparr>) = slot_list s"
  by (rule hole_inv_eq; simp)+

lemma vm_area [simp]:
  "hole_area (s\<lparr>mem_low := a\<rparr>) = hole_area s" "hole_area (s\<lparr>mem_high := a\<rparr>) = hole_area s"
  "hole_area (s\<lparr>total_pages := a\<rparr>) = hole_area s"
  by (simp_all add: hole_area_def)

lemma only_holes_vm: "only_holes s s' \<Longrightarrow> mem_low s' = mem_low s \<and> mem_high s' = mem_high s \<and>
    total_pages s' = total_pages s \<and> addravl s' = addravl s \<and> pr_heap s' = pr_heap s"
  by (auto simp: only_holes_def)

definition chunk_block :: "memory \<Rightarrow> nat set" where
  "chunk_block c = block (chunk_base c) (chunk_size c)"

definition chunk_ok :: "memory \<Rightarrow> bool" where
  "chunk_ok c \<longleftrightarrow> unat (chunk_base c) + unat (chunk_size c) < 2 ^ 32"

definition chunks_apart :: "memory list \<Rightarrow> bool" where
  "chunks_apart cs \<longleftrightarrow> sorted_wrt (\<lambda>c d. chunk_block c \<inter> chunk_block d = {}) cs"

lemma chunk_block_empty [simp]: "chunk_size c = 0 \<Longrightarrow> chunk_block c = {}"
  by (simp add: chunk_block_def block_def)

lemma init_chunks_holes:
  assumes "hole_inv s" "\<not> vm_paged cfg" "\<forall>c \<in> set cs. chunk_ok c" "chunks_apart cs"
    and "\<forall>c \<in> set cs. chunk_block c \<inter> hole_area s = {}"
    and "length (filter (\<lambda>c. 0 < chunk_size c) cs) \<le> length (slot_list s)"
  shows "\<exists>s'. init_chunks cfg A first cs s = Inr s' \<and> hole_inv s' \<and>
    hole_area s' = hole_area s \<union> (\<Union>c \<in> set cs. chunk_block c) \<and>
    total_pages s' = total_pages s + sum_list (map chunk_size cs) \<and>
    (\<not> first \<longrightarrow> mem_low s = 0 \<longrightarrow> mem_low s' = 0)"
  using assms
proof (induction cs arbitrary: first s)
  case (Cons c cs)
  show ?case
  proof (cases "0 < chunk_size c")
    case False
    then have z: "chunk_size c = 0" by (simp add: word_gt_0)
    with Cons.prems have "chunks_apart cs" by (simp add: chunks_apart_def)
    from Cons.IH [OF Cons.prems(1,2) _ this, of first] Cons.prems z show ?thesis by simp
  next
    case True
    define s1 where "s1 = (if first \<or> CLICK2ABS cfg (chunk_base c) < mem_low s
      then s\<lparr>mem_low := CLICK2ABS cfg (chunk_base c)\<rparr> else s)"
    define s2 where "s2 = (if first \<or> mem_high s1 < CLICK2ABS cfg (chunk_base c + chunk_size c) - 1
      then s1\<lparr>mem_high := CLICK2ABS cfg (chunk_base c + chunk_size c) - 1\<rparr> else s1)"
    have s2: "hole_inv s2" "hole_area s2 = hole_area s" "slot_list s2 = slot_list s"
      "total_pages s2 = total_pages s"
      using Cons.prems(1) by (simp_all add: s2_def s1_def)
    have "slot_list s2 \<noteq> []" using Cons.prems(6) True s2(3) by auto
    then have slot: "free_slots s2 \<noteq> None"
      using slot_list_Nil [of s2] s2(1) by (simp add: hole_inv_def)
    have w: "unat (chunk_base c) + unat (chunk_size c) < 2 ^ 32"
      and d: "block (chunk_base c) (chunk_size c) \<inter> hole_area s2 = {}"
      using Cons.prems(3,5) s2(2) by (simp_all add: chunk_ok_def chunk_block_def)
    obtain s3 where s3: "free_mem cfg A (chunk_base c) (chunk_size c) s2 = Inr s3" "hole_inv s3"
      "hole_area s3 = hole_area s \<union> chunk_block c" "only_holes s2 s3"
      "length (slot_list s) \<le> Suc (length (slot_list s3))"
      using hole_free_mem [OF s2(1) Cons.prems(2) True slot w d, of A] s2(2,3)
      by (auto simp: chunk_block_def)
    have tp: "total_pages s3 = total_pages s" using only_holes_vm [OF s3(4)] s2(4) by simp
    let ?s4 = "s3\<lparr>total_pages := total_pages s3 + chunk_size c\<rparr>"
    have "init_chunks cfg A first (c # cs) s = init_chunks cfg A False cs ?s4"
      using True s3(1)
      by (simp only: init_chunks.simps if_True Let_def s1_def [symmetric] s2_def [symmetric]
          bind_res_simps)
    moreover have "\<exists>s'. init_chunks cfg A False cs ?s4 = Inr s' \<and> hole_inv s' \<and>
        hole_area s' = hole_area ?s4 \<union> (\<Union>c \<in> set cs. chunk_block c) \<and>
        total_pages s' = total_pages ?s4 + sum_list (map chunk_size cs) \<and>
        (\<not> False \<longrightarrow> mem_low ?s4 = 0 \<longrightarrow> mem_low s' = 0)"
    proof (rule Cons.IH)
      show "hole_inv ?s4" using s3(2) by simp
      show "chunks_apart cs" using Cons.prems(4) by (simp add: chunks_apart_def)
      show "\<forall>d \<in> set cs. chunk_block d \<inter> hole_area ?s4 = {}"
        using Cons.prems(4,5) s3(3) by (auto simp: chunks_apart_def)
      show "length (filter (\<lambda>c. 0 < chunk_size c) cs) \<le> length (slot_list ?s4)"
        using Cons.prems(6) s3(5) True by simp
    qed (use Cons.prems in simp_all)
    moreover have "mem_low ?s4 = 0" if "\<not> first" "mem_low s = 0"
      using that only_holes_vm [OF s3(4)] by (simp add: s2_def s1_def)
    ultimately show ?thesis using s3(3) tp by (auto simp: algebra_simps)
  qed
qed simp

lemma empty_table_rep:
  fixes s :: "'a holes_scheme"
  assumes "hole_tab s = empty_table n hs" "0 < n" "hole_head s = None" "free_slots s = Some 0"
  shows "hrep s [] [0..<n]"
proof -
  have len: "length (hole_tab s) = n" by (simp add: assms(1) empty_table_def)
  have nx: "nx s i = (if Suc i < n then Some (Suc i) else None)" if "i < n" for i
    using that by (auto simp: nx_def assms(1) empty_table_def)
  have "chain (nx s) (if k < n then Some k else None) [k..<n]" if "k \<le> n" for k
    using that
  proof (induction "n - k" arbitrary: k)
    case (Suc d)
    then have "k < n" "d = n - Suc k" "Suc k \<le> n" by simp_all
    with Suc.hyps(1) [OF this(2,3)] nx [OF this(1)] show ?case by (simp add: upt_rec)
  qed simp
  from this [of 0] show ?thesis
    using assms(2-4) by (simp add: hrep_def len atLeast0LessThan)
qed

lemma mem_init_holes:
  fixes s :: "('t, 'a) vm_scheme"
  assumes "\<not> vm_paged cfg" "hole_tab s \<noteq> []" "\<forall>c \<in> set chunks. chunk_ok c" "chunks_apart chunks"
    and "length (filter (\<lambda>c. 0 < chunk_size c) chunks) \<le> length (hole_tab s)"
  shows "\<exists>s'. mem_init cfg A chunks s = Inr s' \<and> hole_inv s' \<and>
    hole_area s' = (\<Union>c \<in> set chunks. chunk_block c) \<and>
    total_pages s' = sum_list (map chunk_size chunks) \<and>
    (mem_low s = 0 \<longrightarrow> mem_low s' = 0)"
proof -
  let ?n = "length (hole_tab s)"
  let ?s0 = "s\<lparr>hole_tab := empty_table ?n (hole_tab s), hole_head := None,
          free_slots := Some 0, addravl := addr_init A, total_pages := 0\<rparr>"
  have rep: "hrep ?s0 [] [0..<?n]"
    by (rule empty_table_rep) (use assms(2) in simp_all)
  note L = hrep_lists [OF rep]
  have inv: "hole_inv ?s0" using L by (simp add: hole_inv_def)
  have a0: "hole_area ?s0 = {}" using L by (simp add: hole_area_def)
  have ap: "chunks_apart (rev chunks)"
    using assms(4) by (simp add: chunks_apart_def sorted_wrt_rev Int_commute)
  have len: "length (filter (\<lambda>c. 0 < chunk_size c) (rev chunks)) \<le> length (slot_list ?s0)"
    using assms(5) L(2) by (simp add: rev_filter [symmetric])
  have ch: "\<forall>c \<in> set (rev chunks). chunk_ok c" using assms(3) by simp
  have dj: "\<forall>c \<in> set (rev chunks). chunk_block c \<inter> hole_area ?s0 = {}" using a0 by simp
  from init_chunks_holes [OF inv assms(1) ch ap dj len, of A False]
  obtain s' where "init_chunks cfg A False (rev chunks) ?s0 = Inr s'" "hole_inv s'"
    "hole_area s' = hole_area ?s0 \<union> (\<Union>c \<in> set (rev chunks). chunk_block c)"
    "total_pages s' = total_pages ?s0 + sum_list (map chunk_size (rev chunks))"
    "\<not> False \<longrightarrow> mem_low ?s0 = 0 \<longrightarrow> mem_low s' = 0" by blast
  then show ?thesis
    using a0 by (intro exI [of _ s']) (simp add: mem_init_def sum_list_rev rev_map [symmetric])
qed

end
