(* ===== verification/VmProps.thy ===== *)
theory VmProps
  imports VmInit
begin

text \<open>
  The properties of minix/alloc.c: what a client of the allocators may rely on, what the
  sanity check decides, what initialisation establishes. The concrete states at the start
  are the inputs of the witnesses.
\<close>

section \<open>Concrete states\<close>

definition mk_hole :: "nat option \<Rightarrow> u32 \<Rightarrow> u32 \<Rightarrow> hole" where
  "mk_hole p b l = \<lparr>h_next = p, h_base = b, h_len = l, freelist = 0, holelist = 0\<rparr>"

text \<open>Four slots; free memory 10--14 and 20--119.\<close>

definition vm_example :: "nat list vm" where
  "vm_example = \<lparr>memsets = [],
     hole_tab = [mk_hole (Some 1) 10 5, mk_hole None 20 100, mk_hole (Some 3) 0 0, mk_hole None 0 0],
     hole_head = Some 0, free_slots = Some 2, addravl = [], pr_heap = (\<lambda>_. None),
     mem_low = 0, mem_high = 0, total_pages = 105\<rparr>"

lemma vm_example_rep: "hrep vm_example [0, 1] [2, 3]"
  by (auto simp: hrep_def vm_example_def nx_def mk_hole_def)

lemma vm_example_facts [simp]:
  "hole_list vm_example = [0, 1]" "slot_list vm_example = [2, 3]"
  "hole_regions vm_example = [(10, 5), (20, 100)]" "hole_inv vm_example"
  "hole_area vm_example = {10..<15} \<union> {20..<120}" "free_slots vm_example = Some 2"
  "length (hole_tab vm_example) = 4" "table_ok vm_example"
proof -
  note L = hrep_lists [OF vm_example_rep]
  show "hole_list vm_example = [0, 1]" "slot_list vm_example = [2, 3]" "table_ok vm_example"
    using L by simp_all
  show r: "hole_regions vm_example = [(10, 5), (20, 100)]"
    using L(3) by (simp add: region_def vm_example_def mk_hole_def)
  show "hole_inv vm_example"
    using L(4) by (simp add: hole_inv_def r coalesced_Cons)
  show "hole_area vm_example = {10..<15} \<union> {20..<120}"
    by (simp add: hole_area_def r)
qed (simp_all add: vm_example_def)

lemma cfg_example_facts [simp]:
  "\<not> vm_paged cfg_example" "memset_ok cfg_example flags" "NO_MEM cfg_example = 0"
  "align_clicks cfg_example 0 = 0" "align_clicks cfg_example 4 = 16"
  "flag_set 4 (PAF_ALIGN64K cfg_example)"
  by (simp_all add: cfg_example_def memset_ok_def align_clicks_def flag_set_def)

text \<open>Two page ranges, 10--14 and 20--29, in the sorted-list tree.\<close>

definition pages_example :: "nat list vm" where
  "pages_example = vm_example\<lparr>addravl := [3, 1],
     pr_heap := [1 \<mapsto> \<lparr>pr_addr = 20, pr_size = 10\<rparr>, 3 \<mapsto> \<lparr>pr_addr = 10, pr_size = 5\<rparr>]\<rparr>"

lemma pages_example_facts [simp]:
  "page_nodes list_avl pages_example = [3, 1]"
  "page_regions list_avl pages_example = [(10, 5), (20, 10)]" "pages_inv list_avl pages_example"
  "page_area list_avl pages_example = {10..<15} \<union> {20..<30}"
proof -
  show n: "page_nodes list_avl pages_example = [3, 1]"
    by (simp add: page_nodes_def pages_example_def list_avl_def)
  show r: "page_regions list_avl pages_example = [(10, 5), (20, 10)]"
    unfolding page_regions_def n by (simp add: preg_def pages_example_def)
  show "pages_inv list_avl pages_example"
    unfolding pages_inv_def r n by (simp add: coalesced_Cons) (simp add: pages_example_def)
  show "page_area list_avl pages_example = {10..<15} \<union> {20..<30}"
    by (simp add: page_area_def r)
qed

text \<open>Two helpers of the properties below: the example allocation, and rounding up.\<close>

lemma vm_example_alloc6:
  "\<exists>s1. alloc_mem cfg_example list_avl (\<lambda>_ s. (s, 0)) 6 0 vm_example = Inr (20, s1)"
  by (simp add: alloc_mem_def hole_alloc_def Let_def walk_fuel_def vm_example_def mk_hole_def cfg_example_def rd_hole_def wr_hole_def flag_set_def align_clicks_def)

lemma round_up_mod: "m mod a < a \<Longrightarrow> (m + (a - m mod a)) mod a = (0 :: nat)"
proof -
  assume "m mod a < a"
  moreover have "m = m div a * a + m mod a" by simp
  ultimately have "m + (a - m mod a) = m div a * a + a" by linarith
  then show ?thesis by simp
qed

section \<open>Clients of the allocators\<close>



text \<open>
  C2: the same for the page tree: any sequence of requests served by \<open>alloc_pages\<close> and
  \<open>free_pages\<close> stops only because no tree node can be allocated, keeps the free ranges
  coalesced, and neither loses a page nor hands one out twice.
\<close>

theorem page_clients_safe:
  assumes "avl_laws A" "pages_inv A s" "memset_ok cfg flags"
    and "\<not> low_flags cfg flags" "\<not> first_block cfg flags" "unat (NO_MEM cfg) \<notin> page_area A s"
    and "\<forall>r \<in> set reqs. req_ok (\<lambda>n. 0 < sint n) r"
  shows "serve (get_pages cfg A flags) (free_pages A) (NO_MEM cfg) reqs (s, []) =
      Inl (Panic ''alloc_pages: can't alloc'') \<or>
    (\<exists>s' live. serve (get_pages cfg A flags) (free_pages A) (NO_MEM cfg) reqs (s, []) = Inr (s', live) \<and>
      pages_inv A s' \<and> apart (page_area A s') live \<and> page_area A s' \<union> live_area live = page_area A s)"
proof -
  have ready: "pages_ready cfg A flags s" using assms(1-6) by (simp add: pages_ready_def)
  from page_tree_alloc.serve_account [OF page_tree_alloc.account_start [OF ready] assms(7)]
  show ?thesis by (force simp: page_tree_alloc.account_def pages_ready_def)
qed

theorem page_clients_safe_witness:
  "serve (get_pages cfg_example list_avl 0) (free_pages list_avl) 0 [Get 5, Get 3, Put 25 5]
      (pages_example, []) = Inl (Panic ''alloc_pages: can't alloc'') \<or>
    (\<exists>s' live. serve (get_pages cfg_example list_avl 0) (free_pages list_avl) 0 [Get 5, Get 3, Put 25 5]
        (pages_example, []) = Inr (s', live) \<and> pages_inv list_avl s' \<and>
      apart (page_area list_avl s') live \<and>
      page_area list_avl s' \<union> live_area live = {10..<15} \<union> {20..<30})"
  using page_clients_safe [of list_avl pages_example cfg_example 0 "[Get 5, Get 3, Put 25 5]"]
  by (simp add: req_ok_def list_avl_laws low_flags_def flag_set_def)

section \<open>The hole table\<close>



text \<open>
  C4: \<open>free_mem\<close> of a block that overlaps no hole succeeds whenever a slot is unused. The
  holes afterwards are the maximal runs of the old free memory and the block: the table is
  coalesced, and it is the only coalesced list with that area.
\<close>

theorem free_mem_coalesces:
  assumes "hole_inv s" "\<not> vm_paged cfg" "0 < clicks" "free_slots s \<noteq> None"
    and "unat base + unat clicks < 2 ^ 32" "block base clicks \<inter> hole_area s = {}"
  shows "\<exists>s'. free_mem cfg A base clicks s = Inr s' \<and> hole_inv s' \<and>
    hole_area s' = hole_area s \<union> block base clicks \<and>
    (\<forall>rs. coalesced rs \<and> area rs = hole_area s \<union> block base clicks \<longrightarrow> hole_regions s' = rs)"
proof -
  obtain s' where s': "free_mem cfg A base clicks s = Inr s'" "hole_inv s'"
    "hole_area s' = hole_area s \<union> block base clicks"
    using hole_free_mem [OF assms, of A] by blast
  have "hole_regions s' = rs" if "coalesced rs" "area rs = hole_area s \<union> block base clicks" for rs
    by (rule coalesced_unique)
      (use that s'(3) hole_invD(2) [OF s'(2)] in \<open>simp_all add: hole_area_def\<close>)
  with s' show ?thesis by blast
qed

theorem free_mem_coalesces_witness:
  "\<exists>s'. free_mem cfg_example list_avl 15 5 vm_example = Inr s' \<and> hole_inv s' \<and>
    hole_area s' = hole_area vm_example \<union> block 15 5 \<and>
    (\<forall>rs. coalesced rs \<and> area rs = hole_area vm_example \<union> block 15 5 \<longrightarrow> hole_regions s' = rs)"
  by (rule free_mem_coalesces) (auto simp: block_def)

text \<open>
  Giving back a block just allocated restores the hole list exactly.
\<close>

theorem alloc_free_roundtrip:
  assumes "hole_inv s" "\<not> vm_paged cfg" "memset_ok cfg flags" "align_clicks cfg flags = 0"
    and "unat (NO_MEM cfg) \<notin> hole_area s" "clicks \<noteq> 0" "free_slots s \<noteq> None"
    and "alloc_mem cfg A fy clicks flags s = Inr (b, s1)" "b \<noteq> NO_MEM cfg"
  shows "\<exists>s2. free_mem cfg A b clicks s1 = Inr s2 \<and> hole_regions s2 = hole_regions s"
proof -
  have n: "0 < unat clicks" using assms(6) by (simp add: unat_gt_0)
  have run: "hole_alloc cfg clicks flags s = Inr (b, s1)"
    using assms(8) alloc_mem_holes [OF assms(2,4)] by metis
  from hole_alloc_area [OF assms(1) n assms(3,5)] run assms(9)
  have a: "hole_inv s1" "length (slot_list s) \<le> length (slot_list s1)"
    "block b clicks \<subseteq> hole_area s" "hole_area s1 = hole_area s - block b clicks"
    "unat b + unat clicks < 2 ^ 32" by auto
  have "slot_list s \<noteq> []" using assms(1,7) slot_list_Nil [of s] by (simp add: hole_inv_def)
  then have "slot_list s1 \<noteq> []" using a(2) by auto
  then have slot: "free_slots s1 \<noteq> None" using a(1) slot_list_Nil [of s1] by (simp add: hole_inv_def)
  have dj: "block b clicks \<inter> hole_area s1 = {}" using a(4) by blast
  have pos: "0 < clicks" using assms(6) by (simp add: word_gt_0)
  obtain s2 where s2: "free_mem cfg A b clicks s1 = Inr s2" "hole_inv s2"
    "hole_area s2 = hole_area s1 \<union> block b clicks"
    using hole_free_mem [OF a(1) assms(2) pos slot a(5) dj, of A] by blast
  have "hole_area s2 = hole_area s" using s2(3) a(3,4) by blast
  then have "hole_regions s2 = hole_regions s"
    using coalesced_unique [OF hole_invD(2) [OF s2(2)] hole_invD(2) [OF assms(1)]]
    by (simp add: hole_area_def)
  with s2(1) show ?thesis by blast
qed

theorem alloc_free_roundtrip_witness:
  "\<exists>s1 s2. alloc_mem cfg_example list_avl (\<lambda>_ s. (s, 0)) 6 0 vm_example = Inr (20, s1) \<and>
    free_mem cfg_example list_avl 20 6 s1 = Inr s2 \<and> hole_regions s2 = hole_regions vm_example"
proof -
  obtain s1 where s1: "alloc_mem cfg_example list_avl (\<lambda>_ s. (s, 0)) 6 0 vm_example = Inr (20, s1)"
    using vm_example_alloc6 by blast
  have "\<exists>s2. free_mem cfg_example list_avl 20 6 s1 = Inr s2 \<and>
      hole_regions s2 = hole_regions vm_example"
    by (rule alloc_free_roundtrip [OF _ _ _ _ _ _ _ s1]) simp_all
  with s1 show ?thesis by blast
qed

text \<open>
  With \<open>PAF_ALIGN64K\<close> the block returned is aligned, but the clicks past the request
  are not given back: the hole table has lost \<open>lost > 0\<close> clicks that the caller never
  asked for and does not know of.
\<close>

theorem alloc_mem_aligned_leaks:
  assumes "hole_inv s" "\<not> vm_paged cfg" "memset_ok cfg flags" "align_clicks cfg flags = a" "a \<noteq> 0"
    and "unat (NO_MEM cfg) \<notin> hole_area s" "clicks \<noteq> 0" "unat clicks + unat a < 2 ^ 32"
    and "free_slots s \<noteq> None"
  shows "\<exists>b s'. alloc_mem cfg A fy clicks flags s = Inr (b, s') \<and> hole_inv s' \<and>
    (b = NO_MEM cfg \<longrightarrow> hole_area s' = hole_area s) \<and>
    (b \<noteq> NO_MEM cfg \<longrightarrow> unat b mod unat a = 0 \<and>
       (\<exists>lost. 0 < lost \<and> lost \<le> unat a \<and>
         {unat b..<unat b + unat clicks + lost} \<subseteq> hole_area s \<and>
         hole_area s' = hole_area s - {unat b..<unat b + unat clicks + lost}))"
proof -
  let ?n = "clicks + a"
  have un: "unat ?n = unat clicks + unat a" using assms(8) by (simp add: unat_plus_no_wrap)
  have n: "0 < unat ?n" using assms(7) un by (simp add: unat_gt_0)
  have run: "alloc_mem cfg A fy clicks flags s = bind_res (hole_alloc cfg ?n flags s) (\<lambda>(mem, s1).
      if mem = NO_MEM cfg then Inr (mem, s1)
      else if 0 < mem mod a then
        bind_res (free_mem cfg A mem (a - mem mod a) s1) (\<lambda>s2. Inr (mem + (a - mem mod a), s2))
      else Inr (mem, s1))"
    using assms(2,4,5) by (cases "hole_alloc cfg ?n flags s") (auto simp: alloc_mem_def Let_def)
  from hole_alloc_area [OF assms(1) n assms(3,6)] obtain m s1 where
    h: "hole_alloc cfg ?n flags s = Inr (m, s1)" "hole_inv s1"
    "length (slot_list s) \<le> length (slot_list s1)" and
    cs: "if m = NO_MEM cfg then s1 = s \<and> (\<forall>c. \<not> block c ?n \<subseteq> hole_area s)
      else block m ?n \<subseteq> hole_area s \<and> hole_area s1 = hole_area s - block m ?n \<and>
        unat m + unat ?n < 2 ^ 32" by blast
  show ?thesis
  proof (cases "m = NO_MEM cfg")
    case True
    with h cs run show ?thesis by simp
  next
    case False
    with cs have b: "{unat m..<unat m + unat clicks + unat a} \<subseteq> hole_area s"
      "hole_area s1 = hole_area s - {unat m..<unat m + unat clicks + unat a}"
      "unat m + unat clicks + unat a < 2 ^ 32"
      by (simp_all add: block_def un add.assoc)
    let ?o = "unat m mod unat a"
    have o: "unat (m mod a) = ?o" by (simp add: unat_mod)
    have oa: "?o < unat a" using assms(5) by (simp add: unat_gt_0)
    show ?thesis
    proof (cases "0 < m mod a")
      case no: False
      then have z: "?o = 0" using o by (metis unat_0 word_gt_0)
      have "alloc_mem cfg A fy clicks flags s = Inr (m, s1)" using run h(1) False no by simp
      then show ?thesis
        using h(2) b z False assms(5)
        by (intro exI [of _ m] exI [of _ s1] conjI impI exI [of _ "unat a"]) (simp_all add: unat_gt_0)
    next
      case yes: True
      let ?e = "a - m mod a"
      have e: "unat ?e = unat a - ?o"
        using oa o by (subst unat_minus_le) (simp_all add: word_le_nat_alt)
      have o0: "0 < ?o" using yes o by (metis unat_gt_0 word_gt_0)
      have epos: "0 < ?e" using e oa by (metis unat_gt_0 word_gt_0 zero_less_diff)
      have "slot_list s \<noteq> []" using assms(1,9) slot_list_Nil [of s] by (simp add: hole_inv_def)
      then have "slot_list s1 \<noteq> []" using h(3) by auto
      then have slot: "free_slots s1 \<noteq> None" using h(2) slot_list_Nil [of s1] by (simp add: hole_inv_def)
      have dj: "block m ?e \<inter> hole_area s1 = {}" using b(2) e by (auto simp: block_def)
      have w: "unat m + unat ?e < 2 ^ 32" using b(3) e by simp
      obtain s2 where s2: "free_mem cfg A m ?e s1 = Inr s2" "hole_inv s2"
        "hole_area s2 = hole_area s1 \<union> block m ?e"
        using hole_free_mem [OF h(2) assms(2) epos slot w dj, of A] by blast
      have me: "unat (m + ?e) = unat m + (unat a - ?o)" using w e by (simp add: unat_plus_no_wrap)
      have al: "(unat m + (unat a - ?o)) mod unat a = 0" by (rule round_up_mod) (use oa in simp)
      have res: "alloc_mem cfg A fy clicks flags s = Inr (m + ?e, s2)"
        using run h(1) False yes s2(1) by simp
      have "hole_area s2 = hole_area s - {unat (m + ?e)..<unat (m + ?e) + unat clicks + ?o}"
      proof -
        let ?k = "unat m + (unat a - ?o)" and ?E = "unat m + unat clicks + unat a"
        have end_eq: "?k + unat clicks + ?o = ?E" using oa by simp
        have "{unat m..<?k} \<subseteq> {unat m..<?E}" by auto
        then have "{unat m..<?k} \<subseteq> hole_area s" using b(1) by (rule subset_trans)
        moreover have "{unat m..<?E} - {unat m..<?k} = {?k..<?E}" by auto
        moreover have "hole_area s2 = hole_area s - {unat m..<?E} \<union> {unat m..<?k}"
          using s2(3) b(2) unfolding block_def e by simp
        ultimately show ?thesis unfolding me end_eq by blast
      qed
      moreover have "{unat (m + ?e)..<unat (m + ?e) + unat clicks + ?o} \<subseteq> hole_area s"
        by (rule subset_trans [OF _ b(1)]) (use oa in \<open>auto simp: me\<close>)
      ultimately show ?thesis
      proof (intro exI [of _ "m + ?e"] exI [of _ s2] conjI impI exI [of _ ?o])
        assume "m + ?e = NO_MEM cfg"
        moreover have "unat (m + ?e) \<in> hole_area s"
        proof -
          have "unat (m + ?e) \<in> {unat m..<unat m + unat clicks + unat a}"
          proof -
            have "0 < unat clicks" using assms(7) by (simp add: unat_gt_0)
            with oa show ?thesis unfolding me atLeastLessThan_iff by linarith
          qed
          then show ?thesis using b(1) by blast
        qed
        ultimately show "hole_area s2 = hole_area s" using assms(6) by simp
      qed (use res s2(2) me al o0 oa in \<open>simp_all\<close>)
    qed
  qed
qed

theorem alloc_mem_aligned_leaks_witness:
  "\<exists>b s'. alloc_mem cfg_example list_avl (\<lambda>_ s. (s, 0)) 2 4 vm_example = Inr (b, s') \<and> hole_inv s' \<and>
    (b = NO_MEM cfg_example \<longrightarrow> hole_area s' = hole_area vm_example) \<and>
    (b \<noteq> NO_MEM cfg_example \<longrightarrow> unat b mod unat (16 :: u32) = 0 \<and>
       (\<exists>lost. 0 < lost \<and> lost \<le> unat (16 :: u32) \<and>
         {unat b..<unat b + unat (2 :: u32) + lost} \<subseteq> hole_area vm_example \<and>
         hole_area s' = hole_area vm_example - {unat b..<unat b + unat (2 :: u32) + lost}))"
  by (rule alloc_mem_aligned_leaks) simp_all

end
