(* ===== verification/PageProps.thy ===== *)
theory PageProps
  imports VmProps
begin

text \<open>
  Properties of minix/alloc.c, continued: the sanity check, initialisation, and the page
  allocator with its flags.
\<close>

section \<open>Sanity check and initialisation\<close>

text \<open>
  C7: the sanity check returns, instead of panicking or walking for ever, exactly on the
  tables whose two lists are disjoint chains covering all slots and whose holes are
  strictly separated.
\<close>

theorem holes_sanity_decides:
  "(\<exists>s'. holes_sanity_f s = Inr s') \<longleftrightarrow>
     (\<exists>hl fl. hrep s hl fl \<and> successively (gap_after s) hl)"
proof
  assume "\<exists>s'. holes_sanity_f s = Inr s'"
  then have "table_ok s" "successively (gap_after s) (hole_list s)"
    using sanity_decides [of s] by blast+
  then show "\<exists>hl fl. hrep s hl fl \<and> successively (gap_after s) hl"
    unfolding table_ok_def by blast
next
  assume "\<exists>hl fl. hrep s hl fl \<and> successively (gap_after s) hl"
  then obtain hl fl where "hrep s hl fl" "successively (gap_after s) hl" by blast
  with hrep_lists(1,4) [OF this(1)] show "\<exists>s'. holes_sanity_f s = Inr s'"
    using sanity_decides [of s] by simp
qed

text \<open>
  C8: \<open>mem_init\<close> on chunks that do not overlap, with a slot for each, builds a sane table
  whose free memory is exactly the chunks and counts their clicks. The recorded lower
  bound stays at its static value 0 whatever the chunks are, since \<open>first\<close> starts as 0.
\<close>

theorem mem_init_builds:
  assumes "\<not> vm_paged cfg" "hole_tab s \<noteq> []" "\<forall>c \<in> set chunks. chunk_ok c" "chunks_apart chunks"
    and "length (filter (\<lambda>c. 0 < chunk_size c) chunks) \<le> length (hole_tab s)"
    and "mem_low s = 0"
  shows "\<exists>s' s''. mem_init cfg A chunks s = Inr s' \<and> hole_inv s' \<and> holes_sanity_f s' = Inr s'' \<and>
    hole_area s' = (\<Union>c \<in> set chunks. chunk_block c) \<and>
    total_pages s' = sum_list (map chunk_size chunks) \<and> mem_low s' = 0"
proof -
  obtain s' where s': "mem_init cfg A chunks s = Inr s'" "hole_inv s'"
    "hole_area s' = (\<Union>c \<in> set chunks. chunk_block c)"
    "total_pages s' = sum_list (map chunk_size chunks)" "mem_low s = 0 \<longrightarrow> mem_low s' = 0"
    using mem_init_holes [OF assms(1-5), of A] by blast
  obtain s'' where "holes_sanity_f s' = Inr s''" using hole_inv_sane [OF s'(2)] by blast
  with s' assms(6) show ?thesis by (intro exI [of _ s'] exI [of _ s'']) simp
qed

definition chunks_example :: "memory list" where
  "chunks_example = [\<lparr>chunk_base = 1, chunk_size = 9\<rparr>, \<lparr>chunk_base = 0, chunk_size = 0\<rparr>,
     \<lparr>chunk_base = 100, chunk_size = 50\<rparr>]"

theorem mem_init_builds_witness:
  "\<exists>s' s''. mem_init cfg_example list_avl chunks_example vm_example = Inr s' \<and> hole_inv s' \<and>
    holes_sanity_f s' = Inr s'' \<and>
    hole_area s' = (\<Union>c \<in> set chunks_example. chunk_block c) \<and>
    total_pages s' = sum_list (map chunk_size chunks_example) \<and> mem_low s' = 0"
proof (rule mem_init_builds)
  show "\<not> vm_paged cfg_example" by simp
  show "hole_tab vm_example \<noteq> []" "mem_low vm_example = 0" by (simp_all add: vm_example_def)
  show "\<forall>c \<in> set chunks_example. chunk_ok c" by (simp add: chunks_example_def chunk_ok_def)
  show "chunks_apart chunks_example"
    by (auto simp: chunks_example_def chunks_apart_def chunk_block_def block_def)
  show "length (filter (\<lambda>c. 0 < chunk_size c) chunks_example) \<le> length (hole_tab vm_example)"
    by (simp add: chunks_example_def)
qed

section \<open>The page allocator\<close>



text \<open>
  C10: \<open>free_pages\<close> of a block that overlaps no free range passes all its assertions
  whenever a node can be had or none is needed, and leaves the one coalesced list of
  ranges whose pages are the old ones and the block.
\<close>

theorem free_pages_coalesces:
  assumes "avl_laws A" "pages_inv A s" "0 < sint npages" "unat pageno + unat npages < 2 ^ 32"
    and "block pageno npages \<inter> page_area A s = {}"
    and "slab_alloc A (pr_heap s) \<noteq> None"
  shows "\<exists>s'. free_pages A pageno npages s = Inr s' \<and> pages_inv A s' \<and>
    page_area A s' = page_area A s \<union> block pageno npages \<and>
    (\<forall>rs. coalesced rs \<and> area rs = page_area A s \<union> block pageno npages \<longrightarrow> page_regions A s' = rs)"
proof -
  have co: "coalesced (page_regions A s)" using assms(2) by (simp add: pages_inv_def)
  have fit: "\<forall>q \<in> set (page_regions A s). fits (unat pageno, unat npages) q"
    using assms(5) area_fits [OF co sint_pos_unat [OF assms(3)], of "unat pageno"]
    by (simp add: block_def page_area_def)
  obtain s' where s': "free_pages A pageno npages s = Inr s'" "pages_inv A s'"
    "page_regions A s' = free_l (unat pageno, unat npages) (page_regions A s)"
    using free_pages_sim [OF assms(1-4) fit] assms(6) by blast
  have ar: "page_area A s' = page_area A s \<union> block pageno npages"
    by (auto simp: page_area_def s'(3) free_l_area block_def)
  have "page_regions A s' = rs" if "coalesced rs" "area rs = page_area A s \<union> block pageno npages" for rs
    by (rule coalesced_unique)
      (use that ar s'(2) in \<open>simp_all add: page_area_def pages_inv_def\<close>)
  with s' ar show ?thesis by blast
qed

theorem free_pages_coalesces_witness:
  "\<exists>s'. free_pages list_avl 15 5 pages_example = Inr s' \<and> pages_inv list_avl s' \<and>
    page_area list_avl s' = page_area list_avl pages_example \<union> block 15 5 \<and>
    (\<forall>rs. coalesced rs \<and> area rs = page_area list_avl pages_example \<union> block 15 5 \<longrightarrow>
      page_regions list_avl s' = rs)"
proof (rule free_pages_coalesces)
  show "slab_alloc list_avl (pr_heap pages_example) \<noteq> None"
    by (simp add: list_avl_def pages_example_def find_None_iff) (use in \<open>fastforce intro: bexI [of _ 7]\<close>)
qed (auto simp: list_avl_laws block_def)

text \<open>
  The low-memory flags are checked against the start of the range plus the request,
  but the block is cut off its end: a page above the 1 MB limit can be returned for
  \<open>PAF_LOWER1MB\<close>.
\<close>

theorem low_limit_not_enforced:
  "\<exists>(s :: nat list vm) mem s'. pages_inv list_avl s \<and> flag_set 16 (PAF_LOWER1MB cfg_example) \<and>
     alloc_pages cfg_example list_avl 1 16 False s = Inr (mem, None, s') \<and> mem \<noteq> NO_MEM cfg_example \<and>
     boundary1 cfg_example \<le> mem"
proof -
  let ?s = "pages_example\<lparr>addravl := [1], pr_heap := [1 \<mapsto> \<lparr>pr_addr = 20, pr_size = 500\<rparr>]\<rparr>"
  let ?s' = "?s\<lparr>pr_heap := [1 \<mapsto> \<lparr>pr_addr = 20, pr_size = 499\<rparr>]\<rparr>"
  have "pages_inv list_avl ?s"
    by (simp add: pages_inv_def page_regions_def page_nodes_def list_avl_def preg_def coalesced_Cons)
  moreover have "alloc_pages cfg_example list_avl 1 16 False ?s = Inr (519, None, ?s')"
    by (simp add: alloc_pages_def Let_def list_avl_def cfg_example_def flag_set_def boundary1_def
        boundary16_def rd_pr_def wr_pr_def)
  moreover have "flag_set 16 (PAF_LOWER1MB cfg_example)"
    "519 \<noteq> NO_MEM cfg_example" "boundary1 cfg_example \<le> 519"
    by (simp_all add: flag_set_def cfg_example_def boundary1_def)
  ultimately show ?thesis by blast
qed

text \<open>
  \<open>memstats\<close> reports the number of free ranges, of free pages, and the longest range.
\<close>

theorem memstats_counts:
  assumes "avl_laws A" "pages_inv A s"
  shows "\<exists>nodes pages largest. memstats A s = Inr (nodes, pages, largest) \<and>
    nodes = of_nat (length (page_regions A s)) \<and> pages = of_nat (card (page_area A s)) \<and>
    largest = of_nat (Max (insert 0 (snd ` set (page_regions A s))))"
proof -
  have co: "coalesced (page_regions A s)" and dom: "set (page_nodes A s) \<subseteq> dom (pr_heap s)"
    using assms(2) by (simp_all add: pages_inv_def)
  have "card (page_area A s) = sum_list (map snd (page_regions A s))"
    using total_cells [OF co] by (simp add: page_area_def)
  moreover have "fold max ns m = Max (insert m (set ns))" for ns :: "nat list" and m
    by (metis Max.set_eq_fold list.simps(15))
  ultimately show ?thesis
    using memstats_loop_sim [OF dom, of 0 0 0]
    by (simp add: memstats_def page_nodes_def [symmetric] page_regions_def image_image)
qed

theorem memstats_counts_witness:
  "\<exists>nodes pages largest. memstats list_avl pages_example = Inr (nodes, pages, largest) \<and>
    nodes = of_nat (length (page_regions list_avl pages_example)) \<and>
    pages = of_nat (card (page_area list_avl pages_example)) \<and>
    largest = of_nat (Max (insert 0 (snd ` set (page_regions list_avl pages_example))))"
  by (rule memstats_counts) (simp_all add: list_avl_laws)

end
