(* ===== verification/BestFit.thy ===== *)
theory BestFit
  imports VmProps
begin

text \<open>
  minix/3.1.7-bestfit-alloc.c, which differs from alloc.c in \<open>alloc_mem\<close> only: the hole
  with the smallest remainder is taken. The search keeps \<open>remainder\<close>, an \<open>int\<close> that is
  compared with the unsigned \<open>h_len - clicks\<close>: here the 32-bit word of the same bits, read
  by \<open>sint\<close> where the code compares it with the signed -1. \<open>best_ptr\<close> and \<open>prev_best\<close> are not
  initialised: they are \<open>None\<close> until the search sets them, and following \<open>best_ptr\<close> then is
  \<open>BadPointer\<close>. \<open>old_base\<close> is not initialised either: its value is the parameter \<open>junk\<close>.
\<close>

section \<open>The code\<close>

fun best_fit :: "nat \<Rightarrow> 'a holes_scheme \<Rightarrow> u32 \<Rightarrow> u32 \<times> (nat option \<times> nat) option \<Rightarrow>
    nat option \<Rightarrow> nat option \<Rightarrow> (u32 \<times> (nat option \<times> nat) option) res" where
  "best_fit 0 s clicks best prev_ptr hp = Inl Diverges"
| "best_fit (Suc k) s clicks best prev_ptr None = Inr best"
| "best_fit (Suc k) s clicks best prev_ptr (Some hp) =
     bind_res (rd_hole s hp) (\<lambda>h.
     if h_len h = clicks then Inr (0, Some (prev_ptr, hp)) else
     let remainder = fst best;
         best1 = (if clicks < h_len h \<and> (h_len h - clicks < remainder \<or> remainder = - 1)
                  then (h_len h - clicks, Some (prev_ptr, hp)) else best)
     in best_fit k s clicks best1 (Some hp) (h_next h))"

definition alloc_mem_tail ::
  "vm_cfg \<Rightarrow> 't avl_ops \<Rightarrow> u32 \<Rightarrow> u32 \<Rightarrow> u32 \<Rightarrow> ('t, 'a) vm_scheme \<Rightarrow> (u32 \<times> ('t, 'a) vm_scheme) res" where
  "alloc_mem_tail cfg A align mem remainder s =
     (if mem = NO_MEM cfg \<or> remainder = - 1 then Inr (mem, s)
      else if align \<noteq> 0 \<and> 0 < mem mod align then
        (let e = align - mem mod align in
         bind_res (free_mem cfg A mem e s) (\<lambda>s'. Inr (mem + e, s')))
      else Inr (mem, s))"

definition hole_alloc_best ::
  "vm_cfg \<Rightarrow> 't avl_ops \<Rightarrow> u32 \<Rightarrow> u32 \<Rightarrow> u32 \<Rightarrow> u32 \<Rightarrow> ('t, 'a) vm_scheme \<Rightarrow> (u32 \<times> ('t, 'a) vm_scheme) res" where
  "hole_alloc_best cfg A junk align clicks memflags s =
     bind_res (best_fit (walk_fuel s) s clicks (- 1, None) None (hole_head s)) (\<lambda>(remainder, best).
     case best of None \<Rightarrow> Inl BadPointer
     | Some (prev_best, best_ptr) \<Rightarrow>
         bind_res (rd_hole s best_ptr) (\<lambda>h.
         if 0 \<le> sint remainder then
           bind_res (wr_hole s best_ptr (\<lambda>q. q\<lparr>h_base := h_base q + clicks, h_len := h_len q - clicks\<rparr>))
             (\<lambda>s1. Inr (h_base h, s1))
         else
           bind_res (if h_len h = 0 then del_slot s prev_best best_ptr else Inr s) (\<lambda>s1.
           bind_res (clear_block cfg memflags (CLICK_SIZE cfg * junk) (CLICK_SIZE cfg * clicks) s1) (\<lambda>s2.
           alloc_mem_tail cfg A align junk remainder s2))))"

definition alloc_mem_best ::
  "vm_cfg \<Rightarrow> 't avl_ops \<Rightarrow> (u32 \<Rightarrow> ('t, 'a) vm_scheme \<Rightarrow> ('t, 'a) vm_scheme \<times> u32) \<Rightarrow> u32 \<Rightarrow>
     u32 \<Rightarrow> u32 \<Rightarrow> ('t, 'a) vm_scheme \<Rightarrow> (u32 \<times> ('t, 'a) vm_scheme) res" where
  "alloc_mem_best cfg A free_yielded junk clicks0 memflags s =
     (let align = align_clicks cfg memflags; clicks = clicks0 + align in
      if vm_paged cfg then
        bind_res (alloc_pages cfg A clicks memflags False s) (\<lambda>(mem, _, s1).
        if mem = NO_MEM cfg then
          bind_res (alloc_pages cfg A clicks memflags False (fst (free_yielded (clicks * CLICK_SIZE cfg) s1)))
            (\<lambda>(mem, _, s2). alloc_mem_tail cfg A align mem (- 1) s2)
        else alloc_mem_tail cfg A align mem (- 1) s1)
      else hole_alloc_best cfg A junk align clicks memflags s)"

section \<open>The search\<close>

text \<open>\<open>closest n len rem best xs\<close>: the outcome of the search over the holes \<open>xs\<close>.\<close>

definition closest :: "nat \<Rightarrow> (nat \<Rightarrow> nat) \<Rightarrow> u32 \<times> (nat option \<times> nat) option \<Rightarrow>
    u32 \<times> (nat option \<times> nat) option \<Rightarrow> nat list \<Rightarrow> bool" where
  "closest n len b0 b xs \<longleftrightarrow>
     (\<forall>j \<in> set xs. n \<le> len j \<longrightarrow> fst b \<noteq> - 1 \<and> unat (fst b) + n \<le> len j) \<and>
     (fst b0 \<noteq> - 1 \<longrightarrow> fst b \<noteq> - 1 \<and> unat (fst b) \<le> unat (fst b0)) \<and>
     (b = b0 \<or> (\<exists>i pr. snd b = Some (pr, i) \<and> i \<in> set xs \<and> len i = unat (fst b) + n))"

lemma closest_skip:
  assumes "closest n len b0 b xs" and "n \<le> len i \<longrightarrow> fst b0 \<noteq> - 1 \<and> unat (fst b0) + n \<le> len i"
  shows "closest n len b0 b (i # xs)"
  using assms by (fastforce simp: closest_def)

lemma closest_take:
  assumes "closest n len (r, Some (pr, i)) b xs" and "len i = unat r + n" and "r \<noteq> - 1"
    and "fst b0 = - 1 \<or> unat r \<le> unat (fst b0)"
  shows "closest n len b0 b (i # xs)"
proof -
  have le: "fst b \<noteq> - 1" "unat (fst b) \<le> unat r"
    using assms(1,3) by (auto simp: closest_def)
  have "\<exists>k pr'. snd b = Some (pr', k) \<and> k \<in> set (i # xs) \<and> len k = unat (fst b) + n"
    using assms(1,2) by (auto simp: closest_def)
  with le assms show ?thesis by (auto simp: closest_def)
qed

lemma best_fit_sim:
  assumes "chain (nx s) p xs" "set xs \<subseteq> {..<length (hole_tab s)}" "length xs < fuel"
    and "\<forall>i \<in> set xs. snd (region s i) < 2 ^ 31"
  shows "\<exists>b. best_fit fuel s clicks b0 prev p = Inr b \<and> closest (unat clicks) (\<lambda>i. snd (region s i)) b0 b xs"
  using assms
proof (induction xs arbitrary: p prev fuel b0)
  case Nil
  then show ?case by (cases fuel) (auto simp: closest_def)
next
  case (Cons i xs)
  let ?len = "\<lambda>i. snd (region s i)"
  let ?l = "h_len (hole_tab s ! i)"
  from Cons.prems obtain k where k: "fuel = Suc k" by (cases fuel) auto
  from Cons.prems have i: "p = Some i" "i < length (hole_tab s)" "nx s i = h_next (hole_tab s ! i)"
    by (auto simp: nx_def)
  have len: "?len i = unat ?l" by (simp add: region_def)
  have small: "unat ?l < 2 ^ 31" using Cons.prems(4) len by simp
  have ih: "\<exists>b. best_fit k s clicks b1 (Some i) (nx s i) = Inr b \<and> closest (unat clicks) ?len b1 b xs" for b1
    by (rule Cons.IH) (use Cons.prems k in auto)
  consider (exact) "?l = clicks"
    | (better) "?l \<noteq> clicks" "clicks < ?l" "?l - clicks < fst b0 \<or> fst b0 = - 1"
    | (worse) "?l \<noteq> clicks" "\<not> (clicks < ?l \<and> (?l - clicks < fst b0 \<or> fst b0 = - 1))" by blast
  then show ?case
  proof cases
    case exact
    then show ?thesis using i k len by (auto simp: closest_def)
  next
    case better
    let ?b1 = "(?l - clicks, Some (prev, i))"
    have r: "unat (?l - clicks) = unat ?l - unat clicks" "unat clicks < unat ?l"
      using better(2) unat_minus_le [of clicks ?l] by (simp_all add: word_less_nat_alt word_le_nat_alt)
    have ne: "?l - clicks \<noteq> - 1"
    proof
      assume "?l - clicks = - 1"
      then have "unat (?l - clicks) = 2 ^ 32 - 1" by (simp add: unsigned_minus_1_eq_mask mask_eq_exp_minus_1)
      with r small show False by simp
    qed
    from ih [of ?b1] obtain b where b: "best_fit k s clicks ?b1 (Some i) (nx s i) = Inr b"
      "closest (unat clicks) ?len ?b1 b xs" by blast
    have "closest (unat clicks) ?len b0 b (i # xs)"
      by (rule closest_take [OF b(2)]) (use r len ne better(3) in \<open>auto simp: word_less_nat_alt\<close>)
    moreover have "best_fit fuel s clicks b0 prev p = Inr b"
      using b(1) i k better by auto
    ultimately show ?thesis by blast
  next
    case worse
    from ih [of b0] obtain b where b: "best_fit k s clicks b0 (Some i) (nx s i) = Inr b"
      "closest (unat clicks) ?len b0 b xs" by blast
    have "closest (unat clicks) ?len b0 b (i # xs)"
    proof (rule closest_skip [OF b(2)], rule impI)
      assume "unat clicks \<le> ?len i"
      with worse(1) len have lt: "clicks < ?l" by (simp add: word_less_nat_alt word_eq_unat)
      with worse(2) have "fst b0 \<noteq> - 1" "fst b0 \<le> ?l - clicks" by auto
      with lt len show "fst b0 \<noteq> - 1 \<and> unat (fst b0) + unat clicks \<le> ?len i"
        using unat_minus_le [of clicks ?l] by (simp add: word_le_nat_alt word_less_nat_alt)
    qed
    moreover have "best_fit fuel s clicks b0 prev p = Inr b"
      using b(1) i k worse by auto
    ultimately show ?thesis by blast
  qed
qed

section \<open>The cut\<close>

text \<open>A hole that fits exactly stays on the list with length 0, so lengths may be 0 here.\<close>

definition best_inv :: "'a holes_scheme \<Rightarrow> bool" where
  "best_inv s \<longleftrightarrow> table_ok s \<and> sorted_wrt before (hole_regions s) \<and> within (2 ^ 32) (hole_regions s) \<and>
     (\<forall>r \<in> set (hole_regions s). snd r < 2 ^ 31)"

lemma before_disjoint: "before r q \<Longrightarrow> cells r \<inter> cells q = {}"
  by (cases r; cases q) auto

lemma cut_front_area:
  assumes "sorted_wrt before (xs @ (b, l) # ys)" and "n \<le> l"
  shows "area (xs @ (b + n, l - n) # ys) = area (xs @ (b, l) # ys) - {b..<b + n}"
proof -
  have "\<forall>q \<in> set xs \<union> set ys. cells q \<inter> cells (b, l) = {}"
    using assms(1) before_disjoint by (fastforce simp: sorted_wrt_append)
  then have "area xs \<inter> {b..<b + n} = {}" "area ys \<inter> {b..<b + n} = {}"
    using assms(2) by (fastforce simp: area_def)+
  moreover have "cells (b + n, l - n) = cells (b, l) - {b..<b + n}" using assms(2) by auto
  ultimately show ?thesis by auto
qed

lemma cut_front_sorted:
  assumes "sorted_wrt before (xs @ (b, l) # ys)" and "n \<le> l"
  shows "sorted_wrt before (xs @ (b + n, l - n) # ys)"
proof -
  have "before x (b, l) \<Longrightarrow> before x (b + n, l - n)" "before (b, l) x \<Longrightarrow> before (b + n, l - n) x" for x
    using assms(2) by (cases x; simp)+
  with assms(1) show ?thesis by (auto simp: sorted_wrt_append)
qed

lemma cut_hole:
  assumes inv: "best_inv s" and i: "i \<in> set (hole_list s)" and n: "unat clicks \<le> snd (region s i)"
    and s': "wr_hole s i (\<lambda>q. q\<lparr>h_base := h_base q + clicks, h_len := h_len q - clicks\<rparr>) = Inr s'"
  shows "best_inv s' \<and> hole_list s' = hole_list s \<and> memsets s' = memsets s \<and>
    hole_area s' = hole_area s - block (h_base (hole_tab s ! i)) clicks"
proof -
  let ?h = "hole_tab s ! i"
  obtain b l where bl: "region s i = (b, l)" by fastforce
  have rep: "hrep s (hole_list s) (slot_list s)" using inv by (simp add: best_inv_def table_ok_def)
  have il: "i < length (hole_tab s)" using rep i by (auto simp: hrep_def)
  obtain ys zs where split: "hole_list s = ys @ i # zs" using i by (meson split_list)
  have out: "i \<notin> set ys" "i \<notin> set zs" using rep split by (auto simp: hrep_def)
  have t: "s' = s\<lparr>hole_tab := (hole_tab s)[i := ?h\<lparr>h_base := h_base ?h + clicks, h_len := h_len ?h - clicks\<rparr>]\<rparr>"
    using s' il by simp
  have h: "unat (h_base ?h) = b" "unat (h_len ?h) = l" "unat clicks \<le> l"
    using bl n by (auto simp: region_def)
  have all: "sorted_wrt before (hole_regions s)" "within (2 ^ 32) (hole_regions s)"
    "\<forall>r \<in> set (hole_regions s). snd r < 2 ^ 31" using inv by (simp_all add: best_inv_def)
  have regs: "hole_regions s = map (region s) ys @ (b, l) # map (region s) zs"
    by (simp add: hole_regions_def split bl)
  have w: "b + l < 2 ^ 32" using all(2) by (simp add: regs)
  have nx1: "nx s' = nx s" using il by (auto simp: t nx_def fun_eq_iff nth_list_update)
  have rep': "hrep s' (hole_list s) (slot_list s)" using rep nx1 by (simp add: hrep_def t)
  note L = hrep_lists [OF rep']
  have "region s' i = (b + unat clicks, l - unat clicks)"
    using il h w by (simp add: t region_def unat_plus_no_wrap unat_minus_le word_le_nat_alt)
  moreover have "map (region s') ys = map (region s) ys" "map (region s') zs = map (region s) zs"
    using out il by (auto simp: t region_def nth_list_update)
  ultimately have regs': "hole_regions s' = map (region s) ys @ (b + unat clicks, l - unat clicks) # map (region s) zs"
    by (simp add: L(3) split)
  have "hole_area s' = hole_area s - {b..<b + unat clicks}"
    using cut_front_area [OF all(1) [unfolded regs] h(3)] by (simp add: hole_area_def regs regs')
  moreover have "sorted_wrt before (hole_regions s')"
    unfolding regs' by (rule cut_front_sorted [OF all(1) [unfolded regs] h(3)])
  moreover have "within (2 ^ 32) (hole_regions s')" "\<forall>r \<in> set (hole_regions s'). snd r < 2 ^ 31"
    using all(2,3) h(3) unfolding regs regs' by auto
  ultimately show ?thesis using L by (simp add: best_inv_def block_def h(1) t)
qed

section \<open>The property\<close>

lemma best_fit_outcome:
  assumes "best_inv s"
  obtains (none) "\<forall>r \<in> set (hole_regions s). snd r < unat clicks"
      "best_fit (walk_fuel s) s clicks (- 1, None) None (hole_head s) = Inr (- 1, None)"
    | (some) rem pr i where
      "best_fit (walk_fuel s) s clicks (- 1, None) None (hole_head s) = Inr (rem, Some (pr, i))"
      "i \<in> set (hole_list s)" "snd (region s i) = unat rem + unat clicks" "0 \<le> sint rem"
      "\<forall>r \<in> set (hole_regions s). unat clicks \<le> snd r \<longrightarrow> snd (region s i) \<le> snd r"
proof -
  let ?hl = "hole_list s" and ?n = "unat clicks"
  have rep: "hrep s ?hl (slot_list s)" using assms by (simp add: best_inv_def table_ok_def)
  have ch: "chain (nx s) (hole_head s) ?hl" "set ?hl \<subseteq> {..<length (hole_tab s)}" "length ?hl < walk_fuel s"
    using rep hrep_len [OF rep] by (auto simp: hrep_def walk_fuel_def)
  have small: "\<forall>i \<in> set ?hl. snd (region s i) < 2 ^ 31"
    using assms by (auto simp: best_inv_def hole_regions_def)
  from best_fit_sim [OF ch small, of clicks "(- 1, None)" None] obtain b where
    b: "best_fit (walk_fuel s) s clicks (- 1, None) None (hole_head s) = Inr b"
    "closest ?n (\<lambda>i. snd (region s i)) (- 1, None) b ?hl" by blast
  show thesis
  proof (cases "b = (- 1, None)")
    case True
    then have "\<forall>j \<in> set ?hl. \<not> ?n \<le> snd (region s j)" using b(2) by (simp add: closest_def)
    then have "\<forall>r \<in> set (hole_regions s). snd r < ?n" by (simp add: hole_regions_def not_le)
    then show thesis using none b(1) True by simp
  next
    case False
    with b(2) obtain i pr where i: "snd b = Some (pr, i)" "i \<in> set ?hl"
      "snd (region s i) = unat (fst b) + ?n" by (auto simp: closest_def)
    have "unat (fst b) < 2 ^ 31" using i small by fastforce
    then have "0 \<le> sint (fst b)" by (simp add: sint_small)
    moreover have "\<forall>r \<in> set (hole_regions s). ?n \<le> snd r \<longrightarrow> snd (region s i) \<le> snd r"
      using b(2) i(3) by (auto simp: closest_def hole_regions_def)
    ultimately show thesis using some [of "fst b" pr i] b(1) i by (cases b) auto
  qed
qed

text \<open>
  C11: the best-fit \<open>alloc_mem\<close> returns the start of a hole of the smallest sufficient length
  and takes the clicks off its front. But it returns from the middle of the routine: a block
  asked to be cleared is not (no \<open>sys_memset\<close>), one asked to be aligned is not and costs the
  extra clicks, and a hole used up completely is not deleted. Where no hole is long enough it
  follows an uninitialised pointer instead of answering NO_MEM.
\<close>

theorem alloc_mem_best_fit:
  assumes "best_inv s" "\<not> vm_paged cfg" and "n = clicks + align_clicks cfg flags"
  shows "if \<forall>r \<in> set (hole_regions s). snd r < unat n
    then alloc_mem_best cfg A fy junk clicks flags s = Inl BadPointer
    else \<exists>b l s'. alloc_mem_best cfg A fy junk clicks flags s = Inr (b, s') \<and>
      (unat b, l) \<in> set (hole_regions s) \<and> unat n \<le> l \<and>
      (\<forall>r \<in> set (hole_regions s). unat n \<le> snd r \<longrightarrow> l \<le> snd r) \<and>
      best_inv s' \<and> hole_area s' = hole_area s - block b n \<and>
      memsets s' = memsets s \<and> hole_list s' = hole_list s"
proof (cases rule: best_fit_outcome [OF assms(1), of n, case_names none some])
  case none
  then show ?thesis using assms(2,3) by (simp add: alloc_mem_best_def hole_alloc_best_def Let_def)
next
  case (some rem pr i)
  let ?h = "hole_tab s ! i"
  have il: "i < length (hole_tab s)"
    using assms(1) some(2) by (auto simp: best_inv_def table_ok_def hrep_def)
  have n: "unat n \<le> snd (region s i)" using some(3) by simp
  let ?s' = "s\<lparr>hole_tab := (hole_tab s)[i := ?h\<lparr>h_base := h_base ?h + n, h_len := h_len ?h - n\<rparr>]\<rparr>"
  have run: "alloc_mem_best cfg A fy junk clicks flags s = Inr (h_base ?h, ?s')"
    using assms(2,3) some(1,4) il by (simp add: alloc_mem_best_def hole_alloc_best_def Let_def)
  have mem: "region s i \<in> set (hole_regions s)" using some(2) by (simp add: hole_regions_def)
  then have "\<not> (\<forall>r \<in> set (hole_regions s). snd r < unat n)" using n by fastforce
  then have not: "?thesis \<longleftrightarrow> (\<exists>b l s'. alloc_mem_best cfg A fy junk clicks flags s = Inr (b, s') \<and>
      (unat b, l) \<in> set (hole_regions s) \<and> unat n \<le> l \<and>
      (\<forall>r \<in> set (hole_regions s). unat n \<le> snd r \<longrightarrow> l \<le> snd r) \<and>
      best_inv s' \<and> hole_area s' = hole_area s - block b n \<and>
      memsets s' = memsets s \<and> hole_list s' = hole_list s)" by (rule if_not_P)
  have "(unat (h_base ?h), snd (region s i)) \<in> set (hole_regions s)"
    using mem by (simp add: region_def)
  moreover have "best_inv ?s' \<and> hole_list ?s' = hole_list s \<and> memsets ?s' = memsets s \<and>
      hole_area ?s' = hole_area s - block (h_base ?h) n"
    by (rule cut_hole [OF assms(1) some(2) n]) (simp add: il)
  ultimately show ?thesis unfolding not using run n some(5) by blast
qed

text \<open>Five clicks to be cleared, an exact fit, then more than there are.\<close>

lemma best_inv_example: "best_inv vm_example"
  by (simp add: best_inv_def)

theorem alloc_mem_best_fit_witness:
  "(\<exists>s'. alloc_mem_best cfg_example list_avl (\<lambda>_ s. (s, 0)) 7 5 1 vm_example = Inr (10, s') \<and>
      best_inv s' \<and> hole_area s' = {20..<120} \<and> memsets s' = [] \<and> hole_list s' = [0, 1]) \<and>
    alloc_mem_best cfg_example list_avl (\<lambda>_ s. (s, 0)) 7 101 1 vm_example = Inl BadPointer"
proof
  have al: "align_clicks cfg_example 1 = 0" by (simp add: align_clicks_def flag_set_def cfg_example_def)
  note th = alloc_mem_best_fit [of vm_example cfg_example _ _ 1 list_avl "\<lambda>_ s. (s, 0)" 7,
      OF best_inv_example cfg_example_facts(1)]
  have c: "\<not> (\<forall>r \<in> set (hole_regions vm_example). snd r < unat (5 :: u32))" by simp
  have d: "5 = 5 + align_clicks cfg_example 1" by (simp add: al)
  obtain b l s' where "alloc_mem_best cfg_example list_avl (\<lambda>_ s. (s, 0)) 7 5 1 vm_example = Inr (b, s')"
    and b: "(unat b, l) \<in> set (hole_regions vm_example)" "unat (5 :: u32) \<le> l"
      "\<forall>r \<in> set (hole_regions vm_example). unat (5 :: u32) \<le> snd r \<longrightarrow> l \<le> snd r"
    and s': "best_inv s'" "hole_area s' = hole_area vm_example - block b 5" "memsets s' = memsets vm_example"
      "hole_list s' = hole_list vm_example"
    using th [OF d] unfolding if_not_P [OF c] by blast
  moreover have b10: "b = 10" using b by (auto simp: word_eq_unat)
  moreover have "hole_area s' = {20..<120}"
    unfolding s'(2) b10 by (auto simp: block_def)
  moreover have "memsets s' = []" using s'(3) by (simp add: vm_example_def)
  ultimately show "\<exists>s'. alloc_mem_best cfg_example list_avl (\<lambda>_ s. (s, 0)) 7 5 1 vm_example = Inr (10, s') \<and>
      best_inv s' \<and> hole_area s' = {20..<120} \<and> memsets s' = [] \<and> hole_list s' = [0, 1]"
    by (intro exI [of _ s']) simp
  have c: "\<forall>r \<in> set (hole_regions vm_example). snd r < unat (101 :: u32)" by simp
  have d: "101 = 101 + align_clicks cfg_example 1" by (simp add: al)
  show "alloc_mem_best cfg_example list_avl (\<lambda>_ s. (s, 0)) 7 101 1 vm_example = Inl BadPointer"
    using th [OF d] unfolding if_P [OF c] .
qed

end
