(* ===== verification/VmList.thy ===== *)
theory VmList
  imports VmProps
begin

text \<open>
  The list allocator of minix/alloc.c: \<open>alloc_mem_in_list\<close> collects memory block by block from
  the page tree, \<open>free_mem_list\<close> gives it back.

  A \<open>struct memlist\<close> chain is only built at its head and walked, so it is a list, NULL being
  the empty one. Whether \<open>SLABALLOC\<close> finds room for the node of the \<open>i\<close>-th block is the
  argument \<open>slab_ok i\<close>; \<open>free_yielded\<close> is a parameter as in \<open>alloc_mem\<close>. The loop that asks
  for yielded memory again and again has the fuel \<open>tries\<close>; the loop over the blocks has one
  more than the pages asked for, of which every round gets at least one.
\<close>

section \<open>The code\<close>

record memlist =
  ml_phys :: u32
  ml_length :: u32

fun free_mem_list ::
  "vm_cfg \<Rightarrow> 't avl_ops \<Rightarrow> bool \<Rightarrow> memlist list \<Rightarrow> ('t, 'a) vm_scheme \<Rightarrow> ('t, 'a) vm_scheme res" where
  "free_mem_list cfg A everything [] s = Inr s"
| "free_mem_list cfg A everything (m # ms) s =
     bind_res (assert_res (ml_phys m mod VM_PAGE_SIZE cfg = 0)) (\<lambda>_.
     bind_res (assert_res (ml_length m mod VM_PAGE_SIZE cfg = 0)) (\<lambda>_.
     bind_res (if everything then free_pages A (ml_phys m div VM_PAGE_SIZE cfg) (ml_length m div VM_PAGE_SIZE cfg) s
               else Inr s) (\<lambda>s1.
     free_mem_list cfg A everything ms s1)))"

text \<open>\<open>do { mem = alloc_pages(...); if(mem == NO_MEM) freed = free_yielded(...); } while(mem == NO_MEM && freed > 0);\<close>\<close>

fun alloc_retry ::
  "nat \<Rightarrow> vm_cfg \<Rightarrow> 't avl_ops \<Rightarrow> (u32 \<Rightarrow> ('t, 'a) vm_scheme \<Rightarrow> ('t, 'a) vm_scheme \<times> u32) \<Rightarrow> u32 \<Rightarrow> u32 \<Rightarrow>
     ('t, 'a) vm_scheme \<Rightarrow> (u32 \<times> u32 option \<times> ('t, 'a) vm_scheme) res" where
  "alloc_retry 0 cfg A free_yielded rempages flags s = Inl Diverges"
| "alloc_retry (Suc n) cfg A free_yielded rempages flags s =
     bind_res (alloc_pages cfg A rempages flags True s) (\<lambda>(mem, gotpages, s1).
     if mem = NO_MEM cfg then
       (let (s2, freed) = free_yielded (rempages * VM_PAGE_SIZE cfg) s1 in
        if 0 < freed then alloc_retry n cfg A free_yielded rempages flags s2 else Inr (mem, gotpages, s2))
     else Inr (mem, gotpages, s1))"

fun mem_list_loop ::
  "nat \<Rightarrow> nat \<Rightarrow> vm_cfg \<Rightarrow> 't avl_ops \<Rightarrow> (u32 \<Rightarrow> ('t, 'a) vm_scheme \<Rightarrow> ('t, 'a) vm_scheme \<times> u32) \<Rightarrow> (nat \<Rightarrow> bool) \<Rightarrow>
     u32 \<Rightarrow> u32 \<Rightarrow> memlist list \<Rightarrow> ('t, 'a) vm_scheme \<Rightarrow> (memlist list \<times> ('t, 'a) vm_scheme) res" where
  "mem_list_loop 0 tries cfg A free_yielded slab_ok flags rempages head s = Inl Diverges"
| "mem_list_loop (Suc k) tries cfg A free_yielded slab_ok flags rempages head s =
     bind_res (alloc_retry tries cfg A free_yielded rempages flags s) (\<lambda>(mem, got, s1).
     if mem = NO_MEM cfg then
       bind_res (free_mem_list cfg A True head s1) (\<lambda>s2. Inr ([], s2))
     else
       bind_res (deref got) (\<lambda>gotpages.
       bind_res (assert_res (gotpages \<le> rempages)) (\<lambda>_.
       bind_res (assert_res (0 < gotpages)) (\<lambda>_.
       if \<not> slab_ok (length head) then
         bind_res (free_mem_list cfg A True head s1) (\<lambda>s2.
         bind_res (free_pages A mem gotpages s2) (\<lambda>s3. Inr ([], s3)))
       else
         (let head1 = \<lparr>ml_phys = CLICK2ABS cfg mem, ml_length = CLICK2ABS cfg gotpages\<rparr> # head;
              rem1 = rempages - gotpages in
          if 0 < rem1 then mem_list_loop k tries cfg A free_yielded slab_ok flags rem1 head1 s1
          else Inr (head1, s1))))))"

definition alloc_mem_in_list ::
  "nat \<Rightarrow> vm_cfg \<Rightarrow> 't avl_ops \<Rightarrow> (u32 \<Rightarrow> ('t, 'a) vm_scheme \<Rightarrow> ('t, 'a) vm_scheme \<times> u32) \<Rightarrow> (nat \<Rightarrow> bool) \<Rightarrow>
     u32 \<Rightarrow> u32 \<Rightarrow> ('t, 'a) vm_scheme \<Rightarrow> (memlist list \<times> ('t, 'a) vm_scheme) res" where
  "alloc_mem_in_list tries cfg A free_yielded slab_ok bytes flags0 s =
     bind_res (assert_res (0 < bytes)) (\<lambda>_.
     bind_res (assert_res (bytes mod VM_PAGE_SIZE cfg = 0)) (\<lambda>_.
     let rempages = bytes div VM_PAGE_SIZE cfg;
         flags = (if flag_set flags0 (PAF_CONTIG cfg) then flags0 else flags0 OR PAF_FIRSTBLOCK cfg) in
     bind_res (mem_list_loop (Suc (unat rempages)) tries cfg A free_yielded slab_ok flags rempages [] s) (\<lambda>(head, s1).
     bind_res (for_each head (\<lambda>ml _. bind_res (assert_res (ml_phys ml \<noteq> 0)) (\<lambda>_. assert_res (ml_length ml \<noteq> 0))) ())
       (\<lambda>_. Inr (head, s1)))))"

declare alloc_retry.simps [simp del] mem_list_loop.simps [simp del]

section \<open>Blocks and list nodes\<close>

definition ml_of :: "vm_cfg \<Rightarrow> u32 \<times> u32 \<Rightarrow> memlist" where
  "ml_of cfg bn = \<lparr>ml_phys = CLICK2ABS cfg (fst bn), ml_length = CLICK2ABS cfg (snd bn)\<rparr>"

text \<open>What holds between two steps: \<open>whole\<close> is all free memory at the start.\<close>

abbreviation list_account :: "vm_cfg \<Rightarrow> 't avl_ops \<Rightarrow> nat set \<Rightarrow> ('t, 'a) vm_scheme \<times> (u32 \<times> u32) list \<Rightarrow> bool" where
  "list_account cfg A \<equiv> page_tree_alloc.account cfg A 0"

definition below_4G :: "vm_cfg \<Rightarrow> nat set \<Rightarrow> bool" where
  "below_4G cfg whole \<longleftrightarrow> VM_PAGE_SIZE cfg = CLICK_SIZE cfg \<and> 1 < unat (CLICK_SIZE cfg) \<and> 0 \<notin> whole \<and>
     (\<forall>x \<in> whole. Suc x * unat (CLICK_SIZE cfg) < 2 ^ 32)"

lemma CLICK2ABS_unat:
  assumes "unat v * unat (CLICK_SIZE cfg) < 2 ^ 32"
  shows "unat (CLICK2ABS cfg v) = unat v * unat (CLICK_SIZE cfg)"
  using assms by (simp add: CLICK2ABS_def unat_word_ariths)

lemma CLICK2ABS_pages:
  assumes "unat v * unat (CLICK_SIZE cfg) < 2 ^ 32" "0 < unat (CLICK_SIZE cfg)"
  shows "CLICK2ABS cfg v mod CLICK_SIZE cfg = 0" "CLICK2ABS cfg v div CLICK_SIZE cfg = v"
  using CLICK2ABS_unat [OF assms(1)] assms(2)
  by (simp_all add: word_eq_unat unat_mod_distrib unat_div_distrib)

lemma list_account_unfold:
  "list_account cfg A whole (s, live) \<longleftrightarrow> avl_laws A \<and> pages_inv A s \<and> apart (page_area A s) live \<and>
     page_area A s \<union> live_area live = whole \<and> unat (NO_MEM cfg) \<notin> whole \<and>
     (\<forall>(b, n) \<in> set live. 0 < sint n \<and> unat b + unat n < 2 ^ 32)"
proof -
  have "\<not> flag_set 0 f" for f by (simp add: flag_set_def)
  then show ?thesis by (auto simp: page_tree_alloc.account_def pages_ready_def memset_ok_def low_flags_def)
qed

lemma held_block_fits:
  assumes "list_account cfg A whole (s, live)" "below_4G cfg whole" "(b, n) \<in> set live"
  shows "(unat b + unat n) * unat (CLICK_SIZE cfg) < 2 ^ 32" "0 < unat n" "0 < unat b"
proof -
  have "0 < sint n" using assms(1,3) by (auto simp: list_account_unfold)
  then have n: "0 < unat n" by (rule sint_pos_unat)
  then have "unat b + unat n - 1 \<in> block b n" "unat b \<in> block b n" by (auto simp: block_def)
  then have w: "unat b + unat n - 1 \<in> whole" "unat b \<in> whole"
    using assms(1,3) by (auto simp: list_account_unfold live_area_def)
  have "Suc (unat b + unat n - 1) = unat b + unat n" using n by simp
  moreover have "Suc (unat b + unat n - 1) * unat (CLICK_SIZE cfg) < 2 ^ 32"
    using w(1) assms(2) by (simp only: below_4G_def Ball_def)
  ultimately show "(unat b + unat n) * unat (CLICK_SIZE cfg) < 2 ^ 32" by (simp only:)
  from w(2) assms(2) show "0 < unat b" by (auto simp: below_4G_def intro: gr0I)
  show "0 < unat n" by (rule n)
qed

lemma held_block_abs:
  assumes "list_account cfg A whole (s, live)" "below_4G cfg whole" "(b, n) \<in> set live" "v = b \<or> v = n"
  shows "CLICK2ABS cfg v mod VM_PAGE_SIZE cfg = 0" "CLICK2ABS cfg v div VM_PAGE_SIZE cfg = v" "CLICK2ABS cfg v \<noteq> 0"
    "unat (CLICK2ABS cfg v) = unat v * unat (CLICK_SIZE cfg)"
proof -
  note fit = held_block_fits [OF assms(1,2,3)]
  have sz: "VM_PAGE_SIZE cfg = CLICK_SIZE cfg" "0 < unat (CLICK_SIZE cfg)" using assms(2) by (auto simp: below_4G_def)
  have v: "unat v * unat (CLICK_SIZE cfg) < 2 ^ 32"
    by (rule le_less_trans [OF _ fit(1)]) (use assms(4) in auto)
  note CLICK2ABS_pages [OF v sz(2)]
  then show "CLICK2ABS cfg v mod VM_PAGE_SIZE cfg = 0" "CLICK2ABS cfg v div VM_PAGE_SIZE cfg = v" by (simp_all add: sz(1))
  show u: "unat (CLICK2ABS cfg v) = unat v * unat (CLICK_SIZE cfg)" by (rule CLICK2ABS_unat [OF v])
  have "0 < unat v" using assms(4) fit(2,3) by blast
  then have "0 < unat (CLICK2ABS cfg v)" unfolding u using sz(2) by simp
  then show "CLICK2ABS cfg v \<noteq> 0" by auto
qed

section \<open>Giving a list back\<close>

abbreviation no_node :: fault where
  "no_node \<equiv> Panic ''alloc_pages: can't alloc''"

lemma free_mem_list_account:
  assumes "list_account cfg A whole (s, live @ rest)" "below_4G cfg whole"
  shows "free_mem_list cfg A True (map (ml_of cfg) live) s = Inl no_node \<or>
    (\<exists>s'. free_mem_list cfg A True (map (ml_of cfg) live) s = Inr s' \<and> list_account cfg A whole (s', rest))"
  using assms(1)
proof (induction live arbitrary: s)
  case Nil
  then show ?case by simp
next
  case (Cons bn live)
  obtain b n where bn: "bn = (b, n)" by (cases bn)
  have held: "(b, n) \<in> set ((bn # live) @ rest)" by (simp add: bn)
  note abs_b = held_block_abs [OF Cons.prems assms(2) held disjI1 [OF refl]]
    and abs_n = held_block_abs [OF Cons.prems assms(2) held disjI2 [OF refl]]
  have step: "free_mem_list cfg A True (map (ml_of cfg) (bn # live)) s =
      bind_res (free_pages A b n s) (free_mem_list cfg A True (map (ml_of cfg) live))"
    using abs_b(1,2) abs_n(1,2) by (simp add: ml_of_def bn)
  from page_tree_alloc.account_put [OF Cons.prems held] consider "free_pages A b n s = Inl no_node"
    | s' where "free_pages A b n s = Inr s'" "list_account cfg A whole (s', live @ rest)" by (auto simp: bn)
  then show ?case
  proof cases
    case 1
    then show ?thesis unfolding step by simp
  next
    case 2
    from Cons.IH [OF 2(2)] show ?thesis unfolding step 2(1) by simp
  qed
qed

lemma list_account_rotate:
  "list_account cfg A whole (s, x # live) \<longleftrightarrow> list_account cfg A whole (s, live @ [x])"
proof -
  have "live_area (x # live) = live_area (live @ [x])" by (auto simp: live_area_def)
  moreover have "sorted_wrt (\<lambda>(b, n) (b', n'). block b n \<inter> block b' n' = {}) (x # live) \<longleftrightarrow>
      sorted_wrt (\<lambda>(b, n) (b', n'). block b n \<inter> block b' n' = {}) (live @ [x])"
    by (cases x) (fastforce simp: sorted_wrt_append)
  ultimately show ?thesis by (auto simp: list_account_unfold apart_def)
qed

section \<open>Collecting a list\<close>

abbreviation nothing_yielded :: "u32 \<Rightarrow> 's \<Rightarrow> 's \<times> u32" where
  "nothing_yielded \<equiv> \<lambda>_ s. (s, 0)"

lemma alloc_retry_account:
  assumes acc: "list_account cfg A whole (s, live)" and ms: "memset_ok cfg flags"
    and rem: "0 < unat rempages" "unat rempages < 2 ^ 31"
  obtains (none) l where "alloc_retry (Suc t) cfg A nothing_yielded rempages flags s = Inr (NO_MEM cfg, l, s)"
  | (some) mem eff s' where "alloc_retry (Suc t) cfg A nothing_yielded rempages flags s = Inr (mem, Some eff, s')"
      "mem \<noteq> NO_MEM cfg" "list_account cfg A whole (s', (mem, eff) # live)" "0 < unat eff" "unat eff \<le> unat rempages"
      "\<not> first_block cfg flags \<longrightarrow> eff = rempages"
proof -
  have a: "avl_laws A" "pages_inv A s" "apart (page_area A s) live" "page_area A s \<union> live_area live = whole"
    "unat (NO_MEM cfg) \<notin> whole" "\<forall>(b, n) \<in> set live. 0 < sint n \<and> unat b + unat n < 2 ^ 32"
    using acc by (simp_all add: list_account_unfold)
  have len: "first_block cfg flags \<longrightarrow> True" by simp
  note sim = alloc_pages_sim [OF a(1,2) ms rem(1) len, unfolded if_True]
  show thesis
  proof (cases "\<exists>l. alloc_pages cfg A rempages flags True s = Inr (NO_MEM cfg, l, s)")
    case True
    then obtain l where "alloc_pages cfg A rempages flags True s = Inr (NO_MEM cfg, l, s)" by blast
    then show thesis using none [of l] by (simp add: alloc_retry.simps)
  next
    case False
    with sim obtain mem eff s' xs r ys where
      2: "alloc_pages cfg A rempages flags True s = Inr (mem, Some eff, s')"
        "page_regions A s = xs @ r # ys" "page_regions A s' = take_tail (unat eff) xs r ys" "pages_inv A s'"
        "unat eff = min (unat rempages) (snd r)" "0 < unat eff" "unat mem = fst r + snd r - unat eff"
        "unat rempages \<le> snd r \<or> first_block cfg flags"
      by blast
    have co: "coalesced (xs @ r # ys)" using a(2) 2(2) by (simp add: pages_inv_def)
    have sum: "unat mem + unat eff = fst r + snd r" "unat eff \<le> snd r" using 2(5,7) by simp_all
    have area': "page_area A s' = page_area A s - block mem eff"
      using take_tail_area(2) [OF co sum(2)] by (simp add: page_area_def 2(2,3,7) block_def)
    have "block mem eff \<subseteq> cells r" using sum by (cases r) (auto simp: block_def)
    then have sub: "block mem eff \<subseteq> page_area A s" by (auto simp: page_area_def 2(2))
    have "unat mem \<in> block mem eff" using 2(6) by (simp add: block_def)
    then have ne: "mem \<noteq> NO_MEM cfg" using sub a(4,5) by auto
    have w: "unat mem + unat eff < 2 ^ 32"
      using a(2) sum(1) unfolding pages_inv_def 2(2) by simp
    have le: "unat eff \<le> unat rempages" using 2(5) by simp
    then have "sint eff = int (unat eff)" using rem(2) by (intro sint_small) simp
    then have "0 < sint eff" using 2(6) by linarith
    then have "list_account cfg A whole (s', (mem, eff) # live)"
      using a 2(4) area' sub w apart_get [OF a(3) sub] by (auto simp: list_account_unfold)
    moreover have "\<not> first_block cfg flags \<longrightarrow> eff = rempages" using 2(5,8) by (auto simp: word_eq_unat)
    ultimately show thesis using 2(1,6) ne le by (intro some [of mem eff s']) (simp_all add: alloc_retry.simps)
  qed
qed

text \<open>The loop over the blocks, \<open>live\<close> being those already in the list.\<close>

lemma mem_list_loop_account:
  assumes "list_account cfg A whole (s, live)" "below_4G cfg whole" "memset_ok cfg flags"
    and "0 < unat rempages" "unat rempages < 2 ^ 31" "unat rempages < k"
  shows "mem_list_loop k (Suc t) cfg A nothing_yielded slab_ok flags rempages (map (ml_of cfg) live) s = Inl no_node \<or>
    (\<exists>live' s'. mem_list_loop k (Suc t) cfg A nothing_yielded slab_ok flags rempages (map (ml_of cfg) live) s =
        Inr (map (ml_of cfg) live', s') \<and> list_account cfg A whole (s', live') \<and>
      (live' \<noteq> [] \<longrightarrow> (\<Sum>(b, n) \<leftarrow> live'. unat n) = (\<Sum>(b, n) \<leftarrow> live. unat n) + unat rempages) \<and>
      (\<not> first_block cfg flags \<longrightarrow> length live' \<le> Suc (length live)))"
  using assms(1,4,5,6)
proof (induction k arbitrary: s live rempages)
  case 0
  then show ?case by simp
next
  case (Suc k)
  let ?head = "map (ml_of cfg) live"
  let ?loop = "mem_list_loop (Suc k) (Suc t) cfg A nothing_yielded slab_ok flags rempages ?head s"
  from Suc.prems(1) assms(3) Suc.prems(2,3) show ?case
  proof (cases rule: alloc_retry_account [where t = t])
    case (none l)
    then have run: "?loop = bind_res (free_mem_list cfg A True ?head s) (\<lambda>s2. Inr ([], s2))" by (simp add: mem_list_loop.simps)
    from free_mem_list_account [of cfg A whole s live "[]", OF _ assms(2)] Suc.prems(1)
    have "free_mem_list cfg A True ?head s = Inl no_node \<or>
        (\<exists>s'. free_mem_list cfg A True ?head s = Inr s' \<and> list_account cfg A whole (s', []))" by simp
    then show ?thesis unfolding run by fastforce
  next
    case (some mem eff s1)
    have le: "eff \<le> rempages" and pos: "0 < eff" using some(4,5) by (simp_all add: word_le_nat_alt word_less_nat_alt)
    have run: "?loop = (if \<not> slab_ok (length ?head) then
         bind_res (free_mem_list cfg A True ?head s1) (\<lambda>s2. bind_res (free_pages A mem eff s2) (\<lambda>s3. Inr ([], s3)))
       else if 0 < rempages - eff
         then mem_list_loop k (Suc t) cfg A nothing_yielded slab_ok flags (rempages - eff) (map (ml_of cfg) ((mem, eff) # live)) s1
         else Inr (map (ml_of cfg) ((mem, eff) # live), s1))"
      unfolding mem_list_loop.simps some(1) using some(2) le pos by (simp add: Let_def ml_of_def)
    consider (no_slab) "\<not> slab_ok (length ?head)" | (more) "slab_ok (length ?head)" "0 < rempages - eff"
      | (last) "slab_ok (length ?head)" "\<not> 0 < rempages - eff" by blast
    then show ?thesis
    proof cases
      case last
      then have "rempages - eff = 0" by (simp add: word_gt_0)
      then have "eff = rempages" by simp
      with last some(3) show ?thesis
        by (intro disjI2 exI [of _ "(mem, eff) # live"] exI [of _ s1]) (simp add: run)
    next
      case more
      have sub: "unat (rempages - eff) = unat rempages - unat eff" by (rule unat_minus_le [OF le])
      have "0 < unat (rempages - eff)" using more(2) by (simp add: word_less_nat_alt)
      moreover have "unat (rempages - eff) < 2 ^ 31" "unat (rempages - eff) < k"
        using Suc.prems(2,3,4) some(4) unfolding sub by simp_all
      moreover have "first_block cfg flags"
      proof (rule ccontr)
        assume "\<not> first_block cfg flags"
        with some(6) more(2) show False by simp
      qed
      ultimately show ?thesis
        using Suc.IH [OF some(3), of "rempages - eff"] more some(5) unfolding run sub by auto
    next
      case no_slab
      from free_mem_list_account [OF some(3) [unfolded list_account_rotate] assms(2)]
      consider "free_mem_list cfg A True ?head s1 = Inl no_node"
        | s2 where "free_mem_list cfg A True ?head s1 = Inr s2" "list_account cfg A whole (s2, [(mem, eff)])" by blast
      then show ?thesis
      proof cases
        case 1
        with no_slab show ?thesis unfolding run by simp
      next
        case 2
        from page_tree_alloc.account_put [OF 2(2), of mem eff] consider "free_pages A mem eff s2 = Inl no_node"
          | s3 where "free_pages A mem eff s2 = Inr s3" "list_account cfg A whole (s3, [])" by auto
        then show ?thesis using no_slab 2(1) unfolding run by cases fastforce+
      qed
    qed
  qed
qed

section \<open>The property\<close>

text \<open>
  C5: with nothing to be yielded, \<open>alloc_mem_in_list\<close> stops only for want of a tree node while
  it gives memory back. Otherwise it returns a list of blocks that were free, that overlap
  neither each other nor the memory still free, and that add up to the bytes asked for; or NULL,
  with all free memory as it was. With \<open>PAF_CONTIG\<close> alone it is one block. \<open>free_mem_list\<close>
  takes the list back and restores the ranges of the page tree exactly, unless a tree node is
  wanting.
\<close>

theorem mem_list_conserves:
  assumes "avl_laws A" "pages_inv A s" "below_4G cfg (page_area A s)" "unat (NO_MEM cfg) \<notin> page_area A s"
    and "sys_memset_rv cfg = (\<lambda>_ _. 0)" and "0 < bytes" "bytes mod VM_PAGE_SIZE cfg = 0"
  shows "alloc_mem_in_list (Suc t) cfg A nothing_yielded slab_ok bytes flags s = Inl no_node \<or>
    (\<exists>live s'. alloc_mem_in_list (Suc t) cfg A nothing_yielded slab_ok bytes flags s =
        Inr (map (ml_of cfg) live, s') \<and> pages_inv A s' \<and>
      apart (page_area A s') live \<and> page_area A s' \<union> live_area live = page_area A s \<and>
      (live \<noteq> [] \<longrightarrow> (\<Sum>(b, n) \<leftarrow> live. unat n) * unat (VM_PAGE_SIZE cfg) = unat bytes) \<and>
      (flag_set flags (PAF_CONTIG cfg) \<and> \<not> first_block cfg flags \<longrightarrow> length live \<le> 1) \<and>
      (free_mem_list cfg A True (map (ml_of cfg) live) s' = Inl no_node \<or>
        (\<exists>s''. free_mem_list cfg A True (map (ml_of cfg) live) s' = Inr s'' \<and> pages_inv A s'' \<and>
          page_regions A s'' = page_regions A s)))"
proof -
  let ?whole = "page_area A s" and ?p = "unat (VM_PAGE_SIZE cfg)"
  let ?flags = "if flag_set flags (PAF_CONTIG cfg) then flags else flags OR PAF_FIRSTBLOCK cfg"
  let ?rem = "bytes div VM_PAGE_SIZE cfg"
  let ?loop = "mem_list_loop (Suc (unat ?rem)) (Suc t) cfg A nothing_yielded slab_ok ?flags ?rem [] s"
  have acc: "list_account cfg A ?whole (s, [])" using assms(1,2,4) by (simp add: list_account_unfold)
  have ms: "memset_ok cfg ?flags" using assms(5) by (simp add: memset_ok_def)
  have p: "1 < ?p" using assms(3) by (simp add: below_4G_def)
  have rem: "unat ?rem = unat bytes div ?p" "unat bytes mod ?p = 0"
    using assms(7) by (simp_all add: unat_div_distrib word_eq_unat unat_mod_distrib)
  then have total: "unat ?rem * ?p = unat bytes" by auto
  have bytes: "0 < unat bytes" "unat bytes < 2 ^ 32"
    using assms(6) unsigned_less [of bytes, where ?'a = nat] by (simp_all add: word_less_nat_alt)
  have rpos: "0 < unat ?rem" using total bytes(1) by (auto intro: gr0I)
  have "unat ?rem * 2 \<le> unat ?rem * ?p" using p by simp
  then have rsmall: "unat ?rem < 2 ^ 31" using total bytes(2) by simp
  have run: "alloc_mem_in_list (Suc t) cfg A nothing_yielded slab_ok bytes flags s = bind_res ?loop (\<lambda>(head, s1).
      bind_res (for_each head (\<lambda>ml _. bind_res (assert_res (ml_phys ml \<noteq> 0)) (\<lambda>_. assert_res (ml_length ml \<noteq> 0))) ())
       (\<lambda>_. Inr (head, s1)))"
    using assms(6,7) by (simp add: alloc_mem_in_list_def Let_def)
  from mem_list_loop_account [OF acc assms(3) ms rpos rsmall lessI, of t slab_ok]
  consider "?loop = Inl no_node"
    | live s' where "?loop = Inr (map (ml_of cfg) live, s')" "list_account cfg A ?whole (s', live)"
      "live \<noteq> [] \<longrightarrow> (\<Sum>(b, n) \<leftarrow> live. unat n) = unat ?rem" "\<not> first_block cfg ?flags \<longrightarrow> length live \<le> 1"
    by auto
  then show ?thesis
  proof cases
    case 1
    then show ?thesis unfolding run by simp
  next
    case 2
    have checks: "for_each ms (\<lambda>ml _. bind_res (assert_res (ml_phys ml \<noteq> 0)) (\<lambda>_. assert_res (ml_length ml \<noteq> 0))) () = Inr ()"
      if "\<forall>m \<in> set ms. ml_phys m \<noteq> 0 \<and> ml_length m \<noteq> 0" for ms
      using that by (induction ms) simp_all
    have nz: "\<forall>m \<in> set (map (ml_of cfg) live). ml_phys m \<noteq> 0 \<and> ml_length m \<noteq> 0"
      using held_block_abs(3) [OF 2(2) assms(3)] by (auto simp: ml_of_def)
    have ret: "alloc_mem_in_list (Suc t) cfg A nothing_yielded slab_ok bytes flags s = Inr (map (ml_of cfg) live, s')"
      unfolding run 2(1) bind_res_simps prod.case checks [OF nz] by (rule refl)
    have undo: "free_mem_list cfg A True (map (ml_of cfg) live) s' = Inl no_node \<or>
        (\<exists>s''. free_mem_list cfg A True (map (ml_of cfg) live) s' = Inr s'' \<and> pages_inv A s'' \<and>
          page_regions A s'' = page_regions A s)"
    proof -
      have "page_regions A s'' = page_regions A s" if "list_account cfg A ?whole (s'', [])" for s''
      proof (rule coalesced_unique)
        show "coalesced (page_regions A s'')" "coalesced (page_regions A s)"
          using that assms(2) by (simp_all add: list_account_unfold pages_inv_def)
        show "area (page_regions A s'') = area (page_regions A s)"
          using that by (simp add: list_account_unfold page_area_def)
      qed
      then show ?thesis using free_mem_list_account [of cfg A ?whole s' live "[]", OF _ assms(3)] 2(2)
        by (auto simp: list_account_unfold)
    qed
    have "live \<noteq> [] \<longrightarrow> (\<Sum>(b, n) \<leftarrow> live. unat n) * ?p = unat bytes" using 2(3) total by simp
    moreover have "flag_set flags (PAF_CONTIG cfg) \<and> \<not> first_block cfg flags \<longrightarrow> length live \<le> 1" using 2(4) by auto
    moreover have "pages_inv A s'" "apart (page_area A s') live" "page_area A s' \<union> live_area live = ?whole"
      using 2(2) by (simp_all add: list_account_unfold)
    ultimately show ?thesis using ret undo by blast
  qed
qed

theorem mem_list_conserves_witness:
  "alloc_mem_in_list 1 cfg_example list_avl nothing_yielded (\<lambda>_. True) 49152 0 pages_example = Inl no_node \<or>
    (\<exists>live s'. alloc_mem_in_list 1 cfg_example list_avl nothing_yielded (\<lambda>_. True) 49152 0 pages_example =
        Inr (map (ml_of cfg_example) live, s') \<and> pages_inv list_avl s' \<and>
      apart (page_area list_avl s') live \<and> page_area list_avl s' \<union> live_area live = {10..<15} \<union> {20..<30} \<and>
      (live \<noteq> [] \<longrightarrow> (\<Sum>(b, n) \<leftarrow> live. unat n) * 4096 = 49152) \<and>
      (free_mem_list cfg_example list_avl True (map (ml_of cfg_example) live) s' = Inl no_node \<or>
        (\<exists>s''. free_mem_list cfg_example list_avl True (map (ml_of cfg_example) live) s' = Inr s'' \<and>
          pages_inv list_avl s'' \<and> page_regions list_avl s'' = [(10, 5), (20, 10)])))"
proof -
  have "below_4G cfg_example (page_area list_avl pages_example)"
    by (auto simp: below_4G_def cfg_example_def)
  moreover have "unat (NO_MEM cfg_example) \<notin> page_area list_avl pages_example" by simp
  moreover have "sys_memset_rv cfg_example = (\<lambda>_ _. 0)" "VM_PAGE_SIZE cfg_example = 4096" by (simp_all add: cfg_example_def)
  ultimately show ?thesis
    using mem_list_conserves [of list_avl pages_example cfg_example 49152 0 "\<lambda>_. True" 0] list_avl_laws
    by auto
qed

end
