(* ===== verification/VmDma.thy ===== *)
theory VmDma
  imports VmAlloc
begin

text \<open>
  The rest of minix/alloc.c that keeps state: the table of memory lent to devices
  (\<open>do_adddma\<close>, \<open>do_deldma\<close>, \<open>do_getdma\<close>, \<open>release_dma\<close>) and the bitmap of pages in use
  that the sanity checks build (\<open>usedpages_reset\<close>, \<open>usedpages_add_f\<close>).

  Parameters: the process lookup \<open>vm_isokendpt\<close>, the flag \<open>VMF_HAS_DMA\<close>, the error
  numbers. The bitmap macros of minix/bitmap.h are read as a set of bit numbers.
\<close>

record dmaent =
  dt_flags :: u32
  dt_proc :: int
  dt_base :: u32
  dt_size :: u32
  dt_seg_base :: u32
  dt_seg_size :: u32

record 't vmx = "'t vm" +
  dmatab :: "dmaent list"
  vm_flags :: "nat \<Rightarrow> u32"
  pagemap :: "nat set"

definition DTF_INUSE :: u32 where "DTF_INUSE = 1"
definition DTF_RELEASE_DMA :: u32 where "DTF_RELEASE_DMA = 2"
definition DTF_RELEASE_SEG :: u32 where "DTF_RELEASE_SEG = 4"

record dma_env =
  vm_isokendpt :: "int \<Rightarrow> nat option"
  VMF_HAS_DMA :: u32
  EINVAL :: int
  ESRCH :: int
  EAGAIN :: int
  EFAULT :: int

text \<open>The fields of a request message that the handlers read.\<close>

record dma_req =
  rq_ep :: int
  rq_start :: u32
  rq_size :: u32

definition dma_used :: "dmaent \<Rightarrow> bool" where
  "dma_used d \<longleftrightarrow> flag_set (dt_flags d) DTF_INUSE"

definition dma_match :: "dma_req \<Rightarrow> dmaent \<Rightarrow> bool" where
  "dma_match r d \<longleftrightarrow> dma_used d \<and> dt_proc d = rq_ep r \<and> dt_base d = rq_start r \<and> dt_size d = rq_size r"

text \<open>\<open>for (i = 0; i < NR_DMA; i++) if (P(dmatab[i])) break;\<close>\<close>

definition first_dma :: "(nat \<Rightarrow> bool) \<Rightarrow> dmaent list \<Rightarrow> nat option" where
  "first_dma P tab = find P [0..<length tab]"

definition do_adddma ::
  "dma_env \<Rightarrow> dma_req \<Rightarrow> ('t, 'a) vmx_scheme \<Rightarrow> (int \<times> ('t, 'a) vmx_scheme) res" where
  "do_adddma E r s =
     (case first_dma (\<lambda>i. \<not> dma_used (dmatab s ! i)) (dmatab s) of
        None \<Rightarrow> Inl (Panic ''adddma: table full'')
      | Some i \<Rightarrow>
          (case vm_isokendpt E (rq_ep r) of
             None \<Rightarrow> Inr (EINVAL E, s)
           | Some proc_n \<Rightarrow>
               Inr (0, s\<lparr>vm_flags := (vm_flags s)(proc_n := vm_flags s proc_n OR VMF_HAS_DMA E),
                 dmatab := (dmatab s)[i := (dmatab s ! i)\<lparr>dt_flags := DTF_INUSE, dt_proc := rq_ep r,
                   dt_base := rq_start r, dt_size := rq_size r\<rparr>]\<rparr>)))"

definition do_deldma ::
  "vm_cfg \<Rightarrow> 't avl_ops \<Rightarrow> dma_env \<Rightarrow> dma_req \<Rightarrow> ('t, 'a) vmx_scheme \<Rightarrow> (int \<times> ('t, 'a) vmx_scheme) res" where
  "do_deldma cfg A E r s =
     (case first_dma (\<lambda>i. dma_match r (dmatab s ! i)) (dmatab s) of
        None \<Rightarrow> Inr (ESRCH E, s)
      | Some i \<Rightarrow>
          bind_res
            (if flag_set (dt_flags (dmatab s ! i)) DTF_RELEASE_SEG then
               (case first_dma (\<lambda>j. j \<noteq> i \<and> dma_used (dmatab s ! j) \<and>
                    flag_set (dt_flags (dmatab s ! j)) DTF_RELEASE_SEG \<and>
                    dt_proc (dmatab s ! i) = rq_ep r) (dmatab s) of
                  Some j \<Rightarrow> Inr s
                | None \<Rightarrow> free_mem cfg A (dt_seg_base (dmatab s ! i)) (dt_seg_size (dmatab s ! i)) s)
             else Inr s) (\<lambda>s1.
          Inr (0, s1\<lparr>dmatab := (dmatab s1)[i :=
            (dmatab s1 ! i)\<lparr>dt_flags := dt_flags (dmatab s1 ! i) AND NOT DTF_INUSE\<rparr>]\<rparr>)))"

text \<open>The reply: process, base and size of the first entry waiting to be released.\<close>

definition do_getdma :: "dma_env \<Rightarrow> ('t, 'a) vmx_scheme \<Rightarrow> int \<times> (int \<times> u32 \<times> u32) option" where
  "do_getdma E s =
     (case first_dma (\<lambda>i. dma_used (dmatab s ! i) \<and>
          flag_set (dt_flags (dmatab s ! i)) DTF_RELEASE_DMA) (dmatab s) of
        None \<Rightarrow> (EAGAIN E, None)
      | Some i \<Rightarrow> (0, Some (dt_proc (dmatab s ! i), dt_base (dmatab s ! i), dt_size (dmatab s ! i))))"

definition release_dma :: "('t, 'a) vmx_scheme \<Rightarrow> ('t, 'a) vmx_scheme res" where
  "release_dma s = Inl (Panic ''release_dma not done'')"

section \<open>Pages in use\<close>

definition MAXPAGES :: "vm_cfg \<Rightarrow> u32" where
  "MAXPAGES cfg = 2 * (1024 * 1024 * 1024 div VM_PAGE_SIZE cfg)"

definition usedpages_reset :: "('t, 'a) vmx_scheme \<Rightarrow> ('t, 'a) vmx_scheme" where
  "usedpages_reset s = s\<lparr>pagemap := {}\<rparr>"

text \<open>
  \<open>while(pages > 0)\<close>, on the number of pages left. The second component of the result is
  the bitmap as the loop leaves it.
\<close>

fun mark_pages :: "u32 \<Rightarrow> int \<Rightarrow> nat \<Rightarrow> u32 \<Rightarrow> nat set \<Rightarrow> (int \<times> nat set) res" where
  "mark_pages maxpages efault 0 pagestart pm = Inr (0, pm)"
| "mark_pages maxpages efault (Suc pages) pagestart pm =
     bind_res (assert_res (0 < pagestart)) (\<lambda>_.
     bind_res (assert_res (pagestart < maxpages)) (\<lambda>_.
     if unat pagestart \<in> pm then Inr (efault, pm)
     else mark_pages maxpages efault pages (pagestart + 1) (insert (unat pagestart) pm)))"

definition usedpages_add_f ::
  "vm_cfg \<Rightarrow> dma_env \<Rightarrow> bool \<Rightarrow> u32 \<Rightarrow> u32 \<Rightarrow> ('t, 'a) vmx_scheme \<Rightarrow> (int \<times> ('t, 'a) vmx_scheme) res" where
  "usedpages_add_f cfg E incheck addr len s =
     (if \<not> incheck then Inr (0, s)
      else
        bind_res (assert_res (addr mod VM_PAGE_SIZE cfg = 0)) (\<lambda>_.
        bind_res (assert_res (len mod VM_PAGE_SIZE cfg = 0)) (\<lambda>_.
        bind_res (assert_res (0 < len)) (\<lambda>_.
        bind_res (assert_res (mem_low s \<le> addr)) (\<lambda>_.
        bind_res (assert_res (addr + len - 1 \<le> mem_high s)) (\<lambda>_.
        bind_res (mark_pages (MAXPAGES cfg) (EFAULT E) (unat (len div VM_PAGE_SIZE cfg))
          (addr div VM_PAGE_SIZE cfg) (pagemap s)) (\<lambda>(rv, pm).
        Inr (rv, s\<lparr>pagemap := pm\<rparr>))))))))"

section \<open>The table as a multiset\<close>

definition dma_key :: "dmaent \<Rightarrow> int \<times> u32 \<times> u32" where
  "dma_key d = (dt_proc d, dt_base d, dt_size d)"

definition dma_live :: "('t, 'a) vmx_scheme \<Rightarrow> (int \<times> u32 \<times> u32) multiset" where
  "dma_live s = mset (map dma_key (filter dma_used (dmatab s)))"

definition rq_key :: "dma_req \<Rightarrow> int \<times> u32 \<times> u32" where
  "rq_key r = (rq_ep r, rq_start r, rq_size r)"

lemma first_dma_Some:
  "first_dma P tab = Some i \<Longrightarrow> i < length tab \<and> P i"
  by (auto simp: first_dma_def find_Some_iff)

lemma first_dma_None: "first_dma P tab = None \<longleftrightarrow> (\<forall>i < length tab. \<not> P i)"
  by (auto simp: first_dma_def find_None_iff)

text \<open>Replacing one entry changes the multiset of one entry.\<close>

lemma mset_filter_update:
  assumes "i < length xs"
  shows "mset (map f (filter P (xs[i := x]))) + (if P (xs ! i) then {#f (xs ! i)#} else {#}) =
    mset (map f (filter P xs)) + (if P x then {#f x#} else {#})"
proof -
  let ?us = "take i xs" and ?vs = "drop (Suc i) xs"
  have "mset (map f (filter P (?us @ xs ! i # ?vs))) =
      mset (map f (filter P ?us)) + (if P (xs ! i) then {#f (xs ! i)#} else {#}) + mset (map f (filter P ?vs))"
    by simp
  then have "mset (map f (filter P xs)) =
      mset (map f (filter P ?us)) + (if P (xs ! i) then {#f (xs ! i)#} else {#}) + mset (map f (filter P ?vs))"
    unfolding id_take_nth_drop [OF assms, symmetric] .
  moreover have "mset (map f (filter P (xs[i := x]))) =
      mset (map f (filter P ?us)) + (if P x then {#f x#} else {#}) + mset (map f (filter P ?vs))"
    using assms by (simp add: upd_conv_take_nth_drop)
  ultimately show ?thesis by (simp add: ac_simps)
qed

lemma dma_live_upd:
  assumes "i < length (dmatab s)" "dmatab s' = (dmatab s)[i := d]"
  shows "dma_live s' + (if dma_used (dmatab s ! i) then {#dma_key (dmatab s ! i)#} else {#}) =
    dma_live s + (if dma_used d then {#dma_key d#} else {#})"
  using mset_filter_update [OF assms(1)] unfolding dma_live_def assms(2) .

lemma hole_free_dmatab:
  fixes s :: "('t, 'a) vmx_scheme"
  assumes "hole_inv s" "\<not> vm_paged cfg" "free_slots s \<noteq> None" "unat b + unat n < 2 ^ 32"
    "block b n \<inter> hole_area s = {}"
  shows "\<exists>s'. free_mem cfg A b n s = Inr s' \<and> dmatab s' = dmatab s \<and> hole_inv s' \<and>
    hole_area s' = hole_area s \<union> block b n"
proof (cases "n = 0")
  case True
  then show ?thesis using assms(1) by (simp add: free_mem_def block_def)
next
  case False
  then have "0 < n" by (simp add: word_gt_0)
  from hole_free_mem [OF assms(1,2) this assms(3,4,5), of A]
  show ?thesis by (force simp: only_holes_def)
qed

text \<open>The bitmap loop: success means the pages were free, and they are marked now.\<close>

lemma mark_pages_ok:
  assumes "unat pagestart + n \<le> unat maxpages" "0 < pagestart"
    and "{unat pagestart..<unat pagestart + n} \<inter> pm = {}"
  shows "mark_pages maxpages efault n pagestart pm = Inr (0, pm \<union> {unat pagestart..<unat pagestart + n})"
  using assms
proof (induction n arbitrary: pagestart pm)
  case (Suc n)
  have lt: "pagestart < maxpages" using Suc.prems(1) by (simp add: word_less_nat_alt)
  have "unat pagestart + 1 < 2 ^ 32 \<or> n = 0"
    using Suc.prems(1) unsigned_less [of maxpages, where ?'a = nat] by simp
  show ?case
  proof (cases n)
    case 0
    with Suc.prems lt show ?thesis by auto
  next
    case (Suc k)
    then have nx: "unat (pagestart + 1) = unat pagestart + 1"
      using Suc.prems(1) \<open>unat pagestart + 1 < 2 ^ 32 \<or> n = 0\<close> by (simp add: unat_plus_no_wrap)
    have "0 < pagestart + 1" using nx by (metis unat_gt_0 word_gt_0 add_gr_0 zero_less_one)
    moreover have "unat pagestart \<notin> pm" using Suc.prems(3) by (auto simp: disjoint_iff)
    moreover have "{unat pagestart + 1..<unat pagestart + 1 + n} \<inter> insert (unat pagestart) pm = {}"
      using Suc.prems(3) by (auto simp: disjoint_iff)
    ultimately show ?thesis
      using Suc.IH [of "pagestart + 1" "insert (unat pagestart) pm"] Suc.prems lt nx by auto
  qed
qed simp

lemma mark_pages_used:
  assumes "mark_pages maxpages efault n pagestart pm = Inr (0, pm')" "efault \<noteq> 0"
    "unat pagestart + n < 2 ^ 32"
  shows "{unat pagestart..<unat pagestart + n} \<inter> pm = {} \<and>
    pm' = pm \<union> {unat pagestart..<unat pagestart + n}"
  using assms
proof (induction n arbitrary: pagestart pm)
  case (Suc n)
  then have nx: "unat (pagestart + 1) = unat pagestart + 1" by (simp add: unat_plus_no_wrap)
  from Suc.prems have *: "unat pagestart \<notin> pm"
    "mark_pages maxpages efault n (pagestart + 1) (insert (unat pagestart) pm) = Inr (0, pm')"
    by (auto simp: bind_res_eq_Inr split: if_splits)
  have "{unat pagestart..<unat pagestart + Suc n} = insert (unat pagestart) {unat pagestart + 1..<unat pagestart + 1 + n}"
    by auto
  with Suc.IH [OF *(2) Suc.prems(2)] Suc.prems(3) nx *(1) show ?case by auto
qed simp

section \<open>Properties\<close>

text \<open>
  The DMA table is a multiset of (process, base, size) entries. \<open>do_adddma\<close> adds the
  requested entry, for a known process while a slot is unused.
\<close>

theorem do_adddma_adds:
  assumes "vm_isokendpt E (rq_ep r) = Some proc_n" "\<not> dma_used (dmatab s ! k)" "k < length (dmatab s)"
  shows "\<exists>s'. do_adddma E r s = Inr (0, s') \<and> dma_live s' = add_mset (rq_key r) (dma_live s)"
proof -
  obtain i where i: "first_dma (\<lambda>i. \<not> dma_used (dmatab s ! i)) (dmatab s) = Some i"
    using assms(2,3) first_dma_None by (metis not_None_eq)
  note I = first_dma_Some [OF i]
  let ?d = "(dmatab s ! i)\<lparr>dt_flags := DTF_INUSE, dt_proc := rq_ep r, dt_base := rq_start r,
    dt_size := rq_size r\<rparr>"
  let ?s' = "s\<lparr>vm_flags := (vm_flags s)(proc_n := vm_flags s proc_n OR VMF_HAS_DMA E),
    dmatab := (dmatab s)[i := ?d]\<rparr>"
  have run: "do_adddma E r s = Inr (0, ?s')" using i assms(1) by (simp add: do_adddma_def)
  have "dma_used ?d" "dma_key ?d = rq_key r"
    by (simp_all add: dma_used_def flag_set_def DTF_INUSE_def dma_key_def rq_key_def)
  with dma_live_upd [of i s ?s' ?d] I have "dma_live ?s' = add_mset (rq_key r) (dma_live s)" by simp
  with run show ?thesis by blast
qed

definition dma_env_example :: dma_env where
  "dma_env_example = \<lparr>vm_isokendpt = (\<lambda>ep. if 0 \<le> ep \<and> ep < 5 then Some (nat ep) else None),
     VMF_HAS_DMA = 8, EINVAL = 22, ESRCH = 3, EAGAIN = 11, EFAULT = 14\<rparr>"

definition mk_dma :: "u32 \<Rightarrow> int \<Rightarrow> u32 \<Rightarrow> u32 \<Rightarrow> u32 \<Rightarrow> u32 \<Rightarrow> dmaent" where
  "mk_dma f p b n sb sn = \<lparr>dt_flags = f, dt_proc = p, dt_base = b, dt_size = n, dt_seg_base = sb, dt_seg_size = sn\<rparr>"

definition dma_example :: "nat list vmx" where
  "dma_example = \<lparr>memsets = [], hole_tab = [], hole_head = None, free_slots = None, addravl = [],
     pr_heap = (\<lambda>_. None), mem_low = 0, mem_high = 100000, total_pages = 0,
     dmatab = [mk_dma 5 1 4096 10 100 2, mk_dma 0 0 0 0 0 0, mk_dma 5 2 8192 10 200 2],
     vm_flags = (\<lambda>_. 0), pagemap = {}\<rparr>"

theorem do_adddma_adds_witness:
  "\<exists>s'. do_adddma dma_env_example \<lparr>rq_ep = 4, rq_start = 64, rq_size = 8\<rparr> dma_example = Inr (0, s') \<and>
    dma_live s' = add_mset (rq_key \<lparr>rq_ep = 4, rq_start = 64, rq_size = 8\<rparr>) (dma_live dma_example)"
  by (rule do_adddma_adds [where k = 1 and proc_n = 4])
    (simp_all add: dma_env_example_def dma_example_def mk_dma_def dma_used_def flag_set_def)

text \<open>
  C18: \<open>do_deldma\<close> answers ESRCH exactly when no such entry is in use, and otherwise removes
  one, whether or not a segment is released on the way.
\<close>

theorem do_deldma_removes:
  fixes s :: "('t, 'a) vmx_scheme"
  assumes "ESRCH E \<noteq> 0" "hole_inv s" "\<not> vm_paged cfg" "free_slots s \<noteq> None"
    and "\<forall>d \<in> set (dmatab s). unat (dt_seg_base d) + unat (dt_seg_size d) < 2 ^ 32 \<and>
      block (dt_seg_base d) (dt_seg_size d) \<inter> hole_area s = {}"
  shows "\<exists>rv s'. do_deldma cfg A E r s = Inr (rv, s') \<and>
    (rq_key r \<notin># dma_live s \<longrightarrow> rv = ESRCH E \<and> s' = s) \<and>
    (rq_key r \<in># dma_live s \<longrightarrow> rv = 0 \<and> dma_live s = add_mset (rq_key r) (dma_live s'))"
proof (cases "first_dma (\<lambda>i. dma_match r (dmatab s ! i)) (dmatab s)")
  case None
  then have "rq_key r \<notin># dma_live s"
    by (auto simp: first_dma_None dma_live_def dma_match_def dma_key_def rq_key_def in_set_conv_nth)
  with None show ?thesis by (simp add: do_deldma_def)
next
  case (Some i)
  note I = first_dma_Some [OF Some]
  have mem: "dmatab s ! i \<in> set (dmatab s)" using I by simp
  have key: "dma_key (dmatab s ! i) = rq_key r" "dma_used (dmatab s ! i)"
    using I by (simp_all add: dma_match_def dma_key_def rq_key_def)
  have "rq_key r \<in># dma_live s" using mem key by (force simp: dma_live_def)
  have "\<exists>s1. (if flag_set (dt_flags (dmatab s ! i)) DTF_RELEASE_SEG then
               (case first_dma (\<lambda>j. j \<noteq> i \<and> dma_used (dmatab s ! j) \<and>
                    flag_set (dt_flags (dmatab s ! j)) DTF_RELEASE_SEG \<and>
                    dt_proc (dmatab s ! i) = rq_ep r) (dmatab s) of
                  Some j \<Rightarrow> Inr s
                | None \<Rightarrow> free_mem cfg A (dt_seg_base (dmatab s ! i)) (dt_seg_size (dmatab s ! i)) s)
             else Inr s) = Inr s1 \<and> dmatab s1 = dmatab s"
    using hole_free_dmatab [OF assms(2-4), of "dt_seg_base (dmatab s ! i)" "dt_seg_size (dmatab s ! i)" A]
      assms(5) mem by (auto split: option.splits)
  then obtain s1 where s1: "do_deldma cfg A E r s = Inr (0, s1\<lparr>dmatab := (dmatab s1)[i :=
            (dmatab s1 ! i)\<lparr>dt_flags := dt_flags (dmatab s1 ! i) AND NOT DTF_INUSE\<rparr>]\<rparr>)"
    "dmatab s1 = dmatab s" using Some by (auto simp: do_deldma_def)
  let ?d = "(dmatab s ! i)\<lparr>dt_flags := dt_flags (dmatab s ! i) AND NOT DTF_INUSE\<rparr>"
  let ?s' = "s1\<lparr>dmatab := (dmatab s1)[i := (dmatab s1 ! i)\<lparr>dt_flags := dt_flags (dmatab s1 ! i) AND NOT DTF_INUSE\<rparr>]\<rparr>"
  have "\<not> dma_used ?d" by (simp add: dma_used_def flag_set_def and.assoc)
  with dma_live_upd [of i s ?s' ?d] I key s1(2) have "dma_live s = add_mset (rq_key r) (dma_live ?s')" by simp
  with s1(1) \<open>rq_key r \<in># dma_live s\<close> show ?thesis by blast
qed

definition deldma_example :: "nat list vmx" where
  "deldma_example = \<lparr>memsets = [], hole_tab =
       [\<lparr>h_next = None, h_base = 10, h_len = 5, freelist = 0, holelist = 0\<rparr>,
        \<lparr>h_next = None, h_base = 0, h_len = 0, freelist = 0, holelist = 0\<rparr>],
     hole_head = Some 0, free_slots = Some 1, addravl = [], pr_heap = (\<lambda>_. None),
     mem_low = 0, mem_high = 100000, total_pages = 0,
     dmatab = [mk_dma 5 1 4096 10 100 2, mk_dma 5 2 8192 10 200 2],
     vm_flags = (\<lambda>_. 0), pagemap = {}\<rparr>"

lemma deldma_example_rep: "hrep deldma_example [0] [1]"
  by (auto simp: hrep_def deldma_example_def nx_def)

lemma deldma_example_area: "hole_inv deldma_example" "hole_area deldma_example = {10..<15}"
proof -
  note L = hrep_lists [OF deldma_example_rep]
  have r: "hole_regions deldma_example = [(10, 5)]"
    unfolding L(3) by (simp add: region_def deldma_example_def)
  show "hole_inv deldma_example" using L(4) by (simp add: hole_inv_def r coalesced_Cons)
  show "hole_area deldma_example = {10..<15}" by (simp add: hole_area_def r)
qed

theorem do_deldma_removes_witness:
  "\<exists>rv s'. do_deldma cfg_example list_avl dma_env_example \<lparr>rq_ep = 2, rq_start = 8192, rq_size = 10\<rparr>
      deldma_example = Inr (rv, s') \<and>
    (rq_key \<lparr>rq_ep = 2, rq_start = 8192, rq_size = 10\<rparr> \<notin># dma_live deldma_example \<longrightarrow>
       rv = ESRCH dma_env_example \<and> s' = deldma_example) \<and>
    (rq_key \<lparr>rq_ep = 2, rq_start = 8192, rq_size = 10\<rparr> \<in># dma_live deldma_example \<longrightarrow>
       rv = 0 \<and> dma_live deldma_example =
         add_mset (rq_key \<lparr>rq_ep = 2, rq_start = 8192, rq_size = 10\<rparr>) (dma_live s'))"
proof (rule do_deldma_removes)
  show "ESRCH dma_env_example \<noteq> 0" by (simp add: dma_env_example_def)
  show "hole_inv deldma_example" by (rule deldma_example_area)
  show "\<not> vm_paged cfg_example" by (simp add: cfg_example_def)
  show "free_slots deldma_example \<noteq> None" by (simp add: deldma_example_def)
  show "\<forall>d \<in> set (dmatab deldma_example). unat (dt_seg_base d) + unat (dt_seg_size d) < 2 ^ 32 \<and>
      block (dt_seg_base d) (dt_seg_size d) \<inter> hole_area deldma_example = {}"
    by (auto simp: deldma_example_area(2) block_def) (auto simp: deldma_example_def mk_dma_def)
qed

text \<open>
  The segment of a DMA entry is released only when no other entry of any process
  waits for release: the inner loop compares the process of the entry being deleted, not
  of the one it looks at, so an entry of another process keeps the segment allocated.
\<close>

theorem do_deldma_keeps_segment:
  assumes "first_dma (\<lambda>i. dma_match r (dmatab s ! i)) (dmatab s) = Some i"
    and "j < length (dmatab s)" "j \<noteq> i" "dma_used (dmatab s ! j)"
    and "flag_set (dt_flags (dmatab s ! j)) DTF_RELEASE_SEG"
  shows "\<exists>s'. do_deldma cfg A E r s = Inr (0, s') \<and> hole_tab s' = hole_tab s \<and>
    hole_head s' = hole_head s \<and> addravl s' = addravl s \<and> pr_heap s' = pr_heap s"
proof -
  have "dt_proc (dmatab s ! i) = rq_ep r"
    using first_dma_Some [OF assms(1)] by (simp add: dma_match_def)
  then have "first_dma (\<lambda>j. j \<noteq> i \<and> dma_used (dmatab s ! j) \<and>
      flag_set (dt_flags (dmatab s ! j)) DTF_RELEASE_SEG \<and> dt_proc (dmatab s ! i) = rq_ep r) (dmatab s) \<noteq> None"
    unfolding first_dma_None using assms(2-5) by blast
  with assms(1) show ?thesis by (auto simp: do_deldma_def)
qed

theorem do_deldma_keeps_segment_witness:
  "rq_ep \<lparr>rq_ep = 1, rq_start = 4096, rq_size = 10\<rparr> \<noteq> dt_proc (dmatab deldma_example ! 1) \<and>
   (\<exists>s'. do_deldma cfg_example list_avl dma_env_example \<lparr>rq_ep = 1, rq_start = 4096, rq_size = 10\<rparr>
      deldma_example = Inr (0, s') \<and> hole_tab s' = hole_tab deldma_example \<and>
    hole_head s' = hole_head deldma_example \<and> addravl s' = addravl deldma_example \<and>
    pr_heap s' = pr_heap deldma_example)"
proof
  show "\<exists>s'. do_deldma cfg_example list_avl dma_env_example \<lparr>rq_ep = 1, rq_start = 4096, rq_size = 10\<rparr>
      deldma_example = Inr (0, s') \<and> hole_tab s' = hole_tab deldma_example \<and>
    hole_head s' = hole_head deldma_example \<and> addravl s' = addravl deldma_example \<and>
    pr_heap s' = pr_heap deldma_example"
  proof (rule do_deldma_keeps_segment [where i = 0 and j = 1])
    have two: "[0..<2] = [0, 1 :: nat]" by (simp add: upt_rec)
    have tab: "dmatab deldma_example = [mk_dma 5 1 4096 10 100 2, mk_dma 5 2 8192 10 200 2]"
      by (simp add: deldma_example_def)
    have "length (dmatab deldma_example) = 2" by (simp add: tab)
    then show "first_dma (\<lambda>i. dma_match \<lparr>rq_ep = 1, rq_start = 4096, rq_size = 10\<rparr> (dmatab deldma_example ! i))
        (dmatab deldma_example) = Some 0"
      by (simp only: first_dma_def two) (simp add: tab dma_match_def dma_used_def mk_dma_def
          flag_set_def DTF_INUSE_def)
  qed (simp_all add: deldma_example_def dma_used_def mk_dma_def flag_set_def DTF_INUSE_def
      DTF_RELEASE_SEG_def)
qed (simp add: deldma_example_def mk_dma_def)

text \<open>
  The page bitmap of the sanity checks detects reuse. On aligned arguments within the
  recorded bounds, \<open>usedpages_add_f\<close> returns OK if and only if none of the pages was
  recorded before, and then records exactly them.
\<close>

theorem usedpages_detects_reuse:
  assumes "EFAULT E \<noteq> 0" "VM_PAGE_SIZE cfg \<noteq> 0"
    and "addr mod VM_PAGE_SIZE cfg = 0" "len mod VM_PAGE_SIZE cfg = 0" "0 < len"
    and "mem_low s \<le> addr" "addr + len - 1 \<le> mem_high s"
    and "0 < addr div VM_PAGE_SIZE cfg"
    and "unat (addr div VM_PAGE_SIZE cfg) + unat (len div VM_PAGE_SIZE cfg) \<le> unat (MAXPAGES cfg)"
  shows "let pages = block (addr div VM_PAGE_SIZE cfg) (len div VM_PAGE_SIZE cfg) in
    (pages \<inter> pagemap s = {} \<longrightarrow>
       usedpages_add_f cfg E True addr len s = Inr (0, s\<lparr>pagemap := pagemap s \<union> pages\<rparr>)) \<and>
    (pages \<inter> pagemap s \<noteq> {} \<longrightarrow> (\<nexists>s'. usedpages_add_f cfg E True addr len s = Inr (0, s')))"
proof -
  let ?p = "addr div VM_PAGE_SIZE cfg" and ?n = "unat (len div VM_PAGE_SIZE cfg)"
  have w: "unat ?p + ?n < 2 ^ 32"
    using assms(9) unsigned_less [of "MAXPAGES cfg", where ?'a = nat] by simp
  have run: "usedpages_add_f cfg E True addr len s =
      bind_res (mark_pages (MAXPAGES cfg) (EFAULT E) ?n ?p (pagemap s)) (\<lambda>(rv, pm).
        Inr (rv, s\<lparr>pagemap := pm\<rparr>))"
    using assms(3-7) by (simp add: usedpages_add_f_def)
  let ?pages = "block ?p (len div VM_PAGE_SIZE cfg)"
  have "usedpages_add_f cfg E True addr len s = Inr (0, s\<lparr>pagemap := pagemap s \<union> ?pages\<rparr>)"
    if "?pages \<inter> pagemap s = {}"
    using mark_pages_ok [OF assms(9,8) that [unfolded block_def], of "EFAULT E"]
    by (simp add: run block_def)
  moreover have "?pages \<inter> pagemap s = {}" if ok: "usedpages_add_f cfg E True addr len s = Inr (0, s')" for s'
  proof -
    obtain rv pm where m: "mark_pages (MAXPAGES cfg) (EFAULT E) ?n ?p (pagemap s) = Inr (rv, pm)"
      using ok unfolding run by (cases "mark_pages (MAXPAGES cfg) (EFAULT E) ?n ?p (pagemap s)") auto
    then have "rv = 0" using ok unfolding run by simp
    with m mark_pages_used [OF _ assms(1) w] show ?thesis unfolding block_def by blast
  qed
  ultimately show ?thesis unfolding Let_def by blast
qed

theorem usedpages_detects_reuse_witness:
  "let pages = block (8192 div VM_PAGE_SIZE cfg_example) (12288 div VM_PAGE_SIZE cfg_example) in
    (pages \<inter> pagemap dma_example = {} \<longrightarrow>
       usedpages_add_f cfg_example dma_env_example True 8192 12288 dma_example =
         Inr (0, dma_example\<lparr>pagemap := pagemap dma_example \<union> pages\<rparr>)) \<and>
    (pages \<inter> pagemap dma_example \<noteq> {} \<longrightarrow>
       (\<nexists>s'. usedpages_add_f cfg_example dma_env_example True 8192 12288 dma_example = Inr (0, s')))"
  by (rule usedpages_detects_reuse)
    (simp_all add: dma_env_example_def cfg_example_def dma_example_def MAXPAGES_def)

end
