(* ===== verification/Sched.thy ===== *)
theory Sched
  imports Prelude
begin

text \<open>
  minix/schedule.c: the scheduling policy of the SCHED server. The state is the table
  \<open>schedproc\<close>, the default time slice \<open>DUTS\<close>, the rebalancing period, and the log of the
  kernel calls made so far (oldest first).

  Not in the repository, and therefore parameters (\<open>sched_env\<close>): the queue constants, the
  endpoint lookups \<open>sched_isokendpt\<close> and \<open>sched_isemtyendpt\<close> (an error code or a slot
  number, read off the table), \<open>nice_to_priority\<close> (an error code or a queue), the sender
  check, and the results of the kernel calls, which may depend on the calls before.
  \<open>sched_laws\<close> states what the MINIX sources promise of them.
\<close>

section \<open>State\<close>

record schedproc =
  sp_endpoint :: int
  sp_parent :: int
  sp_nice :: int
  sp_flags :: u32
  sp_priority :: u32
  sp_max_priority :: u32
  sp_time_slice :: u32

datatype kcall = SysSchedule int u32 u32 | SysSchedctl int | SetTimer u32

record sched =
  schedproc :: "schedproc list"
  DUTS :: u32
  balance_timeout :: u32
  kcalls :: "kcall list"

record message =
  m_source :: int
  SCHEDULING_ENDPOINT :: int
  SCHEDULING_PARENT :: int
  SCHEDULING_NICE :: int
  SCHEDULING_SCHEDULER :: int

record sched_env =
  USER_Q :: u32
  MIN_USER_Q :: u32
  IN_USE :: u32
  EPERM :: int
  EBADSRCDST :: int
  SCHED_PROC_NR :: int
  sched_hz :: u32
  is_from_pm :: "message \<Rightarrow> bool"
  sched_isokendpt :: "schedproc list \<Rightarrow> int \<Rightarrow> int + nat"
  sched_isemtyendpt :: "schedproc list \<Rightarrow> int \<Rightarrow> int + nat"
  nice_to_priority :: "int \<Rightarrow> int + u32"
  sys_schedule :: "kcall list \<Rightarrow> int \<Rightarrow> u32 \<Rightarrow> u32 \<Rightarrow> int"
  sys_schedctl :: "kcall list \<Rightarrow> int \<Rightarrow> int"

definition BALANCE_TIMEOUT :: u32 where "BALANCE_TIMEOUT = 5"
definition DEFAULT_USER_TIME_SLICE :: u32 where "DEFAULT_USER_TIME_SLICE = 300"
definition SECONDARY_USER_TIME_SLICE :: u32 where "SECONDARY_USER_TIME_SLICE = 150"

definition in_use :: "sched_env \<Rightarrow> schedproc \<Rightarrow> bool" where
  "in_use E p \<longleftrightarrow> sp_flags p AND IN_USE E \<noteq> 0"

definition rd_proc :: "sched \<Rightarrow> nat \<Rightarrow> schedproc res" where
  "rd_proc s i = (if i < length (schedproc s) then Inr (schedproc s ! i) else Inl IndexFault)"

definition wr_proc :: "sched \<Rightarrow> nat \<Rightarrow> schedproc \<Rightarrow> sched" where
  "wr_proc s i p = s\<lparr>schedproc := (schedproc s)[i := p]\<rparr>"

section \<open>Handlers\<close>

text \<open>A handler returns its code (OK = 0), the message as it leaves it, and the state.\<close>

definition schedule_process :: "sched_env \<Rightarrow> schedproc \<Rightarrow> sched \<Rightarrow> int \<times> sched" where
  "schedule_process E p s =
     (sys_schedule E (kcalls s) (sp_endpoint p) (sp_priority p) (sp_time_slice p),
      s\<lparr>kcalls := kcalls s @ [SysSchedule (sp_endpoint p) (sp_priority p) (sp_time_slice p)]\<rparr>)"

definition do_noquantum :: "sched_env \<Rightarrow> message \<Rightarrow> sched \<Rightarrow> (int \<times> message \<times> sched) res" where
  "do_noquantum E m s =
     (case sched_isokendpt E (schedproc s) (m_source m) of
        Inl rv \<Rightarrow> Inr (EBADSRCDST E, m, s)
      | Inr i \<Rightarrow>
          bind_res (rd_proc s i) (\<lambda>rmp.
          let rmp1 = (if sp_priority rmp < MIN_USER_Q E
                      then rmp\<lparr>sp_priority := sp_priority rmp + 1\<rparr> else rmp);
              (rv, s2) = schedule_process E rmp1 (wr_proc s i rmp1) in
          Inr (rv, m, s2)))"

definition do_stop_scheduling :: "sched_env \<Rightarrow> message \<Rightarrow> sched \<Rightarrow> (int \<times> message \<times> sched) res" where
  "do_stop_scheduling E m s =
     (if \<not> is_from_pm E m then Inr (EPERM E, m, s)
      else case sched_isokendpt E (schedproc s) (SCHEDULING_ENDPOINT m) of
        Inl rv \<Rightarrow> Inr (EBADSRCDST E, m, s)
      | Inr i \<Rightarrow>
          bind_res (rd_proc s i) (\<lambda>rmp. Inr (0, m, wr_proc s i (rmp\<lparr>sp_flags := 0\<rparr>))))"

text \<open>
  \<open>do_start_scheduling\<close>: the slot is filled field by field, so an early return leaves the
  fields written so far.
\<close>

definition do_start_scheduling :: "sched_env \<Rightarrow> message \<Rightarrow> sched \<Rightarrow> (int \<times> message \<times> sched) res" where
  "do_start_scheduling E m s =
     (if \<not> is_from_pm E m then Inr (EPERM E, m, s)
      else case sched_isemtyendpt E (schedproc s) (SCHEDULING_ENDPOINT m) of
        Inl rv \<Rightarrow> Inr (rv, m, s)
      | Inr i \<Rightarrow>
          bind_res (rd_proc s i) (\<lambda>rmp.
          let r1 = rmp\<lparr>sp_endpoint := SCHEDULING_ENDPOINT m, sp_parent := SCHEDULING_PARENT m,
                      sp_nice := SCHEDULING_NICE m\<rparr>;
              s1 = wr_proc s i r1 in
          case nice_to_priority E (sp_nice r1) of
            Inl rv \<Rightarrow> Inr (rv, m, s1)
          | Inr q \<Rightarrow>
              (let r2 = r1\<lparr>sp_max_priority := q\<rparr>; s2 = wr_proc s1 i r2 in
               bind_res
                 (if sp_endpoint r2 = sp_parent r2 then
                    Inr (Inr (r2\<lparr>sp_priority := USER_Q E, sp_time_slice := DUTS s2\<rparr>))
                  else case sched_isokendpt E (schedproc s2) (SCHEDULING_PARENT m) of
                    Inl rv \<Rightarrow> Inr (Inl rv)
                  | Inr j \<Rightarrow> bind_res (rd_proc s2 j) (\<lambda>par.
                      Inr (Inr (r2\<lparr>sp_priority := sp_priority par, sp_time_slice := sp_time_slice par\<rparr>))))
                 (\<lambda>inherited.
                  case inherited of
                    Inl rv \<Rightarrow> Inr (rv, m, s2)
                  | Inr r3 \<Rightarrow>
                      (let s3 = wr_proc s2 i r3;
                           rv = sys_schedctl E (kcalls s3) (sp_endpoint r3);
                           s4 = s3\<lparr>kcalls := kcalls s3 @ [SysSchedctl (sp_endpoint r3)]\<rparr> in
                       if rv \<noteq> 0 then Inr (rv, m, s4)
                       else
                         (let r4 = r3\<lparr>sp_flags := IN_USE E\<rparr>;
                              (rv, s5) = schedule_process E r4 (wr_proc s4 i r4) in
                          if rv \<noteq> 0 then Inr (rv, m, s5)
                          else Inr (0, m\<lparr>SCHEDULING_SCHEDULER := SCHED_PROC_NR E\<rparr>, s5)))))))"

definition do_nice :: "sched_env \<Rightarrow> message \<Rightarrow> sched \<Rightarrow> (int \<times> message \<times> sched) res" where
  "do_nice E m s =
     (if \<not> is_from_pm E m then Inr (EPERM E, m, s)
      else case sched_isokendpt E (schedproc s) (SCHEDULING_ENDPOINT m) of
        Inl rv \<Rightarrow> Inr (EBADSRCDST E, m, s)
      | Inr i \<Rightarrow>
          bind_res (rd_proc s i) (\<lambda>rmp.
          case nice_to_priority E (SCHEDULING_NICE m) of
            Inl rv \<Rightarrow> Inr (rv, m, s)
          | Inr new_q \<Rightarrow>
              (let old_q = sp_priority rmp; old_max_q = sp_max_priority rmp; old_nice = sp_nice rmp;
                   r1 = rmp\<lparr>sp_priority := new_q, sp_max_priority := new_q,
                          sp_nice := SCHEDULING_NICE m\<rparr>;
                   (rv, s2) = schedule_process E r1 (wr_proc s i r1) in
               if rv \<noteq> 0 then
                 Inr (rv, m, wr_proc s2 i (r1\<lparr>sp_priority := old_q, sp_max_priority := old_max_q,
                                            sp_nice := old_nice\<rparr>))
               else Inr (rv, m, s2))))"

definition init_scheduling :: "sched_env \<Rightarrow> sched \<Rightarrow> sched" where
  "init_scheduling E s =
     (let bt = BALANCE_TIMEOUT * sched_hz E in
      s\<lparr>balance_timeout := bt, kcalls := kcalls s @ [SetTimer bt]\<rparr>)"

fun balance_loop :: "sched_env \<Rightarrow> nat list \<Rightarrow> nat \<Rightarrow> sched \<Rightarrow> nat \<times> sched" where
  "balance_loop E [] nr s = (nr, s)"
| "balance_loop E (i # is) nr s =
     (let rmp = schedproc s ! i in
      if in_use E rmp then
        if sp_max_priority rmp < sp_priority rmp then
          (let rmp1 = rmp\<lparr>sp_priority := sp_priority rmp - 1\<rparr>;
               (rv, s1) = schedule_process E rmp1 (wr_proc s i rmp1) in
           balance_loop E is (Suc nr) s1)
        else balance_loop E is (Suc nr) s
      else balance_loop E is nr s)"

definition balance_queues :: "sched_env \<Rightarrow> sched \<Rightarrow> sched" where
  "balance_queues E s =
     (let (nr_procs, s1) = balance_loop E [0..<length (schedproc s)] 0 s;
          s2 = s1\<lparr>DUTS := (if nr_procs < 15 then DEFAULT_USER_TIME_SLICE
                           else if nr_procs < 75 then SECONDARY_USER_TIME_SLICE
                           else DEFAULT_USER_TIME_SLICE)\<rparr> in
      s2\<lparr>kcalls := kcalls s2 @ [SetTimer (balance_timeout s2)]\<rparr>)"

section \<open>Events\<close>

datatype event = NoQuantum message | Stop message | Start message | Nice message | Balance

fun handle :: "sched_env \<Rightarrow> event \<Rightarrow> sched \<Rightarrow> (int \<times> sched) res" where
  "handle E (NoQuantum m) s = bind_res (do_noquantum E m s) (\<lambda>(rv, _, s'). Inr (rv, s'))"
| "handle E (Stop m) s = bind_res (do_stop_scheduling E m s) (\<lambda>(rv, _, s'). Inr (rv, s'))"
| "handle E (Start m) s = bind_res (do_start_scheduling E m s) (\<lambda>(rv, _, s'). Inr (rv, s'))"
| "handle E (Nice m) s = bind_res (do_nice E m s) (\<lambda>(rv, _, s'). Inr (rv, s'))"
| "handle E Balance s = Inr (0, balance_queues E s)"

inductive sched_reach :: "sched_env \<Rightarrow> sched \<Rightarrow> sched \<Rightarrow> bool" for E s0 where
  reach_init: "sched_reach E s0 s0"
| reach_step: "sched_reach E s0 s \<Longrightarrow> handle E ev s = Inr (rv, s') \<Longrightarrow> sched_reach E s0 s'"

section \<open>What the environment promises\<close>

definition sched_laws :: "sched_env \<Rightarrow> bool" where
  "sched_laws E \<longleftrightarrow>
     (\<forall>tab ep i. sched_isokendpt E tab ep = Inr i \<longrightarrow>
        i < length tab \<and> sp_endpoint (tab ! i) = ep \<and> in_use E (tab ! i)) \<and>
     (\<forall>tab ep i. sched_isemtyendpt E tab ep = Inr i \<longrightarrow> i < length tab \<and> \<not> in_use E (tab ! i)) \<and>
     (\<forall>n q. nice_to_priority E n = Inr q \<longrightarrow> q \<le> MIN_USER_Q E) \<and>
     USER_Q E \<le> MIN_USER_Q E \<and> MIN_USER_Q E < 2 ^ 31 \<and> IN_USE E \<noteq> 0"

end
