(* ===== verification/SchedProps.thy ===== *)
theory SchedProps
  imports Sched
begin

text \<open>
  Correctness of the scheduling policy: no handler leaves the table, priorities stay in
  the user range, a failed change of nice level is undone, rebalancing pulls every demoted
  process back up to its maximum priority.
\<close>

definition sched_inv :: "sched_env \<Rightarrow> sched \<Rightarrow> bool" where
  "sched_inv E s \<longleftrightarrow> (\<forall>p \<in> set (schedproc s). in_use E p \<longrightarrow> sp_priority p \<le> MIN_USER_Q E)"

lemma sched_lawsD:
  assumes "sched_laws E"
  shows "sched_isokendpt E tab ep = Inr i \<Longrightarrow> i < length tab"
    and "sched_isokendpt E tab ep = Inr i \<Longrightarrow> in_use E (tab ! i)"
    and "sched_isemtyendpt E tab ep = Inr i \<Longrightarrow> i < length tab"
    and "sched_isemtyendpt E tab ep = Inr i \<Longrightarrow> \<not> in_use E (tab ! i)"
    and "nice_to_priority E n = Inr q \<Longrightarrow> q \<le> MIN_USER_Q E"
    and "USER_Q E \<le> MIN_USER_Q E" "MIN_USER_Q E < 2 ^ 31"
  using assms by (auto simp: sched_laws_def)

lemma wr_proc_simps [simp]:
  "schedproc (wr_proc s i p) = (schedproc s)[i := p]" "kcalls (wr_proc s i p) = kcalls s"
  "DUTS (wr_proc s i p) = DUTS s"
  by (simp_all add: wr_proc_def)

lemma sched_inv_wr:
  "sched_inv E s \<Longrightarrow> in_use E p \<longrightarrow> sp_priority p \<le> MIN_USER_Q E \<Longrightarrow> sched_inv E (wr_proc s i p)"
  using set_update_subset_insert [of "schedproc s" i p] by (auto simp: sched_inv_def)

lemma sched_inv_fields [simp]:
  "sched_inv E (s\<lparr>kcalls := k\<rparr>) = sched_inv E s" "sched_inv E (s\<lparr>DUTS := d\<rparr>) = sched_inv E s"
  by (simp_all add: sched_inv_def)

lemma in_use_fields [simp]:
  "in_use E (p\<lparr>sp_priority := q\<rparr>) = in_use E p" "in_use E (p\<lparr>sp_max_priority := q\<rparr>) = in_use E p"
  "in_use E (p\<lparr>sp_nice := n\<rparr>) = in_use E p" "in_use E (p\<lparr>sp_time_slice := q\<rparr>) = in_use E p"
  "in_use E (p\<lparr>sp_endpoint := n\<rparr>) = in_use E p" "in_use E (p\<lparr>sp_parent := n\<rparr>) = in_use E p"
  by (simp_all add: in_use_def)

lemma sched_inv_nth: "sched_inv E s \<Longrightarrow> i < length (schedproc s) \<Longrightarrow> in_use E (schedproc s ! i) \<Longrightarrow>
    sp_priority (schedproc s ! i) \<le> MIN_USER_Q E"
  by (simp add: sched_inv_def)

lemma word_succ_le: "(a :: u32) < b \<Longrightarrow> a + 1 \<le> b"
  by (rule inc_le)

lemma unat_pred: "(a :: u32) < b \<Longrightarrow> unat (b - 1) = unat b - 1"
  by (rule unat_minus_one) auto

lemma word_pred_le: "(a :: u32) < b \<Longrightarrow> b \<le> c \<Longrightarrow> b - 1 \<le> c"
  by (simp add: word_le_nat_alt unat_pred)

section \<open>One event\<close>

definition good_result :: "sched_env \<Rightarrow> (int \<times> message \<times> sched) res \<Rightarrow> bool" where
  "good_result E r \<longleftrightarrow> (\<exists>rv m s. r = Inr (rv, m, s) \<and> sched_inv E s)"

lemma good_resultI: "sched_inv E s \<Longrightarrow> good_result E (Inr (rv, m, s))"
  by (simp add: good_result_def)

lemma noquantum_good:
  assumes laws: "sched_laws E" and inv: "sched_inv E s"
  shows "good_result E (do_noquantum E m s)"
proof (cases "sched_isokendpt E (schedproc s) (m_source m)")
  case (Inl e)
  then show ?thesis using inv by (simp add: do_noquantum_def good_result_def)
next
  case (Inr i)
  note L = sched_lawsD(1,2) [OF laws Inr]
  have "sp_priority (schedproc s ! i) \<le> MIN_USER_Q E" by (rule sched_inv_nth [OF inv L])
  then show ?thesis
    using Inr L inv
    by (auto simp: do_noquantum_def rd_proc_def schedule_process_def Let_def good_result_def
        intro!: sched_inv_wr word_succ_le)
qed

lemma stop_good:
  assumes "sched_laws E" "sched_inv E s"
  shows "good_result E (do_stop_scheduling E m s)"
  using assms sched_lawsD(1) [OF assms(1)]
  by (auto simp: do_stop_scheduling_def good_result_def rd_proc_def in_use_def
      intro!: sched_inv_wr split: sum.splits)

lemma nice_good:
  assumes laws: "sched_laws E" and inv: "sched_inv E s"
  shows "good_result E (do_nice E m s)"
proof (cases "\<exists>i q. is_from_pm E m \<and> sched_isokendpt E (schedproc s) (SCHEDULING_ENDPOINT m) = Inr i \<and>
    nice_to_priority E (SCHEDULING_NICE m) = Inr q")
  case False
  then show ?thesis
    using inv sched_lawsD(1) [OF laws]
    by (auto simp: do_nice_def good_result_def rd_proc_def split: sum.splits)
next
  case True
  then obtain i q where i: "is_from_pm E m" "nice_to_priority E (SCHEDULING_NICE m) = Inr q"
    "sched_isokendpt E (schedproc s) (SCHEDULING_ENDPOINT m) = Inr i" by blast
  note L = sched_lawsD(1,2) [OF laws i(3)] and q = sched_lawsD(5) [OF laws i(2)]
  have "sp_priority (schedproc s ! i) \<le> MIN_USER_Q E" by (rule sched_inv_nth [OF inv L])
  then show ?thesis
    using i L q inv
    by (auto simp: do_nice_def rd_proc_def schedule_process_def Let_def good_result_def
        intro!: sched_inv_wr)
qed

text \<open>
  Starting a process: the slot is unused until the kernel accepts, so whatever is written
  before does not matter to the invariant; the inherited priority is within range.
\<close>

lemma start_good:
  assumes laws: "sched_laws E" and inv: "sched_inv E s"
  shows "good_result E (do_start_scheduling E m s)"
proof (cases "is_from_pm E m \<and> (\<exists>i. sched_isemtyendpt E (schedproc s) (SCHEDULING_ENDPOINT m) = Inr i)")
  case False
  then show ?thesis
    using inv by (auto simp: do_start_scheduling_def good_result_def split: sum.splits)
next
  case True
  then obtain i where pm: "is_from_pm E m"
    and i: "sched_isemtyendpt E (schedproc s) (SCHEDULING_ENDPOINT m) = Inr i" by blast
  note L = sched_lawsD(3,4) [OF laws i]
  define r1 where "r1 = (schedproc s ! i)\<lparr>sp_endpoint := SCHEDULING_ENDPOINT m,
    sp_parent := SCHEDULING_PARENT m, sp_nice := SCHEDULING_NICE m\<rparr>"
  have n1: "\<not> in_use E r1" using L(2) by (simp add: r1_def)
  have inv1: "sched_inv E (wr_proc s i r1)" using inv n1 by (simp add: sched_inv_wr)
  show ?thesis
  proof (cases "nice_to_priority E (sp_nice r1)")
    case (Inl rv)
    then have "do_start_scheduling E m s = Inr (rv, m, wr_proc s i r1)"
      using pm i L(1) by (simp add: do_start_scheduling_def rd_proc_def Let_def r1_def)
    with inv1 show ?thesis by (simp add: good_resultI)
  next
    case (Inr q)
    define r2 where "r2 = r1\<lparr>sp_max_priority := q\<rparr>"
    define s2 where "s2 = wr_proc (wr_proc s i r1) i r2"
    have inv2: "sched_inv E s2" using inv1 n1 by (simp add: s2_def r2_def sched_inv_wr)
    have len2: "length (schedproc s2) = length (schedproc s)" by (simp add: s2_def)
    define inh where "inh = (if sp_endpoint r2 = sp_parent r2 then
                    Inr (Inr (r2\<lparr>sp_priority := USER_Q E, sp_time_slice := DUTS s2\<rparr>))
                  else case sched_isokendpt E (schedproc s2) (SCHEDULING_PARENT m) of
                    Inl rv \<Rightarrow> Inr (Inl rv)
                  | Inr j \<Rightarrow> bind_res (rd_proc s2 j) (\<lambda>par.
                      Inr (Inr (r2\<lparr>sp_priority := sp_priority par, sp_time_slice := sp_time_slice par\<rparr>))))"
    define fin where "fin = (\<lambda>inherited. case inherited of
                    Inl rv \<Rightarrow> Inr (rv, m, s2) :: (int \<times> message \<times> sched) res
                  | Inr r3 \<Rightarrow>
                      (let s3 = wr_proc s2 i r3;
                           rv = sys_schedctl E (kcalls s3) (sp_endpoint r3);
                           s4 = s3\<lparr>kcalls := kcalls s3 @ [SysSchedctl (sp_endpoint r3)]\<rparr> in
                       if rv \<noteq> 0 then Inr (rv, m, s4)
                       else
                         (let r4 = r3\<lparr>sp_flags := IN_USE E\<rparr>;
                              (rv, s5) = schedule_process E r4 (wr_proc s4 i r4) in
                          if rv \<noteq> 0 then Inr (rv, m, s5)
                          else Inr (0, m\<lparr>SCHEDULING_SCHEDULER := SCHED_PROC_NR E\<rparr>, s5))))"
    have run: "do_start_scheduling E m s = bind_res inh fin"
      using pm i L(1) Inr
      unfolding do_start_scheduling_def inh_def fin_def s2_def r2_def r1_def
      by (simp add: rd_proc_def Let_def)
    have "\<exists>r3. inh = Inr r3 \<and> (\<forall>r. r3 = Inr r \<longrightarrow> sp_priority r \<le> MIN_USER_Q E \<and> \<not> in_use E r)"
    proof (cases "sp_endpoint r2 = sp_parent r2")
      case True
      then show ?thesis
        using n1 sched_lawsD(6) [OF laws] by (simp add: inh_def r2_def)
    next
      case False
      show ?thesis
      proof (cases "sched_isokendpt E (schedproc s2) (SCHEDULING_PARENT m)")
        case (Inr j)
        note LJ = sched_lawsD(1,2) [OF laws Inr]
        have "sp_priority (schedproc s2 ! j) \<le> MIN_USER_Q E" by (rule sched_inv_nth [OF inv2 LJ])
        with False Inr LJ n1 show ?thesis by (simp add: inh_def rd_proc_def r2_def)
      qed (use False in \<open>simp add: inh_def\<close>)
    qed
    then obtain r3 where r3: "inh = Inr r3"
      "\<forall>r. r3 = Inr r \<longrightarrow> sp_priority r \<le> MIN_USER_Q E \<and> \<not> in_use E r" by blast
    show ?thesis
    proof (cases r3)
      case (Inl rv)
      then show ?thesis using inv2 by (simp add: run r3(1) fin_def good_resultI)
    next
      case (Inr r)
      then have r: "sp_priority r \<le> MIN_USER_Q E" using r3(2) by simp
      then have "sched_inv E (wr_proc s2 i r)" "sched_inv E (wr_proc s2 i (r\<lparr>sp_flags := IN_USE E\<rparr>))"
        using inv2 by (simp_all add: sched_inv_wr)
      then show ?thesis
        unfolding run r3(1) Inr
        by (auto simp: fin_def Let_def schedule_process_def wr_proc_def good_result_def)
    qed
  qed
qed

section \<open>Rebalancing\<close>

definition pull :: "sched_env \<Rightarrow> schedproc \<Rightarrow> schedproc" where
  "pull E p = (if in_use E p \<and> sp_max_priority p < sp_priority p
               then p\<lparr>sp_priority := sp_priority p - 1\<rparr> else p)"

lemma balance_loop_table:
  assumes "distinct is" "set is \<subseteq> {..<length (schedproc s)}"
  shows "schedproc (snd (balance_loop E is nr s)) =
      map (\<lambda>j. if j \<in> set is then pull E (schedproc s ! j) else schedproc s ! j) [0..<length (schedproc s)]
    \<and> fst (balance_loop E is nr s) = nr + length (filter (\<lambda>i. in_use E (schedproc s ! i)) is)"
  using assms
proof (induction "is" arbitrary: nr s)
  case Nil
  then show ?case by (simp add: map_nth)
next
  case (Cons i "is")
  define s1 where "s1 = (if in_use E (schedproc s ! i) \<and>
      sp_max_priority (schedproc s ! i) < sp_priority (schedproc s ! i)
    then snd (schedule_process E (pull E (schedproc s ! i)) (wr_proc s i (pull E (schedproc s ! i)))) else s)"
  have tab: "schedproc s1 = (schedproc s)[i := pull E (schedproc s ! i)]"
    by (simp add: s1_def schedule_process_def pull_def)
  have step: "balance_loop E (i # is) nr s =
      balance_loop E is (if in_use E (schedproc s ! i) then Suc nr else nr) s1"
    by (simp add: s1_def Let_def pull_def schedule_process_def)
  have ok: "distinct is" "set is \<subseteq> {..<length (schedproc s1)}" "i \<notin> set is" "i < length (schedproc s)"
    using Cons.prems by (auto simp: tab)
  have "filter (\<lambda>j. in_use E (schedproc s1 ! j)) is = filter (\<lambda>j. in_use E (schedproc s ! j)) is"
    using ok(3) by (intro filter_cong) (metis nth_list_update_neq tab)+
  with Cons.IH [OF ok(1,2), of "if in_use E (schedproc s ! i) then Suc nr else nr"] ok(3,4)
  show ?case
    unfolding step by (auto simp: tab nth_list_update intro!: map_cong)
qed

lemma balance_table: "schedproc (balance_queues E s) = map (pull E) (schedproc s)"
proof -
  have "schedproc (snd (balance_loop E [0..<length (schedproc s)] 0 s)) =
      map (\<lambda>j. pull E (schedproc s ! j)) [0..<length (schedproc s)]"
    using balance_loop_table [of "[0..<length (schedproc s)]" s E 0]
    by (simp add: atLeast0LessThan cong: map_cong)
  also have "\<dots> = map (pull E) (schedproc s)"
    by (metis (no_types, lifting) map_map comp_apply map_cong map_nth)
  finally show ?thesis
    by (simp add: balance_queues_def Let_def split_beta)
qed

lemma balance_good:
  assumes "sched_inv E s"
  shows "sched_inv E (balance_queues E s)"
  unfolding sched_inv_def balance_table
  using assms by (auto simp: sched_inv_def pull_def intro!: word_pred_le)

lemma handle_good:
  assumes "sched_laws E" "sched_inv E s"
  shows "\<exists>rv s'. handle E ev s = Inr (rv, s') \<and> sched_inv E s'"
proof (cases ev)
  case (NoQuantum m)
  then show ?thesis using noquantum_good [OF assms, of m] by (auto simp: good_result_def)
next
  case (Stop m)
  then show ?thesis using stop_good [OF assms, of m] by (auto simp: good_result_def)
next
  case (Start m)
  then show ?thesis using start_good [OF assms, of m] by (auto simp: good_result_def)
next
  case (Nice m)
  then show ?thesis using nice_good [OF assms, of m] by (auto simp: good_result_def)
next
  case Balance
  then show ?thesis using balance_good [OF assms(2)] by simp
qed

lemma pull_unat:
  "unat (sp_priority (pull E p)) =
     (if in_use E p \<and> unat (sp_max_priority p) < unat (sp_priority p)
      then unat (sp_priority p) - 1 else unat (sp_priority p))"
  by (auto simp: pull_def word_less_nat_alt [symmetric] unat_pred)

lemma pull_other [simp]:
  "sp_max_priority (pull E p) = sp_max_priority p" "in_use E (pull E p) = in_use E p"
  "sp_endpoint (pull E p) = sp_endpoint p" "sp_nice (pull E p) = sp_nice p"
  "sp_time_slice (pull E p) = sp_time_slice p"
  by (simp_all add: pull_def)

lemma pull_iter:
  "in_use E p \<Longrightarrow> unat (sp_priority ((pull E ^^ k) p)) =
     (if unat (sp_max_priority p) < unat (sp_priority p)
      then max (unat (sp_max_priority p)) (unat (sp_priority p) - k) else unat (sp_priority p))"
proof (induction k arbitrary: p)
  case (Suc k)
  then show ?case
    by (subst funpow_Suc_right) (auto simp: Suc.IH [of "pull E p"] pull_unat max_def)
qed simp

lemma balance_iter: "schedproc ((balance_queues E ^^ k) s) = map (pull E ^^ k) (schedproc s)"
proof (induction k)
  case (Suc k)
  then show ?case by (simp add: balance_table comp_def)
qed simp

section \<open>A concrete environment\<close>

definition find_slot :: "(schedproc \<Rightarrow> bool) \<Rightarrow> schedproc list \<Rightarrow> int + nat" where
  "find_slot P tab = (case find (\<lambda>i. P (tab ! i)) [0..<length tab] of None \<Rightarrow> Inl 22 | Some i \<Rightarrow> Inr i)"

lemma find_slot_Inr: "find_slot P tab = Inr i \<Longrightarrow> i < length tab \<and> P (tab ! i)"
  by (auto simp: find_slot_def find_Some_iff split: option.splits)

definition env_example :: sched_env where
  "env_example = \<lparr>USER_Q = 7, MIN_USER_Q = 14, IN_USE = 1, EPERM = 1, EBADSRCDST = 2,
     SCHED_PROC_NR = 3, sched_hz = 60, is_from_pm = (\<lambda>m. m_source m = 0),
     sched_isokendpt = (\<lambda>tab ep. find_slot (\<lambda>p. sp_flags p AND 1 \<noteq> 0 \<and> sp_endpoint p = ep) tab),
     sched_isemtyendpt = (\<lambda>tab ep. find_slot (\<lambda>p. \<not> sp_flags p AND 1 \<noteq> 0) tab),
     nice_to_priority = (\<lambda>n. if n = 0 then Inr 7 else if n = 5 then Inr 12 else
       if n = - 4 then Inr 3 else Inl 22),
     sys_schedule = (\<lambda>_ ep q _. if q = 3 then 5 else 0), sys_schedctl = (\<lambda>_ _. 0)\<rparr>"

lemma env_example_laws: "sched_laws env_example"
  by (auto simp: sched_laws_def env_example_def in_use_def dest!: find_slot_Inr split: if_splits)

definition mk_proc :: "int \<Rightarrow> u32 \<Rightarrow> u32 \<Rightarrow> u32 \<Rightarrow> schedproc" where
  "mk_proc ep flags prio maxp = \<lparr>sp_endpoint = ep, sp_parent = ep, sp_nice = 0, sp_flags = flags,
     sp_priority = prio, sp_max_priority = maxp, sp_time_slice = 300\<rparr>"

definition sched_example :: sched where
  "sched_example = \<lparr>schedproc = [mk_proc 10 1 9 7, mk_proc 0 0 0 0, mk_proc 12 1 14 7],
     DUTS = 300, balance_timeout = 300, kcalls = []\<rparr>"

definition msg :: "int \<Rightarrow> int \<Rightarrow> int \<Rightarrow> message" where
  "msg src ep nice = \<lparr>m_source = src, SCHEDULING_ENDPOINT = ep, SCHEDULING_PARENT = ep,
     SCHEDULING_NICE = nice, SCHEDULING_SCHEDULER = 0\<rparr>"

lemma sched_example_inv: "sched_inv env_example sched_example"
  by (simp add: sched_inv_def sched_example_def mk_proc_def env_example_def)

lemmas sched_eval = do_nice_def do_noquantum_def schedule_process_def rd_proc_def wr_proc_def
  Let_def sched_example_def mk_proc_def msg_def find_slot_def upt_rec

section \<open>Properties\<close>

text \<open>
  C13: whatever messages and timer ticks arrive, in any order, no handler ever indexes
  outside the table, and every process being scheduled has a priority no worse than
  MIN_USER_Q.
\<close>

theorem sched_always_safe:
  assumes "sched_laws E" "sched_inv E s0" "sched_reach E s0 s"
  shows "sched_inv E s \<and> (\<exists>rv s'. handle E ev s = Inr (rv, s'))"
proof -
  from assms(3) have "sched_inv E s"
  proof induction
    case (reach_step s ev rv s')
    then show ?case using handle_good [OF assms(1), of s ev] by auto
  qed (rule assms(2))
  with handle_good [OF assms(1) this, of ev] show ?thesis by blast
qed

theorem sched_always_safe_witness:
  "sched_inv env_example (balance_queues env_example sched_example) \<and>
    (\<exists>rv s'. handle env_example (NoQuantum (msg 12 0 0)) (balance_queues env_example sched_example) =
      Inr (rv, s'))"
proof (rule sched_always_safe [OF env_example_laws sched_example_inv])
  show "sched_reach env_example sched_example (balance_queues env_example sched_example)"
    by (rule reach_step [OF reach_init, where ev = Balance and rv = 0]) simp
qed

text \<open>
  C14: a change of nice level is all or nothing. If any step fails, the table is exactly
  what it was; if it succeeds, the process has the new level and both its priorities are
  the queue of that level, and no other process changed.
\<close>

theorem do_nice_atomic:
  assumes "do_nice E m s = Inr (rv, m', s')" and "EPERM E \<noteq> 0" "EBADSRCDST E \<noteq> 0"
    and "\<forall>n. nice_to_priority E n \<noteq> Inl 0"
  shows "(rv \<noteq> 0 \<longrightarrow> schedproc s' = schedproc s) \<and>
    (rv = 0 \<longrightarrow> (\<exists>i q. sched_isokendpt E (schedproc s) (SCHEDULING_ENDPOINT m) = Inr i \<and>
       is_from_pm E m \<and> nice_to_priority E (SCHEDULING_NICE m) = Inr q \<and>
       schedproc s' = (schedproc s)[i := (schedproc s ! i)\<lparr>sp_priority := q, sp_max_priority := q,
         sp_nice := SCHEDULING_NICE m\<rparr>]))"
proof (cases "\<exists>i q. is_from_pm E m \<and> sched_isokendpt E (schedproc s) (SCHEDULING_ENDPOINT m) = Inr i \<and>
    nice_to_priority E (SCHEDULING_NICE m) = Inr q")
  case False
  then show ?thesis
    using assms by (auto simp: do_nice_def rd_proc_def bind_res_eq_Inr split: if_splits sum.splits)
next
  case True
  then obtain i q where i: "is_from_pm E m" "nice_to_priority E (SCHEDULING_NICE m) = Inr q"
    "sched_isokendpt E (schedproc s) (SCHEDULING_ENDPOINT m) = Inr i" by blast
  have same: "(p :: schedproc)\<lparr>sp_priority := q, sp_max_priority := q, sp_nice := n,
      sp_priority := sp_priority p, sp_max_priority := sp_max_priority p, sp_nice := sp_nice p\<rparr> = p"
    for p q n by (cases p) simp
  from i assms(1) have len: "i < length (schedproc s)"
    by (auto simp: do_nice_def rd_proc_def split: if_splits)
  with i assms(1) same show ?thesis
    by (auto simp: do_nice_def rd_proc_def schedule_process_def Let_def split: if_splits)
qed

theorem do_nice_atomic_witness:
  "\<exists>rv m' s'. do_nice env_example (msg 0 10 (- 4)) sched_example = Inr (rv, m', s') \<and> rv \<noteq> 0 \<and>
    schedproc s' = schedproc sched_example"
proof -
  have "\<exists>rv m' s'. do_nice env_example (msg 0 10 (- 4)) sched_example = Inr (rv, m', s') \<and> rv \<noteq> 0"
    by (simp add: sched_eval env_example_def)
  then obtain rv m' s' where r: "do_nice env_example (msg 0 10 (- 4)) sched_example = Inr (rv, m', s')"
    "rv \<noteq> 0" by blast
  have "EPERM env_example \<noteq> 0" "EBADSRCDST env_example \<noteq> 0" "\<forall>n. nice_to_priority env_example n \<noteq> Inl 0"
    by (simp_all add: env_example_def)
  from do_nice_atomic [OF r(1) this] r show ?thesis by blast
qed

text \<open>
  C15: rebalancing converges. After k timer ticks with nothing in between, a process in use
  whose priority was worse than its maximum is k queues better, but never better than its
  maximum; all other entries are as they were.
\<close>

theorem balance_converges:
  assumes "i < length (schedproc s)"
  shows "(let p = schedproc s ! i; p' = schedproc ((balance_queues E ^^ k) s) ! i in
    (in_use E p \<longrightarrow> unat (sp_priority p') =
       (if unat (sp_max_priority p) < unat (sp_priority p)
        then max (unat (sp_max_priority p)) (unat (sp_priority p) - k) else unat (sp_priority p))) \<and>
    (\<not> in_use E p \<longrightarrow> p' = p))"
proof -
  have "(pull E ^^ k) p = p" if "\<not> in_use E p" for p
    using that by (induction k) (simp_all add: pull_def)
  then show ?thesis
    using assms pull_iter by (simp add: Let_def balance_iter)
qed

theorem balance_converges_witness:
  "(let p = schedproc sched_example ! 2; p' = schedproc ((balance_queues env_example ^^ 20) sched_example) ! 2 in
    (in_use env_example p \<longrightarrow> unat (sp_priority p') =
       (if unat (sp_max_priority p) < unat (sp_priority p)
        then max (unat (sp_max_priority p)) (unat (sp_priority p) - 20) else unat (sp_priority p))) \<and>
    (\<not> in_use env_example p \<longrightarrow> p' = p))"
  by (rule balance_converges) (simp add: sched_example_def)

text \<open>
  A process that used up its quantum drops by one queue, unless it is in the last user
  queue already; the kernel is told the new priority with the unchanged time slice, and its
  answer is returned. No other entry changes.
\<close>

theorem noquantum_demotes:
  assumes "sched_laws E" "sched_inv E s" "sched_isokendpt E (schedproc s) (m_source m) = Inr i"
  shows "\<exists>s' p'. do_noquantum E m s =
      Inr (sys_schedule E (kcalls s) (sp_endpoint p') (sp_priority p') (sp_time_slice p'), m, s') \<and>
    schedproc s' = (schedproc s)[i := p'] \<and>
    p' = (schedproc s ! i)\<lparr>sp_priority := sp_priority p'\<rparr> \<and>
    unat (sp_priority p') = min (unat (MIN_USER_Q E)) (unat (sp_priority (schedproc s ! i)) + 1) \<and>
    kcalls s' = kcalls s @ [SysSchedule (sp_endpoint p') (sp_priority p') (sp_time_slice p')]"
proof -
  let ?p = "schedproc s ! i"
  note L = sched_lawsD(1,2) [OF assms(1,3)]
  have le: "sp_priority ?p \<le> MIN_USER_Q E" by (rule sched_inv_nth [OF assms(2) L])
  let ?p' = "if sp_priority ?p < MIN_USER_Q E then ?p\<lparr>sp_priority := sp_priority ?p + 1\<rparr> else ?p"
  have "unat (sp_priority ?p + 1) = unat (sp_priority ?p) + 1" if "sp_priority ?p < MIN_USER_Q E"
    using that unsigned_less [of "MIN_USER_Q E", where ?'a = nat]
    by (subst unat_plus_no_wrap) (simp_all add: word_less_nat_alt)
  then have "unat (sp_priority ?p') = min (unat (MIN_USER_Q E)) (unat (sp_priority ?p) + 1)"
    using le by (auto simp: word_less_nat_alt word_le_nat_alt)
  moreover have "?p' = ?p\<lparr>sp_priority := sp_priority ?p'\<rparr>" by simp
  ultimately show ?thesis
    using assms(3) L(1)
    by (intro exI [of _ "snd (schedule_process E ?p' (wr_proc s i ?p'))"] exI [of _ ?p'])
      (simp add: do_noquantum_def rd_proc_def Let_def schedule_process_def)
qed

theorem noquantum_demotes_witness:
  "\<exists>s' p'. do_noquantum env_example (msg 10 0 0) sched_example =
      Inr (sys_schedule env_example (kcalls sched_example) (sp_endpoint p') (sp_priority p')
        (sp_time_slice p'), msg 10 0 0, s') \<and>
    schedproc s' = (schedproc sched_example)[0 := p'] \<and>
    p' = (schedproc sched_example ! 0)\<lparr>sp_priority := sp_priority p'\<rparr> \<and>
    unat (sp_priority p') = min (unat (MIN_USER_Q env_example)) (unat (sp_priority (schedproc sched_example ! 0)) + 1) \<and>
    kcalls s' = kcalls sched_example @ [SysSchedule (sp_endpoint p') (sp_priority p') (sp_time_slice p')]"
  by (rule noquantum_demotes [OF env_example_laws sched_example_inv])
    (simp add: sched_eval env_example_def)

end
