(* ===== verification/ThrPool.thy ===== *)
theory ThrPool
  imports Prelude
begin

text \<open>
  pthreads/thr_pool.c: a pool of worker threads fed by a FIFO job queue. The whole pool is
  a monitor: every field is read and written under \<open>pool_mutex\<close>, which a worker gives up
  only in a condition wait, while it runs a job, and when it is gone.

  State: the pool's fields, the heap of jobs with their \<open>job_next\<close> links, the list of
  active workers linked through their stacks (one \<open>active_t\<close> per worker, so the address is
  the worker's number), the owner of the mutex and the position of every worker in
  \<open>worker_thread\<close> (\<open>wpc\<close>). \<open>queued\<close> and \<open>started\<close> are logs of the jobs passed to
  \<open>thr_pool_queue\<close> and begun by workers, \<open>cv_log\<close> of the condition variables signalled.

  A wait on a condition variable may return at any time (POSIX allows spurious wakeups), so
  a waiting worker may always go on once the mutex is free; the results of \<open>pthread_create\<close>,
  of a timed wait, and whether a job returns or leaves by \<open>pthread_exit\<close> or cancellation are
  inputs of a step. Signal masks and thread attributes have no effect on this state.
\<close>

section \<open>State\<close>

record job =
  job_next :: "nat option"
  job_func :: nat
  job_arg :: nat

datatype wpc =
    WStart        \<comment> \<open>created, about to lock\<close>
  | WTop          \<comment> \<open>top of the main loop, mutex held\<close>
  | WTest         \<comment> \<open>testing the condition of the inner loop, mutex held\<close>
  | WWait bool    \<comment> \<open>in a condition wait, timed or not\<close>
  | WAfter bool   \<comment> \<open>past the inner loop with \<open>timedout\<close>, mutex held\<close>
  | WRun nat nat  \<comment> \<open>in the job function\<close>
  | WJobDone bool \<comment> \<open>out of the job, about to run \<open>job_cleanup\<close>; True: the thread exits\<close>
  | WExit         \<comment> \<open>about to run \<open>worker_cleanup\<close>, mutex held\<close>
  | WGone

datatype cv = SignalWork | BroadcastWork | BroadcastWait | BroadcastBusy

record pool =
  pool_jobs :: "nat \<rightharpoonup> job"
  pool_head :: "nat option"
  pool_tail :: "nat option"
  active_next :: "nat \<Rightarrow> nat option"
  pool_active :: "nat option"
  pool_flags :: u32
  pool_linger :: u32
  pool_minimum :: int
  pool_maximum :: int
  pool_nthreads :: int
  pool_idle :: int
  mutex :: "nat option"
  workers :: "wpc list"
  cancelled :: "nat set"
  cv_log :: "cv list"
  queued :: "(nat \<times> nat) list"
  started :: "(nat \<times> nat) list"

definition POOL_WAIT :: u32 where "POOL_WAIT = 1"
definition POOL_DESTROY :: u32 where "POOL_DESTROY = 2"

definition has_flag :: "pool \<Rightarrow> u32 \<Rightarrow> bool" where
  "has_flag s f \<longleftrightarrow> pool_flags s AND f \<noteq> 0"

definition set_pc :: "nat \<Rightarrow> wpc \<Rightarrow> pool \<Rightarrow> pool" where
  "set_pc t p s = s\<lparr>workers := (workers s)[t := p]\<rparr>"

definition signal :: "cv \<Rightarrow> pool \<Rightarrow> pool" where
  "signal c s = s\<lparr>cv_log := cv_log s @ [c]\<rparr>"

section \<open>The static functions\<close>

text \<open>\<open>ok\<close>: \<open>pthread_create\<close> returned 0. The new worker's number is the next free one.\<close>

definition create_worker :: "bool \<Rightarrow> pool \<Rightarrow> bool \<times> pool" where
  "create_worker ok s = (if ok then (True, s\<lparr>workers := workers s @ [WStart]\<rparr>) else (False, s))"

definition notify_waiters :: "pool \<Rightarrow> pool" where
  "notify_waiters s =
     (if pool_head s = None \<and> pool_active s = None
      then signal BroadcastWait (s\<lparr>pool_flags := pool_flags s AND NOT POOL_WAIT\<rparr>) else s)"

definition worker_cleanup :: "bool \<Rightarrow> pool \<Rightarrow> pool" where
  "worker_cleanup ok s0 =
     (let s = s0\<lparr>pool_nthreads := pool_nthreads s0 - 1\<rparr>;
          s1 = (if has_flag s POOL_DESTROY then
                  (if pool_nthreads s = 0 then signal BroadcastBusy s else s)
                else if pool_head s \<noteq> None \<and> pool_nthreads s < pool_maximum s then
                  (case create_worker ok s of
                     (True, s') \<Rightarrow> s'\<lparr>pool_nthreads := pool_nthreads s' + 1\<rparr>
                   | (False, s') \<Rightarrow> s')
                else s) in
      s1\<lparr>mutex := None\<rparr>)"

text \<open>
  The search of \<open>job_cleanup\<close> for the worker's own entry; \<open>prev\<close> is the entry whose link
  is being looked at, NULL for \<open>pool_active\<close> itself. A walk past all workers never ends.
\<close>

fun unlink_active :: "nat \<Rightarrow> nat \<Rightarrow> nat option \<Rightarrow> nat option \<Rightarrow> pool \<Rightarrow> pool res" where
  "unlink_active 0 t prev cur s = Inl Diverges"
| "unlink_active (Suc n) t prev None s = Inr s"
| "unlink_active (Suc n) t prev (Some a) s =
     (if a = t then
        Inr (case prev of
               None \<Rightarrow> s\<lparr>pool_active := active_next s a\<rparr>
             | Some p \<Rightarrow> s\<lparr>active_next := (active_next s)(p := active_next s a)\<rparr>)
      else unlink_active n t (Some a) (active_next s a) s)"

definition job_cleanup :: "nat \<Rightarrow> pool \<Rightarrow> pool res" where
  "job_cleanup t s0 =
     (let s = s0\<lparr>mutex := Some t\<rparr> in
      bind_res (unlink_active (Suc (length (workers s))) t None (pool_active s) s) (\<lambda>s1.
      Inr (if has_flag s1 POOL_WAIT then notify_waiters s1 else s1)))"

section \<open>worker\_thread\<close>

text \<open>Taking the first job off the queue, after \<open>pool_idle--\<close>.\<close>

definition take_job :: "nat \<Rightarrow> nat \<Rightarrow> pool \<Rightarrow> pool res" where
  "take_job t j s =
     (case pool_jobs s j of
        None \<Rightarrow> Inl BadPointer
      | Some job \<Rightarrow>
          (let s1 = s\<lparr>pool_head := job_next job\<rparr>;
               s2 = (if Some j = pool_tail s1 then s1\<lparr>pool_tail := None\<rparr> else s1);
               s3 = s2\<lparr>active_next := (active_next s2)(t := pool_active s2), pool_active := Some t,
                      mutex := None, pool_jobs := (pool_jobs s2)(j := None),
                      started := started s2 @ [(job_func job, job_arg job)]\<rparr> in
           Inr (set_pc t (WRun (job_func job) (job_arg job)) s3)))"

definition worker_step :: "bool \<Rightarrow> bool \<Rightarrow> bool \<Rightarrow> nat \<Rightarrow> pool \<Rightarrow> pool res" where
  "worker_step ok timed_out exits t s =
     (case workers s ! t of
        WStart \<Rightarrow> Inr (if mutex s = None then set_pc t WTop (s\<lparr>mutex := Some t\<rparr>) else s)
      | WTop \<Rightarrow>
          (let s1 = s\<lparr>pool_idle := pool_idle s + 1\<rparr>;
               s2 = (if has_flag s1 POOL_WAIT then notify_waiters s1 else s1) in
           Inr (set_pc t WTest s2))
      | WTest \<Rightarrow>
          Inr (if pool_head s = None \<and> \<not> has_flag s POOL_DESTROY then
                 if pool_nthreads s \<le> pool_minimum s
                 then set_pc t (WWait False) (s\<lparr>mutex := None\<rparr>)
                 else if pool_linger s = 0 then set_pc t (WAfter True) s
                 else set_pc t (WWait True) (s\<lparr>mutex := None\<rparr>)
               else set_pc t (WAfter False) s)
      | WWait timed \<Rightarrow>
          Inr (if mutex s = None then
                 set_pc t (if timed \<and> timed_out then WAfter True else WTest) (s\<lparr>mutex := Some t\<rparr>)
               else s)
      | WAfter timedout \<Rightarrow>
          (let s1 = s\<lparr>pool_idle := pool_idle s - 1\<rparr> in
           if has_flag s1 POOL_DESTROY then Inr (set_pc t WExit s1)
           else case pool_head s1 of
             Some j \<Rightarrow> take_job t j s1
           | None \<Rightarrow> Inr (set_pc t (if timedout \<and> pool_minimum s1 < pool_nthreads s1 then WExit else WTop) s1))
      | WRun f a \<Rightarrow> Inr (set_pc t (WJobDone exits) s)
      | WJobDone e \<Rightarrow>
          (if mutex s = None
           then bind_res (job_cleanup t s) (\<lambda>s1. Inr (set_pc t (if e then WExit else WTop) s1))
           else Inr s)
      | WExit \<Rightarrow> Inr (worker_cleanup ok (set_pc t WGone s))
      | WGone \<Rightarrow> Inr s)"

section \<open>The interface\<close>

text \<open>
  \<open>thr_pool_create\<close>, up to the list of all pools (theory \<open>PoolRing\<close>): \<open>None\<close> is the NULL
  returned for EINVAL or ENOMEM. The bounds are converted to \<open>int\<close> when stored.
\<close>

definition thr_pool_create :: "bool \<Rightarrow> u32 \<Rightarrow> u32 \<Rightarrow> u32 \<Rightarrow> pool option" where
  "thr_pool_create malloc_ok min_threads max_threads linger =
     (if max_threads < min_threads \<or> max_threads < 1 then None
      else if \<not> malloc_ok then None
      else Some \<lparr>pool_jobs = (\<lambda>_. None), pool_head = None, pool_tail = None,
        active_next = (\<lambda>_. None), pool_active = None, pool_flags = 0, pool_linger = linger,
        pool_minimum = sint min_threads, pool_maximum = sint max_threads, pool_nthreads = 0,
        pool_idle = 0, mutex = None, workers = [], cancelled = {}, cv_log = [],
        queued = [], started = []\<rparr>)"

text \<open>\<open>addr\<close> is the result of \<open>malloc\<close>; the call runs when the mutex is free.\<close>

definition thr_pool_queue :: "nat option \<Rightarrow> bool \<Rightarrow> nat \<Rightarrow> nat \<Rightarrow> pool \<Rightarrow> (int \<times> pool) res" where
  "thr_pool_queue addr ok func arg s =
     (case addr of
        None \<Rightarrow> Inr (- 1, s)
      | Some job \<Rightarrow>
          (let s1 = s\<lparr>pool_jobs := (pool_jobs s)(job \<mapsto> \<lparr>job_next = None, job_func = func, job_arg = arg\<rparr>)\<rparr> in
           bind_res
             (if pool_head s1 = None then Inr (s1\<lparr>pool_head := Some job\<rparr>)
              else bind_res (deref (pool_tail s1)) (\<lambda>tl.
                case pool_jobs s1 tl of
                  None \<Rightarrow> Inl BadPointer
                | Some tj \<Rightarrow> Inr (s1\<lparr>pool_jobs := (pool_jobs s1)(tl \<mapsto> tj\<lparr>job_next := Some job\<rparr>)\<rparr>))) (\<lambda>s2.
           let s3 = s2\<lparr>pool_tail := Some job, queued := queued s2 @ [(func, arg)]\<rparr>;
               s4 = (if 0 < pool_idle s3 then signal SignalWork s3
                     else if pool_nthreads s3 < pool_maximum s3 then
                       (case create_worker ok s3 of
                          (True, s') \<Rightarrow> s'\<lparr>pool_nthreads := pool_nthreads s' + 1\<rparr>
                        | (False, s') \<Rightarrow> s')
                     else s3) in
           Inr (0, s4))))"

text \<open>
  One round of the loop of \<open>thr_pool_wait\<close>, with the mutex held: \<open>True\<close> when it goes on to
  wait, \<open>False\<close> when the call returns.
\<close>

definition wait_round :: "pool \<Rightarrow> bool \<times> pool" where
  "wait_round s =
     (if pool_head s \<noteq> None \<or> pool_active s \<noteq> None
      then (True, s\<lparr>pool_flags := pool_flags s OR POOL_WAIT\<rparr>) else (False, s))"

text \<open>The phases of \<open>thr_pool_destroy\<close>: mark and cancel, two waiting loops, dispose.\<close>

fun cancel_active :: "nat \<Rightarrow> nat option \<Rightarrow> pool \<Rightarrow> pool res" where
  "cancel_active 0 cur s = Inl Diverges"
| "cancel_active (Suc n) None s = Inr s"
| "cancel_active (Suc n) (Some a) s =
     cancel_active n (active_next s a) (s\<lparr>cancelled := insert a (cancelled s)\<rparr>)"

definition destroy_begin :: "pool \<Rightarrow> pool res" where
  "destroy_begin s =
     (let s1 = signal BroadcastWork (s\<lparr>pool_flags := pool_flags s OR POOL_DESTROY\<rparr>) in
      cancel_active (Suc (length (workers s1))) (pool_active s1) s1)"

definition destroy_wait_active :: "pool \<Rightarrow> bool \<times> pool" where
  "destroy_wait_active s =
     (if pool_active s \<noteq> None then (True, s\<lparr>pool_flags := pool_flags s OR POOL_WAIT\<rparr>) else (False, s))"

definition destroy_wait_threads :: "pool \<Rightarrow> bool" where
  "destroy_wait_threads s \<longleftrightarrow> pool_nthreads s \<noteq> 0"

fun free_jobs :: "nat \<Rightarrow> pool \<Rightarrow> pool res" where
  "free_jobs 0 s = Inl Diverges"
| "free_jobs (Suc n) s =
     (case pool_head s of
        None \<Rightarrow> Inr s
      | Some j \<Rightarrow>
          (case pool_jobs s j of
             None \<Rightarrow> Inl BadPointer
           | Some job \<Rightarrow>
               free_jobs n (s\<lparr>pool_head := job_next job, pool_jobs := (pool_jobs s)(j := None)\<rparr>)))"

section \<open>Interleavings\<close>

inductive pool_step :: "pool \<Rightarrow> pool \<Rightarrow> bool" where
  st_worker: "t < length (workers s) \<Longrightarrow> worker_step ok tmo ex t s = Inr s' \<Longrightarrow> pool_step s s'"
| st_queue: "mutex s = None \<Longrightarrow> (\<forall>a. addr = Some a \<longrightarrow> pool_jobs s a = None) \<Longrightarrow>
    thr_pool_queue addr ok f a s = Inr (rv, s') \<Longrightarrow> pool_step s s'"
| st_wait: "mutex s = None \<Longrightarrow> wait_round s = (go, s') \<Longrightarrow> pool_step s s'"
| st_destroy: "mutex s = None \<Longrightarrow> destroy_begin s = Inr s' \<Longrightarrow> pool_step s s'"
| st_destroy_wait: "mutex s = None \<Longrightarrow> destroy_wait_active s = (go, s') \<Longrightarrow> pool_step s s'"

inductive pool_reach :: "pool \<Rightarrow> pool \<Rightarrow> bool" for s0 where
  reach_init: "pool_reach s0 s0"
| reach_step: "pool_reach s0 s \<Longrightarrow> pool_step s s' \<Longrightarrow> pool_reach s0 s'"

inductive_cases pool_stepE: "pool_step s s'"

end
