(* ===== verification/ThrPoolInv.thy ===== *)
theory ThrPoolInv
  imports ThrPool
begin

text \<open>
  The invariant of the thread pool and its preservation by every step: the job queue is a
  chain whose tail pointer is right, the active list holds exactly the workers between
  taking a job and \<open>job_cleanup\<close>, the counters count, and at most one worker is inside a
  critical section.
\<close>

section \<open>Counting workers\<close>

definition cnt :: "(wpc \<Rightarrow> bool) \<Rightarrow> pool \<Rightarrow> int" where
  "cnt P s = int (length (filter P (workers s)))"

lemma filter_update_len:
  "i < length xs \<Longrightarrow> int (length (filter P (xs[i := y]))) =
     int (length (filter P xs)) - of_bool (P (xs ! i)) + of_bool (P y)"
proof (induction xs arbitrary: i)
  case (Cons x xs)
  then show ?case by (cases i) auto
qed simp

lemma cnt_set_pc:
  "t < length (workers s) \<Longrightarrow>
     cnt P (set_pc t p s) = cnt P s - of_bool (P (workers s ! t)) + of_bool (P p)"
  by (simp add: cnt_def set_pc_def filter_update_len)

lemma cnt_append [simp]: "cnt P (s\<lparr>workers := workers s @ [p]\<rparr>) = cnt P s + of_bool (P p)"
  by (simp add: cnt_def)

lemma cnt_nonneg: "0 \<le> cnt P s"
  by (simp add: cnt_def)

lemma cnt_pos: "t < length (workers s) \<Longrightarrow> P (workers s ! t) \<Longrightarrow> 0 < cnt P s"
  by (auto simp: cnt_def filter_empty_conv)

definition is_idle :: "wpc \<Rightarrow> bool" where
  "is_idle p \<longleftrightarrow> (case p of WTest \<Rightarrow> True | WWait _ \<Rightarrow> True | WAfter _ \<Rightarrow> True | _ \<Rightarrow> False)"

definition is_live :: "wpc \<Rightarrow> bool" where
  "is_live p \<longleftrightarrow> p \<noteq> WGone"

definition is_busy :: "wpc \<Rightarrow> bool" where
  "is_busy p \<longleftrightarrow> (case p of WRun _ _ \<Rightarrow> True | WJobDone _ \<Rightarrow> True | _ \<Rightarrow> False)"

definition holds_lock :: "wpc \<Rightarrow> bool" where
  "holds_lock p \<longleftrightarrow> (case p of WTop \<Rightarrow> True | WTest \<Rightarrow> True | WAfter _ \<Rightarrow> True | WExit \<Rightarrow> True | _ \<Rightarrow> False)"

lemmas pc_defs = is_idle_def is_live_def is_busy_def holds_lock_def

section \<open>The invariant\<close>

definition jnext :: "pool \<Rightarrow> nat \<Rightarrow> nat option" where
  "jnext s j = (case pool_jobs s j of None \<Rightarrow> None | Some job \<Rightarrow> job_next job)"

definition jwork :: "pool \<Rightarrow> nat \<Rightarrow> nat \<times> nat" where
  "jwork s j = (case pool_jobs s j of None \<Rightarrow> (0, 0) | Some job \<Rightarrow> (job_func job, job_arg job))"

definition queue_ok :: "pool \<Rightarrow> nat list \<Rightarrow> bool" where
  "queue_ok s js \<longleftrightarrow> chain (jnext s) (pool_head s) js \<and> set js \<subseteq> dom (pool_jobs s) \<and>
     pool_tail s = (if js = [] then None else Some (last js)) \<and>
     queued s = started s @ map (jwork s) js"

definition active_ok :: "pool \<Rightarrow> nat list \<Rightarrow> bool" where
  "active_ok s ts \<longleftrightarrow> chain (active_next s) (pool_active s) ts \<and>
     set ts = {t. t < length (workers s) \<and> is_busy (workers s ! t)}"

definition counts_ok :: "pool \<Rightarrow> bool" where
  "counts_ok s \<longleftrightarrow> pool_idle s = cnt is_idle s \<and> pool_nthreads s = cnt is_live s \<and>
     pool_nthreads s \<le> pool_maximum s"

definition mutex_ok :: "pool \<Rightarrow> bool" where
  "mutex_ok s \<longleftrightarrow> (\<forall>t < length (workers s). holds_lock (workers s ! t) \<longleftrightarrow> mutex s = Some t) \<and>
     (\<forall>t. mutex s = Some t \<longrightarrow> t < length (workers s))"

definition pool_inv :: "pool \<Rightarrow> bool" where
  "pool_inv s \<longleftrightarrow> (\<exists>js. queue_ok s js) \<and> (\<exists>ts. active_ok s ts) \<and> counts_ok s \<and> mutex_ok s"

lemmas inv_defs = queue_ok_def active_ok_def counts_ok_def mutex_ok_def

section \<open>Frame rules\<close>

lemma queue_ok_frame:
  "pool_jobs s' = pool_jobs s \<Longrightarrow> pool_head s' = pool_head s \<Longrightarrow> pool_tail s' = pool_tail s \<Longrightarrow>
    queued s' = queued s \<Longrightarrow> started s' = started s \<Longrightarrow> queue_ok s' js = queue_ok s js"
  by (simp add: queue_ok_def jnext_def [abs_def] jwork_def [abs_def])

lemma queue_ok_simps [simp]:
  "queue_ok (set_pc t p s) js = queue_ok s js" "queue_ok (signal c s) js = queue_ok s js"
  "queue_ok (s\<lparr>mutex := m\<rparr>) js = queue_ok s js" "queue_ok (s\<lparr>pool_idle := n\<rparr>) js = queue_ok s js"
  "queue_ok (s\<lparr>pool_nthreads := n\<rparr>) js = queue_ok s js" "queue_ok (s\<lparr>workers := w\<rparr>) js = queue_ok s js"
  "queue_ok (s\<lparr>pool_flags := f\<rparr>) js = queue_ok s js" "queue_ok (s\<lparr>pool_active := a\<rparr>) js = queue_ok s js"
  "queue_ok (s\<lparr>active_next := h\<rparr>) js = queue_ok s js" "queue_ok (s\<lparr>cancelled := c'\<rparr>) js = queue_ok s js"
  by (rule queue_ok_frame; simp add: set_pc_def signal_def)+

lemma active_ok_frame:
  "active_next s' = active_next s \<Longrightarrow> pool_active s' = pool_active s \<Longrightarrow>
    length (workers s') = length (workers s) \<Longrightarrow>
    (\<And>t. t < length (workers s) \<Longrightarrow> is_busy (workers s' ! t) = is_busy (workers s ! t)) \<Longrightarrow>
    active_ok s' ts = active_ok s ts"
  by (auto simp: active_ok_def)

lemma active_ok_simps [simp]:
  "active_ok (signal c s) ts = active_ok s ts" "active_ok (s\<lparr>mutex := m\<rparr>) ts = active_ok s ts"
  "active_ok (s\<lparr>pool_idle := n\<rparr>) ts = active_ok s ts" "active_ok (s\<lparr>pool_nthreads := n\<rparr>) ts = active_ok s ts"
  "active_ok (s\<lparr>pool_flags := f\<rparr>) ts = active_ok s ts" "active_ok (s\<lparr>cancelled := c'\<rparr>) ts = active_ok s ts"
  by (rule active_ok_frame; simp add: signal_def)+

lemma active_ok_set_pc:
  "is_busy p = is_busy (workers s ! t) \<Longrightarrow> active_ok (set_pc t p s) ts = active_ok s ts"
  by (rule active_ok_frame) (auto simp: set_pc_def nth_upd)

lemma active_ok_new [simp]: "active_ok (s\<lparr>workers := workers s @ [WStart]\<rparr>) ts = active_ok s ts"
proof -
  have "{t. t < Suc (length (workers s)) \<and> is_busy ((workers s @ [WStart]) ! t)} =
      {t. t < length (workers s) \<and> is_busy (workers s ! t)}"
    by (auto simp: nth_append less_Suc_eq is_busy_def)
  then show ?thesis by (simp add: active_ok_def)
qed

lemma cnt_simps [simp]:
  "cnt P (signal c s) = cnt P s" "cnt P (s\<lparr>mutex := m\<rparr>) = cnt P s"
  "cnt P (s\<lparr>pool_idle := n\<rparr>) = cnt P s" "cnt P (s\<lparr>pool_nthreads := n\<rparr>) = cnt P s"
  "cnt P (s\<lparr>pool_flags := f\<rparr>) = cnt P s" "cnt P (s\<lparr>cancelled := c'\<rparr>) = cnt P s"
  by (simp_all add: cnt_def signal_def)

lemma set_pc_simps [simp]:
  "pool_jobs (set_pc t p s) = pool_jobs s" "pool_head (set_pc t p s) = pool_head s"
  "pool_tail (set_pc t p s) = pool_tail s" "active_next (set_pc t p s) = active_next s"
  "pool_active (set_pc t p s) = pool_active s" "pool_flags (set_pc t p s) = pool_flags s"
  "pool_minimum (set_pc t p s) = pool_minimum s" "pool_maximum (set_pc t p s) = pool_maximum s"
  "pool_nthreads (set_pc t p s) = pool_nthreads s" "pool_idle (set_pc t p s) = pool_idle s"
  "mutex (set_pc t p s) = mutex s" "workers (set_pc t p s) = (workers s)[t := p]"
  "queued (set_pc t p s) = queued s" "started (set_pc t p s) = started s"
  by (simp_all add: set_pc_def)

lemma signal_simps [simp]:
  "pool_jobs (signal c s) = pool_jobs s" "pool_head (signal c s) = pool_head s"
  "pool_tail (signal c s) = pool_tail s" "active_next (signal c s) = active_next s"
  "pool_active (signal c s) = pool_active s" "pool_flags (signal c s) = pool_flags s"
  "pool_minimum (signal c s) = pool_minimum s" "pool_maximum (signal c s) = pool_maximum s"
  "pool_nthreads (signal c s) = pool_nthreads s" "pool_idle (signal c s) = pool_idle s"
  "mutex (signal c s) = mutex s" "workers (signal c s) = workers s"
  "queued (signal c s) = queued s" "started (signal c s) = started s"
  by (simp_all add: signal_def)

text \<open>A worker that moves on, the mutex following its position.\<close>

lemma mutex_ok_move:
  assumes "mutex_ok s" "t < length (workers s)"
    and "mutex s' = (if holds_lock p then Some t else None)" "workers s' = (workers s)[t := p]"
    and "mutex s = None \<or> mutex s = Some t"
  shows "mutex_ok s'"
  using assms by (auto simp: mutex_ok_def nth_upd split: if_splits)

lemma mutex_ok_same:
  "mutex s' = mutex s \<Longrightarrow> workers s' = workers s \<Longrightarrow> mutex_ok s' = mutex_ok s"
  by (simp add: mutex_ok_def)

lemma mutex_ok_new:
  "mutex_ok s \<Longrightarrow> mutex s' = mutex s \<Longrightarrow> workers s' = workers s @ [WStart] \<Longrightarrow> mutex_ok s'"
  by (auto simp: mutex_ok_def nth_append holds_lock_def less_Suc_eq)

lemma cnt_upd:
  "workers s' = (workers s)[t := p] \<Longrightarrow> t < length (workers s) \<Longrightarrow>
     cnt P s' = cnt P s - of_bool (P (workers s ! t)) + of_bool (P p)"
  by (simp add: cnt_def filter_update_len)

lemma inv_move:
  assumes inv: "pool_inv s" and t: "t < length (workers s)" and w: "workers s' = (workers s)[t := p]"
    and same: "pool_jobs s' = pool_jobs s" "pool_head s' = pool_head s" "pool_tail s' = pool_tail s"
      "queued s' = queued s" "started s' = started s" "active_next s' = active_next s"
      "pool_active s' = pool_active s" "pool_maximum s' = pool_maximum s"
    and busy: "is_busy p = is_busy (workers s ! t)" and live: "is_live (workers s ! t)"
    and idle: "pool_idle s' = pool_idle s - of_bool (is_idle (workers s ! t)) + of_bool (is_idle p)"
    and num: "pool_nthreads s' = pool_nthreads s - of_bool (\<not> is_live p)"
    and lock: "\<not> holds_lock (workers s ! t) \<and> \<not> holds_lock p \<and> mutex s' = mutex s \<or>
      (mutex s = None \<or> mutex s = Some t) \<and> mutex s' = (if holds_lock p then Some t else None)"
  shows "pool_inv s'"
proof -
  from inv obtain js ts where j: "queue_ok s js" and a: "active_ok s ts" and c: "counts_ok s" and m: "mutex_ok s"
    by (auto simp: pool_inv_def)
  have "queue_ok s' js" using j queue_ok_frame [OF same(1-5)] by simp
  moreover have "active_ok s' ts"
    using a active_ok_frame [OF same(6,7), of ts] busy w by (auto simp: nth_upd)
  moreover have "counts_ok s'"
    using c idle num live same(8) by (simp add: counts_ok_def cnt_upd [OF w t])
  moreover have "mutex_ok s'"
    using lock
  proof
    assume "\<not> holds_lock (workers s ! t) \<and> \<not> holds_lock p \<and> mutex s' = mutex s"
    then show ?thesis using m w t by (auto simp: mutex_ok_def nth_upd)
  next
    assume "(mutex s = None \<or> mutex s = Some t) \<and> mutex s' = (if holds_lock p then Some t else None)"
    then show ?thesis using mutex_ok_move [OF m t _ w] by blast
  qed
  ultimately show ?thesis by (auto simp: pool_inv_def)
qed

lemma inv_same:
  assumes "pool_inv s" "workers s' = workers s" "pool_jobs s' = pool_jobs s" "pool_head s' = pool_head s"
    "pool_tail s' = pool_tail s" "queued s' = queued s" "started s' = started s"
    "active_next s' = active_next s" "pool_active s' = pool_active s" "pool_maximum s' = pool_maximum s"
    "pool_idle s' = pool_idle s" "pool_nthreads s' = pool_nthreads s" "mutex s' = mutex s"
  shows "pool_inv s'"
proof -
  from assms(1) obtain js ts where j: "queue_ok s js" and a: "active_ok s ts" and c: "counts_ok s" "mutex_ok s"
    by (auto simp: pool_inv_def)
  have "queue_ok s' js" using j queue_ok_frame [OF assms(3-7)] by simp
  moreover have "active_ok s' ts" using a active_ok_frame [OF assms(8,9)] assms(2) by simp
  moreover have "counts_ok s'" "mutex_ok s'"
    using c assms by (simp_all add: counts_ok_def cnt_def mutex_ok_def)
  ultimately show ?thesis by (auto simp: pool_inv_def)
qed

lemma notify_waiters_same:
  "workers (notify_waiters s) = workers s" "pool_jobs (notify_waiters s) = pool_jobs s"
  "pool_head (notify_waiters s) = pool_head s" "pool_tail (notify_waiters s) = pool_tail s"
  "queued (notify_waiters s) = queued s" "started (notify_waiters s) = started s"
  "active_next (notify_waiters s) = active_next s" "pool_active (notify_waiters s) = pool_active s"
  "pool_maximum (notify_waiters s) = pool_maximum s" "pool_idle (notify_waiters s) = pool_idle s"
  "pool_nthreads (notify_waiters s) = pool_nthreads s" "mutex (notify_waiters s) = mutex s"
  "pool_minimum (notify_waiters s) = pool_minimum s"
  by (simp_all add: notify_waiters_def)

lemma inv_lock:
  assumes "pool_inv s" "t < length (workers s)"
  shows "holds_lock (workers s ! t) \<longleftrightarrow> mutex s = Some t"
  using assms by (auto simp: pool_inv_def mutex_ok_def)

section \<open>Steps that neither take a job nor finish one\<close>

lemma step_start:
  assumes "pool_inv s" "t < length (workers s)" "workers s ! t = WStart" "worker_step ok tmo ex t s = Inr s'"
  shows "pool_inv s'"
proof (cases "mutex s = None")
  case True
  show ?thesis
    by (rule inv_move [OF assms(1,2), where p = WTop])
      (use assms(3,4) True in \<open>auto simp: worker_step_def pc_defs\<close>)
qed (use assms in \<open>auto simp: worker_step_def\<close>)

lemma step_top:
  assumes "pool_inv s" "t < length (workers s)" "workers s ! t = WTop" "worker_step ok tmo ex t s = Inr s'"
  shows "pool_inv s'"
proof -
  have "mutex s = Some t" using inv_lock [OF assms(1,2)] assms(3) by (simp add: pc_defs)
  then show ?thesis
    by (intro inv_move [OF assms(1,2), where p = WTest])
      (use assms(3,4) in \<open>auto simp: worker_step_def pc_defs Let_def notify_waiters_same\<close>)
qed

lemma step_test:
  assumes "pool_inv s" "t < length (workers s)" "workers s ! t = WTest" "worker_step ok tmo ex t s = Inr s'"
  shows "pool_inv s'"
proof -
  have m: "mutex s = Some t" using inv_lock [OF assms(1,2)] assms(3) by (simp add: pc_defs)
  from assms(3,4) consider b where "s' = set_pc t (WWait b) (s\<lparr>mutex := None\<rparr>)"
    | b where "s' = set_pc t (WAfter b) s"
    by (auto simp: worker_step_def split: if_splits)
  then show ?thesis
  proof cases
    case 1
    show ?thesis
      by (rule inv_move [OF assms(1,2), where p = "WWait b" for b]) (use 1 m assms(3) in \<open>auto simp: pc_defs\<close>)
  next
    case 2
    show ?thesis
      by (rule inv_move [OF assms(1,2), where p = "WAfter b" for b]) (use 2 m assms(3) in \<open>auto simp: pc_defs\<close>)
  qed
qed

lemma step_wait:
  assumes "pool_inv s" "t < length (workers s)" "workers s ! t = WWait b" "worker_step ok tmo ex t s = Inr s'"
  shows "pool_inv s'"
proof (cases "mutex s = None")
  case True
  show ?thesis
    by (rule inv_move [OF assms(1,2), where p = "if b \<and> tmo then WAfter True else WTest"])
      (use assms(3,4) True in \<open>auto simp: worker_step_def pc_defs\<close>)
qed (use assms in \<open>auto simp: worker_step_def\<close>)

lemma step_run:
  assumes "pool_inv s" "t < length (workers s)" "workers s ! t = WRun f a" "worker_step ok tmo ex t s = Inr s'"
  shows "pool_inv s'"
  by (rule inv_move [OF assms(1,2), where p = "WJobDone ex"])
    (use assms(3,4) in \<open>auto simp: worker_step_def pc_defs\<close>)

section \<open>Creating and losing workers\<close>

lemma create_worker_inv:
  assumes inv: "pool_inv s" and room: "pool_nthreads s < pool_maximum s"
    and s': "s' = (case create_worker ok s of (True, s') \<Rightarrow> s'\<lparr>pool_nthreads := pool_nthreads s' + 1\<rparr>
                  | (False, s') \<Rightarrow> s')"
  shows "pool_inv s'"
proof (cases ok)
  case False
  then show ?thesis using inv s' by (simp add: create_worker_def)
next
  case True
  let ?w = "s\<lparr>workers := workers s @ [WStart]\<rparr>"
  have eq: "s' = ?w\<lparr>pool_nthreads := pool_nthreads s + 1\<rparr>" using True s' by (simp add: create_worker_def)
  from inv obtain js ts where j: "queue_ok s js" "active_ok s ts" and c: "counts_ok s" and m: "mutex_ok s"
    by (auto simp: pool_inv_def)
  have "counts_ok s'"
    using c room by (simp add: counts_ok_def eq pc_defs)
  moreover have "mutex_ok s'" by (rule mutex_ok_new [OF m]) (simp_all add: eq)
  ultimately show ?thesis using j by (auto simp: pool_inv_def eq)
qed

lemma worker_cleanup_inv:
  assumes inv: "pool_inv s" and t: "t < length (workers s)" and pc: "workers s ! t = WExit"
  shows "pool_inv (worker_cleanup ok (set_pc t WGone s))"
proof -
  have lock: "mutex s = Some t" using inv_lock [OF inv t] pc by (simp add: pc_defs)
  let ?s = "(set_pc t WGone s)\<lparr>pool_nthreads := pool_nthreads s - 1, mutex := None\<rparr>"
  have i: "pool_inv ?s"
    by (rule inv_move [OF inv t, where p = WGone]) (use pc lock in \<open>auto simp: pc_defs\<close>)
  have max: "pool_maximum ?s = pool_maximum s" by simp
  show ?thesis
  proof (cases "\<not> has_flag ?s POOL_DESTROY \<and> pool_head ?s \<noteq> None \<and> pool_nthreads ?s < pool_maximum ?s")
    case True
    have "worker_cleanup ok (set_pc t WGone s) =
        (case create_worker ok ?s of (True, s') \<Rightarrow> s'\<lparr>pool_nthreads := pool_nthreads s' + 1\<rparr> | (False, s') \<Rightarrow> s')"
      using True by (auto simp: worker_cleanup_def Let_def has_flag_def create_worker_def)
    with create_worker_inv [OF i _ refl] True show ?thesis by simp
  next
    case False
    then have "worker_cleanup ok (set_pc t WGone s) = ?s \<or>
        worker_cleanup ok (set_pc t WGone s) = signal BroadcastBusy ?s"
      by (auto simp: worker_cleanup_def Let_def has_flag_def signal_def)
    moreover have "pool_inv (signal BroadcastBusy ?s)"
      by (rule inv_same [OF i]) simp_all
    ultimately show ?thesis using i by auto
  qed
qed

section \<open>Taking a job\<close>

lemma chain_pop:
  assumes "chain nxt (Some j) js"
  obtains js' where "js = j # js'" "chain nxt (nxt j) js'" "j \<notin> set js'"
proof -
  from assms obtain js' where js: "js = j # js'" "chain nxt (nxt j) js'" by (auto simp: chain_Some_iff)
  have "distinct js" using assms by (rule chain_distinct)
  with js that show thesis by auto
qed

lemma take_job_inv:
  assumes inv: "pool_inv s" and t: "t < length (workers s)" and pc: "workers s ! t = WAfter b"
    and head: "pool_head s = Some j"
  shows "\<exists>s'. take_job t j (s\<lparr>pool_idle := pool_idle s - 1\<rparr>) = Inr s' \<and> pool_inv s' \<and>
    started s' = started s @ [jwork s j]"
proof -
  from inv obtain js ts where q: "queue_ok s js" and a: "active_ok s ts" and c: "counts_ok s" and m: "mutex_ok s"
    by (auto simp: pool_inv_def)
  have ch: "chain (jnext s) (Some j) js" using q head by (simp add: queue_ok_def)
  obtain js' where js: "js = j # js'" "chain (jnext s) (jnext s j) js'" "j \<notin> set js'"
    by (rule chain_pop [OF ch])
  obtain job where job: "pool_jobs s j = Some job" using q js(1) by (auto simp: queue_ok_def)
  have jn: "jnext s j = job_next job" and jw: "jwork s j = (job_func job, job_arg job)"
    using job by (simp_all add: jnext_def jwork_def)
  have tail: "pool_tail s = Some (last js)" using q js(1) by (auto simp: queue_ok_def)
  have lock: "mutex s = Some t" using inv_lock [OF inv t] pc by (simp add: pc_defs)
  let ?p = "WRun (job_func job) (job_arg job)"
  let ?tl = "if Some j = pool_tail s then None else pool_tail s"
  obtain s' where run: "take_job t j (s\<lparr>pool_idle := pool_idle s - 1\<rparr>) = Inr s'" by (simp add: take_job_def job Let_def)
  then have f: "pool_head s' = job_next job" "pool_tail s' = ?tl" "pool_jobs s' = (pool_jobs s)(j := None)"
    "active_next s' = (active_next s)(t := pool_active s)" "pool_active s' = Some t" "mutex s' = None"
    "started s' = started s @ [jwork s j]" "queued s' = queued s" "workers s' = (workers s)[t := ?p]"
    "pool_idle s' = pool_idle s - 1" "pool_nthreads s' = pool_nthreads s" "pool_maximum s' = pool_maximum s"
    by (auto simp: take_job_def job jw Let_def split: if_splits)
  have "queue_ok s' js'"
  proof -
    have n: "jnext s' i = jnext s i" "jwork s' i = jwork s i" if "i \<in> set js'" for i
      using that js(3) by (auto simp: jnext_def jwork_def f(3))
    have "chain (jnext s') (pool_head s') js'"
      using js(2) chain_cong [OF n(1)] by (simp add: f(1) jn)
    moreover have "map (jwork s') js' = map (jwork s) js'" using n(2) by simp
    moreover have "pool_tail s' = (if js' = [] then None else Some (last js'))"
    proof (cases "js' = []")
      case False
      then have "last js' \<in> set js'" by simp
      then have "j \<noteq> last js'" using js(3) by auto
      with False show ?thesis using js(1) tail f(2) by simp
    qed (use js(1) tail f(2) in simp)
    moreover have "set js' \<subseteq> dom (pool_jobs s')"
      using q js by (auto simp: queue_ok_def f(3))
    moreover have "queued s' = started s' @ map (jwork s) js'"
      using q js(1) by (simp add: queue_ok_def f(7,8))
    ultimately show ?thesis by (simp add: queue_ok_def)
  qed
  moreover have "active_ok s' (t # ts)"
  proof -
    have "t \<notin> set ts" using a pc by (auto simp: active_ok_def pc_defs)
    then have "chain (active_next s') (pool_active s') (t # ts)"
      using a by (simp add: active_ok_def f(4,5))
    moreover have "set (t # ts) = {i. i < length (workers s') \<and> is_busy (workers s' ! i)}"
      using a t by (auto simp: active_ok_def f(9) nth_upd is_busy_def)
    ultimately show ?thesis by (simp add: active_ok_def)
  qed
  moreover have "counts_ok s'"
    using c by (simp add: counts_ok_def f cnt_upd [OF f(9) t] pc pc_defs)
  moreover have "mutex_ok s'"
    by (rule mutex_ok_move [OF m t _ f(9)]) (simp_all add: f(6) lock pc_defs)
  ultimately show ?thesis using run f(7) by (auto simp: pool_inv_def)
qed

lemma step_after:
  assumes inv: "pool_inv s" and t: "t < length (workers s)" and pc: "workers s ! t = WAfter b"
  shows "\<exists>s'. worker_step ok tmo ex t s = Inr s' \<and> pool_inv s'"
proof -
  have lock: "mutex s = Some t" using inv_lock [OF inv t] pc by (simp add: pc_defs)
  let ?s1 = "s\<lparr>pool_idle := pool_idle s - 1\<rparr>"
  show ?thesis
  proof (cases "\<not> has_flag ?s1 POOL_DESTROY \<and> pool_head s \<noteq> None")
    case True
    then obtain j where j: "pool_head s = Some j" by auto
    with True take_job_inv [OF inv t pc j] show ?thesis
      by (auto simp: worker_step_def pc Let_def)
  next
    case False
    define p where "p = (if has_flag ?s1 POOL_DESTROY \<or> b \<and> pool_minimum s < pool_nthreads s
      then WExit else WTop)"
    have p: "worker_step ok tmo ex t s = Inr (set_pc t p ?s1)" "p = WExit \<or> p = WTop"
      using False by (auto simp: worker_step_def pc Let_def p_def)
    have "pool_inv (set_pc t p ?s1)"
      by (rule inv_move [OF inv t, where p = p]) (use pc lock p(2) in \<open>auto simp: pc_defs\<close>)
    with p(1) show ?thesis by blast
  qed
qed

section \<open>Finishing a job\<close>

lemma unlink_active_sim:
  assumes "chain (active_next s) cur (us @ t # vs)" "t \<notin> set us" "length us < n"
  shows "unlink_active n t prev cur s =
    Inr (case (if us = [] then prev else Some (last us)) of
           None \<Rightarrow> s\<lparr>pool_active := active_next s t\<rparr>
         | Some p \<Rightarrow> s\<lparr>active_next := (active_next s)(p := active_next s t)\<rparr>)"
  using assms
proof (induction us arbitrary: cur n prev)
  case Nil
  then obtain k where "n = Suc k" by (cases n) auto
  with Nil show ?case by (auto split: option.splits)
next
  case (Cons u us)
  then obtain k where k: "n = Suc k" "length us < k" by (cases n) auto
  have c: "chain (active_next s) (active_next s u) (us @ t # vs)" "cur = Some u" "u \<noteq> t" "t \<notin> set us"
    using Cons.prems by auto
  from Cons.IH [OF c(1,4) k(2), of "Some u"] c k show ?case by auto
qed

lemma unlink_active_ok:
  assumes a: "chain (active_next s) (pool_active s) ts" and t: "t \<in> set ts" and n: "length ts < n"
  shows "\<exists>h p. unlink_active n t None (pool_active s) s = Inr (s\<lparr>active_next := h, pool_active := p\<rparr>) \<and>
    chain h p (filter (\<lambda>x. x \<noteq> t) ts)"
proof -
  have d: "distinct ts" using a by (rule chain_distinct)
  obtain us vs where ts: "ts = us @ t # vs" "t \<notin> set us" using t by (meson split_list_first)
  have tv: "t \<notin> set vs" using d ts(1) by simp
  have "filter (\<lambda>x. x \<noteq> t) us = us" "filter (\<lambda>x. x \<noteq> t) vs = vs"
    using ts(2) tv by (auto intro!: filter_True)
  then have flt: "filter (\<lambda>x. x \<noteq> t) ts = us @ vs" using ts(1) by simp
  note U = unlink_active_sim [OF a [unfolded ts(1)] ts(2), of n None]
  show ?thesis
  proof (cases us rule: rev_cases)
    case Nil
    have "unlink_active n t None (pool_active s) s = Inr (s\<lparr>pool_active := active_next s t\<rparr>)"
      using U n ts(1) Nil by simp
    moreover have "chain (active_next s) (active_next s t) (us @ vs)" using a ts(1) Nil by simp
    moreover have "s\<lparr>pool_active := active_next s t\<rparr> =
        s\<lparr>active_next := active_next s, pool_active := active_next s t\<rparr>" by simp
    ultimately show ?thesis unfolding flt by metis
  next
    case (snoc ws u)
    let ?h = "(active_next s)(u := active_next s t)"
    have run: "unlink_active n t None (pool_active s) s = Inr (s\<lparr>active_next := ?h\<rparr>)"
      using U n ts(1) snoc by simp
    have "u \<notin> set ws" "u \<notin> set vs" using d ts(1) snoc by auto
    moreover have "chain (active_next s) (pool_active s) (ws @ [u] @ t # vs)"
      using a ts(1) snoc by simp
    moreover have "chain ?h (active_next s t) vs"
      using a ts(1) \<open>u \<notin> set vs\<close> by (auto simp: chain_append)
    ultimately have "chain ?h (pool_active s) (us @ vs)"
      using chain_splice [of "active_next s" "pool_active s" ws u "t # vs" "active_next s t" vs] snoc by simp
    moreover have "s\<lparr>active_next := ?h\<rparr> = s\<lparr>active_next := ?h, pool_active := pool_active s\<rparr>" by simp
    ultimately show ?thesis unfolding flt using run by metis
  qed
qed

lemma step_job_done:
  assumes inv: "pool_inv s" and t: "t < length (workers s)" and pc: "workers s ! t = WJobDone e"
  shows "\<exists>s'. worker_step ok tmo ex t s = Inr s' \<and> pool_inv s'"
proof (cases "mutex s = None")
  case False
  then show ?thesis using inv by (auto simp: worker_step_def pc)
next
  case True
  from inv obtain js ts where q: "queue_ok s js" and a: "active_ok s ts" and c: "counts_ok s" and m: "mutex_ok s"
    by (auto simp: pool_inv_def)
  let ?s0 = "s\<lparr>mutex := Some t\<rparr>"
  have mem: "t \<in> set ts" using a t pc by (simp add: active_ok_def pc_defs)
  have "distinct ts" using a chain_distinct by (auto simp: active_ok_def)
  then have "length ts = card (set ts)" by (simp add: distinct_card)
  also have "\<dots> \<le> card {..<length (workers s)}"
    using a by (intro card_mono) (auto simp: active_ok_def)
  finally have n: "length ts < Suc (length (workers ?s0))" by simp
  have ch: "chain (active_next ?s0) (pool_active ?s0) ts" using a by (simp add: active_ok_def)
  from unlink_active_ok [OF ch mem n] obtain h p where
    u: "unlink_active (Suc (length (workers ?s0))) t None (pool_active ?s0) ?s0 =
        Inr (?s0\<lparr>active_next := h, pool_active := p\<rparr>)"
    and ch': "chain h p (filter (\<lambda>x. x \<noteq> t) ts)" by blast
  let ?s1 = "?s0\<lparr>active_next := h, pool_active := p\<rparr>"
  let ?p = "if e then WExit else WTop"
  obtain s2 where s2: "job_cleanup t s = Inr s2" "s2 = ?s1 \<or> s2 = notify_waiters ?s1"
    using u by (auto simp: job_cleanup_def Let_def)
  have eq: "workers s2 = workers s" "pool_jobs s2 = pool_jobs s" "pool_head s2 = pool_head s"
    "pool_tail s2 = pool_tail s" "queued s2 = queued s" "started s2 = started s"
    "active_next s2 = h" "pool_active s2 = p" "pool_maximum s2 = pool_maximum s"
    "pool_idle s2 = pool_idle s" "pool_nthreads s2 = pool_nthreads s" "mutex s2 = Some t"
    using s2(2) by (auto simp: notify_waiters_same)
  let ?s' = "set_pc t ?p s2"
  have "queue_ok ?s' js" using q queue_ok_frame [OF eq(2-6)] by simp
  moreover have "active_ok ?s' (filter (\<lambda>x. x \<noteq> t) ts)"
    using a ch' t by (auto simp: active_ok_def eq nth_upd is_busy_def)
  moreover have "counts_ok ?s'"
  proof -
    have w: "workers ?s' = (workers s)[t := ?p]" by (simp add: eq)
    show ?thesis using c by (simp add: counts_ok_def cnt_upd [OF w t] eq pc pc_defs)
  qed
  moreover have "mutex_ok ?s'"
    by (rule mutex_ok_move [OF m t, where p = ?p]) (use True in \<open>auto simp: eq pc_defs\<close>)
  ultimately show ?thesis
    using s2(1) True by (auto simp: worker_step_def pc pool_inv_def)
qed

lemma worker_step_inv:
  assumes "pool_inv s" "t < length (workers s)"
  shows "\<exists>s'. worker_step ok tmo ex t s = Inr s' \<and> pool_inv s'"
proof (cases "workers s ! t")
  case WStart
  then show ?thesis using step_start [OF assms WStart] by (simp add: worker_step_def)
next
  case WTop
  then show ?thesis using step_top [OF assms WTop] by (simp add: worker_step_def Let_def)
next
  case WTest
  then show ?thesis using step_test [OF assms WTest] by (simp add: worker_step_def)
next
  case (WWait b)
  then show ?thesis using step_wait [OF assms WWait] by (simp add: worker_step_def)
next
  case (WAfter b)
  then show ?thesis using step_after [OF assms WAfter] by blast
next
  case (WRun f a)
  then show ?thesis using step_run [OF assms WRun] by (simp add: worker_step_def)
next
  case (WJobDone e)
  then show ?thesis using step_job_done [OF assms WJobDone] by blast
next
  case WExit
  then show ?thesis using worker_cleanup_inv [OF assms WExit] by (simp add: worker_step_def)
next
  case WGone
  then show ?thesis using assms(1) by (simp add: worker_step_def)
qed

section \<open>Queueing a job\<close>

text \<open>The list part of \<open>thr_pool_queue\<close>.\<close>

definition enqueue :: "nat \<Rightarrow> nat \<Rightarrow> nat \<Rightarrow> pool \<Rightarrow> pool res" where
  "enqueue job func arg s =
     (let s1 = s\<lparr>pool_jobs := (pool_jobs s)(job \<mapsto> \<lparr>job_next = None, job_func = func, job_arg = arg\<rparr>)\<rparr> in
      bind_res
        (if pool_head s1 = None then Inr (s1\<lparr>pool_head := Some job\<rparr>)
         else bind_res (deref (pool_tail s1)) (\<lambda>tl.
           case pool_jobs s1 tl of
             None \<Rightarrow> Inl BadPointer
           | Some tj \<Rightarrow> Inr (s1\<lparr>pool_jobs := (pool_jobs s1)(tl \<mapsto> tj\<lparr>job_next := Some job\<rparr>)\<rparr>))) (\<lambda>s2.
      Inr (s2\<lparr>pool_tail := Some job, queued := queued s2 @ [(func, arg)]\<rparr>)))"

lemma thr_pool_queue_enqueue:
  "thr_pool_queue (Some job) ok func arg s =
     bind_res (enqueue job func arg s) (\<lambda>s3.
     Inr (0, if 0 < pool_idle s3 then signal SignalWork s3
             else if pool_nthreads s3 < pool_maximum s3 then
               (case create_worker ok s3 of
                  (True, s') \<Rightarrow> s'\<lparr>pool_nthreads := pool_nthreads s' + 1\<rparr>
                | (False, s') \<Rightarrow> s')
             else s3))"
  by (simp add: thr_pool_queue_def enqueue_def Let_def bind_res_assoc)

lemma enqueue_queue_ok:
  assumes q: "queue_ok s js" and fresh: "pool_jobs s job = None"
  shows "\<exists>s'. enqueue job func arg s = Inr s' \<and> queue_ok s' (js @ [job]) \<and>
    queued s' = queued s @ [(func, arg)] \<and> started s' = started s \<and>
    workers s' = workers s \<and> active_next s' = active_next s \<and> pool_active s' = pool_active s \<and>
    pool_maximum s' = pool_maximum s \<and> pool_idle s' = pool_idle s \<and>
    pool_nthreads s' = pool_nthreads s \<and> mutex s' = mutex s"
proof -
  let ?new = "\<lparr>job_next = None, job_func = func, job_arg = arg\<rparr>"
  have nin: "job \<notin> set js" using q fresh by (auto simp: queue_ok_def)
  have ch: "chain (jnext s) (pool_head s) js" using q by (simp add: queue_ok_def)
  show ?thesis
  proof (cases js rule: rev_cases)
    case Nil
    then have h: "pool_head s = None" using ch by simp
    let ?s' = "s\<lparr>pool_jobs := (pool_jobs s)(job \<mapsto> ?new), pool_head := Some job,
      pool_tail := Some job, queued := queued s @ [(func, arg)]\<rparr>"
    have "enqueue job func arg s = Inr ?s'" using h by (simp add: enqueue_def Let_def)
    moreover have "queue_ok ?s' (js @ [job])"
      using q Nil by (simp add: queue_ok_def jnext_def jwork_def)
    ultimately show ?thesis by (intro exI [of _ ?s']) simp
  next
    case (snoc us tl)
    have tail: "pool_tail s = Some tl" using q snoc by (simp add: queue_ok_def)
    obtain tj where tj: "pool_jobs s tl = Some tj" using q snoc by (auto simp: queue_ok_def)
    have ne: "tl \<noteq> job" "tl \<notin> set us" using nin snoc chain_distinct [OF ch] by auto
    obtain k where h: "pool_head s = Some k" using ch snoc by (cases "pool_head s") auto
    let ?s' = "s\<lparr>pool_jobs := (pool_jobs s)(job \<mapsto> ?new, tl \<mapsto> tj\<lparr>job_next := Some job\<rparr>),
      pool_tail := Some job, queued := queued s @ [(func, arg)]\<rparr>"
    have run: "enqueue job func arg s = Inr ?s'"
      using h tail tj ne(1) by (simp add: enqueue_def Let_def)
    have jn: "jnext ?s' = (jnext s)(job := None, tl := Some job)"
      by (auto simp: jnext_def fun_eq_iff)
    have "seg (jnext s) (pool_head s) (us @ [tl]) None" using ch snoc by (simp add: chain_def)
    then have "seg ((jnext s)(job := None)) (pool_head s) (us @ [tl]) None"
      using nin snoc by (subst seg_fun_upd) auto
    then have "seg (jnext ?s') (pool_head s) (us @ [tl]) (Some job)"
      unfolding jn using ne(2) by (rule seg_redirect)
    moreover have "chain (jnext ?s') (Some job) [job]" using ne(1) by (simp add: jn)
    ultimately have "chain (jnext ?s') (pool_head ?s') (js @ [job])"
      unfolding snoc by (subst chain_append) auto
    moreover have "map (jwork ?s') js = map (jwork s) js"
      using nin tj by (auto simp: jwork_def)
    moreover have "jwork ?s' job = (func, arg)" using ne(1) by (simp add: jwork_def)
    ultimately have "queue_ok ?s' (js @ [job])"
      using q tj by (auto simp: queue_ok_def)
    with run show ?thesis by (intro exI [of _ ?s']) simp
  qed
qed

lemma queue_inv:
  assumes inv: "pool_inv s" and fresh: "\<forall>a. addr = Some a \<longrightarrow> pool_jobs s a = None"
  shows "\<exists>rv s'. thr_pool_queue addr ok f a s = Inr (rv, s') \<and> pool_inv s' \<and> started s' = started s \<and>
    (addr = None \<longrightarrow> rv = - 1 \<and> s' = s) \<and>
    (addr \<noteq> None \<longrightarrow> rv = 0 \<and> queued s' = queued s @ [(f, a)])"
proof (cases addr)
  case None
  then show ?thesis using inv by (simp add: thr_pool_queue_def)
next
  case (Some job)
  from inv obtain js ts where q: "queue_ok s js" and ac: "active_ok s ts" and c: "counts_ok s" and m: "mutex_ok s"
    by (auto simp: pool_inv_def)
  have fr: "pool_jobs s job = None" using fresh Some by simp
  obtain s3 where s3: "enqueue job f a s = Inr s3" "queue_ok s3 (js @ [job])"
    "queued s3 = queued s @ [(f, a)]" "started s3 = started s" "workers s3 = workers s"
    "active_next s3 = active_next s" "pool_active s3 = pool_active s" "pool_maximum s3 = pool_maximum s"
    "pool_idle s3 = pool_idle s" "pool_nthreads s3 = pool_nthreads s" "mutex s3 = mutex s"
    using enqueue_queue_ok [OF q fr, of f a] by blast
  have i3: "pool_inv s3"
    using s3(2) ac c m s3 by (auto simp: pool_inv_def active_ok_def counts_ok_def cnt_def mutex_ok_def)
  let ?cw = "case create_worker ok s3 of (True, s') \<Rightarrow> s'\<lparr>pool_nthreads := pool_nthreads s' + 1\<rparr>
    | (False, s') \<Rightarrow> s'"
  let ?s4 = "if 0 < pool_idle s3 then signal SignalWork s3
             else if pool_nthreads s3 < pool_maximum s3 then ?cw else s3"
  have run: "thr_pool_queue addr ok f a s = Inr (0, ?s4)"
    using s3(1) Some by (simp add: thr_pool_queue_enqueue)
  have "pool_inv (signal SignalWork s3)" by (rule inv_same [OF i3]) simp_all
  then have "pool_inv ?s4" using i3 create_worker_inv [OF i3 _ refl, of ok] by simp
  moreover have "queued ?s4 = queued s3" "started ?s4 = started s3"
    by (auto simp: create_worker_def split: bool.splits)
  ultimately show ?thesis using run s3(3,4) Some by (intro exI [of _ 0] exI [of _ ?s4]) simp
qed

section \<open>The other calls\<close>

lemma flags_inv: "pool_inv s \<Longrightarrow> pool_inv (s\<lparr>pool_flags := f\<rparr>)"
  by (rule inv_same) simp_all

lemma cancel_active_sim:
  "chain (active_next s) cur ts \<Longrightarrow> length ts < n \<Longrightarrow>
     cancel_active n cur s = Inr (s\<lparr>cancelled := cancelled s \<union> set ts\<rparr>)"
proof (induction ts arbitrary: cur n s)
  case Nil
  then show ?case by (cases n) auto
next
  case (Cons t ts)
  then show ?case by (cases n) auto
qed

lemma active_len: "active_ok s ts \<Longrightarrow> length ts \<le> length (workers s)"
proof -
  assume a: "active_ok s ts"
  then have "distinct ts" using chain_distinct by (auto simp: active_ok_def)
  then have "length ts = card (set ts)" by (simp add: distinct_card)
  also have "\<dots> \<le> card {..<length (workers s)}"
    using a by (intro card_mono) (auto simp: active_ok_def)
  finally show ?thesis by simp
qed

lemma destroy_begin_inv:
  assumes "pool_inv s"
  shows "\<exists>s'. destroy_begin s = Inr s' \<and> pool_inv s' \<and> has_flag s' POOL_DESTROY \<and>
    cancelled s' = cancelled s \<union> {t. t < length (workers s) \<and> is_busy (workers s ! t)}"
proof -
  obtain ts where a: "active_ok s ts" using assms by (auto simp: pool_inv_def)
  let ?s1 = "signal BroadcastWork (s\<lparr>pool_flags := pool_flags s OR POOL_DESTROY\<rparr>)"
  have ch: "chain (active_next ?s1) (pool_active ?s1) ts" using a by (simp add: active_ok_def)
  have n: "length ts < Suc (length (workers ?s1))" using active_len [OF a] by simp
  have run: "destroy_begin s = Inr (?s1\<lparr>cancelled := cancelled ?s1 \<union> set ts\<rparr>)"
    using cancel_active_sim [OF ch n] by (simp add: destroy_begin_def Let_def)
  have "pool_inv (?s1\<lparr>cancelled := cancelled ?s1 \<union> set ts\<rparr>)"
    by (rule inv_same [OF assms]) simp_all
  moreover have "has_flag (?s1\<lparr>cancelled := cancelled ?s1 \<union> set ts\<rparr>) POOL_DESTROY"
    by (simp add: has_flag_def POOL_DESTROY_def word_ao_dist)
  ultimately show ?thesis using run a by (simp add: active_ok_def signal_def)
qed

lemma pool_step_inv: "pool_step s s' \<Longrightarrow> pool_inv s \<Longrightarrow> pool_inv s'"
proof (erule pool_stepE)
  fix t ok tmo ex
  assume a: "pool_inv s" "t < length (workers s)" "worker_step ok tmo ex t s = Inr s'"
  with worker_step_inv [OF a(1,2), of ok tmo ex] show "pool_inv s'" by simp
next
  fix addr ok f a rv
  assume "pool_inv s" "\<forall>a. addr = Some a \<longrightarrow> pool_jobs s a = None" "thr_pool_queue addr ok f a s = Inr (rv, s')"
  with queue_inv [of s addr ok f a] show "pool_inv s'" by auto
next
  fix go assume "pool_inv s" "wait_round s = (go, s')"
  then show "pool_inv s'" by (auto simp: wait_round_def flags_inv split: if_splits)
next
  assume "pool_inv s" "destroy_begin s = Inr s'"
  then show "pool_inv s'" using destroy_begin_inv [of s] by auto
next
  fix go assume "pool_inv s" "destroy_wait_active s = (go, s')"
  then show "pool_inv s'" by (auto simp: destroy_wait_active_def flags_inv split: if_splits)
qed

lemma pool_reach_inv: "pool_reach s0 s \<Longrightarrow> pool_inv s0 \<Longrightarrow> pool_inv s"
  by (induction rule: pool_reach.induct) (auto intro: pool_step_inv)

lemma create_inv:
  assumes "thr_pool_create ok mn mx lg = Some s"
  shows "0 \<le> sint mx \<Longrightarrow> pool_inv s"
proof -
  assume mx: "0 \<le> sint mx"
  have "queue_ok s []" "active_ok s []" "counts_ok s" "mutex_ok s"
    using assms mx
    by (auto simp: thr_pool_create_def queue_ok_def active_ok_def counts_ok_def mutex_ok_def cnt_def
        split: if_splits)
  then show ?thesis by (auto simp: pool_inv_def)
qed

end
