(* ===== verification/ThrPoolProps.thy ===== *)
theory ThrPoolProps
  imports ThrPoolInv
begin

text \<open>
  What a client of the thread pool may rely on, for every interleaving of its workers with
  calls of the interface.
\<close>

definition pool_example :: pool where
  "pool_example = the (thr_pool_create True 1 2 0)"

definition pool_example1 :: pool where
  "pool_example1 = (case thr_pool_queue (Some 5) True 70 71 pool_example of Inr (_, s) \<Rightarrow> s)"

lemma pool_example_eq: "thr_pool_create True 1 2 0 = Some pool_example"
  by (simp add: pool_example_def thr_pool_create_def)

lemma pool_example1_eq: "thr_pool_queue (Some 5) True 70 71 pool_example = Inr (0, pool_example1)"
  by (simp add: pool_example1_def pool_example_def thr_pool_create_def thr_pool_queue_def
      create_worker_def Let_def)

lemma pool_example1_reach: "pool_reach pool_example pool_example1"
proof (rule reach_step [OF reach_init])
  show "pool_step pool_example pool_example1"
    by (rule st_queue [OF _ _ pool_example1_eq])
      (simp_all add: pool_example_def thr_pool_create_def)
qed

lemma reach_inv:
  assumes "thr_pool_create ok mn mx lg = Some s0" "0 \<le> sint mx" "pool_reach s0 s"
  shows "pool_inv s"
  using pool_reach_inv [OF assms(3) create_inv [OF assms(1,2)]] .

text \<open>
  C21: jobs are begun in the order in which they were queued, each exactly once: at every
  moment the log of queued jobs is the log of begun jobs followed by the jobs on the
  queue, which is a NULL-terminated chain of allocated nodes ending at the tail pointer.
\<close>

theorem thr_pool_fifo:
  assumes "thr_pool_create ok mn mx lg = Some s0" "0 \<le> sint mx" "pool_reach s0 s"
  shows "\<exists>js. queued s = started s @ map (jwork s) js \<and> chain (jnext s) (pool_head s) js \<and>
    set js \<subseteq> dom (pool_jobs s) \<and> pool_tail s = (if js = [] then None else Some (last js))"
proof -
  obtain js where "queue_ok s js" using reach_inv [OF assms] by (auto simp: pool_inv_def)
  then show ?thesis unfolding queue_ok_def by blast
qed

theorem thr_pool_fifo_witness:
  "\<exists>js. queued pool_example1 = started pool_example1 @ map (jwork pool_example1) js \<and>
    chain (jnext pool_example1) (pool_head pool_example1) js \<and>
    set js \<subseteq> dom (pool_jobs pool_example1) \<and>
    pool_tail pool_example1 = (if js = [] then None else Some (last js))"
  by (rule thr_pool_fifo [OF pool_example_eq _ pool_example1_reach]) simp

text \<open>
  C22: no step of a worker dereferences a bad pointer or loops for ever, at most one worker
  is inside a critical section, the counters are exact, and the pool never has more
  workers than its maximum.
\<close>

theorem thr_pool_monitor:
  assumes "thr_pool_create ok mn mx lg = Some s0" "0 \<le> sint mx" "pool_reach s0 s"
  shows "(\<forall>t < length (workers s). \<forall>c tmo ex. \<exists>s'. worker_step c tmo ex t s = Inr s') \<and>
    (\<forall>t < length (workers s). \<forall>u < length (workers s).
       holds_lock (workers s ! t) \<and> holds_lock (workers s ! u) \<longrightarrow> t = u) \<and>
    pool_nthreads s = int (length (filter is_live (workers s))) \<and>
    pool_idle s = int (length (filter is_idle (workers s))) \<and>
    pool_nthreads s \<le> pool_maximum s"
proof -
  have inv: "pool_inv s" by (rule reach_inv [OF assms])
  then have c: "counts_ok s" "mutex_ok s" by (simp_all add: pool_inv_def)
  have "\<forall>t < length (workers s). \<forall>c tmo ex. \<exists>s'. worker_step c tmo ex t s = Inr s'"
    using worker_step_inv [OF inv] by blast
  moreover have "\<forall>t < length (workers s). \<forall>u < length (workers s).
       holds_lock (workers s ! t) \<and> holds_lock (workers s ! u) \<longrightarrow> t = u"
    using c(2) by (auto simp: mutex_ok_def)
  ultimately show ?thesis using c(1) by (simp add: counts_ok_def cnt_def)
qed

theorem thr_pool_monitor_witness:
  "length (workers pool_example1) = 1 \<and> (\<exists>s'. worker_step True False False 0 pool_example1 = Inr s') \<and>
    pool_nthreads pool_example1 = int (length (filter is_live (workers pool_example1))) \<and>
    pool_idle pool_example1 = int (length (filter is_idle (workers pool_example1))) \<and>
    pool_nthreads pool_example1 \<le> pool_maximum pool_example1"
proof -
  have "length (workers pool_example1) = 1"
    by (simp add: pool_example1_def pool_example_def thr_pool_create_def thr_pool_queue_def
      create_worker_def Let_def)
  moreover have "0 \<le> sint (2 :: u32)" by simp
  ultimately show ?thesis
    using thr_pool_monitor [OF pool_example_eq _ pool_example1_reach] by simp
qed

text \<open>
  C23: when \<open>thr_pool_wait\<close> returns, every job queued so far has been begun and no worker is
  inside a job.
\<close>

theorem thr_pool_wait_complete:
  assumes "thr_pool_create ok mn mx lg = Some s0" "0 \<le> sint mx" "pool_reach s0 s"
    and "wait_round s = (False, s')"
  shows "s' = s \<and> started s = queued s \<and> (\<forall>t < length (workers s). \<not> is_busy (workers s ! t))"
proof -
  from reach_inv [OF assms(1-3)] obtain js ts where "queue_ok s js" "active_ok s ts"
    by (auto simp: pool_inv_def)
  moreover have "pool_head s = None" "pool_active s = None" "s' = s"
    using assms(4) by (auto simp: wait_round_def split: if_splits)
  ultimately show ?thesis by (auto simp: queue_ok_def active_ok_def)
qed

theorem thr_pool_wait_complete_witness:
  "started pool_example = queued pool_example \<and>
    \<not> (\<exists>t. t < length (workers pool_example) \<and> is_busy (workers pool_example ! t))"
proof -
  have "wait_round pool_example = (False, pool_example)"
    by (simp add: wait_round_def pool_example_def thr_pool_create_def)
  moreover have "0 \<le> sint (2 :: u32)" by simp
  ultimately show ?thesis
    using thr_pool_wait_complete [OF pool_example_eq _ reach_init] by blast
qed

text \<open>The mark set by \<open>thr_pool_destroy\<close> stays, and it keeps workers from taking jobs.\<close>

lemma flag_wait_keeps_destroy:
  "((f :: u32) AND NOT POOL_WAIT) AND POOL_DESTROY = f AND POOL_DESTROY"
  "((f :: u32) OR POOL_WAIT) AND POOL_DESTROY = f AND POOL_DESTROY"
  by (simp_all add: POOL_WAIT_def POOL_DESTROY_def and.assoc bit.conj_disj_distrib2)

definition closing :: "pool \<Rightarrow> pool \<Rightarrow> bool" where
  "closing s s' \<longleftrightarrow> has_flag s' POOL_DESTROY \<and> started s' = started s"

lemma notify_waiters_closing: "has_flag s POOL_DESTROY \<Longrightarrow> closing s (notify_waiters s)"
  by (simp add: closing_def notify_waiters_def has_flag_def flag_wait_keeps_destroy)

lemma unlink_active_same:
  "unlink_active n t prev cur s = Inr s' \<Longrightarrow> pool_flags s' = pool_flags s \<and> started s' = started s"
proof (induction n arbitrary: prev cur)
  case (Suc n)
  then show ?case by (cases cur) (auto split: if_splits option.splits)
qed simp

lemma job_cleanup_closing:
  assumes "has_flag s POOL_DESTROY" "job_cleanup t s = Inr s'"
  shows "closing s s'"
proof -
  from assms(2) obtain s1 where u: "unlink_active (Suc (length (workers s))) t None (pool_active s)
      (s\<lparr>mutex := Some t\<rparr>) = Inr s1" and s': "s' = (if has_flag s1 POOL_WAIT then notify_waiters s1 else s1)"
    by (auto simp: job_cleanup_def Let_def bind_res_eq_Inr)
  have f: "has_flag s1 POOL_DESTROY" "started s1 = started s"
    using unlink_active_same [OF u] assms(1) by (simp_all add: has_flag_def)
  then show ?thesis using notify_waiters_closing [OF f(1)] s' by (simp add: closing_def)
qed

lemma has_flag_simps [simp]:
  "has_flag (set_pc t p s) f = has_flag s f" "has_flag (signal c s) f = has_flag s f"
  "has_flag (s\<lparr>mutex := m\<rparr>) f = has_flag s f" "has_flag (s\<lparr>pool_idle := n\<rparr>) f = has_flag s f"
  "has_flag (s\<lparr>pool_nthreads := n\<rparr>) f = has_flag s f" "has_flag (s\<lparr>workers := w\<rparr>) f = has_flag s f"
  by (simp_all add: has_flag_def set_pc_def signal_def)

lemma worker_step_closing:
  assumes d: "has_flag s POOL_DESTROY" and run: "worker_step ok tmo ex t s = Inr s'"
  shows "closing s s'"
proof (cases "workers s ! t")
  case WTop
  let ?s1 = "s\<lparr>pool_idle := pool_idle s + 1\<rparr>"
  have "closing ?s1 (notify_waiters ?s1)" by (rule notify_waiters_closing) (simp add: d)
  then show ?thesis using run d WTop by (auto simp: worker_step_def Let_def closing_def split: if_splits)
next
  case (WJobDone e)
  then show ?thesis
    using run d job_cleanup_closing [OF d]
    by (auto simp: worker_step_def bind_res_eq_Inr closing_def split: if_splits)
next
  case WExit
  then show ?thesis
    using run d by (auto simp: worker_step_def worker_cleanup_def Let_def closing_def)
qed (use run d in \<open>auto simp: worker_step_def Let_def closing_def split: if_splits\<close>)

lemma queue_closing:
  assumes "has_flag s POOL_DESTROY" "thr_pool_queue addr ok f a s = Inr (rv, s')"
  shows "closing s s'"
proof (cases addr)
  case None
  then show ?thesis using assms by (simp add: thr_pool_queue_def closing_def)
next
  case (Some job)
  with assms(2) obtain s3 where e: "enqueue job f a s = Inr s3" and s': "s' = (if 0 < pool_idle s3 then signal SignalWork s3
             else if pool_nthreads s3 < pool_maximum s3 then
               (case create_worker ok s3 of
                  (True, s') \<Rightarrow> s'\<lparr>pool_nthreads := pool_nthreads s' + 1\<rparr>
                | (False, s') \<Rightarrow> s')
             else s3)"
    by (auto simp: thr_pool_queue_enqueue bind_res_eq_Inr)
  have "pool_flags s3 = pool_flags s" "started s3 = started s"
    using e by (auto simp: enqueue_def Let_def bind_res_eq_Inr split: if_splits option.splits)
  then show ?thesis
    using assms(1) s' by (auto simp: closing_def has_flag_def create_worker_def split: bool.splits)
qed

lemma cancel_active_same:
  "cancel_active n cur s = Inr s' \<Longrightarrow> pool_flags s' = pool_flags s \<and> started s' = started s"
proof (induction n arbitrary: cur s)
  case (Suc n)
  then show ?case by (cases cur) auto
qed simp

text \<open>
  C24: from the moment \<open>thr_pool_destroy\<close> has marked the pool, no further job is begun,
  whatever the workers and clients do: the jobs still queued are abandoned.
\<close>

theorem thr_pool_destroy_stops:
  assumes "has_flag s POOL_DESTROY" "pool_reach s s'"
  shows "has_flag s' POOL_DESTROY \<and> started s' = started s"
  using assms(2)
proof induction
  case (reach_step s1 s2)
  then have d: "has_flag s1 POOL_DESTROY" by simp
  from reach_step(2) have "closing s1 s2"
  proof (cases rule: pool_step.cases)
    case (st_worker t ok tmo ex)
    then show ?thesis using worker_step_closing [OF d] by blast
  next
    case (st_queue addr ok f a rv)
    then show ?thesis using queue_closing [OF d] by blast
  next
    case (st_wait go)
    then show ?thesis using d
      by (auto simp: wait_round_def closing_def has_flag_def flag_wait_keeps_destroy split: if_splits)
  next
    case st_destroy
    then have "pool_flags s2 = pool_flags s1 OR POOL_DESTROY" "started s2 = started s1"
      by (auto simp: destroy_begin_def Let_def dest!: cancel_active_same)
    then show ?thesis by (simp add: closing_def has_flag_def POOL_DESTROY_def bit.conj_disj_distrib2)
  next
    case (st_destroy_wait go)
    then show ?thesis using d
      by (auto simp: destroy_wait_active_def closing_def has_flag_def flag_wait_keeps_destroy split: if_splits)
  qed
  with reach_step(3) show ?case by (simp add: closing_def)
qed (rule conjI [OF assms(1) refl])

theorem thr_pool_destroy_stops_witness:
  "\<exists>s. destroy_begin pool_example1 = Inr s \<and> queued s \<noteq> started s \<and>
    has_flag s POOL_DESTROY \<and> started s = started pool_example1"
proof -
  have inv: "pool_inv pool_example1"
    by (rule reach_inv [OF pool_example_eq _ pool_example1_reach]) simp
  obtain s where s: "destroy_begin pool_example1 = Inr s" "has_flag s POOL_DESTROY"
    using destroy_begin_inv [OF inv] by blast
  have q: "queued pool_example1 = [(70, 71)]" "started pool_example1 = []"
    by (simp_all add: pool_example1_def pool_example_def thr_pool_create_def thr_pool_queue_def
      create_worker_def Let_def)
  have "pool_active pool_example1 = None"
    by (simp add: pool_example1_def pool_example_def thr_pool_create_def thr_pool_queue_def
      create_worker_def Let_def)
  then have "queued s = queued pool_example1" "started s = started pool_example1"
    using s(1) by (auto simp: destroy_begin_def Let_def)
  moreover have "has_flag s POOL_DESTROY \<and> started s = started s"
    by (rule thr_pool_destroy_stops [OF s(2) reach_init])
  ultimately show ?thesis using s q by auto
qed

text \<open>
  A pool starts without any worker, whatever minimum was asked for, and
  \<open>thr_pool_queue\<close> reports success even when the first \<open>pthread_create\<close> fails: the job is
  then queued in a pool that has no worker to run it.
\<close>

theorem thr_pool_no_initial_workers:
  assumes "thr_pool_create ok mn mx lg = Some s0"
  shows "workers s0 = [] \<and> (\<exists>s'. thr_pool_queue (Some a) False f x s0 = Inr (0, s') \<and>
    workers s' = [] \<and> pool_nthreads s' = 0 \<and> queued s' = [(f, x)] \<and> started s' = [])"
  using assms
  by (auto simp: thr_pool_create_def thr_pool_queue_def Let_def create_worker_def split: if_splits)

theorem thr_pool_no_initial_workers_witness:
  "workers pool_example = [] \<and> (\<exists>s'. thr_pool_queue (Some 5) False 70 71 pool_example = Inr (0, s') \<and>
    workers s' = [] \<and> pool_nthreads s' = 0 \<and> queued s' = [(70, 71)] \<and> started s' = [])"
  by (rule thr_pool_no_initial_workers [OF pool_example_eq])

end
