(* ===== verification/PoolRing.thy ===== *)
theory PoolRing
  imports Prelude
begin

text \<open>
  The global list of all pools of pthreads/thr_pool.c: a ring of \<open>thr_pool_t\<close> linked both ways
  through \<open>pool_forw\<close> and \<open>pool_back\<close>, entered at \<open>thr_pools\<close>. \<open>thr_pool_create\<close> inserts the
  new pool before the first one, \<open>thr_pool_destroy\<close> unlinks its pool. The statements are kept
  in their order, since they read what the ones before have written.
\<close>

record pool_ring =
  pool_forw :: "nat \<Rightarrow> nat"
  pool_back :: "nat \<Rightarrow> nat"
  thr_pools :: "nat option"

definition ring_insert :: "nat \<Rightarrow> pool_ring \<Rightarrow> pool_ring" where
  "ring_insert pool s =
     (case thr_pools s of
        None \<Rightarrow>
          let s1 = s\<lparr>pool_forw := (pool_forw s)(pool := pool)\<rparr>;
              s2 = s1\<lparr>pool_back := (pool_back s1)(pool := pool)\<rparr>
          in s2\<lparr>thr_pools := Some pool\<rparr>
      | Some first \<Rightarrow>
          let s1 = s\<lparr>pool_forw := (pool_forw s)(pool_back s first := pool)\<rparr>;
              s2 = s1\<lparr>pool_forw := (pool_forw s1)(pool := first)\<rparr>;
              s3 = s2\<lparr>pool_back := (pool_back s2)(pool := pool_back s2 first)\<rparr>
          in s3\<lparr>pool_back := (pool_back s3)(first := pool)\<rparr>)"

definition ring_unlink :: "nat \<Rightarrow> pool_ring \<Rightarrow> pool_ring" where
  "ring_unlink pool s =
     (let s1 = (if thr_pools s = Some pool then s\<lparr>thr_pools := Some (pool_forw s pool)\<rparr> else s) in
      if thr_pools s1 = Some pool then s1\<lparr>thr_pools := None\<rparr>
      else
        let s2 = s1\<lparr>pool_forw := (pool_forw s1)(pool_back s1 pool := pool_forw s1 pool)\<rparr>
        in s2\<lparr>pool_back := (pool_back s2)(pool_forw s2 pool := pool_back s2 pool)\<rparr>)"

section \<open>The ring as a list\<close>

fun linked :: "(nat \<Rightarrow> nat) \<Rightarrow> (nat \<Rightarrow> nat) \<Rightarrow> nat list \<Rightarrow> bool" where
  "linked f b (x # y # zs) \<longleftrightarrow> f x = y \<and> b y = x \<and> linked f b (y # zs)"
| "linked f b xs \<longleftrightarrow> True"

definition ring_of :: "pool_ring \<Rightarrow> nat list \<Rightarrow> bool" where
  "ring_of s ps \<longleftrightarrow> distinct ps \<and> thr_pools s = (if ps = [] then None else Some (hd ps)) \<and>
     (ps \<noteq> [] \<longrightarrow> linked (pool_forw s) (pool_back s) (ps @ [hd ps]))"

lemma linked_append: "linked f b (xs @ y # zs) \<longleftrightarrow> linked f b (xs @ [y]) \<and> linked f b (y # zs)"
proof (induction xs)
  case Nil
  then show ?case by simp
next
  case (Cons x xs)
  then show ?case by (cases xs) auto
qed

lemma linked_upd:
  "a \<notin> set (butlast xs) \<Longrightarrow> linked (f(a := v)) b xs \<longleftrightarrow> linked f b xs"
  "a \<notin> set (tl xs) \<Longrightarrow> linked f (b(a := v)) xs \<longleftrightarrow> linked f b xs"
  by (induction f b xs rule: linked.induct) (auto split: if_splits)

text \<open>Creating a pool adds it at the end of the list, the place before the first.\<close>

lemma ring_insert_appends:
  assumes "ring_of s ps" and "p \<notin> set ps"
  shows "ring_of (ring_insert p s) (ps @ [p])"
proof (cases "ps = []")
  case True
  with assms show ?thesis by (simp add: ring_of_def ring_insert_def)
next
  case False
  then obtain us l where ps: "ps = us @ [l]" by (metis append_butlast_last_id)
  let ?h = "hd ps"
  have head: "thr_pools s = Some ?h" "distinct ps" using assms(1) False by (simp_all add: ring_of_def)
  have "linked (pool_forw s) (pool_back s) (us @ l # [?h])" using assms(1) False by (simp add: ring_of_def ps)
  then have old: "linked (pool_forw s) (pool_back s) ps" "pool_back s ?h = l"
    unfolding linked_append [of _ _ us l "[?h]"] by (simp_all add: ps)
  have mem: "l \<in> set ps" "?h \<in> set ps" "set us \<subseteq> set ps" "butlast ps = us" using False by (auto simp: ps hd_append)
  then have out: "p \<noteq> l" "p \<noteq> ?h" "p \<notin> set us" using assms(2) by auto
  have tl: "?h \<notin> set (tl ps)" "p \<notin> set (tl ps)" using head(2) assms(2) by (cases ps; simp)+
  have l: "l \<notin> set us" using head(2) by (simp add: ps)
  let ?f = "(pool_forw s)(l := p, p := ?h)" and ?b = "(pool_back s)(p := l, ?h := p)"
  have s': "ring_insert p s = s\<lparr>pool_forw := ?f, pool_back := ?b\<rparr>"
    using head(1) old(2) by (simp add: ring_insert_def Let_def)
  have "linked ?f ?b (us @ [l])"
    using old(1) out tl l mem(4) by (simp add: linked_upd ps [symmetric])
  moreover have "linked ?f ?b (l # [p, ?h])" using out by simp
  ultimately have "linked ?f ?b (us @ l # [p, ?h])" unfolding linked_append [of ?f ?b us l "[p, ?h]"] by simp
  then have "linked ?f ?b ((ps @ [p]) @ [?h])" by (simp add: ps)
  then show ?thesis using head assms(2) False unfolding ring_of_def s' by simp
qed

text \<open>Destroying a pool takes it out, wherever it is.\<close>

lemma linked_cut:
  assumes "linked f b (us @ a # p # c # ws)" and "a \<notin> set us" "c \<notin> set (tl (us @ [a]))"
    and "a \<notin> set (butlast (c # ws))" "c \<notin> set ws"
  shows "linked (f(a := c)) (b(c := a)) (us @ a # c # ws)" "f p = c" "b p = a"
proof -
  have old: "linked f b (us @ [a])" "f a = p" "b p = a" "f p = c" "b c = p" "linked f b (c # ws)"
    using assms(1) linked_append [of f b us a "p # c # ws"] by simp_all
  have "linked (f(a := c)) (b(c := a)) (us @ [a])"
    using old(1) assms(2,3) by (simp add: linked_upd)
  moreover have "linked (f(a := c)) (b(c := a)) (c # ws)"
    using old(6) assms(4,5) by (simp add: linked_upd)
  ultimately show "linked (f(a := c)) (b(c := a)) (us @ a # c # ws)"
    using linked_append [of "f(a := c)" "b(c := a)" us a "c # ws"] by simp
  show "f p = c" "b p = a" by (rule old)+
qed

lemma ring_unlink_first:
  assumes "ring_of s (p # vs)" and "vs \<noteq> []"
  shows "ring_of (ring_unlink p s) vs"
proof -
  obtain us a where a: "vs = us @ [a]" using assms(2) by (metis append_butlast_last_id)
  obtain c ws where c: "vs = c # ws" using assms(2) by (cases vs) auto
  have d: "distinct (p # vs)" "thr_pools s = Some p" "linked (pool_forw s) (pool_back s) (p # vs @ [p])"
    using assms(1) by (simp_all add: ring_of_def)
  have pc: "pool_forw s p = c" using d(3) by (simp add: c)
  have "linked (pool_forw s) (pool_back s) (us @ a # [p])"
  proof -
    have "linked (pool_forw s) (pool_back s) (vs @ [p])" using d(3) by (simp add: c)
    then show ?thesis by (simp add: a)
  qed
  then have old: "linked (pool_forw s) (pool_back s) vs" "pool_back s p = a"
    using linked_append [of _ _ us a "[p]"] by (simp_all add: a)
  have out: "a \<notin> set us" "butlast vs = us" using d(1) by (simp_all add: a)
  have out': "c \<notin> set (tl vs)" "c \<noteq> p" using d(1) by (auto simp: c)
  have s': "ring_unlink p s = s\<lparr>pool_forw := (pool_forw s)(a := c), pool_back := (pool_back s)(c := a), thr_pools := Some c\<rparr>"
    using d(2) pc old(2) out'(2) by (simp add: ring_unlink_def Let_def)
  have "linked ((pool_forw s)(a := c)) ((pool_back s)(c := a)) (us @ [a])"
    using old(1) out out' by (simp add: linked_upd a [symmetric])
  then have "linked ((pool_forw s)(a := c)) ((pool_back s)(c := a)) (vs @ [c])"
    using linked_append [of "(pool_forw s)(a := c)" "(pool_back s)(c := a)" us a "[c]"] by (simp add: a)
  then show ?thesis using d(1) unfolding s' ring_of_def by (simp add: c)
qed

lemma ring_unlink_later:
  assumes "ring_of s (us @ a # p # vs)"
  shows "ring_of (ring_unlink p s) (us @ a # vs)"
proof -
  let ?h = "hd (us @ [a])"
  obtain c ws where c: "vs @ [?h] = c # ws" by (cases "vs @ [?h]") auto
  have d: "distinct (us @ a # p # vs)" "thr_pools s = Some ?h" "linked (pool_forw s) (pool_back s) (us @ a # p # vs @ [?h])"
    using assms by (auto simp: ring_of_def hd_append)
  have h: "?h \<noteq> p" "?h \<notin> set vs" "?h \<notin> set (tl (us @ [a]))"
    using d(1) by (cases us; force)+
  have bl: "butlast (c # ws) = vs" using c by (metis butlast_snoc)
  have hin: "?h \<in> set (us @ [a])" by (cases us) simp_all
  have a_out: "a \<notin> set us" "a \<notin> set (butlast (c # ws))" using d(1) unfolding bl by simp_all
  have c_out: "c \<notin> set (tl (us @ [a])) \<and> c \<notin> set ws \<and> c \<noteq> p"
  proof (cases vs)
    case Nil
    with c have "c = ?h" "ws = []" by simp_all
    with h show ?thesis by simp
  next
    case (Cons v vs')
    with c have cw: "c = v" "ws = vs' @ [?h]" by simp_all
    have "v \<notin> set (us @ [a])" "v \<notin> set vs'" "v \<noteq> p" using d(1) Cons by auto
    moreover from this hin have "v \<noteq> ?h" by metis
    moreover have "set (tl (us @ [a])) \<subseteq> set (us @ [a])" by (cases us) auto
    ultimately show ?thesis unfolding cw by auto
  qed
  have side: "a \<notin> set us" "c \<notin> set (tl (us @ [a]))" "a \<notin> set (butlast (c # ws))" "c \<notin> set ws" "c \<noteq> p"
    using a_out c_out by simp_all
  have "linked (pool_forw s) (pool_back s) (us @ a # p # c # ws)" using d(3) c by simp
  note cut = linked_cut [OF this side(1-4)]
  have s': "ring_unlink p s = s\<lparr>pool_forw := (pool_forw s)(a := c), pool_back := (pool_back s)(c := a)\<rparr>"
    using d(2) h(1) cut(2,3) side(5) d(1) by (simp add: ring_unlink_def Let_def)
  have "linked ((pool_forw s)(a := c)) ((pool_back s)(c := a)) ((us @ a # vs) @ [?h])"
    using cut(1) c by simp
  moreover have "hd (us @ a # vs) = ?h" by (cases us) simp_all
  ultimately show ?thesis using d(1,2) unfolding s' ring_of_def by simp
qed

theorem ring_unlink_removes:
  assumes "ring_of s ps" and "p \<in> set ps"
  shows "ring_of (ring_unlink p s) (remove1 p ps)"
proof -
  obtain us vs where ps: "ps = us @ p # vs" "p \<notin> set us" using assms(2) by (meson split_list_first)
  then have rm: "remove1 p ps = us @ vs" by (simp add: remove1_append)
  show ?thesis
  proof (cases us rule: rev_cases)
    case us: Nil
    show ?thesis
    proof (cases "vs = []")
      case True
      with us ps have "ring_of s [p]" using assms(1) by simp
      then show ?thesis unfolding rm us True by (simp add: ring_of_def ring_unlink_def)
    next
      case False
      then show ?thesis using ring_unlink_first [of s p vs] assms(1) unfolding rm by (simp add: ps us)
    qed
  next
    case (snoc us' a)
    then show ?thesis using ring_unlink_later [of s us' a p vs] assms(1) unfolding rm by (simp add: ps)
  qed
qed

end
