(* ===== verification/SefdmTable.thy ===== *)
theory SefdmTable
  imports Prelude
begin

text \<open>
  sefdm/algorythms/test.list.161.c, the data structure: a matrix of complex numbers kept as
  one linked list of nodes per column (\<open>struct node\<close>, \<open>struct table\<close>).

  The nodes live in a store that \<open>malloc\<close> extends: an address is a number, NULL is
  \<open>None\<close>, and a fresh node holds whatever the store held there. A table is passed by value
  because no routine changes a table record through two names; the nodes are shared.
  A \<open>double\<close> is a type \<open>'d\<close> of which the definitions only use the C operators; the
  functions of math.h and the integer conversions are the parameter \<open>libm\<close>. Nothing is
  assumed of either unless a lemma says so.
  Loops along a list have the number of nodes allocated so far as fuel, which no
  NULL-terminated list exceeds; a list that has a cycle exhausts it and is \<open>Diverges\<close>.
  \<open>tag\<close> and \<open>sum\<close>, which nothing reads but the print routines, are left out.
\<close>

section \<open>State\<close>

record 'd node =
  nd_next :: "nat option"
  nd_row :: nat
  nd_col :: nat
  nd_imag :: 'd
  nd_real :: 'd

record 'd store =
  cell :: "nat \<Rightarrow> 'd node"
  brk :: nat

record 'd table =
  tb_rows :: nat
  tb_columns :: nat
  tb_norm :: 'd
  tb_head :: "nat option list"
  tb_tail :: "nat option list"

record 'd libm =
  c_int :: "int \<Rightarrow> 'd"
  c_sqrt :: "'d \<Rightarrow> 'd"
  c_ceil :: "'d \<Rightarrow> 'd"
  c_sin :: "'d \<Rightarrow> 'd"
  c_cos :: "'d \<Rightarrow> 'd"
  c_log :: "'d \<Rightarrow> 'd"
  c_pow :: "'d \<Rightarrow> 'd \<Rightarrow> 'd"
  nonzero :: "'d \<Rightarrow> bool"
  c_rand_max :: int

section \<open>Nodes\<close>

definition malloc_node :: "'d store \<Rightarrow> nat \<times> 'd store" where
  "malloc_node h = (brk h, h\<lparr>brk := Suc (brk h)\<rparr>)"

definition upd_node :: "nat \<Rightarrow> ('d node \<Rightarrow> 'd node) \<Rightarrow> 'd store \<Rightarrow> 'd store" where
  "upd_node a f h = h\<lparr>cell := (cell h)(a := f (cell h a))\<rparr>"

definition node_init :: "nat \<Rightarrow> 'd \<Rightarrow> 'd \<Rightarrow> nat \<Rightarrow> nat \<Rightarrow> 'd store \<Rightarrow> 'd store" where
  "node_init a in_real in_imag in_row in_col = upd_node a (\<lambda>n. n\<lparr>
     nd_row := in_row, nd_col := in_col, nd_real := in_real, nd_imag := in_imag\<rparr>)"

definition node_set :: "nat \<Rightarrow> 'd \<Rightarrow> 'd \<Rightarrow> 'd store \<Rightarrow> 'd store" where
  "node_set a in_real in_imag = upd_node a (\<lambda>n. n\<lparr>nd_real := in_real, nd_imag := in_imag\<rparr>)"

definition node_copy :: "nat \<Rightarrow> nat \<Rightarrow> 'd store \<Rightarrow> 'd store" where
  "node_copy new a h = (let n = cell h a in
     node_init new (nd_real n) (nd_imag n) (nd_row n) (nd_col n) h)"

text \<open>The numbers a node holds, without its link.\<close>

type_synonym 'd entry = "nat \<times> nat \<times> 'd \<times> 'd"

definition entry :: "'d store \<Rightarrow> nat \<Rightarrow> 'd entry" where
  "entry h a = (let n = cell h a in (nd_row n, nd_col n, nd_real n, nd_imag n))"

lemma cell_upd_node [simp]:
  "cell (upd_node a f h) b = (if b = a then f (cell h a) else cell h b)"
  "brk (upd_node a f h) = brk h"
  by (simp_all add: upd_node_def)

lemma node_init_simps [simp]:
  "cell (node_init a re im r c h) b = (if b = a
     then (cell h a)\<lparr>nd_row := r, nd_col := c, nd_real := re, nd_imag := im\<rparr> else cell h b)"
  "brk (node_init a re im r c h) = brk h"
  by (simp_all add: node_init_def)

lemma entry_node_init [simp]:
  "entry (node_init a re im r c h) b = (if b = a then (r, c, re, im) else entry h b)"
  by (simp add: entry_def)

lemma entry_node_copy [simp]:
  "entry (node_copy new a h) b = (if b = new then entry h a else entry h b)"
  by (simp add: node_copy_def entry_def Let_def)

lemma nd_next_node_copy [simp]: "nd_next (cell (node_copy new a h) b) = nd_next (cell h b)"
  and brk_node_copy [simp]: "brk (node_copy new a h) = brk h"
  by (simp_all add: node_copy_def Let_def)

section \<open>Tables\<close>

definition table_init :: "nat \<Rightarrow> nat \<Rightarrow> 'd::zero table" where
  "table_init in_rows in_columns = \<lparr>tb_rows = in_rows, tb_columns = in_columns, tb_norm = 0,
     tb_head = replicate in_columns None, tb_tail = replicate in_columns None\<rparr>"

definition table_append :: "nat \<Rightarrow> 'd table \<times> 'd store \<Rightarrow> ('d table \<times> 'd store) res" where
  "table_append a = (\<lambda>(t, h).
     let h1 = upd_node a (\<lambda>n. n\<lparr>nd_next := None\<rparr>) h; c = nd_col (cell h1 a) in
     if length (tb_tail t) \<le> c \<or> length (tb_head t) \<le> c then Inl IndexFault else
     let h2 = (case tb_tail t ! c of None \<Rightarrow> h1
                | Some p \<Rightarrow> upd_node p (\<lambda>n. n\<lparr>nd_next := Some a\<rparr>) h1);
         t1 = t\<lparr>tb_tail := (tb_tail t)[c := Some a]\<rparr>;
         t2 = (if tb_head t1 ! c = None then t1\<lparr>tb_head := (tb_head t1)[c := Some a]\<rparr> else t1)
     in Inr (t2, h2))"

text \<open>The statements every builder repeats: \<open>malloc\<close>, \<open>node_init\<close>, \<open>table_append\<close>.\<close>

definition append_new :: "'d entry \<Rightarrow> 'd table \<times> 'd store \<Rightarrow> ('d table \<times> 'd store) res" where
  "append_new e = (\<lambda>(t, h). case e of (r, c, re, im) \<Rightarrow>
     let (a, h1) = malloc_node h in table_append a (t, node_init a re im r c h1))"

section \<open>Walking along a list\<close>

text \<open>\<open>while (p != NULL) { body; p = p->next; }\<close> over a state and the store.\<close>

fun each_node :: "nat \<Rightarrow> (nat \<Rightarrow> 's \<times> 'd store \<Rightarrow> ('s \<times> 'd store) res)
    \<Rightarrow> nat option \<Rightarrow> 's \<times> 'd store \<Rightarrow> ('s \<times> 'd store) res" where
  "each_node n f None s = Inr s"
| "each_node 0 f (Some a) s = Inl Diverges"
| "each_node (Suc n) f (Some a) s =
     bind_res (f a s) (\<lambda>s'. each_node n f (nd_next (cell (snd s') a)) s')"

abbreviation along :: "(nat \<Rightarrow> 's \<times> 'd store \<Rightarrow> ('s \<times> 'd store) res)
    \<Rightarrow> nat option \<Rightarrow> 's \<times> 'd store \<Rightarrow> ('s \<times> 'd store) res" where
  "along f p s \<equiv> each_node (brk (snd s)) f p s"

text \<open>Reading \<open>head[i]\<close>: past the array it is an indeterminate pointer.\<close>

definition head_at :: "'d table \<Rightarrow> nat \<Rightarrow> (nat option) res" where
  "head_at t i = (if i < length (tb_head t) then Inr (tb_head t ! i) else Inl IndexFault)"

lemma each_node_chain:
  assumes "chain nx p xs" and "length xs \<le> n" and "I s"
    and step: "\<And>a u u'. a \<in> set xs \<Longrightarrow> I u \<Longrightarrow> f a u = Inr u' \<Longrightarrow> I u'"
    and link: "\<And>a u. a \<in> set xs \<Longrightarrow> I u \<Longrightarrow> nd_next (cell (snd u) a) = nx a"
  shows "each_node n f p s = for_each xs f s"
  using assms
proof (induction xs arbitrary: p n s)
  case Nil
  then show ?case by simp
next
  case (Cons x xs)
  from Cons.prems(2) obtain m where n: "n = Suc m" by (cases n) auto
  from Cons.prems(1) have p: "p = Some x" and ch: "chain nx (nx x) xs" by simp_all
  show ?case
  proof (cases "f x s")
    case (Inl e)
    then show ?thesis by (simp add: n p)
  next
    case (Inr u)
    from Cons.prems(4) [of x s u] Cons.prems(3) Inr have I: "I u" by simp
    have "each_node m f (nx x) u = for_each xs f u"
    proof (rule Cons.IH [OF ch _ I])
      show "length xs \<le> m" using Cons.prems(2) n by simp
      show "I v'" if "a \<in> set xs" "I v" "f a v = Inr v'" for a v v'
        using Cons.prems(4) [of a v v'] that by simp
      show "nd_next (cell (snd v) a) = nx a" if "a \<in> set xs" "I v" for a v
        using Cons.prems(5) [of a v] that by simp
    qed
    with Inr I Cons.prems(5) [of x u] show ?thesis by (simp add: n p)
  qed
qed

section \<open>What a table represents\<close>

text \<open>
  \<open>table_rep h t cs\<close>: column \<open>i\<close> of \<open>t\<close> is the list of the nodes \<open>cs ! i\<close>, its tail
  pointer is the last of them, and no node is in two places. \<open>table_view\<close> reads off the
  numbers.
\<close>

definition col_rep :: "'d store \<Rightarrow> nat option \<Rightarrow> nat option \<Rightarrow> nat list \<Rightarrow> bool" where
  "col_rep h p q xs \<longleftrightarrow> chain (\<lambda>a. nd_next (cell h a)) p xs
     \<and> q = (if xs = [] then None else Some (last xs))"

definition table_rep :: "'d store \<Rightarrow> 'd table \<Rightarrow> nat list list \<Rightarrow> bool" where
  "table_rep h t cs \<longleftrightarrow> length cs = tb_columns t \<and> length (tb_head t) = tb_columns t
     \<and> length (tb_tail t) = tb_columns t
     \<and> (\<forall>i < tb_columns t. col_rep h (tb_head t ! i) (tb_tail t ! i) (cs ! i))
     \<and> distinct (concat cs) \<and> (\<forall>a \<in> set (concat cs). a < brk h)"

definition table_view :: "'d store \<Rightarrow> nat list list \<Rightarrow> 'd entry list list" where
  "table_view h cs = map (map (entry h)) cs"

lemma in_concat_nth: "i < length cs \<Longrightarrow> a \<in> set (cs ! i) \<Longrightarrow> a \<in> set (concat cs)"
  using nth_mem by fastforce

lemma table_rep_bound: "table_rep h t cs \<Longrightarrow> a \<in> set (concat cs) \<Longrightarrow> a < brk h"
  unfolding table_rep_def by blast

lemma table_rep_length: "table_rep h t cs \<Longrightarrow> length cs = tb_columns t"
  by (simp add: table_rep_def)

lemma col_rep_cong:
  "(\<And>a. a \<in> set xs \<Longrightarrow> nd_next (cell h' a) = nd_next (cell h a))
    \<Longrightarrow> col_rep h' p q xs \<longleftrightarrow> col_rep h p q xs"
  using chain_cong [of xs "\<lambda>a. nd_next (cell h' a)" "\<lambda>a. nd_next (cell h a)" p]
  by (simp add: col_rep_def)

text \<open>The frame rule: a table whose links are untouched still represents the same nodes.\<close>

lemma table_rep_frame:
  assumes "table_rep h t cs" and "brk h \<le> brk h'"
    and "\<And>a. a \<in> set (concat cs) \<Longrightarrow> nd_next (cell h' a) = nd_next (cell h a)"
  shows "table_rep h' t cs"
  unfolding table_rep_def
proof (intro conjI allI impI ballI)
  fix i assume i: "i < tb_columns t"
  with assms(1) have "set (cs ! i) \<subseteq> set (concat cs)"
    using in_concat_nth [of i cs] by (auto simp: table_rep_def)
  with assms(3) have "col_rep h' (tb_head t ! i) (tb_tail t ! i) (cs ! i)
      = col_rep h (tb_head t ! i) (tb_tail t ! i) (cs ! i)"
    by (intro col_rep_cong) blast
  with assms(1) i show "col_rep h' (tb_head t ! i) (tb_tail t ! i) (cs ! i)"
    by (simp add: table_rep_def)
next
  show "a < brk h'" if "a \<in> set (concat cs)" for a
  proof -
    from assms(1) that have "a < brk h" unfolding table_rep_def by blast
    with assms(2) show ?thesis by simp
  qed
qed (use assms(1) in \<open>simp_all add: table_rep_def\<close>)

lemma table_view_frame:
  "(\<And>a. a \<in> set (concat cs) \<Longrightarrow> entry h' a = entry h a) \<Longrightarrow> table_view h' cs = table_view h cs"
  by (auto simp: table_view_def)

lemma table_rep_init: "table_rep h (table_init r c) (replicate c [])"
  by (simp add: table_rep_def table_init_def col_rep_def)

text \<open>The nodes of a column are distinct allocated ones, so the fuel of a walk is enough.\<close>

lemma length_alloc: "distinct xs \<Longrightarrow> (\<And>a. a \<in> set xs \<Longrightarrow> a < b) \<Longrightarrow> length xs \<le> (b::nat)"
proof -
  assume "distinct xs" and "\<And>a. a \<in> set xs \<Longrightarrow> a < b"
  then have "set xs \<subseteq> {..<b}" by auto
  then have "card (set xs) \<le> b" using card_mono [of "{..<b}" "set xs"] by simp
  with \<open>distinct xs\<close> show ?thesis by (simp add: distinct_card)
qed

lemma table_rep_column:
  assumes "table_rep h t cs" and "i < tb_columns t"
  shows "chain (\<lambda>a. nd_next (cell h a)) (tb_head t ! i) (cs ! i)"
    and "head_at t i = Inr (tb_head t ! i)"
    and "length (cs ! i) \<le> brk h"
    and "a \<in> set (cs ! i) \<Longrightarrow> a \<in> set (concat cs)"
proof -
  from assms have len: "length cs = tb_columns t" by (simp add: table_rep_def)
  with assms(2) have in_concat: "b \<in> set (cs ! i) \<Longrightarrow> b \<in> set (concat cs)" for b
    using in_concat_nth [of i cs] by simp
  from assms show "chain (\<lambda>a. nd_next (cell h a)) (tb_head t ! i) (cs ! i)"
    and "head_at t i = Inr (tb_head t ! i)"
    by (simp_all add: table_rep_def col_rep_def head_at_def)
  then have "distinct (cs ! i)" by (auto dest: chain_distinct)
  moreover from assms in_concat have "\<And>b. b \<in> set (cs ! i) \<Longrightarrow> b < brk h"
    by (auto simp: table_rep_def)
  ultimately show "length (cs ! i) \<le> brk h" by (rule length_alloc)
  show "a \<in> set (cs ! i) \<Longrightarrow> a \<in> set (concat cs)" by (rule in_concat)
qed

section \<open>Appending\<close>

lemma distinct_concat_nth:
  assumes "distinct (concat cs)" and "i < length cs" and "j < length cs" and "i \<noteq> j"
  shows "set (cs ! i) \<inter> set (cs ! j) = {}"
  using assms
proof (induction cs arbitrary: i j)
  case Nil
  then show ?case by simp
next
  case (Cons c cs)
  have sub: "k < length cs \<Longrightarrow> set (cs ! k) \<subseteq> set (concat cs)" for k
    using in_concat_nth [of k cs] by blast
  show ?case
  proof (cases i)
    case 0
    with Cons.prems obtain k where "j = Suc k" "k < length cs" by (cases j) auto
    with 0 Cons.prems(1) sub [of k] show ?thesis by auto
  next
    case (Suc k)
    then show ?thesis using Cons.prems sub [of k] Cons.IH [of k] by (cases j) auto
  qed
qed

lemma concat_snoc_nth:
  assumes "c < length cs"
  shows "mset (concat (cs[c := cs ! c @ [a]])) = add_mset a (mset (concat cs))"
  using assms
proof (induction cs arbitrary: c)
  case Nil
  then show ?case by simp
next
  case (Cons x xs)
  then show ?case by (cases c) simp_all
qed

lemma set_concat_snoc_nth:
  "c < length cs \<Longrightarrow> set (concat (cs[c := cs ! c @ [a]])) = insert a (set (concat cs))"
  using arg_cong [OF concat_snoc_nth [of c cs a], of set_mset] by simp

lemma distinct_concat_snoc_nth:
  "c < length cs \<Longrightarrow> distinct (concat (cs[c := cs ! c @ [a]]))
    \<longleftrightarrow> a \<notin> set (concat cs) \<and> distinct (concat cs)"
proof -
  assume c: "c < length cs"
  have "distinct (concat (cs[c := cs ! c @ [a]])) \<longleftrightarrow> distinct (a # concat cs)"
    by (rule mset_eq_imp_distinct_iff) (use concat_snoc_nth [OF c, of a] in simp)
  then show ?thesis by simp
qed

lemma table_append_rep:
  assumes rep: "table_rep h t cs" and c: "nd_col (cell h a) = c" "c < tb_columns t"
    and a: "a \<notin> set (concat cs)" "a < brk h"
  obtains t' h' where "table_append a (t, h) = Inr (t', h')"
    and "table_rep h' t' (cs[c := cs ! c @ [a]])"
    and "tb_columns t' = tb_columns t" and "tb_rows t' = tb_rows t" and "tb_norm t' = tb_norm t"
    and "brk h' = brk h" and "\<And>b. entry h' b = entry h b"
    and "\<And>b. b \<notin> set (concat cs) \<Longrightarrow> b \<noteq> a \<Longrightarrow> cell h' b = cell h b"
proof -
  define h1 where "h1 = upd_node a (\<lambda>n. n\<lparr>nd_next := None\<rparr>) h"
  define h2 where "h2 = (case tb_tail t ! c of None \<Rightarrow> h1
                | Some p \<Rightarrow> upd_node p (\<lambda>n. n\<lparr>nd_next := Some a\<rparr>) h1)"
  define t1 where "t1 = t\<lparr>tb_tail := (tb_tail t)[c := Some a]\<rparr>"
  define t2 where "t2 = (if tb_head t1 ! c = None
      then t1\<lparr>tb_head := (tb_head t1)[c := Some a]\<rparr> else t1)"
  from rep have len: "length cs = tb_columns t" "length (tb_head t) = tb_columns t"
      "length (tb_tail t) = tb_columns t"
    and cols: "\<And>i. i < tb_columns t \<Longrightarrow> col_rep h (tb_head t ! i) (tb_tail t ! i) (cs ! i)"
    and dist: "distinct (concat cs)" and bound: "\<And>b. b \<in> set (concat cs) \<Longrightarrow> b < brk h"
    by (auto simp: table_rep_def)
  have run: "table_append a (t, h) = Inr (t2, h2)"
    unfolding t2_def h2_def t1_def h1_def using c len by (simp add: table_append_def Let_def)
  have col_c: "col_rep h (tb_head t ! c) (tb_tail t ! c) (cs ! c)" by (rule cols) (rule c(2))
  have in_c: "set (cs ! c) \<subseteq> set (concat cs)" using c(2) len in_concat_nth [of c cs] by auto
  have tail: "tb_tail t ! c = (if cs ! c = [] then None else Some (last (cs ! c)))"
    using col_c by (simp add: col_rep_def)
  have link: "nd_next (cell h2 b) = (if b = a then None
      else if cs ! c \<noteq> [] \<and> b = last (cs ! c) then Some a else nd_next (cell h b))" for b
  proof -
    have "cs ! c \<noteq> [] \<Longrightarrow> last (cs ! c) \<noteq> a" using a(1) in_c last_in_set by blast
    then show ?thesis by (cases "cs ! c = []") (auto simp: h2_def h1_def tail)
  qed
  have other: "nd_next (cell h2 b) = nd_next (cell h b)"
    if "b \<in> set (cs ! i)" "i < tb_columns t" "i \<noteq> c" for b i
  proof -
    from that len have "b \<in> set (concat cs)" using in_concat_nth [of i cs b] by simp
    with a(1) have "b \<noteq> a" by auto
    moreover from that c(2) len dist have "b \<notin> set (cs ! c)"
      using distinct_concat_nth [of cs i c] by auto
    ultimately show ?thesis by (auto simp: link)
  qed
  have headt2: "tb_head t2 ! i = (if i = c \<and> cs ! c = [] then Some a else tb_head t ! i)"
    if "i < tb_columns t" for i
    using that col_c len by (auto simp: t2_def t1_def col_rep_def nth_upd dest: chain_start)
  have tailt2: "tb_tail t2 ! i = (if i = c then Some a else tb_tail t ! i)"
    if "i < tb_columns t" for i
    using that len by (auto simp: t2_def t1_def nth_upd)
  have new: "col_rep h2 (tb_head t2 ! c) (tb_tail t2 ! c) (cs ! c @ [a])"
  proof (cases "cs ! c = []")
    case True
    then show ?thesis using c(2) by (simp add: col_rep_def headt2 tailt2 link)
  next
    case False
    then obtain xs x where xs: "cs ! c = xs @ [x]" by (meson rev_exhaust)
    from col_c have ch: "chain (\<lambda>a. nd_next (cell h a)) (tb_head t ! c) (cs ! c)"
      by (simp add: col_rep_def)
    then have "x \<notin> set xs" using chain_distinct [OF ch] by (simp add: xs)
    moreover have "a \<notin> set xs" "a \<noteq> x" using a(1) in_c by (auto simp: xs)
    ultimately have "seg (\<lambda>a. nd_next (cell h2 a)) (tb_head t ! c) xs (Some x)"
      using ch seg_cong [of xs "\<lambda>a. nd_next (cell h2 a)" "\<lambda>a. nd_next (cell h a)"]
      by (fastforce simp: chain_def seg_append xs link)
    with \<open>a \<noteq> x\<close> have "seg (\<lambda>a. nd_next (cell h2 a)) (tb_head t ! c) (xs @ [x]) (Some a)"
      by (simp add: seg_snoc link xs)
    then show ?thesis using c(2) \<open>a \<noteq> x\<close>
      by (auto simp: col_rep_def headt2 tailt2 chain_def seg_append xs link)
  qed
  have rep': "table_rep h2 t2 (cs[c := cs ! c @ [a]])"
    unfolding table_rep_def
  proof (intro conjI allI impI)
    fix i assume "i < tb_columns t2"
    then have i: "i < tb_columns t" by (simp add: t2_def t1_def split: if_splits)
    show "col_rep h2 (tb_head t2 ! i) (tb_tail t2 ! i) (cs[c := cs ! c @ [a]] ! i)"
    proof (cases "i = c")
      case True
      with new c(2) len show ?thesis by simp
    next
      case False
      have "col_rep h2 (tb_head t ! i) (tb_tail t ! i) (cs ! i)
          = col_rep h (tb_head t ! i) (tb_tail t ! i) (cs ! i)"
        by (rule col_rep_cong) (rule other [OF _ i False])
      with cols [OF i] False i show ?thesis by (simp add: headt2 tailt2)
    qed
  next
    show "distinct (concat (cs[c := cs ! c @ [a]]))"
      using c(2) len dist a(1) by (simp add: distinct_concat_snoc_nth)
    show "\<forall>b \<in> set (concat (cs[c := cs ! c @ [a]])). b < brk h2"
      using c(2) len bound a(2)
      by (simp only: set_concat_snoc_nth) (auto simp: h2_def h1_def split: option.split)
  qed (use len in \<open>auto simp: t2_def t1_def\<close>)
  show ?thesis
  proof (rule that [OF run rep'])
    show "tb_columns t2 = tb_columns t" "tb_rows t2 = tb_rows t" "tb_norm t2 = tb_norm t"
      by (simp_all add: t2_def t1_def)
    show "brk h2 = brk h" by (simp add: h2_def h1_def split: option.split)
    show "entry h2 b = entry h b" for b
      by (auto simp: h2_def h1_def entry_def Let_def split: option.split)
    show "cell h2 b = cell h b" if "b \<notin> set (concat cs)" "b \<noteq> a" for b
    proof -
      have "tb_tail t ! c = Some b \<Longrightarrow> b \<in> set (cs ! c)" by (auto simp: tail split: if_splits)
      with in_c have "tb_tail t ! c = Some b \<Longrightarrow> b \<in> set (concat cs)" by blast
      with that show ?thesis by (auto simp: h2_def h1_def split: option.split)
    qed
  qed
qed

text \<open>
  A builder's loop: after the entries \<open>es\<close> have been appended, column \<open>i\<close> has grown by
  those of its entries, in order; nothing outside the table has changed.
\<close>

definition grown :: "'d store \<Rightarrow> 'd table \<Rightarrow> nat list list \<Rightarrow> 'd entry list
    \<Rightarrow> 'd table \<times> 'd store \<Rightarrow> bool" where
  "grown h t cs es = (\<lambda>(t', h'). \<exists>cs'. table_rep h' t' cs'
     \<and> tb_columns t' = tb_columns t \<and> tb_rows t' = tb_rows t \<and> tb_norm t' = tb_norm t
     \<and> brk h \<le> brk h' \<and> (\<forall>a < brk h. entry h' a = entry h a)
     \<and> (\<forall>a < brk h. a \<notin> set (concat cs) \<longrightarrow> cell h' a = cell h a)
     \<and> (\<forall>a \<in> set (concat cs'). a < brk h \<longrightarrow> a \<in> set (concat cs))
     \<and> (\<forall>i < tb_columns t. map (entry h') (cs' ! i)
          = map (entry h) (cs ! i) @ filter (\<lambda>e. fst (snd e) = i) es))"

lemma grown_refl: "table_rep h t cs \<Longrightarrow> grown h t cs [] (t, h)"
  unfolding grown_def by auto

lemma append_new_rep:
  assumes rep: "table_rep h t cs" and c: "c < tb_columns t"
  obtains t' h' where "append_new (r, c, re, im) (t, h) = Inr (t', h')"
    and "table_rep h' t' (cs[c := cs ! c @ [brk h]])"
    and "tb_columns t' = tb_columns t" and "tb_rows t' = tb_rows t" and "tb_norm t' = tb_norm t"
    and "brk h' = Suc (brk h)"
    and "\<And>b. entry h' b = (if b = brk h then (r, c, re, im) else entry h b)"
    and "\<And>b. b \<notin> set (concat cs) \<Longrightarrow> b \<noteq> brk h \<Longrightarrow> cell h' b = cell h b"
proof -
  define h1 where "h1 = node_init (brk h) re im r c (h\<lparr>brk := Suc (brk h)\<rparr>)"
  have fresh: "brk h \<notin> set (concat cs)" using rep unfolding table_rep_def by blast
  have "table_rep h1 t cs"
    by (rule table_rep_frame [OF rep]) (use fresh in \<open>auto simp: h1_def\<close>)
  moreover have "nd_col (cell h1 (brk h)) = c" "brk h < brk h1" by (simp_all add: h1_def)
  ultimately obtain t' h' where run: "table_append (brk h) (t, h1) = Inr (t', h')"
    and rep': "table_rep h' t' (cs[c := cs ! c @ [brk h]])"
    and dim: "tb_columns t' = tb_columns t" "tb_rows t' = tb_rows t" "tb_norm t' = tb_norm t"
    and brk': "brk h' = brk h1" and ent: "\<And>b. entry h' b = entry h1 b"
    and frame: "\<And>b. b \<notin> set (concat cs) \<Longrightarrow> b \<noteq> brk h \<Longrightarrow> cell h' b = cell h1 b"
    using table_append_rep [of h1 t cs "brk h" c] c fresh by blast
  have "append_new (r, c, re, im) (t, h) = Inr (t', h')"
    using run by (simp add: append_new_def malloc_node_def h1_def)
  then show ?thesis
  proof (rule that [OF _ rep' dim])
    show "brk h' = Suc (brk h)" using brk' by (simp add: h1_def)
    show "entry h' b = (if b = brk h then (r, c, re, im) else entry h b)" for b
      by (simp add: ent h1_def) (simp add: entry_def)
    show "cell h' b = cell h b" if "b \<notin> set (concat cs)" "b \<noteq> brk h" for b
      using frame [OF that] that by (simp add: h1_def)
  qed
qed

lemma grown_step:
  assumes "grown h t cs es (t', h')" and c: "c < tb_columns t"
    and len: "length cs = tb_columns t" and bound: "\<forall>a \<in> set (concat cs). a < brk h"
  shows "\<exists>s. append_new (r, c, re, im) (t', h') = Inr s \<and> grown h t cs (es @ [(r, c, re, im)]) s"
proof -
  from assms(1) obtain cs' where rep: "table_rep h' t' cs'"
    and dim: "tb_columns t' = tb_columns t" "tb_rows t' = tb_rows t" "tb_norm t' = tb_norm t"
    and le: "brk h \<le> brk h'" and ent: "\<forall>a < brk h. entry h' a = entry h a"
    and out: "\<forall>a < brk h. a \<notin> set (concat cs) \<longrightarrow> cell h' a = cell h a"
    and sub: "\<forall>a \<in> set (concat cs'). a < brk h \<longrightarrow> a \<in> set (concat cs)"
    and cols: "\<forall>i < tb_columns t. map (entry h') (cs' ! i)
          = map (entry h) (cs ! i) @ filter (\<lambda>e. fst (snd e) = i) es"
    unfolding grown_def by blast
  obtain t'' h'' where run: "append_new (r, c, re, im) (t', h') = Inr (t'', h'')"
    and rep': "table_rep h'' t'' (cs'[c := cs' ! c @ [brk h']])"
    and dim': "tb_columns t'' = tb_columns t'" "tb_rows t'' = tb_rows t'" "tb_norm t'' = tb_norm t'"
    and brk': "brk h'' = Suc (brk h')"
    and ent': "\<And>b. entry h'' b = (if b = brk h' then (r, c, re, im) else entry h' b)"
    and out': "\<And>b. b \<notin> set (concat cs') \<Longrightarrow> b \<noteq> brk h' \<Longrightarrow> cell h'' b = cell h' b"
    using append_new_rep [OF rep, of c r re im] c dim by metis
  have len': "length cs' = tb_columns t" using rep dim by (simp add: table_rep_def)
  have nodes: "set (concat (cs'[c := cs' ! c @ [brk h']])) = insert (brk h') (set (concat cs'))"
    using c len' by (simp only: set_concat_snoc_nth)
  have old: "b < brk h'" if "b \<in> set (cs' ! i)" "i < tb_columns t" for b i
    using table_rep_bound [OF rep, of b] in_concat_nth [of i cs' b] that len' by simp
  have "map (entry h'') (cs'[c := cs' ! c @ [brk h']] ! i)
      = map (entry h) (cs ! i) @ filter (\<lambda>e. fst (snd e) = i) (es @ [(r, c, re, im)])"
    if i: "i < tb_columns t" for i
  proof -
    have "map (entry h'') (cs' ! i) = map (entry h') (cs' ! i)"
      using old [OF _ i] by (auto simp: ent')
    then show ?thesis using cols i c len' by (auto simp: nth_list_update ent')
  qed
  moreover have "cell h'' a = cell h a" if "a < brk h" "a \<notin> set (concat cs)" for a
    using out' [of a] out sub that le by fastforce
  moreover have "entry h'' a = entry h a" if "a < brk h" for a
    using ent' [of a] ent that le by simp
  moreover have "a \<in> set (concat cs)"
    if "a \<in> set (concat (cs'[c := cs' ! c @ [brk h']]))" "a < brk h" for a
    using that sub le unfolding nodes by auto
  ultimately have "grown h t cs (es @ [(r, c, re, im)]) (t'', h'')"
    unfolding grown_def using rep' dim dim' le brk'
    by (intro case_prodI exI [of _ "cs'[c := cs' ! c @ [brk h']]"]) auto
  with run show ?thesis by blast
qed

text \<open>
  The rule for a builder's loop: if in every state reached so far the body for \<open>x\<close> appends
  the entry \<open>e x\<close>, the loop appends them all.
\<close>

lemma build_loop:
  assumes rep: "table_rep h t cs"
    and body: "\<And>x u. x \<in> set xs \<Longrightarrow> (\<exists>ys. grown h t cs ys u) \<Longrightarrow> F x u = append_new (e x) u"
    and col: "\<And>x. x \<in> set xs \<Longrightarrow> fst (snd (e x)) < tb_columns t"
  shows "\<exists>s. for_each xs F (t, h) = Inr s \<and> grown h t cs (map e xs) s"
proof (rule for_each_prefix)
  show "grown h t cs (map e []) (t, h)" using grown_refl [OF rep] by simp
next
  fix ys x zs u assume xs: "xs = ys @ x # zs" and g: "grown h t cs (map e ys) u"
  obtain t' h' where u: "u = (t', h')" by (cases u)
  obtain r c re im where e: "e x = (r, c, re, im)" by (cases "e x")
  from col [of x] xs e have "c < tb_columns t" by simp
  moreover have "length cs = tb_columns t" "\<forall>a \<in> set (concat cs). a < brk h"
    using rep by (simp_all add: table_rep_def)
  ultimately obtain s where "append_new (e x) u = Inr s" and "grown h t cs (map e ys @ [e x]) s"
    using grown_step [OF g [unfolded u], of c r re im] u e by auto
  moreover have "F x u = append_new (e x) u" using body [of x u] g xs by auto
  ultimately show "\<exists>u'. F x u = Inr u' \<and> grown h t cs (map e (ys @ [x])) u'" by simp
qed

section \<open>Tables as matrices\<close>

text \<open>
  \<open>grid R C f\<close>: every column has the rows 0 to R - 1 in order, and position (i, j) holds
  \<open>f i j\<close>. \<open>is_matrix\<close> is a table of its own dimensions that represents \<open>f\<close>.
\<close>

definition grid :: "nat \<Rightarrow> nat \<Rightarrow> (nat \<Rightarrow> nat \<Rightarrow> 'd \<times> 'd) \<Rightarrow> 'd entry list list" where
  "grid R C f = map (\<lambda>j. map (\<lambda>i. (i, j, f i j)) [0..<R]) [0..<C]"

definition is_matrix :: "'d store \<Rightarrow> 'd table \<Rightarrow> nat list list \<Rightarrow> (nat \<Rightarrow> nat \<Rightarrow> 'd \<times> 'd) \<Rightarrow> bool" where
  "is_matrix h t cs f \<longleftrightarrow> table_rep h t cs \<and> table_view h cs = grid (tb_rows t) (tb_columns t) f"

lemma filter_upt_eq: "filter (\<lambda>j. j = k) [0..<n] = (if k < n then [k] else [])"
  by (induction n) auto

lemma filter_concat_keyed:
  assumes "\<And>j e. e \<in> set (g j) \<Longrightarrow> fst (snd e) = j"
  shows "filter (\<lambda>e. fst (snd e) = k) (concat (map g [0..<n])) = (if k < n then g k else [])"
proof (induction n)
  case 0
  then show ?case by simp
next
  case (Suc n)
  have "filter (\<lambda>e. fst (snd e) = k) (g n) = (if k = n then g n else [])"
  proof (cases "k = n")
    case True
    then show ?thesis using assms [of _ n] by (auto intro: filter_True)
  next
    case False
    then show ?thesis using assms [of _ n] by (auto intro: filter_False)
  qed
  with Suc show ?case by auto
qed

lemma filter_by_columns:
  "k < C \<Longrightarrow> filter (\<lambda>e. fst (snd e) = k) (concat (map (\<lambda>j. map (\<lambda>i. (i, j, f i j)) [0..<R]) [0..<C]))
    = map (\<lambda>i. (i, k, f i k)) [0..<R]"
  by (subst filter_concat_keyed) auto

lemma filter_by_rows:
  "k < C \<Longrightarrow> filter (\<lambda>e. fst (snd e) = k) (concat (map (\<lambda>i. map (\<lambda>j. (i, j, f i j)) [0..<C]) [0..<R]))
    = map (\<lambda>i. (i, k, f i k)) [0..<R]"
proof (induction R)
  case 0
  then show ?case by simp
next
  case (Suc R)
  have "filter (\<lambda>e. fst (snd e) = k) (map (\<lambda>j. (R, j, f R j)) [0..<C])
      = map (\<lambda>j. (R, j, f R j)) (filter (\<lambda>j. j = k) [0..<C])"
    by (simp add: filter_map comp_def)
  with Suc show ?case by (simp add: filter_upt_eq)
qed

text \<open>A fresh table that has grown by the entries of a matrix represents it.\<close>

lemma grown_matrix:
  assumes "grown h (table_init R C) (replicate C []) es (t', h')"
    and "\<And>k. k < C \<Longrightarrow> filter (\<lambda>e. fst (snd e) = k) es = map (\<lambda>i. (i, k, f i k)) [0..<R]"
  obtains cs' where "is_matrix h' t' cs' f" and "tb_rows t' = R" and "tb_columns t' = C"
    and "\<forall>a < brk h. cell h' a = cell h a" and "\<forall>a \<in> set (concat cs'). brk h \<le> a"
    and "brk h \<le> brk h'" and "tb_norm t' = 0"
proof -
  from assms(1) obtain cs' where rep: "table_rep h' t' cs'"
    and dim: "tb_columns t' = C" "tb_rows t' = R" "tb_norm t' = 0" and le: "brk h \<le> brk h'"
    and out: "\<forall>a < brk h. a \<notin> set (concat (replicate C [])) \<longrightarrow> cell h' a = cell h a"
    and sub: "\<forall>a \<in> set (concat cs'). a < brk h \<longrightarrow> a \<in> set (concat (replicate C []))"
    and cols: "\<forall>i < C. map (entry h') (cs' ! i)
          = map (entry h) (replicate C [] ! i) @ filter (\<lambda>e. fst (snd e) = i) es"
    unfolding grown_def table_init_def by auto
  have none: "set (concat (replicate C [])) = {}" by auto
  have "length cs' = C" using rep dim by (simp add: table_rep_def)
  have "table_view h' cs' = grid R C f"
  proof (rule nth_equalityI)
    fix k assume "k < length (table_view h' cs')"
    with \<open>length cs' = C\<close> have k: "k < C" by (simp add: table_view_def)
    with \<open>length cs' = C\<close> have "table_view h' cs' ! k = map (entry h') (cs' ! k)"
      by (simp add: table_view_def)
    also from cols k have "\<dots> = filter (\<lambda>e. fst (snd e) = k) es" by simp
    also have "\<dots> = map (\<lambda>i. (i, k, f i k)) [0..<R]" by (rule assms(2) [OF k])
    also from k have "\<dots> = grid R C f ! k" by (simp add: grid_def)
    finally show "table_view h' cs' ! k = grid R C f ! k" .
  qed (simp add: table_view_def grid_def \<open>length cs' = C\<close>)
  then have "is_matrix h' t' cs' f" using rep dim by (simp add: is_matrix_def)
  then show ?thesis
  proof (rule that [OF _ dim(2,1) _ _ le dim(3)])
    show "\<forall>a < brk h. cell h' a = cell h a" using out unfolding none by simp
    show "\<forall>a \<in> set (concat cs'). brk h \<le> a" using sub unfolding none by (simp add: linorder_not_less [symmetric])
  qed
qed

lemma is_matrix_frame:
  assumes "is_matrix h t cs f" and "\<forall>a < brk h. cell h' a = cell h a" and "brk h \<le> brk h'"
  shows "is_matrix h' t cs f"
proof -
  from assms(1) have bound: "\<And>a. a \<in> set (concat cs) \<Longrightarrow> a < brk h"
    unfolding is_matrix_def table_rep_def by blast
  have "table_rep h' t cs"
    by (rule table_rep_frame [of h]) (use assms bound in \<open>auto simp: is_matrix_def\<close>)
  moreover have "table_view h' cs = table_view h cs"
    by (rule table_view_frame) (use assms bound in \<open>auto simp: entry_def\<close>)
  ultimately show ?thesis using assms(1) by (simp add: is_matrix_def)
qed

lemma matrix_entry:
  assumes "is_matrix h t cs f" and "j < tb_columns t"
  shows "map (entry h) (cs ! j) = map (\<lambda>i. (i, j, f i j)) [0..<tb_rows t]"
    and "length (cs ! j) = tb_rows t"
    and "i < tb_rows t \<Longrightarrow> entry h (cs ! j ! i) = (i, j, f i j)"
proof -
  from assms have len: "length cs = tb_columns t" and v: "table_view h cs = grid (tb_rows t) (tb_columns t) f"
    by (simp_all add: is_matrix_def table_rep_def)
  show m: "map (entry h) (cs ! j) = map (\<lambda>i. (i, j, f i j)) [0..<tb_rows t]"
    using arg_cong [OF v, of "\<lambda>v. v ! j"] assms(2) len by (simp add: table_view_def grid_def)
  show l: "length (cs ! j) = tb_rows t" using arg_cong [OF m, of length] by simp
  show "entry h (cs ! j ! i) = (i, j, f i j)" if "i < tb_rows t"
    using arg_cong [OF m, of "\<lambda>v. v ! i"] that l by simp
qed

end
