(* ===== verification/SefdmOps.thy ===== *)
theory SefdmOps
  imports SefdmTable
begin

text \<open>
  sefdm/algorythms/test.list.161.c, the signal chain and the matrix routines: every routine
  between \<open>divide_array_by_double\<close> and \<open>swap\<close>, in the order of the file.

  \<open>#define\<close>s are kept as constants. Decimal literals are quotients of integers converted
  by \<open>c_int\<close> (a correctly rounded quotient is the literal). \<open>rand\<close> is a parameter: the
  sequence of the numbers it returns, with the number of calls made so far passed along
  where a routine makes more than one.
\<close>

abbreviation (input) dec :: "('d::divide) libm \<Rightarrow> int \<Rightarrow> int \<Rightarrow> 'd" where
  "dec F n d \<equiv> c_int F n div c_int F d"

definition NUM_CARRIERS :: nat where "NUM_CARRIERS = 4"
definition MODULATION_LEVEL :: nat where "MODULATION_LEVEL = 8"
definition NUM_BLOCKS :: nat where "NUM_BLOCKS = 10"
definition OVERSAMPLING :: nat where "OVERSAMPLING = 2"
definition Eb :: int where "Eb = 2"
definition ALPHA :: int where "ALPHA = 1"

definition PI :: "('d::divide) libm \<Rightarrow> 'd" where
  "PI F = dec F 314159265 100000000"

section \<open>Element-wise routines\<close>

definition divide_array_by_double ::
    "('d::{times,divide}) libm \<Rightarrow> nat list \<Rightarrow> nat \<Rightarrow> 'd \<Rightarrow> 'd store \<Rightarrow> 'd store res" where
  "divide_array_by_double F myarray len denominator =
     for_each [0..<len] (\<lambda>i h.
       if length myarray \<le> i then Inl IndexFault else
       let a = myarray ! i; n = cell h a;
           re = c_ceil F (nd_real n div denominator * c_int F 1000000) div c_int F 1000000;
           im = c_ceil F (nd_imag n div denominator * c_int F 1000000) div c_int F 1000000
       in Inr (upd_node a (\<lambda>n. n\<lparr>nd_real := re, nd_imag := im\<rparr>) h))"

fun sub_column :: "nat \<Rightarrow> nat option \<Rightarrow> nat option \<Rightarrow> nat option
    \<Rightarrow> ('d::minus) store \<Rightarrow> 'd store res" where
  "sub_column n None bnode cnode h = Inr h"
| "sub_column n (Some a) None cnode h = Inr h"
| "sub_column n (Some a) (Some b) None h = Inl NullDeref"
| "sub_column 0 (Some a) (Some b) (Some c) h = Inl Diverges"
| "sub_column (Suc n) (Some a) (Some b) (Some c) h =
     (let x = cell h a; y = cell h b;
          h' = upd_node c (\<lambda>n. n\<lparr>nd_real := nd_real x - nd_real y\<rparr>) h;
          h' = upd_node c (\<lambda>n. n\<lparr>nd_imag := nd_imag (cell h' a) - nd_imag (cell h' b)\<rparr>) h';
          h' = upd_node c (\<lambda>n. n\<lparr>nd_row := nd_row (cell h' a)\<rparr>) h';
          h' = upd_node c (\<lambda>n. n\<lparr>nd_col := nd_col (cell h' a)\<rparr>) h'
      in sub_column n (nd_next (cell h' a)) (nd_next (cell h' b)) (nd_next (cell h' c)) h')"

definition table_sub :: "'d table \<Rightarrow> 'd table \<Rightarrow> 'd table \<Rightarrow> ('d::minus) store \<Rightarrow> 'd store res" where
  "table_sub C A B = for_each [0..<tb_columns C] (\<lambda>i h.
     bind_res (head_at A i) (\<lambda>a. bind_res (head_at B i) (\<lambda>b. bind_res (head_at C i) (\<lambda>c.
       sub_column (brk h) a b c h))))"

fun mult_column :: "nat \<Rightarrow> nat option \<Rightarrow> nat option \<Rightarrow> nat option
    \<Rightarrow> ('d::{plus,minus,times}) store \<Rightarrow> 'd store res" where
  "mult_column n anode None cnode h = Inr h"
| "mult_column n anode (Some b) None h = Inr h"
| "mult_column n None (Some b) (Some c) h = Inl NullDeref"
| "mult_column 0 (Some a) (Some b) (Some c) h = Inl Diverges"
| "mult_column (Suc n) (Some a) (Some b) (Some c) h =
     (let x = cell h a; y = cell h b;
          h1 = upd_node c (\<lambda>n. n\<lparr>nd_real :=
                 nd_real n + (nd_real x * nd_real y - nd_imag x * nd_imag y)\<rparr>) h;
          x = cell h1 a; y = cell h1 b;
          h2 = upd_node c (\<lambda>n. n\<lparr>nd_imag :=
                 nd_imag n + (nd_real x * nd_imag y + nd_imag x * nd_real y)\<rparr>) h1
      in mult_column n (nd_next (cell h2 a)) (nd_next (cell h2 b)) (nd_next (cell h2 c)) h2)"

definition table_mult :: "'d table \<Rightarrow> 'd table \<Rightarrow> 'd table
    \<Rightarrow> ('d::{plus,minus,times}) store \<Rightarrow> 'd store res" where
  "table_mult C A B = for_each [0..<tb_columns A] (\<lambda>k. for_each [0..<tb_columns B] (\<lambda>j h.
     bind_res (head_at A k) (\<lambda>a. bind_res (head_at B j) (\<lambda>b. bind_res (head_at C j) (\<lambda>c.
       mult_column (brk h) a b c h)))))"

section \<open>Building the signal\<close>

definition random_X :: "(nat \<Rightarrow> nat) \<Rightarrow> nat \<Rightarrow> u32 list" where
  "random_X rand sz = map (\<lambda>i. of_nat (rand i) mod of_nat MODULATION_LEVEL) [0..<sz]"

definition qam_point :: "('d::{times,divide,uminus,one}) libm \<Rightarrow> 'd \<Rightarrow> u32 \<Rightarrow> 'd \<times> 'd" where
  "qam_point F pi b =
     (let re = (if b AND push_bit 0 1 \<noteq> 0 then c_sin F (dec F 205 1000 * pi) * (- 1)
                else c_sin F (dec F 205 1000 * pi));
          a = (if b AND push_bit 1 1 \<noteq> 0 then dec F 333333 1000000 else c_int F 1);
          im = (if b AND push_bit 2 1 \<noteq> 0 then c_cos F (dec F 205 1000 * pi) * a
                else c_cos F (dec F 205 1000 * pi) * (- 1) * a)
      in (re, im))"

definition create_IP_BLOCKS :: "('d::{times,divide,uminus,one}) libm \<Rightarrow> u32 list \<Rightarrow> 'd
    \<Rightarrow> 'd table \<times> 'd store \<Rightarrow> ('d table \<times> 'd store) res" where
  "create_IP_BLOCKS F X pi = for_each [0..<NUM_BLOCKS] (\<lambda>i. for_each [0..<NUM_CARRIERS] (\<lambda>j s.
     let k = i * NUM_CARRIERS + j in
     if length X \<le> k then Inl IndexFault else
     let (re, im) = qam_point F pi (X ! k) in append_new (j, i, re, im) s))"

text \<open>\<open>i - 1\<close> is computed on \<open>unsigned int\<close>: it wraps for the first carrier.\<close>

definition carrier_point :: "('d::{times,divide}) libm \<Rightarrow> nat \<Rightarrow> nat \<Rightarrow> nat \<Rightarrow> 'd \<times> 'd" where
  "carrier_point F rows j i =
     (let phase = c_int F 2 * PI F * c_int F ALPHA * c_int F (uint (of_nat i - 1 :: u32))
                  * c_int F (int j) div c_int F (int rows)
      in (c_sin F phase div c_sqrt F (c_int F (int rows)),
          c_cos F phase div c_sqrt F (c_int F (int rows))))"

definition create_CARRIERS :: "('d::{times,divide}) libm
    \<Rightarrow> 'd table \<times> 'd store \<Rightarrow> ('d table \<times> 'd store) res" where
  "create_CARRIERS F s0 = (let cols = tb_columns (fst s0); rows = tb_rows (fst s0) in
     for_each [0..<cols] (\<lambda>i. for_each [0..<rows] (\<lambda>j s.
       let (re, im) = carrier_point F rows j i in append_new (j, i, re, im) s)) s0)"

definition TRANSPOSE :: "'d table \<Rightarrow> 'd table \<times> 'd store \<Rightarrow> ('d table \<times> 'd store) res" where
  "TRANSPOSE mytable = for_each [0..<tb_columns mytable] (\<lambda>i s.
     bind_res (head_at mytable i) (\<lambda>p. along (\<lambda>a s.
       let n = cell (snd s) a in append_new (nd_col n, nd_row n, nd_real n, nd_imag n) s) p s))"

fun inner_product :: "nat \<Rightarrow> nat option \<Rightarrow> nat option
    \<Rightarrow> ('d::{plus,minus,times}) store \<Rightarrow> 'd \<times> 'd \<Rightarrow> ('d \<times> 'd) res" where
  "inner_product n None ynode h s = Inr s"
| "inner_product n (Some x) None h s = Inr s"
| "inner_product 0 (Some x) (Some y) h s = Inl Diverges"
| "inner_product (Suc n) (Some x) (Some y) h (real_sum, imag_sum) =
     (let a = cell h x; b = cell h y in
      inner_product n (nd_next a) (nd_next b) h
        (real_sum + (nd_real a * nd_real b + nd_imag a * nd_imag b),
         imag_sum + (nd_real a * nd_imag b - nd_real b * nd_imag a)))"

definition correlate :: "'d table \<Rightarrow> 'd table \<times> ('d::{plus,minus,times,zero}) store
    \<Rightarrow> ('d table \<times> 'd store) res" where
  "correlate mycarrier =
     for_each [0..<tb_columns mycarrier] (\<lambda>j. for_each [0..<tb_columns mycarrier] (\<lambda>i s.
       bind_res (head_at mycarrier j) (\<lambda>x. bind_res (head_at mycarrier i) (\<lambda>y.
         bind_res (inner_product (brk (snd s)) x y (snd s) (0, 0)) (\<lambda>(re, im).
           append_new (i, j, re, im) s)))))"

text \<open>
  \<open>Anode[j]=Anode[j++]->next\<close> reads and changes \<open>j\<close> without a sequence point, so C does not
  say which slot is written. The slot the compiler chose is the parameter \<open>slot\<close> (\<open>j\<close> or
  \<open>j + 1\<close>); \<open>j\<close> itself is incremented either way.
\<close>

fun modulate_row :: "(nat \<Rightarrow> nat) \<Rightarrow> nat \<Rightarrow> nat option \<Rightarrow> ('d::{plus,times}) store
    \<Rightarrow> nat \<Rightarrow> nat option list \<Rightarrow> 'd \<times> 'd \<Rightarrow> ('d \<times> 'd \<times> nat option list) res" where
  "modulate_row slot n None h j Anode (re, im) = Inr (re, im, Anode)"
| "modulate_row slot 0 (Some x) h j Anode s = Inl Diverges"
| "modulate_row slot (Suc n) (Some x) h j Anode (re, im) =
     (if length Anode \<le> j \<or> length Anode \<le> slot j then Inl IndexFault else
      bind_res (deref (Anode ! j)) (\<lambda>a.
        let c = cell h a; y = cell h x in
        modulate_row slot n (nd_next y) h (Suc j) (Anode[slot j := nd_next c])
          (re + (nd_real c * nd_real y + nd_imag c * nd_imag y),
           im + (nd_real c * nd_imag y + nd_imag c * nd_real y))))"

definition modulate :: "(nat \<Rightarrow> nat) \<Rightarrow> ('d::{plus,times,zero}) libm \<Rightarrow> 'd table \<Rightarrow> 'd table
    \<Rightarrow> 'd table \<times> 'd store \<Rightarrow> ('d table \<times> 'd store) res" where
  "modulate slot F mycarriers myip_sig s0 = bind_res
     (for_each [0..<tb_columns myip_sig] (\<lambda>k s.
        if length (tb_head mycarriers) < tb_columns mycarriers then Inl IndexFault else
        bind_res (for_each [0..<tb_rows mycarriers] (\<lambda>i (Anode, t, h).
            bind_res (head_at myip_sig k) (\<lambda>x.
            bind_res (modulate_row slot (brk h) x h 0 Anode (0, 0)) (\<lambda>(re, im, Anode').
              let t' = t\<lparr>tb_norm := tb_norm t + (re * re + im * im)\<rparr> in
              bind_res (append_new (i, k, re, im) (t', h)) (\<lambda>(t'', h'). Inr (Anode', t'', h')))))
          (take (tb_columns mycarriers) (tb_head mycarriers), s))
        (\<lambda>(Anode, s'). Inr s')) s0)
     (\<lambda>(t, h). Inr (t\<lparr>tb_norm := c_sqrt F (tb_norm t)\<rparr>, h))"

definition sigma :: "('d::{plus,times,divide,zero}) libm \<Rightarrow> 'd table \<Rightarrow> 'd store \<Rightarrow> 'd res" where
  "sigma F mymodi h = bind_res
     (for_each [0..<tb_columns mymodi] (\<lambda>i s. bind_res (head_at mymodi i) (\<lambda>p.
        along (\<lambda>a (acc, h). let n = cell h a in
          Inr (acc + c_int F (int OVERSAMPLING) * (nd_real n * nd_real n + nd_imag n * nd_imag n), h))
          p s)) (0, h))
     (\<lambda>(mysigma, h). Inr (c_sqrt F ((mysigma div
        (c_pow F (c_int F 10) (c_int F (Eb div 10)) * c_log F (c_int F (int MODULATION_LEVEL))
         * c_int F (int NUM_BLOCKS) * c_int F (int NUM_CARRIERS))) div c_int F 2)))"

definition noise_point :: "('d::{minus,times,divide}) libm \<Rightarrow> 'd \<Rightarrow> nat \<Rightarrow> 'd" where
  "noise_point F sig r =
     c_int F 2 * sig * c_int F (int r) div c_int F (c_rand_max F) - c_int F 1"

definition create_noise :: "('d::{minus,times,divide}) libm \<Rightarrow> (nat \<Rightarrow> nat) \<Rightarrow> 'd
    \<Rightarrow> nat \<times> 'd table \<times> 'd store \<Rightarrow> (nat \<times> 'd table \<times> 'd store) res" where
  "create_noise F rand sig s0 =
     (let cols = tb_columns (fst (snd s0)); rows = tb_rows (fst (snd s0)) in
      for_each [0..<cols] (\<lambda>i. for_each [0..<rows] (\<lambda>k (calls, s).
        bind_res (append_new (k, i, noise_point F sig (rand calls),
                              noise_point F sig (rand (Suc calls))) s)
          (\<lambda>s'. Inr (calls + 2, s')))) s0)"

fun add_column :: "nat \<Rightarrow> nat \<Rightarrow> nat option \<Rightarrow> nat option
    \<Rightarrow> 'd table \<times> ('d::plus) store \<Rightarrow> ('d table \<times> 'd store) res" where
  "add_column n col a None s = Inr s"
| "add_column n col None (Some b) s = Inr s"
| "add_column 0 col (Some a) (Some b) s = Inl Diverges"
| "add_column (Suc n) col (Some a) (Some b) s =
     (let x = cell (snd s) a; y = cell (snd s) b in
      bind_res (append_new (nd_row x, col, nd_real x + nd_real y, nd_imag x + nd_imag y) s)
        (\<lambda>s'. add_column n col (nd_next (cell (snd s') a)) (nd_next (cell (snd s') b)) s'))"

definition addition :: "'d table \<Rightarrow> 'd table \<Rightarrow> 'd table \<times> ('d::plus) store
    \<Rightarrow> ('d table \<times> 'd store) res" where
  "addition A B = for_each [0..<OVERSAMPLING] (\<lambda>i. for_each [0..<tb_columns B] (\<lambda>j s.
     bind_res (head_at A (j + i * OVERSAMPLING)) (\<lambda>a. bind_res (head_at B j) (\<lambda>b.
       add_column (brk (snd s)) (i + j * OVERSAMPLING) a b s))))"

definition identity_init :: "'d table \<times> ('d::{zero,one}) store \<Rightarrow> ('d table \<times> 'd store) res" where
  "identity_init s0 = (let cols = tb_columns (fst s0); rows = tb_rows (fst s0) in
     for_each [0..<cols] (\<lambda>j. for_each [0..<rows] (\<lambda>i s.
       append_new (i, j, (if i = j then 1 else 0), 0) s)) s0)"

definition zero_init :: "'d table \<times> ('d::zero) store \<Rightarrow> ('d table \<times> 'd store) res" where
  "zero_init s0 = (let cols = tb_columns (fst s0); rows = tb_rows (fst s0) in
     for_each [0..<cols] (\<lambda>j. for_each [0..<rows] (\<lambda>i s. append_new (i, j, 0, 0) s)) s0)"

definition mag :: "('d::{plus,times}) libm \<Rightarrow> nat \<Rightarrow> 'd store \<Rightarrow> 'd" where
  "mag F a h = (let x = nd_real (cell h a); y = nd_imag (cell h a) in c_sqrt F (x * x + y * y))"

text \<open>\<open>den\<close> is computed and never used.\<close>

definition divide_node :: "nat \<Rightarrow> nat \<Rightarrow> ('d::{minus,times}) store \<Rightarrow> nat \<times> 'd store" where
  "divide_node num den h = (let (a, h1) = malloc_node h; x = cell h1 num; y = cell h1 den in
     (a, node_init a (nd_real x * nd_real y - nd_imag x * nd_imag y)
           (nd_imag x * nd_real y - nd_real x * nd_imag y) (nd_row x) (nd_col x) h1))"

section \<open>Rows and columns\<close>

fun find_row :: "nat \<Rightarrow> nat \<Rightarrow> nat option \<Rightarrow> 'd store \<Rightarrow> (nat option) res" where
  "find_row n row None h = Inr None"
| "find_row 0 row (Some a) h = Inl Diverges"
| "find_row (Suc n) row (Some a) h = (if nd_row (cell h a) = row then Inr (Some a)
     else find_row n row (nd_next (cell h a)) h)"

definition copy_row_from_table :: "nat list \<Rightarrow> 'd table \<Rightarrow> nat \<Rightarrow> 'd store \<Rightarrow> 'd store res" where
  "copy_row_from_table array mytable row = for_each [0..<tb_columns mytable] (\<lambda>i h.
     bind_res (head_at mytable i) (\<lambda>p. bind_res (find_row (brk h) row p h) (\<lambda>q.
       case q of None \<Rightarrow> Inr h
       | Some a \<Rightarrow> if length array \<le> i then Inl IndexFault else Inr (node_copy (array ! i) a h))))"

definition copy_row_to_table :: "'d table \<Rightarrow> nat list \<Rightarrow> nat \<Rightarrow> 'd store \<Rightarrow> 'd store res" where
  "copy_row_to_table mytable array row = for_each [0..<tb_columns mytable] (\<lambda>i h.
     bind_res (head_at mytable i) (\<lambda>p. bind_res (find_row (brk h) row p h) (\<lambda>q.
       case q of None \<Rightarrow> Inr h
       | Some a \<Rightarrow> if length array \<le> i then Inl IndexFault else
           let nx = nd_next (cell h a); h' = upd_node a (\<lambda>_. cell h (array ! i)) h
           in Inr (upd_node a (\<lambda>n. n\<lparr>nd_next := nx\<rparr>) h'))))"

definition mult_array_by_node :: "nat list \<Rightarrow> nat \<Rightarrow> nat \<Rightarrow> ('d::{plus,minus,times}) store
    \<Rightarrow> 'd store res" where
  "mult_array_by_node row node len = for_each [0..<len] (\<lambda>i h.
     if length row \<le> i then Inl IndexFault else
     let x = cell h (row ! i); y = cell h node;
         re = nd_real x * nd_real y - nd_imag x * nd_imag y;
         im = nd_real x * nd_imag y + nd_imag x * nd_real y
     in Inr (upd_node (row ! i) (\<lambda>n. n\<lparr>nd_real := re, nd_imag := im\<rparr>) h))"

text \<open>The array is \<open>malloc\<close>ed: a slot no node has filled is an indeterminate pointer.\<close>

definition get_column_from_table :: "'d table \<Rightarrow> nat \<Rightarrow> 'd store \<Rightarrow> (nat option list) res" where
  "get_column_from_table mytable column h = bind_res (head_at mytable column) (\<lambda>p. bind_res
     (along (\<lambda>a (cnodes, h). let r = nd_row (cell h a) in
        if length cnodes \<le> r then Inl IndexFault else Inr (cnodes[r := Some a], h))
        p (replicate (tb_rows mytable) None, h))
     (\<lambda>(cnodes, h). Inr cnodes))"

definition switch_b :: "nat \<Rightarrow> nat \<Rightarrow> 'd store \<Rightarrow> int" where
  "switch_b a b h = (if nd_row (cell h a) = nd_row (cell h b) then 0
     else if nd_row (cell h b) < nd_row (cell h a) then 1 else - 1)"

section \<open>swap\<close>

text \<open>
  \<open>jnode\<close>, \<open>jprevnode\<close>, \<open>rnode\<close>, \<open>rprevnode\<close> are not initialised, and keep what an
  earlier column left in them; using one before it was set is \<open>BadPointer\<close>.
\<close>

record swap_vars =
  jnode :: "nat option"
  jprevnode :: "nat option"
  rnode :: "nat option"
  rprevnode :: "nat option"

fun swap_scan :: "nat \<Rightarrow> nat \<Rightarrow> nat \<Rightarrow> nat \<Rightarrow> nat option \<Rightarrow> 'd store \<Rightarrow> swap_vars \<Rightarrow> swap_vars res" where
  "swap_scan n r j prevnode None h v = Inr v"
| "swap_scan 0 r j prevnode (Some a) h v = Inl Diverges"
| "swap_scan (Suc n) r j prevnode (Some a) h v =
     (let v1 = (if nd_row (cell h a) = j then v\<lparr>jnode := Some a, jprevnode := Some prevnode\<rparr> else v);
          v2 = (if nd_row (cell h a) = r then v1\<lparr>rnode := Some a, rprevnode := Some prevnode\<rparr> else v1)
      in swap_scan n r j a (nd_next (cell h a)) h v2)"

definition set_var :: "nat option \<Rightarrow> nat res" where
  "set_var p = (case p of None \<Rightarrow> Inl BadPointer | Some a \<Rightarrow> Inr a)"

definition swap_column :: "nat \<Rightarrow> nat \<Rightarrow> nat
    \<Rightarrow> swap_vars \<times> 'd table \<times> 'd store \<Rightarrow> (swap_vars \<times> 'd table \<times> 'd store) res" where
  "swap_column r j i = (\<lambda>(v, t, h).
     bind_res (head_at t i) (\<lambda>p.
     bind_res (case p of None \<Rightarrow> Inr v | Some a \<Rightarrow> swap_scan (brk h) r j a (Some a) h v) (\<lambda>v.
     bind_res (set_var (jnode v)) (\<lambda>jn. bind_res (set_var (jprevnode v)) (\<lambda>jp.
     bind_res (set_var (rnode v)) (\<lambda>rn. bind_res (set_var (rprevnode v)) (\<lambda>rp.
       if length (tb_tail t) \<le> j \<or> length (tb_tail t) \<le> r then Inl IndexFault else
       let t' = (if tb_tail t ! j = Some jn \<or> tb_tail t ! r = Some rn
                 then t\<lparr>tb_tail := (tb_tail t)[j := Some rn, r := Some jn]\<rparr> else t);
           h = upd_node jn (\<lambda>n. n\<lparr>nd_row := r\<rparr>) h;
           h = upd_node rn (\<lambda>n. n\<lparr>nd_row := j\<rparr>) h;
           h = upd_node jp (\<lambda>n. n\<lparr>nd_next := Some rn\<rparr>) h;
           h = upd_node rp (\<lambda>n. n\<lparr>nd_next := Some jn\<rparr>) h;
           temp = nd_next (cell h jn);
           h = upd_node jn (\<lambda>n. n\<lparr>nd_next := nd_next (cell h rn)\<rparr>) h;
           h = upd_node rn (\<lambda>n. n\<lparr>nd_next := temp\<rparr>) h
       in Inr (v, t', h))))))))"

fun swap_cols :: "nat \<Rightarrow> nat \<Rightarrow> nat \<Rightarrow> nat option \<Rightarrow> nat option \<Rightarrow> 'd store \<Rightarrow> 'd store res" where
  "swap_cols n r j None q h = Inr h"
| "swap_cols n r j (Some a) None h = Inr h"
| "swap_cols 0 r j (Some a) (Some b) h = Inl Diverges"
| "swap_cols (Suc n) r j (Some a) (Some b) h =
     (let h1 = upd_node a (\<lambda>n. n\<lparr>nd_col := j\<rparr>) h; h2 = upd_node b (\<lambda>n. n\<lparr>nd_col := r\<rparr>) h1
      in swap_cols n r j (nd_next (cell h2 a)) (nd_next (cell h2 b)) h2)"

definition swap :: "nat \<Rightarrow> nat \<Rightarrow> 'd table \<times> 'd store \<Rightarrow> ('d table \<times> 'd store) res" where
  "swap r j s = bind_res (for_each [0..<tb_columns (fst s)] (swap_column r j)
       (\<lparr>jnode = None, jprevnode = None, rnode = None, rprevnode = None\<rparr>, s))
     (\<lambda>(v, t, h).
       bind_res (head_at t r) (\<lambda>hr. bind_res (head_at t j) (\<lambda>hj.
         if length (tb_tail t) \<le> j \<or> length (tb_tail t) \<le> r then Inl IndexFault else
         let t' = t\<lparr>tb_head := (tb_head t)[r := hj, j := hr],
                    tb_tail := (tb_tail t)[r := tb_tail t ! j, j := tb_tail t ! r]\<rparr>
         in bind_res (swap_cols (brk h) r j (tb_head t' ! j) (tb_head t' ! r) h)
              (\<lambda>h'. Inr (t', h')))))"

end
