(* ===== verification/SefdmBuild.thy ===== *)
theory SefdmBuild
  imports SefdmOps
begin

text \<open>
  What the routines that build a table build: \<open>identity_init\<close>, \<open>zero_init\<close>,
  \<open>create_CARRIERS\<close>, \<open>create_IP_BLOCKS\<close>, \<open>TRANSPOSE\<close>, \<open>correlate\<close>, as matrices.
  \<open>reach\<close> is the invariant of their loops, which keeps the tables they read intact.
\<close>

section \<open>The states of a builder's loop\<close>

definition reach :: "'d store \<Rightarrow> 'd table \<Rightarrow> nat list list \<Rightarrow> 'd table \<times> 'd store \<Rightarrow> bool" where
  "reach h t cs u \<longleftrightarrow> (\<exists>ys. grown h t cs ys u)"

lemma reach_refl: "table_rep h t cs \<Longrightarrow> reach h t cs (t, h)"
  unfolding reach_def using grown_refl by blast

lemma reach_append:
  assumes "reach h t cs u" and "table_rep h t cs" and "fst (snd e) < tb_columns t"
  shows "\<exists>u'. append_new e u = Inr u' \<and> reach h t cs u'"
proof -
  obtain t' h' where u: "u = (t', h')" by (cases u)
  obtain r c re im where e: "e = (r, c, re, im)" by (cases e)
  from assms(1) u obtain ys where g: "grown h t cs ys (t', h')" unfolding reach_def by blast
  have "\<exists>s. append_new (r, c, re, im) (t', h') = Inr s \<and> grown h t cs (ys @ [(r, c, re, im)]) s"
    by (rule grown_step [OF g]) (use assms(2,3) e in \<open>auto simp: table_rep_def\<close>)
  then show ?thesis unfolding reach_def u e by blast
qed

lemma reach_frame:
  assumes "reach h t cs u" and "a < brk h"
  shows "entry (snd u) a = entry h a"
    and "a \<notin> set (concat cs) \<Longrightarrow> cell (snd u) a = cell h a"
    and "brk h \<le> brk (snd u)"
  using assms unfolding reach_def grown_def by auto

lemma reach_brk: "reach h t cs u \<Longrightarrow> brk h \<le> brk (snd u)"
  unfolding reach_def grown_def by auto

lemma reach_columns: "reach h t cs u \<Longrightarrow> tb_columns (fst u) = tb_columns t"
  unfolding reach_def grown_def by auto

lemma reach_for_each:
  assumes "reach h t cs u" and "table_rep h t cs"
    and "\<And>x. x \<in> set xs \<Longrightarrow> fst (snd (e x)) < tb_columns t"
    and "for_each xs (\<lambda>x. append_new (e x)) u = Inr u'"
  shows "reach h t cs u'"
proof -
  have "\<exists>s'. for_each xs (\<lambda>x. append_new (e x)) u = Inr s' \<and> reach h t cs s'"
    by (rule for_each_inv) (use assms reach_append in blast)+
  with assms(4) show ?thesis by simp
qed

text \<open>A walk along a column of a table that the loop only reads.\<close>

lemma along_source:
  assumes src: "table_rep h src ss" "i < tb_columns src"
    and apart: "set (concat ss) \<inter> set (concat cs) = {}"
    and u: "reach h t cs u" and rep: "table_rep h t cs"
    and body: "\<And>a v. a \<in> set (ss ! i) \<Longrightarrow> reach h t cs v \<Longrightarrow> F a v = append_new (e a) v"
    and col: "\<And>a. a \<in> set (ss ! i) \<Longrightarrow> fst (snd (e a)) < tb_columns t"
  shows "along F (tb_head src ! i) u = for_each (ss ! i) (\<lambda>a. append_new (e a)) u"
proof -
  have inside: "a \<in> set (ss ! i) \<Longrightarrow> a \<in> set (concat ss)" for a
    by (rule table_rep_column(4) [OF src])
  have below: "a \<in> set (ss ! i) \<Longrightarrow> a < brk h" for a
    using table_rep_bound [OF src(1) inside] .
  have "each_node (brk (snd u)) F (tb_head src ! i) u = for_each (ss ! i) F u"
  proof (rule each_node_chain [where I = "reach h t cs" and nx = "\<lambda>a. nd_next (cell h a)"])
    show "chain (\<lambda>a. nd_next (cell h a)) (tb_head src ! i) (ss ! i)"
      by (rule table_rep_column(1) [OF src])
    show "length (ss ! i) \<le> brk (snd u)"
      using table_rep_column(3) [OF src] reach_brk [OF u] by simp
    show "reach h t cs u" by (rule u)
    show "reach h t cs v'" if "a \<in> set (ss ! i)" "reach h t cs v" "F a v = Inr v'" for a v v'
      using reach_append [OF that(2) rep col [OF that(1)]] body [OF that(1,2)] that(3) by auto
    show "nd_next (cell (snd v) a) = nd_next (cell h a)"
      if "a \<in> set (ss ! i)" "reach h t cs v" for a v
    proof -
      have "a \<notin> set (concat cs)" using apart inside [OF that(1)] by (meson disjoint_iff)
      then show ?thesis using reach_frame(2) [OF that(2) below [OF that(1)]] by simp
    qed
  qed
  also have "\<dots> = for_each (ss ! i) (\<lambda>a. append_new (e a)) u"
  proof (rule for_each_eq_inv [where I = "reach h t cs"])
    show "reach h t cs v'" if "a \<in> set (ss ! i)" "reach h t cs v" "append_new (e a) v = Inr v'"
      for a v v'
      using reach_append [OF that(2) rep col [OF that(1)]] that(3) by auto
  qed (use u body in auto)
  finally show ?thesis .
qed

section \<open>Loops over columns and rows\<close>

lemma two_loops:
  "for_each [0..<C] (\<lambda>j. for_each [0..<R] (\<lambda>i. F i j)) s
    = for_each (concat (map (\<lambda>j. map (\<lambda>i. (i, j)) [0..<R]) [0..<C])) (\<lambda>(i, j). F i j) s"
proof -
  have "for_each [0..<R] (\<lambda>i. F i j) = for_each (map (\<lambda>i. (i, j)) [0..<R]) (\<lambda>(i, j). F i j)" for j
    by (rule ext) (simp add: for_each_map)
  then show ?thesis by (simp add: for_each_concat)
qed

lemma build_matrix:
  fixes h :: "('d::zero) store"
  assumes body: "\<And>i j u. i < R \<Longrightarrow> j < C \<Longrightarrow> reach h (table_init R C) (replicate C []) u
      \<Longrightarrow> F i j u = append_new (i, j, f i j) u"
  obtains t' h' cs' where
    "for_each [0..<C] (\<lambda>j. for_each [0..<R] (\<lambda>i. F i j)) (table_init R C, h) = Inr (t', h')"
    and "is_matrix h' t' cs' f" and "tb_rows t' = R" and "tb_columns t' = C"
    and "\<forall>a < brk h. cell h' a = cell h a" and "\<forall>a \<in> set (concat cs'). brk h \<le> a"
    and "brk h \<le> brk h'" and "tb_norm t' = 0"
proof -
  let ?xs = "concat (map (\<lambda>j. map (\<lambda>i. (i, j)) [0..<R]) [0..<C])"
  let ?e = "\<lambda>(i, j). (i, j, f i j)"
  have dims: "tb_columns (table_init R C :: 'd table) = C" by (simp add: table_init_def)
  have "\<exists>s. for_each ?xs (\<lambda>(i, j). F i j) (table_init R C, h) = Inr s
      \<and> grown h (table_init R C) (replicate C []) (map ?e ?xs) s"
    by (rule build_loop [OF table_rep_init])
       (auto simp: dims reach_def [symmetric] intro: body)
  then obtain t' h' where
    run: "for_each [0..<C] (\<lambda>j. for_each [0..<R] (\<lambda>i. F i j)) (table_init R C, h) = Inr (t', h')"
    and g: "grown h (table_init R C) (replicate C []) (map ?e ?xs) (t', h')"
    unfolding two_loops by auto
  have es: "map ?e ?xs = concat (map (\<lambda>j. map (\<lambda>i. (i, j, f i j)) [0..<R]) [0..<C])"
    by (simp add: map_concat comp_def)
  show ?thesis
    by (rule grown_matrix [OF g, of f]) (simp_all add: es filter_by_columns that [OF run])
qed

lemma identity_init_matrix:
  obtains t' h' cs' where "identity_init (table_init R C, h) = Inr (t', h')"
    and "is_matrix h' t' cs' (\<lambda>i j. (if i = j then 1 else 0, 0))"
    and "tb_rows t' = R" and "tb_columns t' = C"
    and "\<forall>a < brk h. cell h' a = cell h a" and "\<forall>a \<in> set (concat cs'). brk h \<le> a"
    and "brk h \<le> brk h'"
  by (rule build_matrix [of R C h "\<lambda>i j. append_new (i, j, (if i = j then 1 else 0), 0)"
        "\<lambda>i j. (if i = j then 1 else 0, 0)"])
     (simp_all add: identity_init_def table_init_def Let_def)

lemma zero_init_matrix:
  obtains t' h' cs' where "zero_init (table_init R C, h) = Inr (t', h')"
    and "is_matrix h' t' cs' (\<lambda>i j. (0, 0))"
    and "tb_rows t' = R" and "tb_columns t' = C"
    and "\<forall>a < brk h. cell h' a = cell h a" and "\<forall>a \<in> set (concat cs'). brk h \<le> a"
    and "brk h \<le> brk h'"
  by (rule build_matrix [of R C h "\<lambda>i j. append_new (i, j, 0, 0)" "\<lambda>i j. (0, 0)"])
     (simp_all add: zero_init_def table_init_def Let_def)

lemma create_CARRIERS_matrix:
  obtains t' h' cs' where "create_CARRIERS F (table_init R C, h) = Inr (t', h')"
    and "is_matrix h' t' cs' (carrier_point F R)"
    and "tb_rows t' = R" and "tb_columns t' = C"
    and "\<forall>a < brk h. cell h' a = cell h a" and "\<forall>a \<in> set (concat cs'). brk h \<le> a"
    and "brk h \<le> brk h'"
  by (rule build_matrix [of R C h "\<lambda>j i s. let (re, im) = carrier_point F R j i
          in append_new (j, i, re, im) s" "carrier_point F R"])
     (simp_all add: create_CARRIERS_def table_init_def Let_def split: prod.split)

lemma create_IP_BLOCKS_matrix:
  assumes "length X = NUM_BLOCKS * NUM_CARRIERS"
  obtains t' h' cs' where
    "create_IP_BLOCKS F X p (table_init NUM_CARRIERS NUM_BLOCKS, h) = Inr (t', h')"
    and "is_matrix h' t' cs' (\<lambda>j i. qam_point F p (X ! (i * NUM_CARRIERS + j)))"
    and "tb_rows t' = NUM_CARRIERS" and "tb_columns t' = NUM_BLOCKS"
    and "\<forall>a < brk h. cell h' a = cell h a" and "\<forall>a \<in> set (concat cs'). brk h \<le> a"
    and "brk h \<le> brk h'"
proof (rule build_matrix [of NUM_CARRIERS NUM_BLOCKS h
    "\<lambda>j i s. let k = i * NUM_CARRIERS + j in
     if length X \<le> k then Inl IndexFault else
     let (re, im) = qam_point F p (X ! k) in append_new (j, i, re, im) s"
    "\<lambda>j i. qam_point F p (X ! (i * NUM_CARRIERS + j))"])
  fix i j u assume "i < NUM_CARRIERS" and "j < NUM_BLOCKS"
  then have "j * NUM_CARRIERS + i < length X"
    by (simp add: assms NUM_CARRIERS_def NUM_BLOCKS_def)
  then show "(let k = j * NUM_CARRIERS + i in
     if length X \<le> k then Inl IndexFault else
     let (re, im) = qam_point F p (X ! k) in append_new (i, j, re, im) u)
     = append_new (i, j, qam_point F p (X ! (j * NUM_CARRIERS + i))) u"
    by (simp add: Let_def split: prod.split)
qed (simp_all add: create_IP_BLOCKS_def that)

section \<open>Transposition\<close>

lemma transpose_step:
  fixes h :: "('d::zero) store"
  assumes M: "is_matrix h src ss f" and i: "i < tb_columns src"
    and u: "reach h (table_init R (tb_rows src)) (replicate (tb_rows src) []) u"
  shows "bind_res (head_at src i) (\<lambda>p. along (\<lambda>a s.
       let n = cell (snd s) a in append_new (nd_col n, nd_row n, nd_real n, nd_imag n) s) p u)
     = for_each [0..<tb_rows src] (\<lambda>j. append_new (i, j, f j i)) u"
proof -
  let ?t = "table_init R (tb_rows src) :: 'd table"
  let ?cs = "replicate (tb_rows src) [] :: nat list list"
  let ?e = "\<lambda>a. case entry h a of (r, c, v) \<Rightarrow> (c, r, v)"
  from M have src: "table_rep h src ss" by (simp add: is_matrix_def)
  have below: "a \<in> set (ss ! i) \<Longrightarrow> a < brk h" for a
    using table_rep_bound [OF src table_rep_column(4) [OF src i]] .
  have ent: "entry h a \<in> (\<lambda>j. (j, i, f j i)) ` {0..<tb_rows src}" if "a \<in> set (ss ! i)" for a
    using arg_cong [OF matrix_entry(1) [OF M i], of set] that by auto
  have "along (\<lambda>a s. let n = cell (snd s) a in
          append_new (nd_col n, nd_row n, nd_real n, nd_imag n) s) (tb_head src ! i) u
      = for_each (ss ! i) (\<lambda>a. append_new (?e a)) u"
  proof (rule along_source [OF src i _ u table_rep_init])
    fix a v assume a: "a \<in> set (ss ! i)" and "reach h ?t ?cs v"
    then have "entry (snd v) a = entry h a" using reach_frame(1) below by blast
    then show "(let n = cell (snd v) a in append_new (nd_col n, nd_row n, nd_real n, nd_imag n) v)
        = append_new (?e a) v"
      by (simp add: entry_def Let_def)
  next
    fix a assume "a \<in> set (ss ! i)"
    from ent [OF this] show "fst (snd (?e a)) < tb_columns ?t" by (auto simp: table_init_def)
  qed auto
  also have "\<dots> = for_each (map (entry h) (ss ! i)) (\<lambda>x. append_new (case x of (r, c, v) \<Rightarrow> (c, r, v))) u"
    by (simp add: for_each_map)
  also have "\<dots> = for_each [0..<tb_rows src] (\<lambda>j. append_new (i, j, f j i)) u"
    unfolding matrix_entry(1) [OF M i] by (simp add: for_each_map)
  finally show ?thesis by (simp add: table_rep_column(2) [OF src i])
qed

lemma TRANSPOSE_matrix:
  fixes h :: "('d::zero) store"
  assumes M: "is_matrix h src ss f"
  obtains t' h' cs' where
    "TRANSPOSE src (table_init (tb_columns src) (tb_rows src), h) = Inr (t', h')"
    and "is_matrix h' t' cs' (\<lambda>i j. f j i)"
    and "tb_rows t' = tb_columns src" and "tb_columns t' = tb_rows src"
    and "\<forall>a < brk h. cell h' a = cell h a" and "\<forall>a \<in> set (concat cs'). brk h \<le> a"
    and "brk h \<le> brk h'"
proof -
  let ?R = "tb_columns src" and ?C = "tb_rows src"
  let ?t = "table_init ?R ?C :: 'd table" and ?cs = "replicate ?C [] :: nat list list"
  let ?xs = "concat (map (\<lambda>i. map (\<lambda>j. (i, j)) [0..<?C]) [0..<?R])"
  let ?e = "\<lambda>(i, j). (i, j, f j i)"
  have dims: "tb_columns ?t = ?C" by (simp add: table_init_def)
  have "TRANSPOSE src (?t, h)
      = for_each [0..<?R] (\<lambda>i. for_each [0..<?C] (\<lambda>j. append_new (i, j, f j i))) (?t, h)"
    unfolding TRANSPOSE_def
  proof (rule for_each_eq_inv [where I = "reach h ?t ?cs"])
    show "reach h ?t ?cs (?t, h)" by (rule reach_refl) (rule table_rep_init)
    show "reach h ?t ?cs u'" if "i \<in> set [0..<?R]" "reach h ?t ?cs u"
      "for_each [0..<?C] (\<lambda>j. append_new (i, j, f j i)) u = Inr u'" for i u u'
      by (rule reach_for_each [OF that(2) table_rep_init _ that(3)]) (simp add: dims)
  qed (rule transpose_step [OF M]; simp)
  also have "\<dots> = for_each ?xs (\<lambda>x. append_new (?e x)) (?t, h)"
    unfolding for_each_concat [symmetric] for_each_map by simp
  finally have run: "TRANSPOSE src (?t, h) = for_each ?xs (\<lambda>x. append_new (?e x)) (?t, h)" .
  have "\<exists>s. for_each ?xs (\<lambda>x. append_new (?e x)) (?t, h) = Inr s \<and> grown h ?t ?cs (map ?e ?xs) s"
    by (rule build_loop [OF table_rep_init]) (auto simp: dims)
  then obtain t' h' where ok: "TRANSPOSE src (?t, h) = Inr (t', h')"
    and g: "grown h ?t ?cs (map ?e ?xs) (t', h')" unfolding run by auto
  have es: "map ?e ?xs = concat (map (\<lambda>i. map (\<lambda>j. (i, j, f j i)) [0..<?C]) [0..<?R])"
    by (simp add: map_concat comp_def)
  show ?thesis
    by (rule grown_matrix [OF g, of "\<lambda>i j. f j i"])
       (simp_all add: es filter_by_rows that [OF ok])
qed

section \<open>Correlation\<close>

text \<open>The sums \<open>correlate\<close> accumulates for columns \<open>j\<close> and \<open>i\<close> of a matrix with \<open>R\<close> rows.\<close>

definition dot_step :: "'d \<times> 'd \<Rightarrow> 'd \<times> 'd \<Rightarrow> 'd \<times> 'd \<Rightarrow> ('d::{plus,minus,times}) \<times> 'd" where
  "dot_step x y s = (fst s + (fst x * fst y + snd x * snd y),
                     snd s + (fst x * snd y - fst y * snd x))"

definition dot :: "nat \<Rightarrow> (nat \<Rightarrow> nat \<Rightarrow> 'd \<times> 'd) \<Rightarrow> nat \<Rightarrow> nat \<Rightarrow> ('d::{plus,minus,times,zero}) \<times> 'd" where
  "dot R f j i = fold (\<lambda>k. dot_step (f k j) (f k i)) [0..<R] (0, 0)"

lemma inner_product_chain:
  assumes "chain (\<lambda>a. nd_next (cell h a)) p xs" and "chain (\<lambda>a. nd_next (cell h a)) q ys"
    and "length xs \<le> n"
  shows "inner_product n p q h s = Inr (fold (\<lambda>(x, y). dot_step (snd (snd x)) (snd (snd y)))
    (zip (map (entry h) xs) (map (entry h) ys)) s)"
  using assms
proof (induction xs arbitrary: n p q ys s)
  case Nil
  then show ?case by simp
next
  case (Cons x xs)
  obtain re im where s: "s = (re, im)" by (cases s)
  from Cons.prems(3) obtain m where n: "n = Suc m" by (cases n) auto
  show ?case
  proof (cases ys)
    case Nil
    with Cons.prems show ?thesis by simp
  next
    case (Cons y zs)
    with Cons.prems n s show ?thesis
      by (simp add: Cons.IH [of _ _ zs] Let_def dot_step_def entry_def)
  qed
qed

lemma correlate_entry:
  assumes M: "is_matrix h src ss f" and j: "j < tb_columns src" and i: "i < tb_columns src"
    and u: "reach h t cs u" and apart: "set (concat ss) \<inter> set (concat cs) = {}"
  shows "bind_res (head_at src j) (\<lambda>x. bind_res (head_at src i) (\<lambda>y.
         bind_res (inner_product (brk (snd u)) x y (snd u) (0, 0)) (\<lambda>(re, im).
           append_new (i, j, re, im) u))) = append_new (i, j, dot (tb_rows src) f j i) u"
proof -
  from M have src: "table_rep h src ss" by (simp add: is_matrix_def)
  have same: "cell (snd u) a = cell h a" if "a \<in> set (ss ! k)" "k < tb_columns src" for a k
    using reach_frame(2) [OF u] apart table_rep_column(4) [OF src that(2,1)]
      table_rep_bound [OF src] by (meson disjoint_iff)
  have ch: "chain (\<lambda>a. nd_next (cell (snd u) a)) (tb_head src ! k) (ss ! k)"
    if "k < tb_columns src" for k
    using table_rep_column(1) [OF src that] same [OF _ that]
      chain_cong [of "ss ! k" "\<lambda>a. nd_next (cell (snd u) a)" "\<lambda>a. nd_next (cell h a)"] by simp
  have ent: "map (entry (snd u)) (ss ! k) = map (\<lambda>i. (i, k, f i k)) [0..<tb_rows src]"
    if "k < tb_columns src" for k
    using matrix_entry(1) [OF M that] same [OF _ that] by (simp add: entry_def cong: map_cong)
  have len: "length (ss ! j) \<le> brk (snd u)"
    using table_rep_column(3) [OF src j] reach_brk [OF u] by simp
  have "inner_product (brk (snd u)) (tb_head src ! j) (tb_head src ! i) (snd u) (0, 0)
      = Inr (dot (tb_rows src) f j i)"
    unfolding inner_product_chain [OF ch [OF j] ch [OF i] len] ent [OF j] ent [OF i] dot_def
    by (simp add: zip_map_map zip_same_conv_map fold_map comp_def)
  then show ?thesis
    by (simp add: table_rep_column(2) [OF src] i j split: prod.split)
qed

lemma correlate_matrix:
  fixes h :: "('d::{plus,minus,times,zero}) store"
  assumes M: "is_matrix h src ss f"
  obtains t' h' cs' where
    "correlate src (table_init (tb_columns src) (tb_columns src), h) = Inr (t', h')"
    and "is_matrix h' t' cs' (\<lambda>i j. dot (tb_rows src) f j i)"
    and "tb_rows t' = tb_columns src" and "tb_columns t' = tb_columns src"
    and "\<forall>a < brk h. cell h' a = cell h a" and "\<forall>a \<in> set (concat cs'). brk h \<le> a"
    and "brk h \<le> brk h'"
  by (rule build_matrix [of "tb_columns src" "tb_columns src" h
      "\<lambda>i j s. bind_res (head_at src j) (\<lambda>x. bind_res (head_at src i) (\<lambda>y.
         bind_res (inner_product (brk (snd s)) x y (snd s) (0, 0)) (\<lambda>(re, im).
           append_new (i, j, re, im) s)))"
      "\<lambda>i j. dot (tb_rows src) f j i"])
     (simp_all add: correlate_def correlate_entry [OF M] that)

end
