(* ===== verification/SefdmInvert.thy ===== *)
theory SefdmInvert
  imports SefdmBuild
begin

text \<open>
  sefdm/algorythms/test.list.161.c, \<open>invert\<close>: Gauss-Jordan elimination on a matrix and
  its augment, over the node store. \<open>invert_round\<close> is one iteration of the loop over \<open>r\<close>.

  After the first round \<open>A\<close> and \<open>Aprime\<close> (and \<open>Aug\<close> and \<open>Augprime\<close>) are the same table,
  so \<open>table_sub\<close> works in place; the model keeps that, since a table is its node pointers.
\<close>

section \<open>The routine\<close>

definition copy_table :: "'d table \<Rightarrow> 'd table \<times> 'd store \<Rightarrow> ('d table \<times> 'd store) res" where
  "copy_table mytable = for_each [0..<tb_columns mytable] (\<lambda>i s.
     bind_res (head_at mytable i) (\<lambda>p. along (\<lambda>a s.
       let n = cell (snd s) a in append_new (nd_row n, nd_col n, nd_real n, nd_imag n) s) p s))"

definition dummy_table :: "'d table \<times> ('d::zero) store \<Rightarrow> ('d table \<times> 'd store) res" where
  "dummy_table s0 = (let cols = tb_columns (fst s0); rows = tb_rows (fst s0) in
     for_each [0..<rows] (\<lambda>i. for_each [0..<cols] (\<lambda>j s. append_new (i, j, 0, 0) s)) s0)"

primrec alloc_array :: "nat \<Rightarrow> 'd store \<Rightarrow> nat list \<times> 'd store" where
  "alloc_array 0 h = ([], h)"
| "alloc_array (Suc n) h = (let (a, h1) = malloc_node h; (as, h2) = alloc_array n h1
     in (a # as, h2))"

record 'd inv_vars =
  iv_subtr :: "'d table"
  iv_asubtr :: "'d table"
  iv_Aprime :: "'d table"
  iv_Augprime :: "'d table"
  iv_Rr :: "nat list"
  iv_Ar :: "nat list"
  iv_conj :: nat

text \<open>
  The pivot row of the matrix and of the augment, multiplied by the node called \<open>conj\<close> when
  the pivot is complex and divided by the real part of the pivot, is written back.
\<close>

definition normalise_row :: "('d::{plus,minus,times,divide}) libm \<Rightarrow> nat \<Rightarrow> 'd inv_vars \<Rightarrow> nat
    \<Rightarrow> 'd table \<Rightarrow> 'd table \<Rightarrow> 'd store \<Rightarrow> 'd store res" where
  "normalise_row F len V r A Aug h =
     bind_res (copy_row_from_table (iv_Rr V) A r h) (\<lambda>h.
     bind_res (copy_row_from_table (iv_Ar V) Aug r h) (\<lambda>h.
     if length (iv_Rr V) \<le> r then Inl IndexFault else
     let pivotnode = iv_Rr V ! r; n = cell h pivotnode;
         h = node_init (iv_conj V) (nd_real n) (nd_imag n) (nd_row n) (nd_col n) h in
     bind_res (if nonzero F (nd_imag (cell h pivotnode))
               then bind_res (mult_array_by_node (iv_Rr V) (iv_conj V) len h)
                      (mult_array_by_node (iv_Ar V) (iv_conj V) len)
               else Inr h) (\<lambda>h.
     let pivotreal = nd_real (cell h pivotnode) in
     bind_res (divide_array_by_double F (iv_Rr V) len pivotreal h) (\<lambda>h.
     bind_res (divide_array_by_double F (iv_Ar V) len pivotreal h) (\<lambda>h.
     bind_res (copy_row_to_table A (iv_Rr V) r h) (\<lambda>h.
     copy_row_to_table Aug (iv_Ar V) r h))))))"

definition zero_columns :: "'d table \<Rightarrow> nat \<Rightarrow> ('d::zero) store \<Rightarrow> 'd store res" where
  "zero_columns T r = for_each [0..<r] (\<lambda>i h. bind_res (head_at T i) (\<lambda>p.
     bind_res (along (\<lambda>a (u, h). Inr (u, upd_node a (\<lambda>n. n\<lparr>nd_real := 0, nd_imag := 0\<rparr>) h))
       p ((), h)) (\<lambda>(u, h). Inr h)))"

text \<open>
  One column of a subtrahend: \<open>real_op\<close> joins the two products of the real part. The two
  assignments of the source are made one after the other.
\<close>

fun subtrahend_column :: "('d \<Rightarrow> 'd \<Rightarrow> 'd) \<Rightarrow> nat \<Rightarrow> nat \<Rightarrow> nat option list \<Rightarrow> nat list
    \<Rightarrow> nat option \<Rightarrow> nat option \<Rightarrow> ('d::{plus,times,zero}) store \<Rightarrow> 'd store res" where
  "subtrahend_column real_op n r Cr Rr None snode h = Inr h"
| "subtrahend_column real_op n r Cr Rr (Some m) None h = Inr h"
| "subtrahend_column real_op 0 r Cr Rr (Some m) (Some s) h = Inl Diverges"
| "subtrahend_column real_op (Suc n) r Cr Rr (Some m) (Some s) h =
     bind_res
      (if nd_row (cell h s) \<noteq> r then
         let i = nd_row (cell h m); j = nd_col (cell h m) in
         if length Cr \<le> i \<or> length Rr \<le> j then Inl IndexFault else
         bind_res (set_var (Cr ! i)) (\<lambda>c.
           let x = cell h c; y = cell h (Rr ! j);
               h1 = upd_node s (\<lambda>k. k\<lparr>nd_real :=
                      real_op (nd_real x * nd_real y) (nd_imag x * nd_imag y)\<rparr>) h;
               x = cell h1 c; y = cell h1 (Rr ! j)
           in Inr (upd_node s (\<lambda>k. k\<lparr>nd_imag :=
                      nd_real x * nd_imag y + nd_imag x * nd_real y\<rparr>) h1))
       else Inr (upd_node s (\<lambda>k. k\<lparr>nd_real := 0, nd_imag := 0\<rparr>) h))
      (\<lambda>h. subtrahend_column real_op n r Cr Rr (nd_next (cell h m)) (nd_next (cell h s)) h)"

definition subtrahend :: "nat \<Rightarrow> nat option list \<Rightarrow> nat list \<Rightarrow> 'd table \<Rightarrow> 'd table
    \<Rightarrow> ('d::{plus,minus,times,zero}) store \<Rightarrow> 'd store res" where
  "subtrahend r Cr Rr A subtr = for_each [r..<tb_columns A] (\<lambda>i h.
     bind_res (head_at A i) (\<lambda>m. bind_res (head_at subtr i) (\<lambda>s.
       subtrahend_column (-) (brk h) r Cr Rr m s h)))"

definition aug_subtrahend :: "nat \<Rightarrow> nat option list \<Rightarrow> nat list \<Rightarrow> 'd table \<Rightarrow> 'd table
    \<Rightarrow> ('d::{plus,minus,times,zero}) store \<Rightarrow> 'd store res" where
  "aug_subtrahend r Cr Ar Aug asubtr = for_each [0..<Suc r] (\<lambda>i h.
     bind_res (head_at Aug i) (\<lambda>m. bind_res (head_at asubtr i) (\<lambda>s.
       subtrahend_column (+) (brk h) r Cr Ar m s h)))"

definition invert_round :: "('d::{plus,minus,times,divide,zero}) libm \<Rightarrow> nat \<Rightarrow> 'd inv_vars \<Rightarrow> nat
    \<Rightarrow> 'd table \<times> 'd table \<times> 'd store \<Rightarrow> ('d table \<times> 'd table \<times> 'd store) res" where
  "invert_round F len V r = (\<lambda>(A, Aug, h).
     bind_res (normalise_row F len V r A Aug h) (\<lambda>h.
     bind_res (get_column_from_table A r h) (\<lambda>Cr.
     bind_res (zero_columns (iv_subtr V) r h) (\<lambda>h.
     bind_res (zero_columns (iv_asubtr V) r h) (\<lambda>h.
     bind_res (subtrahend r Cr (iv_Rr V) A (iv_subtr V) h) (\<lambda>h.
     bind_res (aug_subtrahend r Cr (iv_Ar V) Aug (iv_asubtr V) h) (\<lambda>h.
     bind_res (table_sub (iv_Aprime V) A (iv_subtr V) h) (\<lambda>h.
     bind_res (table_sub (iv_Augprime V) Aug (iv_asubtr V) h) (\<lambda>h.
     Inr (iv_Aprime V, iv_Augprime V, h))))))))))"

text \<open>The tables and arrays made before the loop. \<open>Ar\<close> is filled twice, \<open>Arnorm\<close> never.\<close>

definition invert_setup :: "'d table \<Rightarrow> 'd table \<Rightarrow> ('d::zero) store
    \<Rightarrow> ('d inv_vars \<times> 'd table \<times> 'd table \<times> 'd store) res" where
  "invert_setup mytable augment h =
     (let R = tb_rows mytable; C = tb_columns mytable;
          Ra = tb_rows augment; Ca = tb_columns augment in
      bind_res (copy_table mytable (table_init R C, h)) (\<lambda>(A, h).
      bind_res (copy_table augment (table_init Ra Ca, h)) (\<lambda>(Aug, h).
      bind_res (dummy_table (table_init R C, h)) (\<lambda>(subtr, h).
      bind_res (dummy_table (table_init R C, h)) (\<lambda>(asubtr, h).
      let (Rr, h) = alloc_array C h; (Ar, h) = alloc_array C h; (Ar, h) = alloc_array C h;
          (cj, h) = malloc_node h in
      bind_res (dummy_table (table_init R C, h)) (\<lambda>(Aprime, h).
      bind_res (dummy_table (table_init Ra Ca, h)) (\<lambda>(Augprime, h).
      Inr (\<lparr>iv_subtr = subtr, iv_asubtr = asubtr, iv_Aprime = Aprime, iv_Augprime = Augprime,
            iv_Rr = Rr, iv_Ar = Ar, iv_conj = cj\<rparr>, A, Aug, h))))))))"

fun copy_back :: "nat \<Rightarrow> nat option \<Rightarrow> nat option \<Rightarrow> 'd store \<Rightarrow> 'd store res" where
  "copy_back n None q h = Inr h"
| "copy_back n (Some m) None h = Inr h"
| "copy_back 0 (Some m) (Some a) h = Inl Diverges"
| "copy_back (Suc n) (Some m) (Some a) h =
     (let x = cell h a; h = upd_node m (\<lambda>k. k\<lparr>nd_real := nd_real x, nd_imag := nd_imag x\<rparr>) h
      in copy_back n (nd_next (cell h m)) (nd_next (cell h a)) h)"

definition invert :: "('d::{plus,minus,times,divide,zero}) libm \<Rightarrow> 'd table \<Rightarrow> 'd table
    \<Rightarrow> 'd store \<Rightarrow> 'd store res" where
  "invert F mytable augment h =
     bind_res (invert_setup mytable augment h) (\<lambda>(V, A, Aug, h).
     bind_res (for_each [0..<2] (invert_round F (tb_columns mytable) V) (A, Aug, h))
     (\<lambda>(A, Aug, h). for_each [0..<tb_columns augment] (\<lambda>i h.
       bind_res (head_at augment i) (\<lambda>m. bind_res (head_at Aug i) (\<lambda>a.
         copy_back (brk h) m a h))) h))"

section \<open>Writes that keep the links\<close>

text \<open>
  \<open>overwrites S new h h'\<close>: nothing was allocated, no link changed, the nodes of \<open>S\<close> now
  hold what \<open>new\<close> says and all others what they held.
\<close>

definition overwrites :: "nat set \<Rightarrow> (nat \<Rightarrow> 'd entry) \<Rightarrow> 'd store \<Rightarrow> 'd store \<Rightarrow> bool" where
  "overwrites S new h h' \<longleftrightarrow> brk h' = brk h
     \<and> (\<forall>a. nd_next (cell h' a) = nd_next (cell h a))
     \<and> (\<forall>a. entry h' a = (if a \<in> S then new a else entry h a))"

lemma overwrites_empty: "overwrites {} new h h"
  by (simp add: overwrites_def)

lemma overwrites_trans:
  "overwrites S new h h1 \<Longrightarrow> overwrites T new h1 h2 \<Longrightarrow> overwrites (S \<union> T) new h h2"
  by (auto simp: overwrites_def)

lemma overwritesD:
  assumes "overwrites S new h h'"
  shows "brk h' = brk h" and "nd_next (cell h' a) = nd_next (cell h a)"
    and "a \<notin> S \<Longrightarrow> entry h' a = entry h a" and "a \<in> S \<Longrightarrow> entry h' a = new a"
  using assms by (simp_all add: overwrites_def)

lemma overwrites_cell:
  assumes "overwrites S new h h'" and "a \<notin> S"
  shows "nd_row (cell h' a) = nd_row (cell h a)" and "nd_col (cell h' a) = nd_col (cell h a)"
    and "nd_real (cell h' a) = nd_real (cell h a)" and "nd_imag (cell h' a) = nd_imag (cell h a)"
  using overwritesD(3) [OF assms] by (simp_all add: entry_def Let_def)

lemma overwrites_cong:
  "(\<And>a. a \<in> S \<Longrightarrow> new a = new' a) \<Longrightarrow> overwrites S new h h' \<longleftrightarrow> overwrites S new' h h'"
  unfolding overwrites_def by auto

lemma overwrites_rep: "overwrites S new h h' \<Longrightarrow> table_rep h t cs \<Longrightarrow> table_rep h' t cs"
  by (rule table_rep_frame) (simp_all add: overwrites_def)

lemma overwrites_chain:
  "overwrites S new h h' \<Longrightarrow> chain (\<lambda>a. nd_next (cell h' a)) p xs \<longleftrightarrow> chain (\<lambda>a. nd_next (cell h a)) p xs"
  by (simp add: overwrites_def)

lemma overwrites_matrix:
  assumes "overwrites S new h h'" and "is_matrix h t cs f" and "S \<inter> set (concat cs) = {}"
  shows "is_matrix h' t cs f"
proof -
  have "table_view h' cs = table_view h cs"
    by (rule table_view_frame) (use assms(1,3) in \<open>auto simp: overwrites_def\<close>)
  with assms(2) overwrites_rep [OF assms(1)] show ?thesis by (auto simp: is_matrix_def)
qed

lemma overwrites_node:
  assumes "\<And>n. nd_next (g n) = nd_next n"
    and "new a = (nd_row (g (cell h a)), nd_col (g (cell h a)), nd_real (g (cell h a)), nd_imag (g (cell h a)))"
  shows "overwrites {a} new h (upd_node a g h)"
  using assms by (auto simp: overwrites_def entry_def Let_def)

lemma for_each_overwrites:
  assumes "\<And>ys x zs u. xs = ys @ x # zs \<Longrightarrow> overwrites (\<Union>(S ` set ys)) new h u
    \<Longrightarrow> \<exists>u'. F x u = Inr u' \<and> overwrites (S x) new u u'"
  shows "\<exists>h'. for_each xs F h = Inr h' \<and> overwrites (\<Union>(S ` set xs)) new h h'"
proof (rule for_each_prefix)
  show "overwrites (\<Union>(S ` set [])) new h h" by (simp add: overwrites_empty)
next
  fix ys x zs u assume xs: "xs = ys @ x # zs" and u: "overwrites (\<Union>(S ` set ys)) new h u"
  from assms [OF this] obtain u' where "F x u = Inr u'" and "overwrites (S x) new u u'" by blast
  with overwrites_trans [OF u this(2)]
  show "\<exists>u'. F x u = Inr u' \<and> overwrites (\<Union>(S ` set (ys @ [x]))) new h u'"
    by (simp add: Un_commute)
qed

text \<open>A table all of whose nodes have been overwritten by the entries of a matrix.\<close>

lemma overwrites_new_matrix:
  assumes "overwrites S new h h'" and "is_matrix h t cs f"
    and "\<And>i j. i < tb_rows t \<Longrightarrow> j < tb_columns t \<Longrightarrow> entry h' (cs ! j ! i) = (i, j, g i j)"
  shows "is_matrix h' t cs g"
proof -
  from assms(2) have rep: "table_rep h t cs" by (simp add: is_matrix_def)
  then have len: "length cs = tb_columns t" by (rule table_rep_length)
  have "table_view h' cs = grid (tb_rows t) (tb_columns t) g"
  proof (rule nth_equalityI)
    fix j assume "j < length (table_view h' cs)"
    with len have j: "j < tb_columns t" by (simp add: table_view_def)
    have "map (entry h') (cs ! j) = map (\<lambda>i. (i, j, g i j)) [0..<tb_rows t]"
      by (rule nth_equalityI) (simp_all add: matrix_entry(2) [OF assms(2) j] assms(3) [OF _ j])
    with j len show "table_view h' cs ! j = grid (tb_rows t) (tb_columns t) g ! j"
      by (simp add: table_view_def grid_def)
  qed (simp add: table_view_def grid_def len)
  with overwrites_rep [OF assms(1) rep] show ?thesis by (simp add: is_matrix_def)
qed

end
