(* ===== verification/SefdmInvertSim.thy ===== *)
theory SefdmInvertSim
  imports SefdmInvert
begin

text \<open>
  \<open>invert\<close> refines an elimination on matrices: each statement of a round, run on tables
  that represent matrices, is an update of the matrices (\<open>round_mat\<close>).
\<close>

section \<open>Frames\<close>

definition touches :: "nat set \<Rightarrow> 'd store \<Rightarrow> 'd store \<Rightarrow> bool" where
  "touches S h h' \<longleftrightarrow> brk h' = brk h \<and> (\<forall>a. nd_next (cell h' a) = nd_next (cell h a))
     \<and> (\<forall>a. a \<notin> S \<longrightarrow> entry h' a = entry h a)"

definition holds :: "'d store \<Rightarrow> nat list \<Rightarrow> nat \<Rightarrow> (nat \<Rightarrow> 'd \<times> 'd) \<Rightarrow> bool" where
  "holds h arr r v \<longleftrightarrow> (\<forall>i < length arr. entry h (arr ! i) = (r, i, v i))"

lemma overwrites_touches: "overwrites S new h h' \<Longrightarrow> touches S h h'"
  by (simp add: touches_def overwrites_def)

lemma touches_overwrites: "touches S h h' \<Longrightarrow> overwrites S (entry h') h h'"
  by (auto simp: touches_def overwrites_def)

lemma touches_refl: "touches S h h"
  by (simp add: touches_def)

lemma touches_trans: "touches S h h1 \<Longrightarrow> touches T h1 h2 \<Longrightarrow> touches (S \<union> T) h h2"
  by (simp add: touches_def)

lemma touches_mono: "touches S h h' \<Longrightarrow> S \<subseteq> T \<Longrightarrow> touches T h h'"
  by (auto simp: touches_def)

lemma touches_matrix:
  "touches S h h' \<Longrightarrow> is_matrix h t cs f \<Longrightarrow> S \<inter> set (concat cs) = {} \<Longrightarrow> is_matrix h' t cs f"
  by (rule overwrites_matrix [OF touches_overwrites])

lemma touches_entry: "touches S h h' \<Longrightarrow> a \<notin> S \<Longrightarrow> entry h' a = entry h a"
  by (simp add: touches_def)

lemma touches_holds:
  "touches S h h' \<Longrightarrow> holds h arr r v \<Longrightarrow> S \<inter> set arr = {} \<Longrightarrow> holds h' arr r v"
  unfolding holds_def by (metis disjoint_iff nth_mem touches_entry)

lemma entryD:
  assumes "entry h a = (r, c, v)"
  shows "nd_row (cell h a) = r" and "nd_col (cell h a) = c"
    and "nd_real (cell h a) = fst v" and "nd_imag (cell h a) = snd v"
  using assms by (auto simp: entry_def Let_def)

lemma holds_cell:
  assumes "holds h arr r v" and "i < length arr"
  shows "nd_row (cell h (arr ! i)) = r" and "nd_col (cell h (arr ! i)) = i"
    and "nd_real (cell h (arr ! i)) = fst (v i)" and "nd_imag (cell h (arr ! i)) = snd (v i)"
  using assms by (auto simp: holds_def entry_def Let_def prod_eq_iff)

lemma matrix_cell:
  assumes "is_matrix h t cs f" and "j < tb_columns t" and "i < tb_rows t"
  shows "nd_row (cell h (cs ! j ! i)) = i" and "nd_col (cell h (cs ! j ! i)) = j"
    and "nd_real (cell h (cs ! j ! i)) = fst (f i j)" and "nd_imag (cell h (cs ! j ! i)) = snd (f i j)"
  using matrix_entry(3) [OF assms] by (simp_all add: entry_def Let_def prod_eq_iff)

lemma matrix_node:
  assumes "is_matrix h t cs f" and "j < tb_columns t" and "i < tb_rows t"
  shows "cs ! j ! i \<in> set (cs ! j)" and "cs ! j ! i \<in> set (concat cs)"
proof -
  from assms(1) have rep: "table_rep h t cs" by (simp add: is_matrix_def)
  show n: "cs ! j ! i \<in> set (cs ! j)" using matrix_entry(2) [OF assms(1,2)] assms(3) by simp
  show "cs ! j ! i \<in> set (concat cs)" by (rule table_rep_column(4) [OF rep assms(2) n])
qed

text \<open>Distinct nodes can be given new contents one by one.\<close>

lemma new_of_inj: "inj_on ad X \<Longrightarrow> \<exists>new. \<forall>x \<in> X. new (ad x) = g x"
  by (rule exI [of _ "g \<circ> inv_into X ad"]) simp

lemma new_of_list:
  assumes "distinct xs"
  shows "\<exists>new. \<forall>i < length xs. new (xs ! i) = g i"
  using new_of_inj [of "(!) xs" "{..<length xs}" g] assms
  by (auto simp: inj_on_nth)

lemma new_of_matrix:
  assumes M: "is_matrix h t cs f"
  shows "\<exists>new. \<forall>j < tb_columns t. \<forall>i < tb_rows t. new (cs ! j ! i) = g i j"
proof -
  have "inj_on (\<lambda>(j, i). cs ! j ! i) ({..<tb_columns t} \<times> {..<tb_rows t})"
  proof (rule inj_onI, clarify)
    fix j i j' i' assume eq: "cs ! j ! i = cs ! j' ! i'"
      and ji: "j < tb_columns t" "i < tb_rows t" and ji': "j' < tb_columns t" "i' < tb_rows t"
    have "(i, j, f i j) = entry h (cs ! j ! i)" by (rule matrix_entry(3) [OF M ji, symmetric])
    also have "\<dots> = (i', j', f i' j')" unfolding eq by (rule matrix_entry(3) [OF M ji'])
    finally show "j = j' \<and> i = i'" by simp
  qed
  from new_of_inj [OF this, of "\<lambda>(j, i). g i j"] obtain new where
    "\<forall>x \<in> {..<tb_columns t} \<times> {..<tb_rows t}. new (case x of (j, i) \<Rightarrow> cs ! j ! i)
      = (case x of (j, i) \<Rightarrow> g i j)" ..
  then have "\<forall>j < tb_columns t. \<forall>i < tb_rows t. new (cs ! j ! i) = g i j" by simp
  then show ?thesis by blast
qed

lemma slots_of_array: "(\<Union>((\<lambda>i. {arr ! i}) ` set [0..<length arr])) = set arr"
  by (force simp: in_set_conv_nth)

section \<open>Rows\<close>

lemma find_row_chain:
  assumes "chain (\<lambda>a. nd_next (cell h a)) p xs" and "length xs \<le> n"
    and "\<And>i. i < length xs \<Longrightarrow> nd_row (cell h (xs ! i)) = k + i" and "r < length xs"
  shows "find_row n (k + r) p h = Inr (Some (xs ! r))"
  using assms
proof (induction xs arbitrary: p n k r)
  case Nil
  then show ?case by simp
next
  case (Cons x xs)
  from Cons.prems(2) obtain m where n: "n = Suc m" by (cases n) auto
  from Cons.prems(1) have p: "p = Some x" and ch: "chain (\<lambda>a. nd_next (cell h a)) (nd_next (cell h x)) xs"
    by simp_all
  have row: "nd_row (cell h x) = k" using Cons.prems(3) [of 0] by simp
  show ?case
  proof (cases r)
    case 0
    with row show ?thesis by (simp add: p n)
  next
    case (Suc r')
    have "find_row m (Suc k + r') (nd_next (cell h x)) h = Inr (Some (xs ! r'))"
    proof (rule Cons.IH [OF ch])
      show "nd_row (cell h (xs ! i)) = Suc k + i" if "i < length xs" for i
        using Cons.prems(3) [of "Suc i"] that by simp
    qed (use Cons.prems n Suc in simp_all)
    with row Suc show ?thesis by (simp add: p n)
  qed
qed

lemma find_row_matrix:
  assumes M: "is_matrix h t cs f" and j: "j < tb_columns t" and r: "r < tb_rows t"
  shows "find_row (brk h) r (tb_head t ! j) h = Inr (Some (cs ! j ! r))"
proof -
  from M have rep: "table_rep h t cs" by (simp add: is_matrix_def)
  have "find_row (brk h) (0 + r) (tb_head t ! j) h = Inr (Some (cs ! j ! r))"
    by (rule find_row_chain)
       (use table_rep_column [OF rep j] matrix_entry(2) [OF M j] matrix_cell(1) [OF M j] r in simp_all)
  then show ?thesis by simp
qed

lemma copy_row_from_sim:
  assumes M: "is_matrix h t cs f" and r: "r < tb_rows t" and len: "length arr = tb_columns t"
    and dist: "distinct arr" and apart: "set arr \<inter> set (concat cs) = {}"
  shows "\<exists>h'. copy_row_from_table arr t r h = Inr h' \<and> touches (set arr) h h' \<and> holds h' arr r (f r)"
proof -
  obtain new where new: "\<forall>i < length arr. new (arr ! i) = (r, i, f r i)"
    using new_of_list [OF dist, of "\<lambda>i. (r, i, f r i)"] by blast
  have "\<exists>h'. copy_row_from_table arr t r h = Inr h'
      \<and> overwrites (\<Union>((\<lambda>i. {arr ! i}) ` set [0..<tb_columns t])) new h h'"
    unfolding copy_row_from_table_def
  proof (rule for_each_overwrites)
    fix ys i zs u assume split: "[0..<tb_columns t] = ys @ i # zs"
      and u: "overwrites (\<Union>((\<lambda>i. {arr ! i}) ` set ys)) new h u"
    from arg_cong [OF split, of set] have i: "i < tb_columns t" and ys: "set ys \<subseteq> {..<tb_columns t}"
      by auto
    have "(\<Union>((\<lambda>i. {arr ! i}) ` set ys)) \<inter> set (concat cs) = {}"
    proof -
      have "(\<Union>((\<lambda>i. {arr ! i}) ` set ys)) \<subseteq> set arr" using ys len by auto
      with apart show ?thesis by blast
    qed
    with u M have Mu: "is_matrix u t cs f" by (rule overwrites_matrix)
    then have rep: "table_rep u t cs" by (simp add: is_matrix_def)
    have "overwrites {arr ! i} new u (node_copy (arr ! i) (cs ! i ! r) u)"
      using new i len matrix_entry(3) [OF Mu i r] by (simp add: overwrites_def)
    then show "\<exists>u'. bind_res (head_at t i) (\<lambda>p. bind_res (find_row (brk u) r p u) (\<lambda>q.
       case q of None \<Rightarrow> Inr u
       | Some a \<Rightarrow> if length arr \<le> i then Inl IndexFault else Inr (node_copy (arr ! i) a u))) = Inr u'
       \<and> overwrites {arr ! i} new u u'"
      using i len by (simp add: table_rep_column(2) [OF rep] find_row_matrix [OF Mu i r])
  qed
  moreover have "(\<Union>((\<lambda>i. {arr ! i}) ` set [0..<tb_columns t])) = set arr"
    using len slots_of_array [of arr] by simp
  ultimately obtain h' where run: "copy_row_from_table arr t r h = Inr h'"
    and ov: "overwrites (set arr) new h h'" by auto
  have "holds h' arr r (f r)" using overwritesD(4) [OF ov] new by (simp add: holds_def)
  with run overwrites_touches [OF ov] show ?thesis by blast
qed

lemma copy_row_to_sim:
  assumes M: "is_matrix h t cs f" and r: "r < tb_rows t" and len: "length arr = tb_columns t"
    and arr: "holds h arr r v" and apart: "set arr \<inter> set (concat cs) = {}"
  shows "\<exists>h'. copy_row_to_table t arr r h = Inr h' \<and> touches (set (concat cs)) h h'
    \<and> is_matrix h' t cs (\<lambda>i j. if i = r then v j else f i j)"
proof -
  let ?g = "\<lambda>i j. if i = r then v j else f i j"
  let ?S = "\<lambda>j. {cs ! j ! r}"
  obtain new where new: "\<forall>j < tb_columns t. \<forall>i < tb_rows t. new (cs ! j ! i) = (i, j, ?g i j)"
    using new_of_matrix [OF M, of "\<lambda>i j. (i, j, ?g i j)"] by blast
  have "\<exists>h'. copy_row_to_table t arr r h = Inr h' \<and> overwrites (\<Union>(?S ` set [0..<tb_columns t])) new h h'"
    unfolding copy_row_to_table_def
  proof (rule for_each_overwrites)
    fix ys j zs u assume split: "[0..<tb_columns t] = ys @ j # zs"
      and u: "overwrites (\<Union>(?S ` set ys)) new h u"
    from arg_cong [OF split, of set] have j: "j < tb_columns t" and ys: "set ys \<subseteq> {..<tb_columns t}"
      by auto
    have sub: "\<Union>(?S ` set ys) \<subseteq> set (concat cs)" using matrix_node(2) [OF M _ r] ys by blast
    have rows: "entry u (cs ! k ! i) = (i, k, (if cs ! k ! i \<in> \<Union>(?S ` set ys) then ?g i k else f i k))"
      if "i < tb_rows t" "k < tb_columns t" for i k
      using u new that matrix_entry(3) [OF M that(2,1)] by (simp add: overwrites_def)
    have Mu: "is_matrix u t cs (\<lambda>i k. if cs ! k ! i \<in> \<Union>(?S ` set ys) then ?g i k else f i k)"
      by (rule overwrites_new_matrix [OF u M]) (rule rows)
    then have rep: "table_rep u t cs" by (simp add: is_matrix_def)
    have "arr ! j \<notin> \<Union>(?S ` set ys)"
      using sub apart j len nth_mem [of j arr] by (metis disjoint_iff subsetD)
    then have src: "entry u (arr ! j) = (r, j, v j)"
      using overwritesD(3) [OF u] arr j len by (simp add: holds_def)
    let ?a = "cs ! j ! r"
    let ?u' = "upd_node ?a (\<lambda>n. n\<lparr>nd_next := nd_next (cell u ?a)\<rparr>) (upd_node ?a (\<lambda>_. cell u (arr ! j)) u)"
    have "entry ?u' ?a = entry u (arr ! j)" by (simp add: entry_def Let_def)
    then have "overwrites {?a} new u ?u'"
      using src new j r by (auto simp: overwrites_def) (auto simp: entry_def Let_def)
    then show "\<exists>u'. bind_res (head_at t j) (\<lambda>p. bind_res (find_row (brk u) r p u) (\<lambda>q.
       case q of None \<Rightarrow> Inr u
       | Some a \<Rightarrow> if length arr \<le> j then Inl IndexFault else
           let nx = nd_next (cell u a); h' = upd_node a (\<lambda>_. cell u (arr ! j)) u
           in Inr (upd_node a (\<lambda>n. n\<lparr>nd_next := nx\<rparr>) h'))) = Inr u' \<and> overwrites (?S j) new u u'"
      using j len by (simp add: table_rep_column(2) [OF rep] find_row_matrix [OF Mu j r] Let_def)
  qed
  then obtain h' where run: "copy_row_to_table t arr r h = Inr h'"
    and ov: "overwrites (\<Union>(?S ` set [0..<tb_columns t])) new h h'" by blast
  have sub: "\<Union>(?S ` set [0..<tb_columns t]) \<subseteq> set (concat cs)" using matrix_node(2) [OF M _ r] by auto
  have "is_matrix h' t cs ?g"
  proof (rule overwrites_new_matrix [OF ov M])
    fix i j assume i: "i < tb_rows t" and j: "j < tb_columns t"
    show "entry h' (cs ! j ! i) = (i, j, ?g i j)"
    proof (cases "cs ! j ! i \<in> \<Union>(?S ` set [0..<tb_columns t])")
      case True
      then show ?thesis using overwritesD(4) [OF ov] new i j by simp
    next
      case False
      with j have "i \<noteq> r" by auto
      with False show ?thesis using overwritesD(3) [OF ov] matrix_entry(3) [OF M j i] by simp
    qed
  qed
  with run touches_mono [OF overwrites_touches [OF ov] sub] show ?thesis by blast
qed

text \<open>A loop that replaces the value in every slot of an array of distinct nodes.\<close>

lemma array_loop:
  assumes dist: "distinct arr" and arr: "holds h arr r v"
    and body: "\<And>i u. i < length arr \<Longrightarrow> touches (set arr) h u \<Longrightarrow> entry u (arr ! i) = (r, i, v i)
      \<Longrightarrow> F i u = Inr (upd_node (arr ! i) (\<lambda>n. n\<lparr>nd_real := fst (w i), nd_imag := snd (w i)\<rparr>) u)"
  shows "\<exists>h'. for_each [0..<length arr] F h = Inr h' \<and> touches (set arr) h h' \<and> holds h' arr r w"
proof -
  let ?S = "\<lambda>i. {arr ! i}"
  obtain new where new: "\<forall>i < length arr. new (arr ! i) = (r, i, w i)"
    using new_of_list [OF dist, of "\<lambda>i. (r, i, w i)"] by blast
  have "\<exists>h'. for_each [0..<length arr] F h = Inr h' \<and> overwrites (\<Union>(?S ` set [0..<length arr])) new h h'"
  proof (rule for_each_overwrites)
    fix ys i zs u assume split: "[0..<length arr] = ys @ i # zs"
      and u: "overwrites (\<Union>(?S ` set ys)) new h u"
    from arg_cong [OF split, of set] have i: "i < length arr" and ys: "set ys \<subseteq> {..<length arr}"
      by auto
    from arg_cong [OF split, of distinct] have "i \<notin> set ys" by simp
    with dist i ys have "arr ! i \<notin> \<Union>(?S ` set ys)" by (auto simp: nth_eq_iff_index_eq)
    with u arr i have e: "entry u (arr ! i) = (r, i, v i)" by (simp add: overwrites_def holds_def)
    have "\<Union>(?S ` set ys) \<subseteq> set arr" using ys by auto
    then have "touches (set arr) h u" using touches_mono overwrites_touches [OF u] by blast
    from body [OF i this e]
    have "F i u = Inr (upd_node (arr ! i) (\<lambda>n. n\<lparr>nd_real := fst (w i), nd_imag := snd (w i)\<rparr>) u)" .
    moreover have "overwrites (?S i) new u
        (upd_node (arr ! i) (\<lambda>n. n\<lparr>nd_real := fst (w i), nd_imag := snd (w i)\<rparr>) u)"
      using e new i by (intro overwrites_node) (auto simp: entry_def Let_def)
    ultimately show "\<exists>u'. F i u = Inr u' \<and> overwrites (?S i) new u u'" by blast
  qed
  moreover have "\<Union>(?S ` set [0..<length arr]) = set arr" by (rule slots_of_array)
  ultimately obtain h' where "for_each [0..<length arr] F h = Inr h'"
    and ov: "overwrites (set arr) new h h'" by auto
  moreover have "holds h' arr r w" using overwritesD(4) [OF ov] new by (simp add: holds_def)
  ultimately show ?thesis using overwrites_touches [OF ov] by blast
qed

definition cmul :: "'d \<times> 'd \<Rightarrow> 'd \<times> 'd \<Rightarrow> ('d::{plus,minus,times}) \<times> 'd" where
  "cmul x y = (fst x * fst y - snd x * snd y, fst x * snd y + snd x * fst y)"

definition scale :: "('d::{times,divide}) libm \<Rightarrow> 'd \<Rightarrow> 'd \<times> 'd \<Rightarrow> 'd \<times> 'd" where
  "scale F p x = (c_ceil F (fst x div p * c_int F 1000000) div c_int F 1000000,
                  c_ceil F (snd x div p * c_int F 1000000) div c_int F 1000000)"

lemma mult_array_sim:
  assumes dist: "distinct arr" and arr: "holds h arr r v" and c: "c \<notin> set arr"
    and cv: "nd_real (cell h c) = fst z" "nd_imag (cell h c) = snd z" and len: "len = length arr"
  shows "\<exists>h'. mult_array_by_node arr c len h = Inr h' \<and> touches (set arr) h h'
    \<and> holds h' arr r (\<lambda>i. cmul (v i) z)"
  unfolding mult_array_by_node_def len
proof (rule array_loop [OF dist arr])
  fix i u assume i: "i < length arr" and u: "touches (set arr) h u"
    and e: "entry u (arr ! i) = (r, i, v i)"
  from touches_entry [OF u c] cv have "nd_real (cell u c) = fst z" "nd_imag (cell u c) = snd z"
    by (auto simp: entry_def Let_def)
  moreover note entryD [OF e]
  ultimately show "(if length arr \<le> i then Inl IndexFault else
     let x = cell u (arr ! i); y = cell u c;
         re = nd_real x * nd_real y - nd_imag x * nd_imag y;
         im = nd_real x * nd_imag y + nd_imag x * nd_real y
     in Inr (upd_node (arr ! i) (\<lambda>n. n\<lparr>nd_real := re, nd_imag := im\<rparr>) u))
    = Inr (upd_node (arr ! i) (\<lambda>n. n\<lparr>nd_real := fst (cmul (v i) z), nd_imag := snd (cmul (v i) z)\<rparr>) u)"
    using i by (simp add: Let_def cmul_def)
qed

lemma divide_array_sim:
  assumes dist: "distinct arr" and arr: "holds h arr r v" and len: "len = length arr"
  shows "\<exists>h'. divide_array_by_double F arr len p h = Inr h' \<and> touches (set arr) h h'
    \<and> holds h' arr r (\<lambda>i. scale F p (v i))"
  unfolding divide_array_by_double_def len
proof (rule array_loop [OF dist arr])
  fix i u assume i: "i < length arr" and e: "entry u (arr ! i) = (r, i, v i)"
  from entryD [OF this(2)] show "(if length arr \<le> i then Inl IndexFault else
       let a = arr ! i; n = cell u a;
           re = c_ceil F (nd_real n div p * c_int F 1000000) div c_int F 1000000;
           im = c_ceil F (nd_imag n div p * c_int F 1000000) div c_int F 1000000
       in Inr (upd_node a (\<lambda>n. n\<lparr>nd_real := re, nd_imag := im\<rparr>) u))
    = Inr (upd_node (arr ! i) (\<lambda>n. n\<lparr>nd_real := fst (scale F p (v i)), nd_imag := snd (scale F p (v i))\<rparr>) u)"
    using i by (simp add: Let_def scale_def)
qed

end
