(* ===== verification/SefdmColumns.thy ===== *)
theory SefdmColumns
  imports SefdmInvertSim
begin

text \<open>
  The loops of \<open>invert\<close> that run over whole columns: \<open>get_column_from_table\<close>, zeroing,
  the two subtrahends, \<open>table_sub\<close> (also in place) and the final copy.
\<close>

lemma column_cells:
  assumes "is_matrix h t cs f" and "i < tb_columns t"
  shows "chain (\<lambda>a. nd_next (cell h a)) (tb_head t ! i) (cs ! i)"
    and "head_at t i = Inr (tb_head t ! i)" and "length (cs ! i) \<le> brk h"
    and "length (cs ! i) = tb_rows t" and "set (cs ! i) \<subseteq> set (concat cs)" and "distinct (cs ! i)"
proof -
  from assms(1) have rep: "table_rep h t cs" by (simp add: is_matrix_def)
  show ch: "chain (\<lambda>a. nd_next (cell h a)) (tb_head t ! i) (cs ! i)"
    and "head_at t i = Inr (tb_head t ! i)" and "length (cs ! i) \<le> brk h"
    and "set (cs ! i) \<subseteq> set (concat cs)"
    using table_rep_column [OF rep assms(2)] by blast+
  show "distinct (cs ! i)" by (rule chain_distinct [OF ch])
  show "length (cs ! i) = tb_rows t" by (rule matrix_entry(2) [OF assms])
qed

lemma columns_apart:
  assumes "is_matrix h t cs f" and "i < tb_columns t" and "j < tb_columns t" and "i \<noteq> j"
  shows "set (cs ! i) \<inter> set (cs ! j) = {}"
  using assms distinct_concat_nth [of cs i j] by (simp add: is_matrix_def table_rep_def)

section \<open>get_column_from_table\<close>

lemma get_column_sim:
  fixes h :: "'d store"
  assumes M: "is_matrix h t cs f" and r: "r < tb_columns t"
  shows "get_column_from_table t r h = Inr (map Some (cs ! r))"
proof -
  let ?R = "tb_rows t" and ?xs = "cs ! r"
  let ?F = "\<lambda>a (cnodes, h :: 'd store). let k = nd_row (cell h a) in
        if length cnodes \<le> k then Inl IndexFault else Inr (cnodes[k := Some a], h)"
  note col = column_cells [OF M r]
  have "along ?F (tb_head t ! r) (replicate ?R None, h) = for_each ?xs ?F (replicate ?R None, h)"
  proof (rule each_node_chain [where I = "\<lambda>u. snd u = h"])
    show "chain (\<lambda>a. nd_next (cell h a)) (tb_head t ! r) ?xs" by (rule col(1))
  qed (use col(3) in \<open>auto simp: Let_def split: if_splits\<close>)
  moreover have "\<exists>s. for_each ?xs ?F (replicate ?R None, h) = Inr s
      \<and> s = (map Some ?xs @ replicate (?R - length ?xs) None, h)"
  proof (rule for_each_prefix [where P = "\<lambda>ys s. s = (map Some ys @ replicate (?R - length ys) None, h)"])
    fix ys a zs u assume split: "?xs = ys @ a # zs"
      and u: "u = (map Some ys @ replicate (?R - length ys) None, h)"
    have k: "length ys < ?R" using arg_cong [OF split, of length] col(4) by simp
    have a: "a = ?xs ! length ys" by (simp add: split)
    have row: "nd_row (cell h a) = length ys" unfolding a by (rule matrix_cell(1) [OF M r k])
    obtain d where d: "?R - length ys = Suc d" using k by (cases "?R - length ys") auto
    then have d': "?R - Suc (length ys) = d" by simp
    show "\<exists>u'. ?F a u = Inr u' \<and> u' = (map Some (ys @ [a]) @ replicate (?R - length (ys @ [a])) None, h)"
      by (simp add: u row Let_def d d' list_update_append)
  qed simp
  ultimately show ?thesis using col(2,4) by (auto simp: get_column_from_table_def)
qed

section \<open>Overwriting columns\<close>

lemma column_loop:
  assumes M: "is_matrix h t cs f" and sub: "set xs \<subseteq> {..<tb_columns t}" and dist: "distinct xs"
    and body: "\<And>i u new. i \<in> set xs \<Longrightarrow> touches (set (concat cs)) h u
      \<Longrightarrow> (\<And>k. k < tb_rows t \<Longrightarrow> entry u (cs ! i ! k) = (k, i, f k i))
      \<Longrightarrow> (\<And>k. k < tb_rows t \<Longrightarrow> new (cs ! i ! k) = (k, i, g k i))
      \<Longrightarrow> \<exists>u'. F i u = Inr u' \<and> overwrites (set (cs ! i)) new u u'"
  shows "\<exists>h'. for_each xs F h = Inr h' \<and> touches (set (concat cs)) h h'
    \<and> is_matrix h' t cs (\<lambda>k i. if i \<in> set xs then g k i else f k i)"
proof -
  let ?S = "\<lambda>i. set (cs ! i)"
  obtain new where new: "\<forall>j < tb_columns t. \<forall>i < tb_rows t. new (cs ! j ! i) = (i, j, g i j)"
    using new_of_matrix [OF M, of "\<lambda>i j. (i, j, g i j)"] by blast
  have inside: "\<Union>(?S ` A) \<subseteq> set (concat cs)" if "A \<subseteq> {..<tb_columns t}" for A
    using column_cells(5) [OF M] that by fastforce
  have outside: "cs ! j ! k \<notin> \<Union>(?S ` A)"
    if "A \<subseteq> {..<tb_columns t}" "j < tb_columns t" "j \<notin> A" "k < tb_rows t" for A j k
  proof
    assume "cs ! j ! k \<in> \<Union>(?S ` A)"
    then obtain i where i: "i \<in> A" "cs ! j ! k \<in> set (cs ! i)" by blast
    with that have "i < tb_columns t" "j \<noteq> i" by auto
    with columns_apart [OF M that(2)] matrix_node(1) [OF M that(2,4)] i(2) show False by blast
  qed
  have "\<exists>h'. for_each xs F h = Inr h' \<and> overwrites (\<Union>(?S ` set xs)) new h h'"
  proof (rule for_each_overwrites)
    fix ys i zs u assume split: "xs = ys @ i # zs" and u: "overwrites (\<Union>(?S ` set ys)) new h u"
    have i: "i \<in> set xs" "i < tb_columns t" and ys: "set ys \<subseteq> {..<tb_columns t}" and "i \<notin> set ys"
      using split sub dist by auto
    then show "\<exists>u'. F i u = Inr u' \<and> overwrites (?S i) new u u'"
    proof (intro body)
      show "touches (set (concat cs)) h u"
        by (rule touches_mono [OF overwrites_touches [OF u] inside [OF ys]])
      show "entry u (cs ! i ! k) = (k, i, f k i)" if "k < tb_rows t" for k
        using overwritesD(3) [OF u outside [OF ys i(2) \<open>i \<notin> set ys\<close> that]]
          matrix_entry(3) [OF M i(2) that] by simp
      show "new (cs ! i ! k) = (k, i, g k i)" if "k < tb_rows t" for k using new i that by simp
    qed
  qed
  then obtain h' where run: "for_each xs F h = Inr h'" and ov: "overwrites (\<Union>(?S ` set xs)) new h h'"
    by blast
  have "is_matrix h' t cs (\<lambda>k i. if i \<in> set xs then g k i else f k i)"
  proof (rule overwrites_new_matrix [OF ov M])
    fix k i assume k: "k < tb_rows t" and i: "i < tb_columns t"
    show "entry h' (cs ! i ! k) = (k, i, if i \<in> set xs then g k i else f k i)"
    proof (cases "i \<in> set xs")
      case True
      then have "cs ! i ! k \<in> \<Union>(?S ` set xs)" using matrix_node(1) [OF M i k] by blast
      with True show ?thesis using overwritesD(4) [OF ov] new i k by simp
    next
      case False
      then show ?thesis
        using overwritesD(3) [OF ov outside [OF sub i False k]] matrix_entry(3) [OF M i k] by simp
    qed
  qed
  with run touches_mono [OF overwrites_touches [OF ov] inside [OF sub]] show ?thesis by blast
qed

lemma zero_columns_sim:
  fixes h :: "('d::zero) store"
  assumes M: "is_matrix h t cs f" and r: "r \<le> tb_columns t"
  shows "\<exists>h'. zero_columns t r h = Inr h' \<and> touches (set (concat cs)) h h'
    \<and> is_matrix h' t cs (\<lambda>k i. if i < r then (0, 0) else f k i)"
proof -
  let ?z = "\<lambda>a. upd_node a (\<lambda>n. n\<lparr>nd_real := 0, nd_imag := 0\<rparr>)"
  have "\<exists>h'. zero_columns t r h = Inr h' \<and> touches (set (concat cs)) h h'
    \<and> is_matrix h' t cs (\<lambda>k i. if i \<in> set [0..<r] then (0, 0) else f k i)"
    unfolding zero_columns_def
  proof (rule column_loop [OF M])
    fix i and u :: "'d store" and new :: "nat \<Rightarrow> 'd entry" assume "i \<in> set [0..<r]" and u: "touches (set (concat cs)) h u"
      and e: "\<And>k. k < tb_rows t \<Longrightarrow> entry u (cs ! i ! k) = (k, i, f k i)"
      and new: "\<And>k. k < tb_rows t \<Longrightarrow> new (cs ! i ! k) = (k, i, (0, 0))"
    then have i: "i < tb_columns t" using r by simp
    note col = column_cells [OF M i]
    have ch: "chain (\<lambda>a. nd_next (cell u a)) (tb_head t ! i) (cs ! i)" "length (cs ! i) \<le> brk u"
      using u col(1,3) by (simp_all add: touches_def)
    have "each_node (brk u) (\<lambda>a (v, h). Inr (v, ?z a h)) (tb_head t ! i) ((), u)
        = for_each (cs ! i) (\<lambda>a (v, h). Inr (v, ?z a h)) ((), u)"
      by (rule each_node_chain [where I = "\<lambda>v. \<forall>a. nd_next (cell (snd v) a) = nd_next (cell u a)", OF ch])
         auto
    also have "\<dots> = Inr (fold (\<lambda>a (v, h). (v, ?z a h)) (cs ! i) ((), u))"
      by (rule for_each_pure) (simp split: prod.split)
    also have "fold (\<lambda>a (v, h). (v, ?z a h)) xs ((), u) = ((), fold ?z xs u)" for xs :: "nat list" and u :: "'d store"
      by (induction xs arbitrary: u) simp_all
    finally have walk: "each_node (brk u) (\<lambda>a (v, h). Inr (v, ?z a h)) (tb_head t ! i) ((), u)
        = Inr ((), fold ?z (cs ! i) u)" .
    have "\<exists>u'. for_each (cs ! i) (\<lambda>a h. Inr (?z a h)) u = Inr u'
        \<and> overwrites (\<Union>((\<lambda>a. {a}) ` set (cs ! i))) new u u'"
    proof (rule for_each_overwrites)
      fix ys a zs v assume split: "cs ! i = ys @ a # zs"
        and v: "overwrites (\<Union>((\<lambda>a. {a}) ` set ys)) new u v"
      have k: "length ys < tb_rows t" using arg_cong [OF split, of length] col(4) by simp
      have a: "a = cs ! i ! length ys" by (simp add: split)
      have "a \<notin> set ys" using col(6) split by simp
      then have "entry v a = (length ys, i, f (length ys) i)"
        using overwritesD(3) [OF v] e [OF k] a by simp
      from entryD [OF this] have "overwrites {a} new v (?z a v)"
        using new [OF k] a by (intro overwrites_node) simp_all
      then show "\<exists>u'. Inr (?z a v) = Inr u' \<and> overwrites {a} new v u'" by blast
    qed
    then have "overwrites (set (cs ! i)) new u (fold ?z (cs ! i) u)"
      by (simp add: for_each_pure)
    with walk show "\<exists>u'. bind_res (head_at t i) (\<lambda>p. bind_res
        (along (\<lambda>a (u, h). Inr (u, ?z a h)) p ((), u)) (\<lambda>(u, h). Inr h)) = Inr u'
        \<and> overwrites (set (cs ! i)) new u u'"
      by (simp add: col(2))
  qed (use r in auto)
  then show ?thesis by (simp add: if_distrib cong: if_cong)
qed

section \<open>table_sub\<close>

definition sub_entry :: "'d entry \<Rightarrow> 'd entry \<Rightarrow> ('d::minus) entry" where
  "sub_entry x y = (fst x, fst (snd x), fst (snd (snd x)) - fst (snd (snd y)),
                    snd (snd (snd x)) - snd (snd (snd y)))"

lemma sub_column_chain:
  assumes "chain (\<lambda>a. nd_next (cell h a)) p as" and "chain (\<lambda>a. nd_next (cell h a)) q bs"
    and "chain (\<lambda>a. nd_next (cell h a)) s cs"
    and "length as = length cs" and "length bs = length cs" and "length cs \<le> n"
    and "distinct cs" and "set bs \<inter> set cs = {}" and "as = cs \<or> set as \<inter> set cs = {}"
    and "\<And>k. k < length cs \<Longrightarrow> new (cs ! k) = sub_entry (entry h (as ! k)) (entry h (bs ! k))"
  shows "\<exists>h'. sub_column n p q s h = Inr h' \<and> overwrites (set cs) new h h'"
  using assms
proof (induction cs arbitrary: as bs p q s n h)
  case Nil
  then show ?case by (auto intro: overwrites_empty)
next
  case (Cons c cs)
  from Cons.prems(4) obtain a as' where as: "as = a # as'" by (cases as) auto
  from Cons.prems(5) obtain b bs' where bs: "bs = b # bs'" by (cases bs) auto
  from Cons.prems(6) obtain m where n: "n = Suc m" by (cases n) auto
  from Cons.prems(1-3) have p: "p = Some a" "q = Some b" "s = Some c" by (simp_all add: as bs)
  have bc: "b \<noteq> c" "c \<notin> set bs'" "c \<notin> set cs" using Cons.prems(7,8) by (auto simp: bs)
  have ac: "c \<notin> set as'" "as' = cs \<or> set as' \<inter> set cs = {}"
    using Cons.prems(7,9) by (auto simp: as)
  define x where "x = cell h a"
  define y where "y = cell h b"
  define h1 where "h1 = upd_node c (\<lambda>n. n\<lparr>nd_real := nd_real x - nd_real y\<rparr>) h"
  define h2 where "h2 = upd_node c (\<lambda>n. n\<lparr>nd_imag := nd_imag (cell h1 a) - nd_imag (cell h1 b)\<rparr>) h1"
  define h3 where "h3 = upd_node c (\<lambda>n. n\<lparr>nd_row := nd_row (cell h2 a)\<rparr>) h2"
  define h4 where "h4 = upd_node c (\<lambda>n. n\<lparr>nd_col := nd_col (cell h3 a)\<rparr>) h3"
  have run: "sub_column n p q s h
      = sub_column m (nd_next (cell h4 a)) (nd_next (cell h4 b)) (nd_next (cell h4 c)) h4"
    by (simp add: p n Let_def x_def y_def h1_def h2_def h3_def h4_def)
  have "entry h4 c = sub_entry (entry h a) (entry h b)"
    using bc(1) by (cases "a = c")
      (simp_all add: entry_def Let_def sub_entry_def x_def y_def h1_def h2_def h3_def h4_def)
  then have ov: "overwrites {c} new h h4"
    using Cons.prems(10) [of 0]
    by (auto simp: overwrites_def as bs) (auto simp: entry_def h1_def h2_def h3_def h4_def)
  have links: "nd_next (cell h4 z) = nd_next (cell h z)" for z by (rule overwritesD(2) [OF ov])
  have "\<exists>h'. sub_column m (nd_next (cell h4 a)) (nd_next (cell h4 b)) (nd_next (cell h4 c)) h4 = Inr h'
      \<and> overwrites (set cs) new h4 h'"
  proof (rule Cons.IH [of h4 _ as' _ bs'])
    fix k assume k: "k < length cs"
    have "as' ! k \<noteq> c" "bs' ! k \<noteq> c"
      using ac(1) bc(2) k Cons.prems(4,5) by (auto simp: as bs)
    then show "new (cs ! k) = sub_entry (entry h4 (as' ! k)) (entry h4 (bs' ! k))"
      using Cons.prems(10) [of "Suc k"] k overwritesD(3) [OF ov] by (simp add: as bs)
  qed (use Cons.prems n bc ac in \<open>auto simp: as bs links\<close>)
  then obtain h' where "sub_column n p q s h = Inr h'" and "overwrites (set cs) new h4 h'"
    using run by auto
  with overwrites_trans [OF ov this(2)] show ?case by simp
qed

definition csub :: "'d \<times> 'd \<Rightarrow> 'd \<times> 'd \<Rightarrow> ('d::minus) \<times> 'd" where
  "csub x y = (fst x - fst y, snd x - snd y)"

lemma table_sub_sim:
  assumes A: "is_matrix h A as f" and B: "is_matrix h B bs g" and C: "is_matrix h C cs e"
    and dims: "tb_rows A = tb_rows C" "tb_columns A = tb_columns C"
      "tb_rows B = tb_rows C" "tb_columns B = tb_columns C"
    and bc: "set (concat bs) \<inter> set (concat cs) = {}"
    and ac: "A = C \<and> as = cs \<or> set (concat as) \<inter> set (concat cs) = {}"
  shows "\<exists>h'. table_sub C A B h = Inr h' \<and> touches (set (concat cs)) h h'
    \<and> is_matrix h' C cs (\<lambda>i j. csub (f i j) (g i j))"
proof -
  have "\<exists>h'. table_sub C A B h = Inr h' \<and> touches (set (concat cs)) h h'
    \<and> is_matrix h' C cs (\<lambda>k i. if i \<in> set [0..<tb_columns C] then csub (f k i) (g k i) else e k i)"
    unfolding table_sub_def
  proof (rule column_loop [OF C])
    fix i u new assume "i \<in> set [0..<tb_columns C]" and u: "touches (set (concat cs)) h u"
      and eC: "\<And>k. k < tb_rows C \<Longrightarrow> entry u (cs ! i ! k) = (k, i, e k i)"
      and new: "\<And>k. k < tb_rows C \<Longrightarrow> new (cs ! i ! k) = (k, i, csub (f k i) (g k i))"
    then have i: "i < tb_columns C" by simp
    then have iA: "i < tb_columns A" and iB: "i < tb_columns B" by (simp_all add: dims)
    have eA: "entry u (as ! i ! k) = (k, i, f k i)" if k: "k < tb_rows C" for k
    proof (cases "A = C \<and> as = cs")
      case True
      with matrix_entry(3) [OF A iA, of k] matrix_entry(3) [OF C i k] k eC [OF k] show ?thesis by simp
    next
      case False
      have "as ! i ! k \<in> set (concat as)" by (rule matrix_node(2) [OF A iA]) (simp add: dims k)
      with ac False have "as ! i ! k \<notin> set (concat cs)" by blast
      with touches_entry [OF u] matrix_entry(3) [OF A iA, of k] k show ?thesis by (simp add: dims)
    qed
    have eB: "entry u (bs ! i ! k) = (k, i, g k i)" if k: "k < tb_rows C" for k
    proof -
      have "bs ! i ! k \<in> set (concat bs)" by (rule matrix_node(2) [OF B iB]) (simp add: dims k)
      with bc have "bs ! i ! k \<notin> set (concat cs)" by blast
      with touches_entry [OF u] matrix_entry(3) [OF B iB, of k] k show ?thesis by (simp add: dims)
    qed
    note cA = column_cells [OF A iA] and cB = column_cells [OF B iB] and cC = column_cells [OF C i]
    have "\<exists>u'. sub_column (brk u) (tb_head A ! i) (tb_head B ! i) (tb_head C ! i) u = Inr u'
        \<and> overwrites (set (cs ! i)) new u u'"
    proof (rule sub_column_chain [of u _ "as ! i" _ "bs ! i"])
      show "set (bs ! i) \<inter> set (cs ! i) = {}" using cB(5) cC(5) bc by blast
      show "as ! i = cs ! i \<or> set (as ! i) \<inter> set (cs ! i) = {}" using cA(5) cC(5) ac by blast
      show "new (cs ! i ! k) = sub_entry (entry u (as ! i ! k)) (entry u (bs ! i ! k))"
        if "k < length (cs ! i)" for k
        using that cC(4) new [of k] eA [of k] eB [of k] by (simp add: sub_entry_def csub_def)
    qed (use u cA cB cC dims in \<open>simp_all add: touches_def\<close>)
    then show "\<exists>u'. bind_res (head_at A i) (\<lambda>a. bind_res (head_at B i) (\<lambda>b. bind_res (head_at C i)
        (\<lambda>c. sub_column (brk u) a b c u))) = Inr u' \<and> overwrites (set (cs ! i)) new u u'"
      by (simp add: cA(2) cB(2) cC(2))
  qed auto
  then obtain h' where "table_sub C A B h = Inr h'" "touches (set (concat cs)) h h'"
    and m: "is_matrix h' C cs (\<lambda>k i. if i \<in> set [0..<tb_columns C] then csub (f k i) (g k i) else e k i)"
    by blast
  moreover have "is_matrix h' C cs (\<lambda>i j. csub (f i j) (g i j))"
    by (rule overwrites_new_matrix [OF touches_overwrites [OF touches_refl] m])
       (use matrix_entry(3) [OF m] in simp)
  ultimately show ?thesis by blast
qed

end
