(* ===== verification/SefdmRounds.thy ===== *)
theory SefdmRounds
  imports SefdmColumns
begin

text \<open>
  One round of \<open>invert\<close> as an update of the pair of matrices (\<open>round_mat\<close>), and
  \<open>invert\<close> as two rounds.
\<close>

section \<open>Subtrahends\<close>

definition sub_value :: "('d \<Rightarrow> 'd \<Rightarrow> 'd) \<Rightarrow> nat \<Rightarrow> nat option list \<Rightarrow> nat list
    \<Rightarrow> ('d::{plus,times,zero}) store \<Rightarrow> nat \<Rightarrow> nat \<Rightarrow> 'd entry" where
  "sub_value real_op r Cr Rr h m s =
     (nd_row (cell h s), nd_col (cell h s),
      if nd_row (cell h s) \<noteq> r then
        let x = cell h (the (Cr ! nd_row (cell h m))); y = cell h (Rr ! nd_col (cell h m)) in
        (real_op (nd_real x * nd_real y) (nd_imag x * nd_imag y),
         nd_real x * nd_imag y + nd_imag x * nd_real y)
      else (0, 0))"

definition readable :: "nat option list \<Rightarrow> nat list \<Rightarrow> 'd store \<Rightarrow> nat set \<Rightarrow> nat \<Rightarrow> bool" where
  "readable Cr Rr h S m \<longleftrightarrow> m \<notin> S \<and> nd_row (cell h m) < length Cr \<and> nd_col (cell h m) < length Rr
     \<and> Rr ! nd_col (cell h m) \<notin> S \<and> (\<exists>c. Cr ! nd_row (cell h m) = Some c \<and> c \<notin> S)"

lemma sub_value_cong:
  assumes "overwrites {z} new h h'" and "z \<in> S" and "readable Cr Rr h S m" and "s \<noteq> z"
  shows "sub_value op r Cr Rr h' m s = sub_value op r Cr Rr h m s"
proof -
  from assms(2,3) obtain c where c: "Cr ! nd_row (cell h m) = Some c" "c \<noteq> z" and m: "m \<noteq> z"
    and y: "Rr ! nd_col (cell h m) \<noteq> z" by (auto simp: readable_def)
  have out: "a \<noteq> z \<Longrightarrow> a \<notin> {z}" for a by simp
  show ?thesis
    unfolding sub_value_def
    by (simp add: overwrites_cell [OF assms(1) out] assms(4) c m y Let_def)
qed

lemma readable_cong:
  assumes "overwrites {z} new h h'" and "z \<in> S" and "readable Cr Rr h S m" and "T \<subseteq> S"
  shows "readable Cr Rr h' T m"
proof -
  from assms(2,3) have "m \<notin> {z}" by (auto simp: readable_def)
  from overwrites_cell(1,2) [OF assms(1) this] assms(3,4) show ?thesis
    unfolding readable_def by auto
qed

lemma subtrahend_column_chain:
  fixes h :: "('d::{plus,times,zero}) store"
  assumes "chain (\<lambda>a. nd_next (cell h a)) p as" and "chain (\<lambda>a. nd_next (cell h a)) q ss"
    and "length as = length ss" and "length ss \<le> n" and "distinct ss"
    and "\<And>a. a \<in> set as \<Longrightarrow> readable Cr Rr h (set ss) a"
    and "\<And>k. k < length ss \<Longrightarrow> new (ss ! k) = sub_value op r Cr Rr h (as ! k) (ss ! k)"
  shows "\<exists>h'. subtrahend_column op n r Cr Rr p q h = Inr h' \<and> overwrites (set ss) new h h'"
  using assms
proof (induction ss arbitrary: as p q n h)
  case Nil
  then show ?case by (auto intro: overwrites_empty)
next
  case (Cons s ss)
  from Cons.prems(3) obtain m as' where as: "as = m # as'" by (cases as) auto
  from Cons.prems(4) obtain n' where n: "n = Suc n'" by (cases n) auto
  from Cons.prems(1,2) have p: "p = Some m" "q = Some s" by (simp_all add: as)
  from Cons.prems(6) [of m] have rd: "readable Cr Rr h (set (s # ss)) m" by (simp add: as)
  then obtain c where c: "Cr ! nd_row (cell h m) = Some c" "c \<noteq> s" and ms: "m \<noteq> s"
    and y: "Rr ! nd_col (cell h m) \<noteq> s" and bounds: "nd_row (cell h m) < length Cr"
      "nd_col (cell h m) < length Rr"
    by (auto simp: readable_def)
  have new0: "new s = sub_value op r Cr Rr h m s" using Cons.prems(7) [of 0] by (simp add: as)
  define x where "x = cell h c"
  define z where "z = cell h (Rr ! nd_col (cell h m))"
  define h1 where "h1 = (if nd_row (cell h s) \<noteq> r
    then upd_node s (\<lambda>k. k\<lparr>nd_real := op (nd_real x * nd_real z) (nd_imag x * nd_imag z),
           nd_imag := nd_real x * nd_imag z + nd_imag x * nd_real z\<rparr>) h
    else upd_node s (\<lambda>k. k\<lparr>nd_real := 0, nd_imag := 0\<rparr>) h)"
  have twice: "upd_node s f (upd_node s g h) = upd_node s (f \<circ> g) h" for f g and h :: "'d store"
    by (simp add: upd_node_def)
  have run: "subtrahend_column op n r Cr Rr p q h
      = subtrahend_column op n' r Cr Rr (nd_next (cell h1 m)) (nd_next (cell h1 s)) h1"
    using bounds c ms y
    by (simp add: p n Let_def set_var_def h1_def x_def z_def twice comp_def)
  have ov: "overwrites {s} new h h1"
    unfolding h1_def using new0 c
    by (cases "nd_row (cell h s) = r")
       (auto intro!: overwrites_node simp: sub_value_def Let_def x_def z_def)
  have links: "nd_next (cell h1 a) = nd_next (cell h a)" for a by (rule overwritesD(2) [OF ov])
  have "\<exists>h'. subtrahend_column op n' r Cr Rr (nd_next (cell h1 m)) (nd_next (cell h1 s)) h1 = Inr h'
      \<and> overwrites (set ss) new h1 h'"
  proof (rule Cons.IH [of h1 _ as'])
    show "readable Cr Rr h1 (set ss) a" if "a \<in> set as'" for a
      by (rule readable_cong [OF ov, of "set (s # ss)"]) (use Cons.prems(6) that in \<open>auto simp: as\<close>)
    show "new (ss ! k) = sub_value op r Cr Rr h1 (as' ! k) (ss ! k)" if k: "k < length ss" for k
    proof -
      have "as' ! k \<in> set as" using k Cons.prems(3) by (simp add: as)
      then have "readable Cr Rr h (set (s # ss)) (as' ! k)" by (rule Cons.prems(6))
      moreover have "ss ! k \<noteq> s" using Cons.prems(5) k by auto
      ultimately have "sub_value op r Cr Rr h1 (as' ! k) (ss ! k) = sub_value op r Cr Rr h (as' ! k) (ss ! k)"
        by (intro sub_value_cong [OF ov]) auto
      with Cons.prems(7) [of "Suc k"] k show ?thesis by (simp add: as)
    qed
  qed (use Cons.prems n in \<open>auto simp: as links\<close>)
  then obtain h' where "subtrahend_column op n r Cr Rr p q h = Inr h'" and "overwrites (set ss) new h1 h'"
    using run by auto
  with overwrites_trans [OF ov this(2)] show ?case by simp
qed

definition sub_cell :: "('d \<Rightarrow> 'd \<Rightarrow> 'd) \<Rightarrow> nat \<Rightarrow> (nat \<Rightarrow> nat \<Rightarrow> 'd \<times> 'd) \<Rightarrow> (nat \<Rightarrow> 'd \<times> 'd)
    \<Rightarrow> nat \<Rightarrow> nat \<Rightarrow> ('d::{plus,times,zero}) \<times> 'd" where
  "sub_cell real_op r C v k i = (if k \<noteq> r then
     (real_op (fst (C k r) * fst (v i)) (snd (C k r) * snd (v i)),
      fst (C k r) * snd (v i) + snd (C k r) * fst (v i)) else (0, 0))"

text \<open>
  The statement both subtrahends share: \<open>Cr\<close> is column \<open>r\<close> of \<open>A\<close>, the array holds the
  pivot row, and the columns \<open>xs\<close> of \<open>S\<close> are written while those of \<open>M\<close> are walked.
\<close>

lemma subtrahend_loop:
  fixes h :: "('d::{plus,times,zero}) store"
  assumes A: "is_matrix h A as C" and r: "r < tb_columns A"
    and M: "is_matrix h M ms f" and S: "is_matrix h S ss e"
    and arr: "holds h arr r0 v" and len: "length arr = tb_columns S"
    and dims: "tb_rows M = tb_rows S" "tb_columns M = tb_columns S" "tb_rows A = tb_rows S"
    and apart: "set (concat as) \<inter> set (concat ss) = {}" "set (concat ms) \<inter> set (concat ss) = {}"
      "set arr \<inter> set (concat ss) = {}"
    and xs: "set xs \<subseteq> {..<tb_columns S}" "distinct xs"
  shows "\<exists>h'. for_each xs (\<lambda>i h. bind_res (head_at M i) (\<lambda>m. bind_res (head_at S i) (\<lambda>s.
       subtrahend_column op (brk h) r (map Some (as ! r)) arr m s h))) h = Inr h'
    \<and> touches (set (concat ss)) h h'
    \<and> is_matrix h' S ss (\<lambda>k i. if i \<in> set xs then sub_cell op r C v k i else e k i)"
proof (rule column_loop [OF S xs])
  fix i and u :: "'d store" and new :: "nat \<Rightarrow> 'd entry"
  assume "i \<in> set xs" and u: "touches (set (concat ss)) h u"
    and eS: "\<And>k. k < tb_rows S \<Longrightarrow> entry u (ss ! i ! k) = (k, i, e k i)"
    and new: "\<And>k. k < tb_rows S \<Longrightarrow> new (ss ! i ! k) = (k, i, sub_cell op r C v k i)"
  then have i: "i < tb_columns S" using xs by auto
  then have iM: "i < tb_columns M" by (simp add: dims)
  from u A have Au: "is_matrix u A as C" by (rule touches_matrix) (use apart in blast)
  from u M have Mu: "is_matrix u M ms f" by (rule touches_matrix) (use apart in blast)
  from u arr have arr_u: "holds u arr r0 v" by (rule touches_holds) (use apart in blast)
  note cA = column_cells [OF Au r] and cM = column_cells [OF Mu iM] and cS = column_cells [OF S i]
  have iarr: "i < length arr" using i len by simp
  have "\<exists>u'. subtrahend_column op (brk u) r (map Some (as ! r)) arr (tb_head M ! i) (tb_head S ! i) u = Inr u'
      \<and> overwrites (set (ss ! i)) new u u'"
  proof (rule subtrahend_column_chain [of u _ "ms ! i"])
    fix a assume "a \<in> set (ms ! i)"
    then obtain k where k: "k < tb_rows M" and a: "a = ms ! i ! k"
      using cM(4) by (auto simp: in_set_conv_nth)
    note c = matrix_cell [OF Mu iM k]
    have "a \<notin> set (ss ! i)"
      using \<open>a \<in> set (ms ! i)\<close> cM(5) cS(5) apart(2) by blast
    moreover have "arr ! i \<notin> set (ss ! i)"
      using nth_mem [OF iarr] cS(5) apart(3) by blast
    moreover have "as ! r ! k \<notin> set (ss ! i)"
      using matrix_node(2) [OF Au r, of k] k cS(5) apart(1) by (simp add: dims) blast
    ultimately show "readable (map Some (as ! r)) arr u (set (ss ! i)) a"
      using k iarr cA(4) by (simp add: readable_def a c dims)
  next
    fix k assume "k < length (ss ! i)"
    then have k: "k < tb_rows S" using cS(4) by simp
    then have kM: "k < tb_rows M" and kA: "k < tb_rows A" by (simp_all add: dims)
    note cm = matrix_cell [OF Mu iM kM] and ca = matrix_cell [OF Au r kA]
      and h = holds_cell [OF arr_u iarr] and es = entryD [OF eS [OF k]]
    show "new (ss ! i ! k) = sub_value op r (map Some (as ! r)) arr u (ms ! i ! k) (ss ! i ! k)"
      using new [OF k] k kA cA(4) by (simp add: sub_value_def sub_cell_def cm ca h es Let_def)
  qed (use u cM cS dims in \<open>simp_all add: touches_def\<close>)
  then show "\<exists>u'. bind_res (head_at M i) (\<lambda>m. bind_res (head_at S i) (\<lambda>s.
       subtrahend_column op (brk u) r (map Some (as ! r)) arr m s u)) = Inr u'
      \<and> overwrites (set (ss ! i)) new u u'"
    by (simp add: cM(2) cS(2))
qed

section \<open>Normalising the pivot row\<close>

lemma entry_eqD:
  assumes "entry h' a = entry h b"
  shows "nd_row (cell h' a) = nd_row (cell h b)" and "nd_col (cell h' a) = nd_col (cell h b)"
    and "nd_real (cell h' a) = nd_real (cell h b)" and "nd_imag (cell h' a) = nd_imag (cell h b)"
  using assms by (simp_all add: entry_def Let_def)

definition norm_rows :: "('d::{plus,minus,times,divide}) libm \<Rightarrow> nat \<Rightarrow> (nat \<Rightarrow> 'd \<times> 'd)
    \<Rightarrow> (nat \<Rightarrow> 'd \<times> 'd) \<Rightarrow> (nat \<Rightarrow> 'd \<times> 'd) \<times> (nat \<Rightarrow> 'd \<times> 'd)" where
  "norm_rows F r v w =
     (let z = v r; v1 = (if nonzero F (snd z) then (\<lambda>i. cmul (v i) z) else v);
          w1 = (if nonzero F (snd z) then (\<lambda>i. cmul (w i) z) else w); p = fst (v1 r)
      in (\<lambda>i. scale F p (v1 i), \<lambda>i. scale F p (w1 i)))"

definition set_row :: "nat \<Rightarrow> (nat \<Rightarrow> 'e) \<Rightarrow> (nat \<Rightarrow> nat \<Rightarrow> 'e) \<Rightarrow> nat \<Rightarrow> nat \<Rightarrow> 'e" where
  "set_row r v f = (\<lambda>i j. if i = r then v j else f i j)"

lemma normalise_row_sim:
  fixes h :: "('d::{plus,minus,times,divide,zero}) store"
  assumes A: "is_matrix h A as f" and G: "is_matrix h G gs g"
    and rows: "r < tb_rows A" "r < tb_rows G" and r: "r < n"
    and cols: "tb_columns A = n" "tb_columns G = n"
    and len: "length (iv_Rr V) = n" "length (iv_Ar V) = n"
    and dist: "distinct (concat as @ concat gs @ iv_Rr V @ iv_Ar V @ [iv_conj V])"
    and vw: "norm_rows F r (f r) (g r) = (v, w)"
  shows "\<exists>h'. normalise_row F n V r A G h = Inr h'
    \<and> touches (set (concat as @ concat gs @ iv_Rr V @ iv_Ar V @ [iv_conj V])) h h'
    \<and> is_matrix h' A as (set_row r v f) \<and> is_matrix h' G gs (set_row r w g)
    \<and> holds h' (iv_Rr V) r v \<and> holds h' (iv_Ar V) r w"
proof -
  let ?Rr = "iv_Rr V" and ?Ar = "iv_Ar V" and ?c = "iv_conj V" and ?z = "f r r"
  let ?W = "set (concat as @ concat gs @ ?Rr @ ?Ar @ [?c])"
  have dRr: "distinct ?Rr" and dAr: "distinct ?Ar" using dist by (simp_all only: distinct_append)
  have sep: "set ?Rr \<inter> set (concat as) = {}" "set ?Rr \<inter> set (concat gs) = {}"
    "set ?Ar \<inter> set (concat as) = {}" "set ?Ar \<inter> set (concat gs) = {}"
    "set ?Rr \<inter> set ?Ar = {}" "set ?Ar \<inter> set ?Rr = {}" "?c \<notin> set ?Rr" "?c \<notin> set ?Ar"
    "{?c} \<inter> set (concat as) = {}" "{?c} \<inter> set (concat gs) = {}"
    "{?c} \<inter> set ?Rr = {}" "{?c} \<inter> set ?Ar = {}"
    "set (concat as) \<inter> set (concat gs) = {}" "set (concat as) \<inter> set ?Rr = {}"
    "set (concat as) \<inter> set ?Ar = {}" "set (concat gs) \<inter> set ?Rr = {}"
    "set (concat gs) \<inter> set ?Ar = {}"
    using dist unfolding distinct_append by auto
  \<comment> \<open>copy_row_from_table, twice\<close>
  obtain h1 where run1: "copy_row_from_table ?Rr A r h = Inr h1" and t1: "touches (set ?Rr) h h1"
    and R1: "holds h1 ?Rr r (f r)"
    using copy_row_from_sim [OF A rows(1) _ dRr sep(1)] len cols by auto
  have A1: "is_matrix h1 A as f" and G1: "is_matrix h1 G gs g"
    using touches_matrix [OF t1] A G sep by blast+
  obtain h2 where run2: "copy_row_from_table ?Ar G r h1 = Inr h2" and t2: "touches (set ?Ar) h1 h2"
    and G2: "holds h2 ?Ar r (g r)"
    using copy_row_from_sim [OF G1 rows(2) _ dAr sep(4)] len cols by auto
  have R2: "holds h2 ?Rr r (f r)" by (rule touches_holds [OF t2 R1 sep(6)])
  note piv = holds_cell [OF R2, of r, unfolded len, OF r]
  \<comment> \<open>the node called conj\<close>
  define h3 where "h3 = node_init ?c (nd_real (cell h2 (?Rr ! r))) (nd_imag (cell h2 (?Rr ! r)))
    (nd_row (cell h2 (?Rr ! r))) (nd_col (cell h2 (?Rr ! r))) h2"
  have t3: "touches {?c} h2 h3" by (simp add: touches_def h3_def)
  have R3: "holds h3 ?Rr r (f r)" by (rule touches_holds [OF t3 R2 sep(11)])
  have G3: "holds h3 ?Ar r (g r)" by (rule touches_holds [OF t3 G2 sep(12)])
  have cz: "nd_real (cell h3 ?c) = fst ?z" "nd_imag (cell h3 ?c) = snd ?z" by (simp_all add: h3_def piv)
  have pim: "nd_imag (cell h3 (?Rr ! r)) = snd ?z" using holds_cell(4) [OF R3, of r] len r by simp
  define v1 where "v1 = (if nonzero F (snd ?z) then (\<lambda>i. cmul (f r i) ?z) else f r)"
  define w1 where "w1 = (if nonzero F (snd ?z) then (\<lambda>i. cmul (g r i) ?z) else g r)"
  obtain h4 where run4: "(if nonzero F (nd_imag (cell h3 (?Rr ! r)))
               then bind_res (mult_array_by_node ?Rr ?c n h3) (mult_array_by_node ?Ar ?c n)
               else Inr h3) = Inr h4"
    and t4: "touches (set ?Rr \<union> set ?Ar) h3 h4"
    and R4: "holds h4 ?Rr r v1" and G4: "holds h4 ?Ar r w1"
  proof (cases "nonzero F (snd ?z)")
    case True
    obtain k where k: "mult_array_by_node ?Rr ?c n h3 = Inr k" and tk: "touches (set ?Rr) h3 k"
      and Rk: "holds k ?Rr r (\<lambda>i. cmul (f r i) ?z)"
      using mult_array_sim [OF dRr R3 sep(7) cz, of n] len by auto
    have Gk: "holds k ?Ar r (g r)" by (rule touches_holds [OF tk G3 sep(5)])
    have ck: "nd_real (cell k ?c) = fst ?z" "nd_imag (cell k ?c) = snd ?z"
      using entry_eqD(3,4) [OF touches_entry [OF tk sep(7)]] cz by simp_all
    obtain l where l: "mult_array_by_node ?Ar ?c n k = Inr l" and tl: "touches (set ?Ar) k l"
      and Gl: "holds l ?Ar r (\<lambda>i. cmul (g r i) ?z)"
      using mult_array_sim [OF dAr Gk sep(8) ck, of n] len by auto
    have Rl: "holds l ?Rr r (\<lambda>i. cmul (f r i) ?z)" by (rule touches_holds [OF tl Rk sep(6)])
    show ?thesis
      by (rule that [of l]) (use True k l touches_trans [OF tk tl] Rl Gl in \<open>simp_all add: pim v1_def w1_def\<close>)
  next
    case False
    then show ?thesis
      by (intro that [of h3]) (use R3 G3 in \<open>simp_all add: pim v1_def w1_def touches_refl\<close>)
  qed
  define p where "p = fst (v1 r)"
  have pr: "nd_real (cell h4 (?Rr ! r)) = p" using holds_cell(3) [OF R4, of r] len r by (simp add: p_def)
  have v: "v = (\<lambda>i. scale F p (v1 i))" and w: "w = (\<lambda>i. scale F p (w1 i))"
    using vw by (simp_all add: norm_rows_def Let_def p_def v1_def w1_def)
  obtain h5 where run5: "divide_array_by_double F ?Rr n p h4 = Inr h5" and t5: "touches (set ?Rr) h4 h5"
    and R5: "holds h5 ?Rr r v"
    using divide_array_sim [OF dRr R4, of n F p] len v by auto
  have G5: "holds h5 ?Ar r w1" by (rule touches_holds [OF t5 G4 sep(5)])
  obtain h6 where run6: "divide_array_by_double F ?Ar n p h5 = Inr h6" and t6: "touches (set ?Ar) h5 h6"
    and G6: "holds h6 ?Ar r w"
    using divide_array_sim [OF dAr G5, of n F p] len w by auto
  have R6: "holds h6 ?Rr r v" by (rule touches_holds [OF t6 R5 sep(6)])
  have t36: "touches (set ?Rr \<union> set ?Ar \<union> {?c}) h h6"
    by (rule touches_mono [OF touches_trans [OF touches_trans [OF touches_trans [OF touches_trans
        [OF touches_trans [OF t1 t2] t3] t4] t5] t6]]) auto
  have A6: "is_matrix h6 A as f" by (rule touches_matrix [OF t36 A]) (insert sep, unfold disjoint_iff, blast)
  have M6: "is_matrix h6 G gs g" by (rule touches_matrix [OF t36 G]) (insert sep, unfold disjoint_iff, blast)
  obtain h7 where run7: "copy_row_to_table A ?Rr r h6 = Inr h7" and t7: "touches (set (concat as)) h6 h7"
    and A7: "is_matrix h7 A as (set_row r v f)"
    using copy_row_to_sim [OF A6 rows(1) _ R6 sep(1)] len cols unfolding set_row_def by auto
  have M7: "is_matrix h7 G gs g" by (rule touches_matrix [OF t7 M6 sep(13)])
  have R7: "holds h7 ?Rr r v" by (rule touches_holds [OF t7 R6 sep(14)])
  have G7: "holds h7 ?Ar r w" by (rule touches_holds [OF t7 G6 sep(15)])
  obtain h8 where run8: "copy_row_to_table G ?Ar r h7 = Inr h8" and t8: "touches (set (concat gs)) h7 h8"
    and M8: "is_matrix h8 G gs (set_row r w g)"
    using copy_row_to_sim [OF M7 rows(2) _ G7 sep(4)] len cols unfolding set_row_def by auto
  have A8: "is_matrix h8 A as (set_row r v f)"
    by (rule touches_matrix [OF t8 A7]) (insert sep(13), unfold disjoint_iff, blast)
  have R8: "holds h8 ?Rr r v" by (rule touches_holds [OF t8 R7 sep(16)])
  have G8: "holds h8 ?Ar r w" by (rule touches_holds [OF t8 G7 sep(17)])
  have "\<not> length ?Rr \<le> r" using r len(1) by simp
  then have "normalise_row F n V r A G h = Inr h8"
    by (simp only: normalise_row_def run1 run2 bind_res_simps if_False Let_def h3_def [symmetric]
        run4 pr run5 run6 run7 run8)
  moreover have "touches ?W h h8"
    by (rule touches_mono [OF touches_trans [OF touches_trans [OF t36 t7] t8]]) auto
  ultimately show ?thesis using A8 M8 R8 G8 by blast
qed

section \<open>A round\<close>

definition round_mat :: "('d::{plus,minus,times,divide,zero}) libm \<Rightarrow> nat
    \<Rightarrow> (nat \<Rightarrow> nat \<Rightarrow> 'd \<times> 'd) \<times> (nat \<Rightarrow> nat \<Rightarrow> 'd \<times> 'd)
    \<Rightarrow> (nat \<Rightarrow> nat \<Rightarrow> 'd \<times> 'd) \<times> (nat \<Rightarrow> nat \<Rightarrow> 'd \<times> 'd)" where
  "round_mat F r = (\<lambda>(f, g). let (v, w) = norm_rows F r (f r) (g r);
       f1 = set_row r v f; g1 = set_row r w g in
     (\<lambda>k i. csub (f1 k i) (if r \<le> i then sub_cell (-) r f1 v k i else (0, 0)),
      \<lambda>k i. csub (g1 k i) (if i \<le> r then sub_cell (+) r f1 w k i else (0, 0))))"

definition square :: "nat \<Rightarrow> 'd table \<Rightarrow> bool" where
  "square n t \<longleftrightarrow> tb_rows t = n \<and> tb_columns t = n"

definition nodes_of :: "'d inv_vars \<Rightarrow> nat list list \<Rightarrow> nat list list \<Rightarrow> nat list list
    \<Rightarrow> nat list list \<Rightarrow> nat list" where
  "nodes_of V as gs ss bs = concat as @ concat gs @ concat ss @ concat bs @ iv_Rr V @ iv_Ar V @ [iv_conj V]"

text \<open>
  What holds before round \<open>r\<close>: the working tables are square matrices on disjoint nodes,
  except that \<open>Aprime\<close> may be \<open>A\<close> itself and \<open>Augprime\<close> may be \<open>Aug\<close>, and the augmented
  subtrahend is still zero from column \<open>r\<close> on.
\<close>

definition inv_world :: "nat \<Rightarrow> ('d::zero) inv_vars \<Rightarrow> nat list list \<Rightarrow> nat list list \<Rightarrow> nat list list
    \<Rightarrow> nat list list \<Rightarrow> nat \<Rightarrow> 'd table \<Rightarrow> nat list list \<Rightarrow> (nat \<Rightarrow> nat \<Rightarrow> 'd \<times> 'd)
    \<Rightarrow> 'd table \<Rightarrow> nat list list \<Rightarrow> (nat \<Rightarrow> nat \<Rightarrow> 'd \<times> 'd) \<Rightarrow> 'd store \<Rightarrow> bool" where
  "inv_world n V ss bs ps qs r A as f G gs g h \<longleftrightarrow>
     is_matrix h A as f \<and> is_matrix h G gs g
     \<and> (\<exists>e. is_matrix h (iv_subtr V) ss e)
     \<and> (\<exists>b. is_matrix h (iv_asubtr V) bs b \<and> (\<forall>k i. r \<le> i \<longrightarrow> b k i = (0, 0)))
     \<and> (\<exists>p. is_matrix h (iv_Aprime V) ps p) \<and> (\<exists>q. is_matrix h (iv_Augprime V) qs q)
     \<and> square n A \<and> square n G \<and> square n (iv_subtr V) \<and> square n (iv_asubtr V)
     \<and> square n (iv_Aprime V) \<and> square n (iv_Augprime V)
     \<and> length (iv_Rr V) = n \<and> length (iv_Ar V) = n
     \<and> distinct (nodes_of V as gs ss bs)
     \<and> (A = iv_Aprime V \<and> as = ps \<or> set (nodes_of V as gs ss bs) \<inter> set (concat ps) = {})
     \<and> (G = iv_Augprime V \<and> gs = qs \<or> set (nodes_of V as gs ss bs) \<inter> set (concat qs) = {})
     \<and> set (concat ps) \<inter> set (concat qs) = {}"

lemma is_matrix_cong:
  assumes "is_matrix h t cs f" and "\<And>i j. i < tb_rows t \<Longrightarrow> j < tb_columns t \<Longrightarrow> f i j = g i j"
  shows "is_matrix h t cs g"
  by (rule overwrites_new_matrix [OF overwrites_empty assms(1)])
     (simp add: matrix_entry(3) [OF assms(1)] assms(2))

lemma distinct_of_matrix: "is_matrix h t cs f \<Longrightarrow> distinct (concat cs)"
  by (simp add: is_matrix_def table_rep_def)

lemma invert_round_sim:
  fixes h :: "('d::{plus,minus,times,divide,zero}) store"
  assumes W: "inv_world n V ss bs ps qs r A as f G gs g h" and r: "r < n"
    and fg: "round_mat F r (f, g) = (f', g')"
  shows "\<exists>h'. invert_round F n V r (A, G, h) = Inr (iv_Aprime V, iv_Augprime V, h')
    \<and> inv_world n V ss bs ps qs (Suc r) (iv_Aprime V) ps f' (iv_Augprime V) qs g' h'
    \<and> touches (set (nodes_of V as gs ss bs) \<union> set (concat ps) \<union> set (concat qs)) h h'"
proof -
  let ?S = "iv_subtr V" and ?B = "iv_asubtr V" and ?P = "iv_Aprime V" and ?Q = "iv_Augprime V"
  let ?Rr = "iv_Rr V" and ?Ar = "iv_Ar V"
  from W obtain e b p q where A: "is_matrix h A as f" and G: "is_matrix h G gs g"
    and S: "is_matrix h ?S ss e" and B: "is_matrix h ?B bs b"
    and b0: "\<And>k i. r \<le> i \<Longrightarrow> b k i = (0, 0)"
    and P: "is_matrix h ?P ps p" and Q: "is_matrix h ?Q qs q"
    and sq: "square n A" "square n G" "square n ?S" "square n ?B" "square n ?P" "square n ?Q"
    and len: "length ?Rr = n" "length ?Ar = n" and dist: "distinct (nodes_of V as gs ss bs)"
    and AP: "A = ?P \<and> as = ps \<or> set (nodes_of V as gs ss bs) \<inter> set (concat ps) = {}"
    and GQ: "G = ?Q \<and> gs = qs \<or> set (nodes_of V as gs ss bs) \<inter> set (concat qs) = {}"
    and PQ: "set (concat ps) \<inter> set (concat qs) = {}"
    unfolding inv_world_def by blast
  have dims: "tb_rows A = n" "tb_columns A = n" "tb_rows G = n" "tb_columns G = n"
    "tb_rows ?S = n" "tb_columns ?S = n" "tb_rows ?B = n" "tb_columns ?B = n"
    "tb_rows ?P = n" "tb_columns ?P = n" "tb_rows ?Q = n" "tb_columns ?Q = n"
    using sq by (simp_all add: square_def)
  let ?NA = "set (concat as)" and ?NG = "set (concat gs)" and ?NS = "set (concat ss)"
    and ?NB = "set (concat bs)" and ?NP = "set (concat ps)" and ?NQ = "set (concat qs)"
    and ?R = "set ?Rr \<union> set ?Ar \<union> {iv_conj V}"
  have sep: "?NA \<inter> ?NG = {}" "?NA \<inter> ?NS = {}" "?NA \<inter> ?NB = {}" "?NA \<inter> ?R = {}"
    "?NG \<inter> ?NS = {}" "?NG \<inter> ?NB = {}" "?NG \<inter> ?R = {}" "?NS \<inter> ?NB = {}" "?NS \<inter> ?R = {}" "?NB \<inter> ?R = {}"
    using dist unfolding nodes_of_def distinct_append by auto
  have sepR: "set ?Rr \<inter> ?NS = {}" "set ?Ar \<inter> ?NB = {}"
    using dist unfolding nodes_of_def distinct_append by auto
  have sepP: "?NG \<inter> ?NP = {}" "?NS \<inter> ?NP = {}" "?NB \<inter> ?NP = {}" "?R \<inter> ?NP = {}"
    using AP sep unfolding nodes_of_def by auto
  have sepQ: "?NA \<inter> ?NQ = {}" "?NS \<inter> ?NQ = {}" "?NB \<inter> ?NQ = {}" "?R \<inter> ?NQ = {}"
    using GQ sep unfolding nodes_of_def by auto
  obtain v w where vw: "norm_rows F r (f r) (g r) = (v, w)" by (cases "norm_rows F r (f r) (g r)")
  define f1 where "f1 = set_row r v f"
  define g1 where "g1 = set_row r w g"
  have f': "f' = (\<lambda>k i. csub (f1 k i) (if r \<le> i then sub_cell (-) r f1 v k i else (0, 0)))"
    and g': "g' = (\<lambda>k i. csub (g1 k i) (if i \<le> r then sub_cell (+) r f1 w k i else (0, 0)))"
    using fg unfolding f1_def g1_def by (auto simp: round_mat_def vw Let_def)
  \<comment> \<open>the pivot row\<close>
  have "distinct (concat as @ concat gs @ ?Rr @ ?Ar @ [iv_conj V])"
    using dist unfolding nodes_of_def distinct_append by auto
  then obtain h1 where run1: "normalise_row F n V r A G h = Inr h1"
    and t1: "touches (?NA \<union> ?NG \<union> ?R) h h1"
    and A1: "is_matrix h1 A as f1" and G1: "is_matrix h1 G gs g1"
    and R1: "holds h1 ?Rr r v" and W1: "holds h1 ?Ar r w"
    using normalise_row_sim [OF A G _ _ r _ _ len _ vw] dims r
    by (auto simp: f1_def g1_def Un_assoc)
  have S1: "is_matrix h1 ?S ss e" by (rule touches_matrix [OF t1 S]) (insert sep, unfold disjoint_iff, blast)
  have B1: "is_matrix h1 ?B bs b" by (rule touches_matrix [OF t1 B]) (insert sep, unfold disjoint_iff, blast)
  have Cr: "get_column_from_table A r h1 = Inr (map Some (as ! r))"
    by (rule get_column_sim [OF A1]) (simp add: dims r)
  \<comment> \<open>zeroing\<close>
  obtain h2 where run2: "zero_columns ?S r h1 = Inr h2" and t2: "touches ?NS h1 h2"
    and S2: "is_matrix h2 ?S ss (\<lambda>k i. if i < r then (0, 0) else e k i)"
    using zero_columns_sim [OF S1, of r] dims r by auto
  have B2: "is_matrix h2 ?B bs b" by (rule touches_matrix [OF t2 B1]) (insert sep, unfold disjoint_iff, blast)
  obtain h3 where run3: "zero_columns ?B r h2 = Inr h3" and t3: "touches ?NB h2 h3"
    and B3: "is_matrix h3 ?B bs (\<lambda>k i. if i < r then (0, 0) else b k i)"
    using zero_columns_sim [OF B2, of r] dims r by auto
  have t23: "touches (?NS \<union> ?NB) h1 h3" by (rule touches_trans [OF t2 t3])
  have A3: "is_matrix h3 A as f1" by (rule touches_matrix [OF t23 A1]) (insert sep, unfold disjoint_iff, blast)
  have G3: "is_matrix h3 G gs g1" by (rule touches_matrix [OF t23 G1]) (insert sep, unfold disjoint_iff, blast)
  have R3: "holds h3 ?Rr r v" by (rule touches_holds [OF t23 R1]) (insert sep, unfold disjoint_iff, blast)
  have W3: "holds h3 ?Ar r w" by (rule touches_holds [OF t23 W1]) (insert sep, unfold disjoint_iff, blast)
  have S3: "is_matrix h3 ?S ss (\<lambda>k i. if i < r then (0, 0) else e k i)"
    by (rule touches_matrix [OF t3 S2]) (insert sep, unfold disjoint_iff, blast)
  \<comment> \<open>the two subtrahends\<close>
  have "\<exists>h'. subtrahend r (map Some (as ! r)) ?Rr A ?S h3 = Inr h' \<and> touches ?NS h3 h'
    \<and> is_matrix h' ?S ss (\<lambda>k i. if i \<in> set [r..<n] then sub_cell (-) r f1 v k i
         else if i < r then (0, 0) else e k i)"
    unfolding subtrahend_def dims(2)
    by (rule subtrahend_loop [OF A3 _ A3 S3 R3 _ _ _ _ sep(2) sep(2) sepR(1)])
       (simp_all add: dims r len subset_eq)
  then obtain h4 where run4: "subtrahend r (map Some (as ! r)) ?Rr A ?S h3 = Inr h4"
    and t4: "touches ?NS h3 h4"
    and S4': "is_matrix h4 ?S ss (\<lambda>k i. if i \<in> set [r..<n] then sub_cell (-) r f1 v k i
         else if i < r then (0, 0) else e k i)" by blast
  have S4: "is_matrix h4 ?S ss (\<lambda>k i. if r \<le> i then sub_cell (-) r f1 v k i else (0, 0))"
    by (rule is_matrix_cong [OF S4']) (auto simp: dims)
  have A4: "is_matrix h4 A as f1" by (rule touches_matrix [OF t4 A3]) (insert sep, unfold disjoint_iff, blast)
  have G4: "is_matrix h4 G gs g1" by (rule touches_matrix [OF t4 G3]) (insert sep, unfold disjoint_iff, blast)
  have B4: "is_matrix h4 ?B bs (\<lambda>k i. if i < r then (0, 0) else b k i)"
    by (rule touches_matrix [OF t4 B3]) (insert sep, unfold disjoint_iff, blast)
  have W4: "holds h4 ?Ar r w" by (rule touches_holds [OF t4 W3]) (insert sep, unfold disjoint_iff, blast)
  have "\<exists>h'. aug_subtrahend r (map Some (as ! r)) ?Ar G ?B h4 = Inr h' \<and> touches ?NB h4 h'
    \<and> is_matrix h' ?B bs (\<lambda>k i. if i \<in> set [0..<Suc r] then sub_cell (+) r f1 w k i
         else if i < r then (0, 0) else b k i)"
    unfolding aug_subtrahend_def
    by (rule subtrahend_loop [OF A4 _ G4 B4 W4 _ _ _ _ sep(3) sep(6) sepR(2)])
       (use r in \<open>simp_all add: dims len subset_eq\<close>)
  then obtain h5 where run5: "aug_subtrahend r (map Some (as ! r)) ?Ar G ?B h4 = Inr h5"
    and t5: "touches ?NB h4 h5"
    and B5': "is_matrix h5 ?B bs (\<lambda>k i. if i \<in> set [0..<Suc r] then sub_cell (+) r f1 w k i
         else if i < r then (0, 0) else b k i)" by blast
  have B5: "is_matrix h5 ?B bs (\<lambda>k i. if i \<le> r then sub_cell (+) r f1 w k i else (0, 0))"
    by (rule is_matrix_cong [OF B5']) (auto simp: b0)
  have A5: "is_matrix h5 A as f1" by (rule touches_matrix [OF t5 A4]) (insert sep, unfold disjoint_iff, blast)
  have G5: "is_matrix h5 G gs g1" by (rule touches_matrix [OF t5 G4]) (insert sep, unfold disjoint_iff, blast)
  have S5: "is_matrix h5 ?S ss (\<lambda>k i. if r \<le> i then sub_cell (-) r f1 v k i else (0, 0))"
    by (rule touches_matrix [OF t5 S4]) (insert sep, unfold disjoint_iff, blast)
  have t05: "touches (?NA \<union> ?NG \<union> ?R \<union> ?NS \<union> ?NB) h h5"
    by (rule touches_mono [OF touches_trans [OF touches_trans [OF touches_trans [OF t1 t23] t4] t5]]) auto
  \<comment> \<open>the subtractions\<close>
  have P5: "\<exists>p. is_matrix h5 ?P ps p"
  proof (cases "A = ?P \<and> as = ps")
    case True
    with A5 show ?thesis by auto
  next
    case False
    with AP have "(?NA \<union> ?NG \<union> ?R \<union> ?NS \<union> ?NB) \<inter> ?NP = {}" by (auto simp: nodes_of_def)
    with touches_matrix [OF t05 P] show ?thesis by blast
  qed
  have Q5: "\<exists>q. is_matrix h5 ?Q qs q"
  proof (cases "G = ?Q \<and> gs = qs")
    case True
    with G5 show ?thesis by auto
  next
    case False
    with GQ have "(?NA \<union> ?NG \<union> ?R \<union> ?NS \<union> ?NB) \<inter> ?NQ = {}" by (auto simp: nodes_of_def)
    with touches_matrix [OF t05 Q] show ?thesis by blast
  qed
  obtain p5 where P5: "is_matrix h5 ?P ps p5" using P5 by blast
  obtain q5 where Q5: "is_matrix h5 ?Q qs q5" using Q5 by blast
  have acP: "A = ?P \<and> as = ps \<or> ?NA \<inter> ?NP = {}" using AP by (auto simp: nodes_of_def)
  have acQ: "G = ?Q \<and> gs = qs \<or> ?NG \<inter> ?NQ = {}" using GQ by (auto simp: nodes_of_def)
  obtain h6 where run6: "table_sub ?P A ?S h5 = Inr h6" and t6: "touches ?NP h5 h6"
    and P6: "is_matrix h6 ?P ps f'"
    using table_sub_sim [OF A5 S5 P5 _ _ _ _ sepP(2) acP] dims unfolding f' by auto
  have G6: "is_matrix h6 G gs g1" by (rule touches_matrix [OF t6 G5]) (insert sepP, unfold disjoint_iff, blast)
  have B6: "is_matrix h6 ?B bs (\<lambda>k i. if i \<le> r then sub_cell (+) r f1 w k i else (0, 0))"
    by (rule touches_matrix [OF t6 B5]) (insert sepP, unfold disjoint_iff, blast)
  have Q6: "is_matrix h6 ?Q qs q5" by (rule touches_matrix [OF t6 Q5]) (insert PQ, unfold disjoint_iff, blast)
  obtain h7 where run7: "table_sub ?Q G ?B h6 = Inr h7" and t7: "touches ?NQ h6 h7"
    and Q7: "is_matrix h7 ?Q qs g'"
    using table_sub_sim [OF G6 B6 Q6 _ _ _ _ sepQ(3) acQ] dims unfolding g' by auto
  have t67: "touches (?NP \<union> ?NQ) h5 h7" by (rule touches_trans [OF t6 t7])
  have P7: "is_matrix h7 ?P ps f'" by (rule touches_matrix [OF t7 P6]) (insert PQ, unfold disjoint_iff, blast)
  have S7: "is_matrix h7 ?S ss (\<lambda>k i. if r \<le> i then sub_cell (-) r f1 v k i else (0, 0))"
    by (rule touches_matrix [OF t67 S5]) (insert sepP sepQ, unfold disjoint_iff, blast)
  have B7: "is_matrix h7 ?B bs (\<lambda>k i. if i \<le> r then sub_cell (+) r f1 w k i else (0, 0))"
    by (rule touches_matrix [OF t67 B5]) (insert sepP sepQ, unfold disjoint_iff, blast)
  have run: "invert_round F n V r (A, G, h) = Inr (?P, ?Q, h7)"
    by (simp add: invert_round_def run1 Cr run2 run3 run4 run5 run6 run7)
  have dist': "distinct (nodes_of V ps qs ss bs)"
  proof -
    let ?T = "concat ss @ concat bs @ ?Rr @ ?Ar @ [iv_conj V]"
    have "distinct ?T" using dist by (simp only: nodes_of_def distinct_append)
    moreover have "set ?T = ?NS \<union> ?NB \<union> ?R" by (simp only: set_append list.set) blast
    then have "?NP \<inter> set ?T = {}" "?NQ \<inter> set ?T = {}"
      by (insert sepP sepQ, unfold disjoint_iff, blast+)
    moreover note PQ distinct_of_matrix [OF P] distinct_of_matrix [OF Q]
    ultimately show ?thesis
      unfolding nodes_of_def distinct_append [of "concat ps"] distinct_append [of "concat qs"]
        set_append [of "concat qs"]
      by (simp only: Int_Un_distrib simp_thms Un_empty)
  qed
  have "inv_world n V ss bs ps qs (Suc r) ?P ps f' ?Q qs g' h7"
  proof -
    have "\<exists>e. is_matrix h7 ?S ss e" "\<exists>p. is_matrix h7 ?P ps p" "\<exists>q. is_matrix h7 ?Q qs q"
      using S7 P7 Q7 by blast+
    moreover have "\<exists>b. is_matrix h7 ?B bs b \<and> (\<forall>k i. Suc r \<le> i \<longrightarrow> b k i = (0, 0))"
      by (rule exI, rule conjI, rule B7) simp
    ultimately show ?thesis
      using P7 Q7 sq len dist' PQ by (simp only: inv_world_def simp_thms)
  qed
  moreover have "touches (set (nodes_of V as gs ss bs) \<union> ?NP \<union> ?NQ) h h7"
    by (rule touches_mono [OF touches_trans [OF t05 t67]]) (auto simp: nodes_of_def)
  ultimately show ?thesis using run by blast
qed

end
