(* ===== verification/SefdmInverse.thy ===== *)
theory SefdmInverse
  imports SefdmRounds
begin

text \<open>
  \<open>invert\<close> as a whole: the tables it makes before its loop satisfy \<open>inv_world\<close>, and the
  copy back to the caller's table; \<open>invert_refines_rounds\<close> is the refinement.
\<close>

section \<open>Copies and dummies\<close>

lemma copy_table_matrix:
  fixes h :: "('d::zero) store"
  assumes M: "is_matrix h src ss f"
  obtains t' h' cs' where
    "copy_table src (table_init (tb_rows src) (tb_columns src), h) = Inr (t', h')"
    and "is_matrix h' t' cs' f"
    and "tb_rows t' = tb_rows src" and "tb_columns t' = tb_columns src"
    and "\<forall>a < brk h. cell h' a = cell h a" and "\<forall>a \<in> set (concat cs'). brk h \<le> a"
    and "brk h \<le> brk h'"
proof -
  let ?R = "tb_rows src" and ?C = "tb_columns src"
  let ?t = "table_init ?R ?C :: 'd table" and ?cs = "replicate ?C [] :: nat list list"
  from M have src: "table_rep h src ss" by (simp add: is_matrix_def)
  have dims: "tb_columns ?t = ?C" by (simp add: table_init_def)
  have step: "bind_res (head_at src i) (\<lambda>p. along (\<lambda>a s. let n = cell (snd s) a in
        append_new (nd_row n, nd_col n, nd_real n, nd_imag n) s) p u)
      = for_each [0..<?R] (\<lambda>j. append_new (j, i, f j i)) u"
    if i: "i < ?C" and u: "reach h ?t ?cs u" for i u
  proof -
    have ent: "entry h a \<in> (\<lambda>j. (j, i, f j i)) ` {0..<?R}" if "a \<in> set (ss ! i)" for a
      using arg_cong [OF matrix_entry(1) [OF M i], of set] that by auto
    have "along (\<lambda>a s. let n = cell (snd s) a in
        append_new (nd_row n, nd_col n, nd_real n, nd_imag n) s) (tb_head src ! i) u
      = for_each (ss ! i) (\<lambda>a. append_new (entry h a)) u"
    proof (rule along_source [OF src i _ u table_rep_init])
      fix a v assume a: "a \<in> set (ss ! i)" and v: "reach h ?t ?cs v"
      have "a < brk h" by (rule table_rep_bound [OF src table_rep_column(4) [OF src i a]])
      then have "entry (snd v) a = entry h a" by (rule reach_frame(1) [OF v])
      then show "(let n = cell (snd v) a in append_new (nd_row n, nd_col n, nd_real n, nd_imag n) v)
          = append_new (entry h a) v"
        by (simp add: entry_def Let_def)
    next
      fix a assume "a \<in> set (ss ! i)"
      from ent [OF this] i show "fst (snd (entry h a)) < tb_columns ?t" by (auto simp: table_init_def)
    qed auto
    also have "\<dots> = for_each (map (entry h) (ss ! i)) append_new u" by (simp add: for_each_map)
    also have "\<dots> = for_each [0..<?R] (\<lambda>j. append_new (j, i, f j i)) u"
      unfolding matrix_entry(1) [OF M i] by (simp add: for_each_map)
    finally show ?thesis by (simp add: table_rep_column(2) [OF src i])
  qed
  have run: "copy_table src (?t, h)
      = for_each [0..<?C] (\<lambda>i. for_each [0..<?R] (\<lambda>j. append_new (j, i, f j i))) (?t, h)"
    unfolding copy_table_def
  proof (rule for_each_eq_inv [where I = "reach h ?t ?cs"])
    show "reach h ?t ?cs (?t, h)" by (rule reach_refl) (rule table_rep_init)
    show "reach h ?t ?cs u'" if "i \<in> set [0..<?C]" "reach h ?t ?cs u"
      "for_each [0..<?R] (\<lambda>j. append_new (j, i, f j i)) u = Inr u'" for i u u'
      by (rule reach_for_each [OF that(2) table_rep_init _ that(3)]) (use that(1) dims in simp)
  qed (rule step; simp)
  show ?thesis
    by (rule build_matrix [of ?R ?C h "\<lambda>i j. append_new (i, j, f i j)" f]) (simp_all add: run that)
qed

lemma dummy_table_matrix:
  fixes h :: "('d::zero) store"
  obtains t' h' cs' where "dummy_table (table_init R C, h) = Inr (t', h')"
    and "is_matrix h' t' cs' (\<lambda>i j. (0, 0))"
    and "tb_rows t' = R" and "tb_columns t' = C"
    and "\<forall>a < brk h. cell h' a = cell h a" and "\<forall>a \<in> set (concat cs'). brk h \<le> a"
    and "brk h \<le> brk h'"
proof -
  let ?t = "table_init R C :: 'd table" and ?cs = "replicate C [] :: nat list list"
  let ?xs = "concat (map (\<lambda>i. map (\<lambda>j. (i, j)) [0..<C]) [0..<R])"
  let ?e = "\<lambda>(i, j). (i, j, (0, 0) :: 'd \<times> 'd)"
  have dims: "tb_columns ?t = C" by (simp add: table_init_def)
  have run: "dummy_table (?t, h) = for_each ?xs (\<lambda>x. append_new (?e x)) (?t, h)"
    unfolding for_each_concat [symmetric] for_each_map by (simp add: dummy_table_def table_init_def Let_def)
  have "\<exists>s. for_each ?xs (\<lambda>x. append_new (?e x)) (?t, h) = Inr s \<and> grown h ?t ?cs (map ?e ?xs) s"
    by (rule build_loop [OF table_rep_init]) (auto simp: dims)
  then obtain t' h' where ok: "dummy_table (?t, h) = Inr (t', h')"
    and g: "grown h ?t ?cs (map ?e ?xs) (t', h')" unfolding run by auto
  have es: "map ?e ?xs = concat (map (\<lambda>i. map (\<lambda>j. (i, j, (0, 0))) [0..<C]) [0..<R])"
    by (simp add: map_concat comp_def)
  show ?thesis
    by (rule grown_matrix [OF g, of "\<lambda>i j. (0, 0)"])
       (simp_all add: es filter_by_rows [where f = "\<lambda>i j. (0, 0)"] that [OF ok])
qed

lemma alloc_array_eq: "alloc_array n h = ([brk h..<brk h + n], h\<lparr>brk := brk h + n\<rparr>)"
  by (induction n arbitrary: h) (simp_all add: malloc_node_def upt_conv_Cons)

section \<open>Copying back\<close>

lemma copy_back_chain:
  assumes "chain (\<lambda>a. nd_next (cell h a)) p ms" and "chain (\<lambda>a. nd_next (cell h a)) q as"
    and "length as = length ms" and "length ms \<le> n" and "distinct ms" and "set as \<inter> set ms = {}"
    and "\<And>k. k < length ms \<Longrightarrow> new (ms ! k) = (nd_row (cell h (ms ! k)), nd_col (cell h (ms ! k)),
      nd_real (cell h (as ! k)), nd_imag (cell h (as ! k)))"
  shows "\<exists>h'. copy_back n p q h = Inr h' \<and> overwrites (set ms) new h h'"
  using assms
proof (induction ms arbitrary: as p q n h)
  case Nil
  then show ?case by (auto intro: overwrites_empty)
next
  case (Cons m ms)
  from Cons.prems(3) obtain a as' where as: "as = a # as'" by (cases as) auto
  from Cons.prems(4) obtain n' where n: "n = Suc n'" by (cases n) auto
  from Cons.prems(1,2) have p: "p = Some m" "q = Some a" by (simp_all add: as)
  have am: "a \<noteq> m" using Cons.prems(6) by (auto simp: as)
  define h1 where "h1 = upd_node m (\<lambda>k. k\<lparr>nd_real := nd_real (cell h a), nd_imag := nd_imag (cell h a)\<rparr>) h"
  have run: "copy_back n p q h = copy_back n' (nd_next (cell h1 m)) (nd_next (cell h1 a)) h1"
    by (simp add: p n Let_def h1_def)
  have ov: "overwrites {m} new h h1"
    unfolding h1_def using Cons.prems(7) [of 0] by (intro overwrites_node) (simp_all add: as)
  have links: "nd_next (cell h1 z) = nd_next (cell h z)" for z by (rule overwritesD(2) [OF ov])
  have "\<exists>h'. copy_back n' (nd_next (cell h1 m)) (nd_next (cell h1 a)) h1 = Inr h'
      \<and> overwrites (set ms) new h1 h'"
  proof (rule Cons.IH [of h1 _ _ as'])
    fix k assume k: "k < length ms"
    then have "ms ! k \<notin> {m}" using Cons.prems(5) by auto
    moreover have "as' ! k \<notin> {m}"
      using Cons.prems(3,6) k nth_mem [of k as'] by (auto simp: as)
    ultimately show "new (ms ! k) = (nd_row (cell h1 (ms ! k)), nd_col (cell h1 (ms ! k)),
        nd_real (cell h1 (as' ! k)), nd_imag (cell h1 (as' ! k)))"
      using Cons.prems(7) [of "Suc k"] k by (simp add: as overwrites_cell [OF ov])
  qed (use Cons.prems n in \<open>auto simp: as links\<close>)
  then obtain h' where "copy_back n p q h = Inr h'" and "overwrites (set ms) new h1 h'"
    using run by auto
  with overwrites_trans [OF ov this(2)] show ?case by simp
qed

lemma copy_back_sim:
  fixes h :: "'d store"
  assumes U: "is_matrix h U us g" and G: "is_matrix h G gs g'"
    and dims: "tb_rows G = tb_rows U" "tb_columns G = tb_columns U"
    and apart: "set (concat gs) \<inter> set (concat us) = {}"
  shows "\<exists>h'. for_each [0..<tb_columns U] (\<lambda>i h. bind_res (head_at U i) (\<lambda>m.
       bind_res (head_at G i) (\<lambda>a. copy_back (brk h) m a h))) h = Inr h'
    \<and> touches (set (concat us)) h h' \<and> is_matrix h' U us g'"
proof -
  have "\<exists>h'. for_each [0..<tb_columns U] (\<lambda>i h. bind_res (head_at U i) (\<lambda>m.
       bind_res (head_at G i) (\<lambda>a. copy_back (brk h) m a h))) h = Inr h'
    \<and> touches (set (concat us)) h h'
    \<and> is_matrix h' U us (\<lambda>k i. if i \<in> set [0..<tb_columns U] then g' k i else g k i)"
  proof (rule column_loop [OF U])
    fix i and u :: "'d store" and new :: "nat \<Rightarrow> 'd entry"
    assume "i \<in> set [0..<tb_columns U]" and u: "touches (set (concat us)) h u"
      and e: "\<And>k. k < tb_rows U \<Longrightarrow> entry u (us ! i ! k) = (k, i, g k i)"
      and new: "\<And>k. k < tb_rows U \<Longrightarrow> new (us ! i ! k) = (k, i, g' k i)"
    then have i: "i < tb_columns U" and iG: "i < tb_columns G" by (simp_all add: dims)
    from u G have Gu: "is_matrix u G gs g'" by (rule touches_matrix) (use apart in blast)
    note cU = column_cells [OF U i] and cG = column_cells [OF Gu iG]
    have "\<exists>u'. copy_back (brk u) (tb_head U ! i) (tb_head G ! i) u = Inr u'
        \<and> overwrites (set (us ! i)) new u u'"
    proof (rule copy_back_chain [of u _ _ _ "gs ! i"])
      show "set (gs ! i) \<inter> set (us ! i) = {}" using cU(5) cG(5) apart by blast
      fix k assume "k < length (us ! i)"
      then have k: "k < tb_rows U" "k < tb_rows G" using cU(4) dims by simp_all
      show "new (us ! i ! k) = (nd_row (cell u (us ! i ! k)), nd_col (cell u (us ! i ! k)),
          nd_real (cell u (gs ! i ! k)), nd_imag (cell u (gs ! i ! k)))"
        by (simp add: new [OF k(1)] entryD [OF e [OF k(1)]] matrix_cell [OF Gu iG k(2)])
    qed (use u cU cG dims in \<open>simp_all add: touches_def\<close>)
    then show "\<exists>u'. bind_res (head_at U i) (\<lambda>m. bind_res (head_at G i) (\<lambda>a. copy_back (brk u) m a u))
        = Inr u' \<and> overwrites (set (us ! i)) new u u'"
      by (simp add: cU(2) cG(2))
  qed auto
  then obtain h' where "for_each [0..<tb_columns U] (\<lambda>i h. bind_res (head_at U i) (\<lambda>m.
       bind_res (head_at G i) (\<lambda>a. copy_back (brk h) m a h))) h = Inr h'"
    and "touches (set (concat us)) h h'"
    and m: "is_matrix h' U us (\<lambda>k i. if i \<in> set [0..<tb_columns U] then g' k i else g k i)" by blast
  moreover have "is_matrix h' U us g'" by (rule is_matrix_cong [OF m]) simp
  ultimately show ?thesis by blast
qed

section \<open>The tables made before the loop\<close>

lemma matrix_below: "is_matrix h t cs f \<Longrightarrow> a \<in> set (concat cs) \<Longrightarrow> a < brk h"
  unfolding is_matrix_def using table_rep_bound by blast

lemma distinct_layers:
  "distinct xs \<Longrightarrow> distinct ys \<Longrightarrow> (\<And>a. a \<in> set xs \<Longrightarrow> a < m) \<Longrightarrow> (\<And>a. a \<in> set ys \<Longrightarrow> m \<le> (a::nat))
    \<Longrightarrow> distinct (xs @ ys)"
  by (meson disjoint_iff distinct_append leD)

lemma invert_setup_world:
  fixes h :: "('d::zero) store"
  assumes M: "is_matrix h M ms f" and U: "is_matrix h U us g" and sq: "square n M" "square n U"
  shows "\<exists>V A as G gs h' ss bs ps qs. invert_setup M U h = Inr (V, A, G, h')
    \<and> inv_world n V ss bs ps qs 0 A as f G gs g h'
    \<and> (\<forall>a < brk h. cell h' a = cell h a) \<and> brk h \<le> brk h'
    \<and> (\<forall>a \<in> set (nodes_of V as gs ss bs) \<union> set (concat ps) \<union> set (concat qs). brk h \<le> a)"
proof -
  let ?z = "\<lambda>i j. (0, 0) :: 'd \<times> 'd"
  let ?t = "table_init n n :: 'd table"
  have dM: "tb_rows M = n" "tb_columns M = n" and dU: "tb_rows U = n" "tb_columns U = n"
    using sq by (simp_all add: square_def)
  obtain A h1 as where c1: "copy_table M (?t, h) = Inr (A, h1)" and A1: "is_matrix h1 A as f"
    and dA: "tb_rows A = n" "tb_columns A = n" and k1: "\<forall>a < brk h. cell h1 a = cell h a"
    and l1: "\<forall>a \<in> set (concat as). brk h \<le> a" and b1: "brk h \<le> brk h1"
    using copy_table_matrix [OF M] unfolding dM by metis
  have U1: "is_matrix h1 U us g" by (rule is_matrix_frame [OF U k1 b1])
  obtain G h2 gs where c2: "copy_table U (?t, h1) = Inr (G, h2)" and G2: "is_matrix h2 G gs g"
    and dG: "tb_rows G = n" "tb_columns G = n" and k2: "\<forall>a < brk h1. cell h2 a = cell h1 a"
    and l2: "\<forall>a \<in> set (concat gs). brk h1 \<le> a" and b2: "brk h1 \<le> brk h2"
    using copy_table_matrix [OF U1] unfolding dU by metis
  obtain S h3 ss where c3: "dummy_table (?t, h2) = Inr (S, h3)" and S3: "is_matrix h3 S ss ?z"
    and dS: "tb_rows S = n" "tb_columns S = n" and k3: "\<forall>a < brk h2. cell h3 a = cell h2 a"
    and l3: "\<forall>a \<in> set (concat ss). brk h2 \<le> a" and b3: "brk h2 \<le> brk h3"
    by (rule dummy_table_matrix)
  obtain B h4 bs where c4: "dummy_table (?t, h3) = Inr (B, h4)" and B4: "is_matrix h4 B bs ?z"
    and dB: "tb_rows B = n" "tb_columns B = n" and k4: "\<forall>a < brk h3. cell h4 a = cell h3 a"
    and l4: "\<forall>a \<in> set (concat bs). brk h3 \<le> a" and b4: "brk h3 \<le> brk h4"
    by (rule dummy_table_matrix)
  let ?b = "brk h4"
  define h5 where "h5 = h4\<lparr>brk := ?b + n + n + n + 1\<rparr>"
  have k5: "\<forall>a < brk h4. cell h5 a = cell h4 a" and b5: "brk h4 \<le> brk h5" by (simp_all add: h5_def)
  obtain P h6 ps where c6: "dummy_table (?t, h5) = Inr (P, h6)" and P6: "is_matrix h6 P ps ?z"
    and dP: "tb_rows P = n" "tb_columns P = n" and k6: "\<forall>a < brk h5. cell h6 a = cell h5 a"
    and l6: "\<forall>a \<in> set (concat ps). brk h5 \<le> a" and b6: "brk h5 \<le> brk h6"
    by (rule dummy_table_matrix)
  obtain Q h7 qs where c7: "dummy_table (?t, h6) = Inr (Q, h7)" and Q7: "is_matrix h7 Q qs ?z"
    and dQ: "tb_rows Q = n" "tb_columns Q = n" and k7: "\<forall>a < brk h6. cell h7 a = cell h6 a"
    and l7: "\<forall>a \<in> set (concat qs). brk h6 \<le> a" and b7: "brk h6 \<le> brk h7"
    by (rule dummy_table_matrix)
  let ?Rr = "[?b..<?b + n]" and ?Ar = "[?b + n + n..<?b + n + n + n]" and ?c = "?b + n + n + n"
  let ?V = "\<lparr>iv_subtr = S, iv_asubtr = B, iv_Aprime = P, iv_Augprime = Q,
      iv_Rr = ?Rr, iv_Ar = ?Ar, iv_conj = ?c\<rparr>"
  have run: "invert_setup M U h = Inr (?V, A, G, h7)"
    using c6 by (simp add: invert_setup_def dM dU c1 c2 c3 c4 Let_def alloc_array_eq malloc_node_def
        h5_def [symmetric, simplified] c7)
  have k47: "\<forall>a < brk h4. cell h7 a = cell h4 a" "brk h4 \<le> brk h7"
    using k5 k6 k7 b5 b6 b7 by simp_all
  have k37: "\<forall>a < brk h3. cell h7 a = cell h3 a" "brk h3 \<le> brk h7" using k4 b4 k47 by simp_all
  have k27: "\<forall>a < brk h2. cell h7 a = cell h2 a" "brk h2 \<le> brk h7" using k3 b3 k37 by simp_all
  have k17: "\<forall>a < brk h1. cell h7 a = cell h1 a" "brk h1 \<le> brk h7" using k2 b2 k27 by simp_all
  have k07: "\<forall>a < brk h. cell h7 a = cell h a" "brk h \<le> brk h7" using k1 b1 k17 by simp_all
  have A7: "is_matrix h7 A as f" and G7: "is_matrix h7 G gs g" and S7: "is_matrix h7 S ss ?z"
    and B7: "is_matrix h7 B bs ?z" and P7: "is_matrix h7 P ps ?z"
    using is_matrix_frame [OF A1 k17] is_matrix_frame [OF G2 k27] is_matrix_frame [OF S3 k37]
      is_matrix_frame [OF B4 k47] is_matrix_frame [OF P6 k7 b7] by simp_all
  note below = matrix_below [OF A1] matrix_below [OF G2] matrix_below [OF S3] matrix_below [OF B4]
    matrix_below [OF P6]
  have T1: "distinct (?Rr @ ?Ar @ [?c])" and L1: "\<forall>a \<in> set (?Rr @ ?Ar @ [?c]). brk h4 \<le> a" by auto
  have T2: "distinct (concat bs @ ?Rr @ ?Ar @ [?c])"
    by (rule distinct_layers [OF distinct_of_matrix [OF B4] T1 below(4) L1 [rule_format]])
  have L2: "\<forall>a \<in> set (concat bs @ ?Rr @ ?Ar @ [?c]). brk h3 \<le> a"
    using l4 L1 b4 unfolding set_append [of "concat bs"] by (meson UnE le_trans)
  have T3: "distinct (concat ss @ concat bs @ ?Rr @ ?Ar @ [?c])"
    by (rule distinct_layers [OF distinct_of_matrix [OF S3] T2 below(3) L2 [rule_format]])
  have L3: "\<forall>a \<in> set (concat ss @ concat bs @ ?Rr @ ?Ar @ [?c]). brk h2 \<le> a"
    using l3 L2 b3 unfolding set_append [of "concat ss"] by (meson UnE le_trans)
  have T4: "distinct (concat gs @ concat ss @ concat bs @ ?Rr @ ?Ar @ [?c])"
    by (rule distinct_layers [OF distinct_of_matrix [OF G2] T3 below(2) L3 [rule_format]])
  have L4: "\<forall>a \<in> set (concat gs @ concat ss @ concat bs @ ?Rr @ ?Ar @ [?c]). brk h1 \<le> a"
    using l2 L3 b2 unfolding set_append [of "concat gs"] by (meson UnE le_trans)
  have T5: "distinct (nodes_of ?V as gs ss bs)"
    unfolding nodes_of_def inv_vars.simps
    by (rule distinct_layers [OF distinct_of_matrix [OF A1] T4 below(1) L4 [rule_format]])
  have low: "a < brk h5 \<and> brk h \<le> a" if "a \<in> set (nodes_of ?V as gs ss bs)" for a
  proof -
    from that consider "a \<in> set (concat as)" | "a \<in> set (concat gs)" | "a \<in> set (concat ss)"
      | "a \<in> set (concat bs)" | "a \<in> set ?Rr \<union> set ?Ar \<union> {?c}"
      unfolding nodes_of_def inv_vars.simps set_append list.set by blast
    then show ?thesis
    proof cases
      case 1 then show ?thesis using l1 below(1) b1 b2 b3 b4 b5 by fastforce
    next
      case 2 then show ?thesis using l2 below(2) b1 b2 b3 b4 b5 by fastforce
    next
      case 3 then show ?thesis using l3 below(3) b1 b2 b3 b4 b5 by fastforce
    next
      case 4 then show ?thesis using l4 below(4) b1 b2 b3 b4 b5 by fastforce
    next
      case 5 then show ?thesis using b1 b2 b3 b4 by (auto simp: h5_def)
    qed
  qed
  have apP: "set (nodes_of ?V as gs ss bs) \<inter> set (concat ps) = {}"
    using low l6 by (meson disjoint_iff leD)
  have apQ: "set (nodes_of ?V as gs ss bs) \<inter> set (concat qs) = {}"
    using low l7 b6 by (meson disjoint_iff leD le_trans)
  have PQ: "set (concat ps) \<inter> set (concat qs) = {}"
    using below(5) l7 by (meson disjoint_iff leD)
  have "inv_world n ?V ss bs ps qs 0 A as f G gs g h7"
  proof -
    have "\<exists>e. is_matrix h7 S ss e" "\<exists>p. is_matrix h7 P ps p" "\<exists>q. is_matrix h7 Q qs q"
      using S7 P7 Q7 by blast+
    moreover have "\<exists>b. is_matrix h7 B bs b \<and> (\<forall>k i. 0 \<le> i \<longrightarrow> b k i = (0, 0))"
      by (rule exI, rule conjI, rule B7) simp
    moreover have "square n A" "square n G" "square n S" "square n B" "square n P" "square n Q"
      by (simp_all add: square_def dA dG dS dB dP dQ)
    moreover have "length ?Rr = n" "length ?Ar = n" by simp_all
    ultimately show ?thesis
      using A7 G7 T5 apP apQ PQ by (simp only: inv_world_def inv_vars.simps simp_thms)
  qed
  moreover have "\<forall>a \<in> set (nodes_of ?V as gs ss bs) \<union> set (concat ps) \<union> set (concat qs). brk h \<le> a"
  proof
    fix a assume "a \<in> set (nodes_of ?V as gs ss bs) \<union> set (concat ps) \<union> set (concat qs)"
    then consider "a \<in> set (nodes_of ?V as gs ss bs)" | "brk h5 \<le> a" | "brk h6 \<le> a"
      using l6 l7 by blast
    then show "brk h \<le> a" using low b1 b2 b3 b4 b5 b6 by cases force+
  qed
  ultimately show ?thesis using run k07 by blast
qed

section \<open>The whole routine\<close>

lemma invert_rounds:
  fixes h :: "('d::{plus,minus,times,divide,zero}) store"
  assumes M: "is_matrix h M ms f" and U: "is_matrix h U us g" and sq: "square n M" "square n U"
    and apart: "set (concat ms) \<inter> set (concat us) = {}" and n: "2 \<le> n"
  shows "\<exists>h'. invert F M U h = Inr h' \<and> is_matrix h' M ms f
    \<and> is_matrix h' U us (snd (round_mat F 1 (round_mat F 0 (f, g))))"
proof -
  obtain f1 g1 where r0: "round_mat F 0 (f, g) = (f1, g1)" by (cases "round_mat F 0 (f, g)")
  obtain f2 g2 where r1: "round_mat F 1 (f1, g1) = (f2, g2)" by (cases "round_mat F 1 (f1, g1)")
  obtain V A as G gs h1 ss bs ps qs where mk: "invert_setup M U h = Inr (V, A, G, h1)"
    and W: "inv_world n V ss bs ps qs 0 A as f G gs g h1"
    and same: "\<forall>a < brk h. cell h1 a = cell h a" "brk h \<le> brk h1"
    and fresh: "\<forall>a \<in> set (nodes_of V as gs ss bs) \<union> set (concat ps) \<union> set (concat qs). brk h \<le> a"
    using invert_setup_world [OF M U sq] by blast
  let ?P = "iv_Aprime V" and ?Q = "iv_Augprime V"
  let ?N = "set (nodes_of V as gs ss bs) \<union> set (concat ps) \<union> set (concat qs)"
  obtain h2 where run0: "invert_round F n V 0 (A, G, h1) = Inr (?P, ?Q, h2)"
    and W2: "inv_world n V ss bs ps qs (Suc 0) ?P ps f1 ?Q qs g1 h2" and t2: "touches ?N h1 h2"
    using invert_round_sim [OF W _ r0] n by auto
  obtain h3 where run1: "invert_round F n V 1 (?P, ?Q, h2) = Inr (?P, ?Q, h3)"
    and W3: "inv_world n V ss bs ps qs (Suc (Suc 0)) ?P ps f2 ?Q qs g2 h3"
    and t3: "touches (set (nodes_of V ps qs ss bs) \<union> set (concat ps) \<union> set (concat qs)) h2 h3"
    using invert_round_sim [OF W2 _ r1 [unfolded One_nat_def]] n by auto
  have "set (nodes_of V ps qs ss bs) \<subseteq> ?N" unfolding nodes_of_def set_append by blast
  then have t13: "touches ?N h1 h3" by (intro touches_mono [OF touches_trans [OF t2 t3]]) blast
  have M1: "is_matrix h1 M ms f" and U1: "is_matrix h1 U us g"
    using is_matrix_frame [OF M same] is_matrix_frame [OF U same] by simp_all
  have out: "?N \<inter> set (concat cs) = {}" if "is_matrix h t cs e" for t cs e
    using fresh matrix_below [OF that] by (meson disjoint_iff leD)
  have M3: "is_matrix h3 M ms f" by (rule touches_matrix [OF t13 M1 out [OF M]])
  have U3: "is_matrix h3 U us g" by (rule touches_matrix [OF t13 U1 out [OF U]])
  from W3 have Q3: "is_matrix h3 ?Q qs g2" and dQ: "tb_rows ?Q = n" "tb_columns ?Q = n"
    by (simp_all add: inv_world_def square_def)
  have dU: "tb_rows U = n" "tb_columns U = n" and dM: "tb_columns M = n"
    using sq by (simp_all add: square_def)
  have "set (concat qs) \<inter> set (concat us) = {}" using out [OF U] by blast
  then obtain h4 where cb: "for_each [0..<tb_columns U] (\<lambda>i h. bind_res (head_at U i) (\<lambda>m.
       bind_res (head_at ?Q i) (\<lambda>a. copy_back (brk h) m a h))) h3 = Inr h4"
    and t4: "touches (set (concat us)) h3 h4" and U4: "is_matrix h4 U us g2"
    using copy_back_sim [OF U3 Q3] dQ dU by auto
  have M4: "is_matrix h4 M ms f" by (rule touches_matrix [OF t4 M3]) (use apart in blast)
  have loop: "for_each [0..<2] (invert_round F n V) (A, G, h1) = Inr (?P, ?Q, h3)"
    using run0 run1 by (simp add: numeral_2_eq_2)
  have "invert F M U h = Inr h4" by (simp add: invert_def mk dM loop cb)
  with M4 U4 r0 r1 show ?thesis by auto
qed

end
