(* ===== verification/SefdmMult.thy ===== *)
theory SefdmMult
  imports SefdmInverse
begin

text \<open>
  \<open>table_mult\<close>: what its three loops compute, over tables that represent matrices.
\<close>

definition mult_entry :: "'d entry \<Rightarrow> 'd entry \<Rightarrow> 'd entry \<Rightarrow> ('d::{plus,minus,times}) entry" where
  "mult_entry x y z = (case (x, y, z) of ((_, _, xr, xi), (_, _, yr, yi), (r, c, zr, zi)) \<Rightarrow>
     (r, c, zr + (xr * yr - xi * yi), zi + (xr * yi + xi * yr)))"

lemma mult_column_chain:
  assumes "chain (\<lambda>a. nd_next (cell h a)) p as" and "chain (\<lambda>a. nd_next (cell h a)) q bs"
    and "chain (\<lambda>a. nd_next (cell h a)) s cs"
    and "length as = length cs" and "length bs = length cs" and "length cs \<le> n"
    and "distinct cs" and "set bs \<inter> set cs = {}" and "set as \<inter> set cs = {}"
    and "\<And>k. k < length cs
      \<Longrightarrow> new (cs ! k) = mult_entry (entry h (as ! k)) (entry h (bs ! k)) (entry h (cs ! k))"
  shows "\<exists>h'. mult_column n p q s h = Inr h' \<and> overwrites (set cs) new h h'"
  using assms
proof (induction cs arbitrary: as bs p q s n h)
  case Nil
  then show ?case by (auto intro: overwrites_empty)
next
  case (Cons c cs)
  from Cons.prems(4) obtain a as' where as: "as = a # as'" by (cases as) auto
  from Cons.prems(5) obtain b bs' where bs: "bs = b # bs'" by (cases bs) auto
  from Cons.prems(6) obtain m where n: "n = Suc m" by (cases n) auto
  from Cons.prems(1-3) have p: "p = Some a" "q = Some b" "s = Some c" by (simp_all add: as bs)
  have ne: "a \<noteq> c" "b \<noteq> c" using Cons.prems(8,9) by (auto simp: as bs)
  define x where "x = cell h a"
  define y where "y = cell h b"
  define h1 where "h1 = upd_node c (\<lambda>n. n\<lparr>nd_real := nd_real n + (nd_real x * nd_real y - nd_imag x * nd_imag y)\<rparr>) h"
  define h2 where "h2 = upd_node c (\<lambda>n. n\<lparr>nd_imag := nd_imag n + (nd_real x * nd_imag y + nd_imag x * nd_real y)\<rparr>) h1"
  have run: "mult_column n p q s h
      = mult_column m (nd_next (cell h2 a)) (nd_next (cell h2 b)) (nd_next (cell h2 c)) h2"
    using ne by (simp add: p n Let_def x_def y_def h1_def h2_def)
  have "entry h2 c = mult_entry (entry h a) (entry h b) (entry h c)"
    by (simp add: entry_def Let_def mult_entry_def x_def y_def h1_def h2_def)
  then have ov: "overwrites {c} new h h2"
    using Cons.prems(10) [of 0]
    by (auto simp: overwrites_def as bs) (auto simp: entry_def h1_def h2_def)
  have links: "nd_next (cell h2 z) = nd_next (cell h z)" for z by (rule overwritesD(2) [OF ov])
  have "\<exists>h'. mult_column m (nd_next (cell h2 a)) (nd_next (cell h2 b)) (nd_next (cell h2 c)) h2 = Inr h'
      \<and> overwrites (set cs) new h2 h'"
  proof (rule Cons.IH [of h2 _ as' _ bs'])
    fix k assume k: "k < length cs"
    have "as' ! k \<in> set as" "bs' ! k \<in> set bs" "cs ! k \<noteq> c"
      using k Cons.prems(4,5,7) by (auto simp: as bs)
    then have "as' ! k \<noteq> c" "bs' ! k \<noteq> c" "cs ! k \<noteq> c" using Cons.prems(8,9) by auto
    then show "new (cs ! k) = mult_entry (entry h2 (as' ! k)) (entry h2 (bs' ! k)) (entry h2 (cs ! k))"
      using Cons.prems(10) [of "Suc k"] k overwritesD(3) [OF ov] by (simp add: as bs)
  qed (use Cons.prems n in \<open>auto simp: as bs links\<close>)
  then obtain h' where "mult_column n p q s h = Inr h'" and "overwrites (set cs) new h2 h'"
    using run by auto
  with overwrites_trans [OF ov this(2)] show ?case by simp
qed

definition cmac :: "'d \<times> 'd \<Rightarrow> 'd \<times> 'd \<Rightarrow> 'd \<times> 'd \<Rightarrow> ('d::{plus,minus,times}) \<times> 'd" where
  "cmac x y z = (fst z + (fst x * fst y - snd x * snd y), snd z + (fst x * snd y + snd x * fst y))"

text \<open>One pass of the loop over \<open>k\<close>: every entry of \<open>C\<close> meets the entry of \<open>A\<close> in its row.\<close>

lemma mult_pass:
  fixes h :: "('d::{plus,minus,times}) store"
  assumes A: "is_matrix h A as f" and B: "is_matrix h B bs g" and C: "is_matrix h C cs e"
    and k: "k < tb_columns A"
    and dims: "tb_rows A = tb_rows C" "tb_rows B = tb_rows C" "tb_columns B = tb_columns C"
    and apart: "set (concat as) \<inter> set (concat cs) = {}" "set (concat bs) \<inter> set (concat cs) = {}"
  shows "\<exists>h'. for_each [0..<tb_columns B] (\<lambda>j h. bind_res (head_at A k) (\<lambda>a.
       bind_res (head_at B j) (\<lambda>b. bind_res (head_at C j) (\<lambda>c. mult_column (brk h) a b c h)))) h = Inr h'
    \<and> touches (set (concat cs)) h h' \<and> is_matrix h' C cs (\<lambda>i j. cmac (f i k) (g i j) (e i j))"
proof -
  have "\<exists>h'. for_each [0..<tb_columns B] (\<lambda>j h. bind_res (head_at A k) (\<lambda>a.
       bind_res (head_at B j) (\<lambda>b. bind_res (head_at C j) (\<lambda>c. mult_column (brk h) a b c h)))) h = Inr h'
    \<and> touches (set (concat cs)) h h'
    \<and> is_matrix h' C cs (\<lambda>i j. if j \<in> set [0..<tb_columns B] then cmac (f i k) (g i j) (e i j) else e i j)"
  proof (rule column_loop [OF C])
    fix j and u :: "'d store" and new :: "nat \<Rightarrow> 'd entry"
    assume "j \<in> set [0..<tb_columns B]" and u: "touches (set (concat cs)) h u"
      and eC: "\<And>i. i < tb_rows C \<Longrightarrow> entry u (cs ! j ! i) = (i, j, e i j)"
      and new: "\<And>i. i < tb_rows C \<Longrightarrow> new (cs ! j ! i) = (i, j, cmac (f i k) (g i j) (e i j))"
    then have j: "j < tb_columns B" "j < tb_columns C" by (simp_all add: dims)
    from u A have Au: "is_matrix u A as f" by (rule touches_matrix) (use apart in blast)
    from u B have Bu: "is_matrix u B bs g" by (rule touches_matrix) (use apart in blast)
    note cA = column_cells [OF Au k] and cB = column_cells [OF Bu j(1)] and cC = column_cells [OF C j(2)]
    have "\<exists>u'. mult_column (brk u) (tb_head A ! k) (tb_head B ! j) (tb_head C ! j) u = Inr u'
        \<and> overwrites (set (cs ! j)) new u u'"
    proof (rule mult_column_chain [of u _ "as ! k" _ "bs ! j"])
      show "set (bs ! j) \<inter> set (cs ! j) = {}" using cB(5) cC(5) apart by blast
      show "set (as ! k) \<inter> set (cs ! j) = {}" using cA(5) cC(5) apart by blast
      fix i assume "i < length (cs ! j)"
      then have i: "i < tb_rows C" "i < tb_rows A" "i < tb_rows B" using cC(4) dims by simp_all
      show "new (cs ! j ! i) = mult_entry (entry u (as ! k ! i)) (entry u (bs ! j ! i)) (entry u (cs ! j ! i))"
        using new [OF i(1)] eC [OF i(1)] matrix_entry(3) [OF Au k i(2)] matrix_entry(3) [OF Bu j(1) i(3)]
        by (simp add: mult_entry_def cmac_def split: prod.split)
    qed (use u cA cB cC dims in \<open>simp_all add: touches_def\<close>)
    then show "\<exists>u'. bind_res (head_at A k) (\<lambda>a. bind_res (head_at B j) (\<lambda>b. bind_res (head_at C j)
        (\<lambda>c. mult_column (brk u) a b c u))) = Inr u' \<and> overwrites (set (cs ! j)) new u u'"
      by (simp add: cA(2) cB(2) cC(2))
  qed (auto simp: dims)
  then obtain h' where "for_each [0..<tb_columns B] (\<lambda>j h. bind_res (head_at A k) (\<lambda>a.
       bind_res (head_at B j) (\<lambda>b. bind_res (head_at C j) (\<lambda>c. mult_column (brk h) a b c h)))) h = Inr h'"
    and "touches (set (concat cs)) h h'"
    and m: "is_matrix h' C cs (\<lambda>i j. if j \<in> set [0..<tb_columns B] then cmac (f i k) (g i j) (e i j) else e i j)"
    by blast
  moreover have "is_matrix h' C cs (\<lambda>i j. cmac (f i k) (g i j) (e i j))"
    by (rule is_matrix_cong [OF m]) (simp add: dims)
  ultimately show ?thesis by blast
qed

lemma table_mult_sim:
  fixes h :: "('d::{plus,minus,times}) store"
  assumes A: "is_matrix h A as f" and B: "is_matrix h B bs g" and C: "is_matrix h C cs e"
    and dims: "tb_rows A = tb_rows C" "tb_rows B = tb_rows C" "tb_columns B = tb_columns C"
    and apart: "set (concat as) \<inter> set (concat cs) = {}" "set (concat bs) \<inter> set (concat cs) = {}"
  shows "\<exists>h'. table_mult C A B h = Inr h' \<and> touches (set (concat cs)) h h'
    \<and> is_matrix h' C cs (\<lambda>i j. fold (\<lambda>k. cmac (f i k) (g i j)) [0..<tb_columns A] (e i j))"
proof -
  let ?P = "\<lambda>ks u. touches (set (concat cs)) h u
    \<and> is_matrix u C cs (\<lambda>i j. fold (\<lambda>k. cmac (f i k) (g i j)) ks (e i j))"
  have "\<exists>h'. table_mult C A B h = Inr h' \<and> ?P [0..<tb_columns A] h'"
    unfolding table_mult_def
  proof (rule for_each_prefix)
    show "?P [] h" using C touches_refl by auto
  next
    fix ks k zs u assume split: "[0..<tb_columns A] = ks @ k # zs" and u: "?P ks u"
    from arg_cong [OF split, of set] have k: "k < tb_columns A" by auto
    from u have t: "touches (set (concat cs)) h u"
      and Cu: "is_matrix u C cs (\<lambda>i j. fold (\<lambda>k. cmac (f i k) (g i j)) ks (e i j))" by blast+
    have Au: "is_matrix u A as f" by (rule touches_matrix [OF t A]) (use apart in blast)
    have Bu: "is_matrix u B bs g" by (rule touches_matrix [OF t B]) (use apart in blast)
    obtain u' where "for_each [0..<tb_columns B] (\<lambda>j h. bind_res (head_at A k) (\<lambda>a.
       bind_res (head_at B j) (\<lambda>b. bind_res (head_at C j) (\<lambda>c. mult_column (brk h) a b c h)))) u = Inr u'"
      and t': "touches (set (concat cs)) u u'"
      and m: "is_matrix u' C cs (\<lambda>i j. cmac (f i k) (g i j) (fold (\<lambda>k. cmac (f i k) (g i j)) ks (e i j)))"
      using mult_pass [OF Au Bu Cu k dims apart] by blast
    moreover have "touches (set (concat cs)) h u'"
      using touches_trans [OF t t'] by simp
    ultimately show "\<exists>u'. for_each [0..<tb_columns B] (\<lambda>j h. bind_res (head_at A k) (\<lambda>a.
       bind_res (head_at B j) (\<lambda>b. bind_res (head_at C j) (\<lambda>c. mult_column (brk h) a b c h)))) u = Inr u'
       \<and> ?P (ks @ [k]) u'" by auto
  qed
  then show ?thesis by blast
qed

text \<open>Over a ring the sum of the row of \<open>A\<close> can be taken out: no index of \<open>B\<close> is summed over.\<close>

lemma fold_cmac:
  fixes y :: "('d::comm_ring_1) \<times> 'd"
  shows "fold (\<lambda>k. cmac (x k) y) ks z
    = cmac (\<Sum>k \<leftarrow> ks. fst (x k), \<Sum>k \<leftarrow> ks. snd (x k)) y z"
proof (induction ks arbitrary: z)
  case Nil
  then show ?case by (simp add: cmac_def)
next
  case (Cons k ks)
  then show ?case by (simp add: cmac_def algebra_simps)
qed

end
