(* ===== verification/SefdmMain.thy ===== *)
theory SefdmMain
  imports SefdmInvert
begin

text \<open>
  sefdm/algorythms/test.list.161.c, \<open>main\<close>: the signal chain put together (printing and the
  commented-out lines aside). Building a table never changes the length of its arrays of
  heads, so what \<open>addition\<close> is handed there is known without running the chain.
\<close>

definition sefdm_main :: "(nat \<Rightarrow> nat) \<Rightarrow> ('d::{plus,minus,times,divide,uminus,zero,one}) libm
    \<Rightarrow> (nat \<Rightarrow> nat) \<Rightarrow> 'd store \<Rightarrow> 'd store res" where
  "sefdm_main slot F rand h =
     (let X = random_X rand (NUM_BLOCKS * NUM_CARRIERS) in
      bind_res (create_IP_BLOCKS F X (PI F) (table_init NUM_CARRIERS NUM_BLOCKS, h)) (\<lambda>(IP_SIG, h).
      bind_res (create_CARRIERS F (table_init NUM_BLOCKS NUM_CARRIERS, h)) (\<lambda>(CARRIERS, h).
      bind_res (correlate CARRIERS (table_init (tb_columns CARRIERS) (tb_columns CARRIERS), h))
        (\<lambda>(CORRELATION, h).
      bind_res (modulate slot F CARRIERS IP_SIG (table_init NUM_BLOCKS NUM_BLOCKS, h)) (\<lambda>(MODI, h).
      bind_res (sigma F MODI h) (\<lambda>sig.
      bind_res (create_noise F rand sig
          (NUM_BLOCKS * NUM_CARRIERS, table_init (NUM_BLOCKS * OVERSAMPLING) NUM_BLOCKS, h))
        (\<lambda>(calls, AWGN, h).
      bind_res (addition AWGN MODI (table_init NUM_BLOCKS (NUM_BLOCKS * OVERSAMPLING), h))
        (\<lambda>(NOISY, h).
      bind_res (identity_init (table_init (tb_rows CORRELATION) (tb_columns CORRELATION), h))
        (\<lambda>(INVERSE, h).
      bind_res (invert F CORRELATION INVERSE h) (\<lambda>h.
      bind_res (zero_init (table_init (tb_rows INVERSE) (tb_columns INVERSE), h)) (\<lambda>(ANSWER, h).
      table_mult ANSWER CORRELATION INVERSE h)))))))))))"

section \<open>The size of a table under construction\<close>

lemma for_each_keeps:
  assumes "for_each xs f s = Inr s'"
    and "\<And>x u u'. x \<in> set xs \<Longrightarrow> f x u = Inr u' \<Longrightarrow> m u' = m u"
  shows "m s' = m s"
  using assms
proof (induction xs arbitrary: s)
  case Nil
  then show ?case by simp
next
  case (Cons x xs)
  from Cons.prems(1) obtain u where u: "f x s = Inr u" and rest: "for_each xs f u = Inr s'"
    by (auto simp: bind_res_eq_Inr)
  have "m s' = m u" by (rule Cons.IH [OF rest]) (use Cons.prems(2) in auto)
  also have "m u = m s" using Cons.prems(2) [OF _ u] by simp
  finally show ?case .
qed

definition extent :: "'d table \<Rightarrow> nat \<times> nat" where
  "extent t = (tb_columns t, length (tb_head t))"

lemma append_new_extent: "append_new e (t, h) = Inr (t', h') \<Longrightarrow> extent t' = extent t"
  by (cases e) (auto simp: append_new_def malloc_node_def table_append_def extent_def Let_def
      split: if_splits)

lemma create_noise_extent:
  assumes "create_noise F rand sig (n, t, h) = Inr (n', t', h')"
  shows "extent t' = extent t"
proof -
  have inner: "extent (fst (snd v')) = extent (fst (snd v))"
    if "(\<lambda>(calls, s). bind_res (append_new (k, i, noise_point F sig (rand calls),
            noise_point F sig (rand (Suc calls))) s) (\<lambda>s'. Inr (calls + 2, s'))) v = Inr v'" for k i v v'
    using that append_new_extent by (cases v) (auto simp: bind_res_eq_Inr)
  have "extent (fst (snd (n', t', h'))) = extent (fst (snd (n, t, h)))"
    by (rule for_each_keeps [where m = "\<lambda>v. extent (fst (snd v))",
          OF assms [unfolded create_noise_def Let_def]])
       (rule for_each_keeps [where m = "\<lambda>v. extent (fst (snd v))"], assumption, rule inner)
  then show ?thesis by simp
qed

lemma modulate_extent:
  assumes "modulate slot F C I (t, h) = Inr (t', h')"
  shows "extent t' = extent t"
proof -
  let ?row = "\<lambda>k i (Anode, t, h). bind_res (head_at I k) (\<lambda>x.
            bind_res (modulate_row slot (brk h) x h 0 Anode (0, 0)) (\<lambda>(re, im, Anode').
              let t' = t\<lparr>tb_norm := tb_norm t + (re * re + im * im)\<rparr> in
              bind_res (append_new (i, k, re, im) (t', h)) (\<lambda>(t'', h'). Inr (Anode', t'', h'))))"
  have row: "extent (fst (snd v')) = extent (fst (snd v))" if "?row k i v = Inr v'" for k i v v'
  proof -
    obtain A u g where v: "v = (A, u, g)" by (cases v) auto
    from that obtain re im u' u'' g'' where "append_new (i, k, re, im) (u', g) = Inr (u'', g'')"
      and "extent u' = extent u" and "v' = (fst v', u'', g'')"
      by (auto simp: v bind_res_eq_Inr Let_def extent_def)
    with append_new_extent show ?thesis by (metis fst_conv snd_conv v)
  qed
  from assms obtain t1 h1 where loop: "for_each [0..<tb_columns I] (\<lambda>k s.
        if length (tb_head C) < tb_columns C then Inl IndexFault else
        bind_res (for_each [0..<tb_rows C] (?row k) (take (tb_columns C) (tb_head C), s))
          (\<lambda>(Anode, s'). Inr s')) (t, h) = Inr (t1, h1)" and t': "extent t' = extent t1"
    unfolding modulate_def by (auto simp: bind_res_eq_Inr extent_def)
  have "extent (fst (t1, h1)) = extent (fst (t, h))"
  proof (rule for_each_keeps [where m = "\<lambda>s. extent (fst s)", OF loop])
    fix k s s' assume "(if length (tb_head C) < tb_columns C then Inl IndexFault else
        bind_res (for_each [0..<tb_rows C] (?row k) (take (tb_columns C) (tb_head C), s))
          (\<lambda>(Anode, s'). Inr s')) = Inr s'"
    then obtain A where "for_each [0..<tb_rows C] (?row k) (take (tb_columns C) (tb_head C), s) = Inr (A, s')"
      by (auto simp: bind_res_eq_Inr split: if_splits)
    from for_each_keeps [where m = "\<lambda>v. extent (fst (snd v))", OF this row]
    show "extent (fst s') = extent (fst s)" by simp
  qed
  with t' show ?thesis by simp
qed

section \<open>addition\<close>

lemma for_each_Inr:
  "for_each xs f s = Inr s' \<Longrightarrow> x \<in> set xs \<Longrightarrow> \<exists>u u'. f x u = Inr u'"
proof (induction xs arbitrary: s)
  case Nil
  then show ?case by simp
next
  case (Cons y ys)
  then show ?case by (cases "f y s") auto
qed

lemma addition_needs_extra_columns:
  fixes s s' :: "('d::plus) table \<times> 'd store"
  assumes "addition A B s = Inr s'" and "0 < tb_columns B"
  shows "tb_columns B + OVERSAMPLING \<le> length (tb_head A)"
proof -
  let ?j = "tb_columns B - 1"
  have "1 \<in> set [0..<OVERSAMPLING]" by (simp add: OVERSAMPLING_def)
  from for_each_Inr [OF assms(1) [unfolded addition_def] this]
  obtain u u' :: "'d table \<times> 'd store" where pass: "for_each [0..<tb_columns B] (\<lambda>j s.
     bind_res (head_at A (j + 1 * OVERSAMPLING)) (\<lambda>a. bind_res (head_at B j) (\<lambda>b.
       add_column (brk (snd s)) (1 + j * OVERSAMPLING) a b s))) u = Inr u'"
    by blast
  have "?j \<in> set [0..<tb_columns B]" using assms(2) by simp
  from for_each_Inr [OF pass this] obtain v v' :: "'d table \<times> 'd store"
    where "bind_res (head_at A (?j + 1 * OVERSAMPLING)) (\<lambda>a. bind_res (head_at B ?j) (\<lambda>b.
       add_column (brk (snd v)) (1 + ?j * OVERSAMPLING) a b v)) = Inr v'"
    by blast
  then have "?j + OVERSAMPLING < length (tb_head A)"
    by (cases "?j + OVERSAMPLING < length (tb_head A)") (simp_all add: head_at_def)
  with assms(2) show ?thesis by (simp add: OVERSAMPLING_def)
qed

text \<open>The tables \<open>main\<close> hands to \<open>addition\<close> have ten columns each.\<close>

lemma main_addition:
  assumes "modulate slot F C I (table_init NUM_BLOCKS NUM_BLOCKS, h) = Inr (MODI, h1)"
    and "create_noise F rand sig (n, table_init R NUM_BLOCKS, h2) = Inr (calls, AWGN, h3)"
  shows "addition AWGN MODI s \<noteq> Inr s'"
proof
  assume "addition AWGN MODI s = Inr s'"
  moreover have "tb_columns MODI = NUM_BLOCKS"
    using modulate_extent [OF assms(1)] by (simp add: extent_def table_init_def)
  moreover have "length (tb_head AWGN) = NUM_BLOCKS"
    using create_noise_extent [OF assms(2)] by (simp add: extent_def table_init_def)
  ultimately show False
    using addition_needs_extra_columns [of AWGN MODI s s'] by (simp add: NUM_BLOCKS_def OVERSAMPLING_def)
qed

end
