(* ===== verification/SefdmProps.thy ===== *)
theory SefdmProps
  imports SefdmMult SefdmMain Complex_Main
begin

text \<open>
  The properties of the table routines of sefdm/algorythms/test.list.161.c, with their
  witnesses. Exact arithmetic (a commutative ring or a field) is only asked for where a
  statement needs it; the others hold of any \<open>double\<close>.
\<close>

definition store_example :: "int store" where
  "store_example = \<lparr>cell = (\<lambda>_. \<lparr>nd_next = None, nd_row = 0, nd_col = 0, nd_imag = 0, nd_real = 0\<rparr>),
     brk = 0\<rparr>"

section \<open>Appending\<close>



section \<open>Transposition\<close>

text \<open>C27: \<open>TRANSPOSE\<close> of a table with all its entries builds the transposed matrix in the
  table it is given, and transposing that table gives the first matrix again.\<close>

theorem TRANSPOSE_twice:
  fixes h :: "('d::zero) store"
  assumes "is_matrix h src ss f"
  shows "\<exists>t1 h1 ts1 t2 h2 ts2.
      TRANSPOSE src (table_init (tb_columns src) (tb_rows src), h) = Inr (t1, h1)
    \<and> is_matrix h1 t1 ts1 (\<lambda>i j. f j i)
    \<and> TRANSPOSE t1 (table_init (tb_rows src) (tb_columns src), h1) = Inr (t2, h2)
    \<and> is_matrix h2 t2 ts2 f \<and> is_matrix h2 src ss f
    \<and> tb_rows t2 = tb_rows src \<and> tb_columns t2 = tb_columns src"
proof -
  obtain t1 h1 ts1 where run1: "TRANSPOSE src (table_init (tb_columns src) (tb_rows src), h) = Inr (t1, h1)"
    and m1: "is_matrix h1 t1 ts1 (\<lambda>i j. f j i)"
    and d1: "tb_rows t1 = tb_columns src" "tb_columns t1 = tb_rows src"
    and k1: "\<forall>a < brk h. cell h1 a = cell h a" "brk h \<le> brk h1"
    using TRANSPOSE_matrix [OF assms] by metis
  obtain t2 h2 ts2 where run2: "TRANSPOSE t1 (table_init (tb_rows src) (tb_columns src), h1) = Inr (t2, h2)"
    and m2: "is_matrix h2 t2 ts2 f"
    and d2: "tb_rows t2 = tb_rows src" "tb_columns t2 = tb_columns src"
    and k2: "\<forall>a < brk h1. cell h2 a = cell h1 a" "brk h1 \<le> brk h2"
    using TRANSPOSE_matrix [OF m1] unfolding d1 by metis
  have "is_matrix h2 src ss f" by (rule is_matrix_frame [OF is_matrix_frame [OF assms k1] k2])
  with run1 m1 run2 m2 d2 show ?thesis by blast
qed

theorem TRANSPOSE_twice_witness:
  "\<exists>src ss h t1 h1 ts1. is_matrix (h :: int store) src ss (\<lambda>i j. (int (2 * i + j), 0))
    \<and> tb_rows src = 3 \<and> tb_columns src = 2
    \<and> TRANSPOSE src (table_init 2 3, h) = Inr (t1, h1)
    \<and> is_matrix h1 t1 ts1 (\<lambda>i j. (int (2 * j + i), 0))"
proof -
  obtain src h ss where m: "is_matrix (h :: int store) src ss (\<lambda>i j. (int (2 * i + j), 0))"
    and d: "tb_rows src = 3" "tb_columns src = 2"
    by (rule build_matrix [of 3 2 store_example "\<lambda>i j. append_new (i, j, int (2 * i + j), 0)"])
       simp_all
  from TRANSPOSE_twice [OF m, unfolded d] d m show ?thesis by blast
qed

section \<open>Correlation\<close>

lemma dot_sum:
  fixes f :: "nat \<Rightarrow> nat \<Rightarrow> ('d::comm_ring_1) \<times> 'd"
  shows "dot R f j i = (\<Sum>k < R. fst (f k j) * fst (f k i) + snd (f k j) * snd (f k i),
                        \<Sum>k < R. fst (f k j) * snd (f k i) - fst (f k i) * snd (f k j))"
  by (induction R) (simp_all add: dot_def dot_step_def)

text \<open>C28: in exact arithmetic \<open>correlate\<close> fills its table with a Hermitian matrix: entry (i, j)
  is the sum over the rows k of A(k, i) times the conjugate of A(k, j), so it is the conjugate
  of entry (j, i). (The comment over the routine announces the conjugate of this, A' * A.)\<close>

theorem correlate_hermitian:
  fixes h :: "('d::comm_ring_1) store"
  assumes "is_matrix h src ss f"
  shows "\<exists>t' h' cs' e. correlate src (table_init (tb_columns src) (tb_columns src), h) = Inr (t', h')
    \<and> is_matrix h' t' cs' e \<and> is_matrix h' src ss f
    \<and> (\<forall>i j. e i j = (\<Sum>k < tb_rows src. fst (f k i) * fst (f k j) + snd (f k i) * snd (f k j),
                      \<Sum>k < tb_rows src. snd (f k i) * fst (f k j) - fst (f k i) * snd (f k j)))
    \<and> (\<forall>i j. e i j = (fst (e j i), - snd (e j i)))"
proof -
  obtain t' h' cs' where run: "correlate src (table_init (tb_columns src) (tb_columns src), h) = Inr (t', h')"
    and m: "is_matrix h' t' cs' (\<lambda>i j. dot (tb_rows src) f j i)"
    and k: "\<forall>a < brk h. cell h' a = cell h a" "brk h \<le> brk h'"
    using correlate_matrix [OF assms] by metis
  have src: "is_matrix h' src ss f" by (rule is_matrix_frame [OF assms k])
  have e: "dot (tb_rows src) f j i
      = (\<Sum>k < tb_rows src. fst (f k i) * fst (f k j) + snd (f k i) * snd (f k j),
         \<Sum>k < tb_rows src. snd (f k i) * fst (f k j) - fst (f k i) * snd (f k j))" for i j
    unfolding dot_sum by (simp add: mult.commute)
  have "- (\<Sum>k < tb_rows src. snd (f k j) * fst (f k i) - fst (f k j) * snd (f k i))
      = (\<Sum>k < tb_rows src. snd (f k i) * fst (f k j) - fst (f k i) * snd (f k j))" for i j
    by (simp add: sum_negf [symmetric] mult.commute)
  then have herm: "dot (tb_rows src) f j i
      = (fst (dot (tb_rows src) f i j), - snd (dot (tb_rows src) f i j))" for i j
    unfolding e by (simp add: mult.commute)
  show ?thesis
    by (intro exI conjI, rule run, rule m, rule src) (use e herm in blast)+
qed

theorem correlate_hermitian_witness:
  "\<exists>src ss h t' h' cs' e. is_matrix (h :: int store) src ss (\<lambda>i j. (int i, int j))
    \<and> correlate src (table_init 2 2, h) = Inr (t', h') \<and> is_matrix h' t' cs' e
    \<and> e 0 1 = (5, - 3) \<and> e 1 0 = (5, 3)"
proof -
  obtain src h ss where m: "is_matrix (h :: int store) src ss (\<lambda>i j. (int i, int j))"
    and d: "tb_rows src = 3" "tb_columns src = 2"
    by (rule build_matrix [of 3 2 store_example "\<lambda>i j. append_new (i, j, int i, int j)"]) simp_all
  obtain t' h' cs' e where r: "correlate src (table_init 2 2, h) = Inr (t', h')" "is_matrix h' t' cs' e"
    and e: "\<forall>i j. e i j = (\<Sum>k < 3. int k * int k + int i * int j,
                           \<Sum>k < 3. int i * int k - int k * int j)"
    using correlate_hermitian [OF m] unfolding d by auto
  have "e 0 1 = (5, - 3)" "e 1 0 = (5, 3)"
    unfolding e [rule_format] by (simp_all add: numeral_3_eq_3)
  with m r show ?thesis by blast
qed

section \<open>Products\<close>

text \<open>C29: \<open>table_mult\<close> into a zeroed table does not compute the matrix product its comment
  announces: entry (i, j) is the sum of row i of A times entry (i, j) of B.\<close>

theorem table_mult_row_sums:
  fixes h :: "('d::comm_ring_1) store"
  assumes "is_matrix h A as f" and "is_matrix h B bs g" and "is_matrix h C cs (\<lambda>_ _. (0, 0))"
    and "tb_rows A = tb_rows C" and "tb_rows B = tb_rows C" and "tb_columns B = tb_columns C"
    and "set (concat as) \<inter> set (concat cs) = {}" and "set (concat bs) \<inter> set (concat cs) = {}"
  shows "\<exists>h'. table_mult C A B h = Inr h' \<and> is_matrix h' A as f \<and> is_matrix h' B bs g
    \<and> is_matrix h' C cs (\<lambda>i j. cmul (\<Sum>k < tb_columns A. fst (f i k),
                                     \<Sum>k < tb_columns A. snd (f i k)) (g i j))"
proof -
  obtain h' where run: "table_mult C A B h = Inr h'" and t: "touches (set (concat cs)) h h'"
    and m: "is_matrix h' C cs (\<lambda>i j. fold (\<lambda>k. cmac (f i k) (g i j)) [0..<tb_columns A] (0, 0))"
    using table_mult_sim [OF assms] by blast
  have "is_matrix h' A as f" by (rule touches_matrix [OF t assms(1)]) (use assms(7) in blast)
  moreover have "is_matrix h' B bs g" by (rule touches_matrix [OF t assms(2)]) (use assms(8) in blast)
  moreover have "is_matrix h' C cs (\<lambda>i j. cmul (\<Sum>k < tb_columns A. fst (f i k),
                                     \<Sum>k < tb_columns A. snd (f i k)) (g i j))"
    by (rule is_matrix_cong [OF m])
       (simp add: fold_cmac cmac_def cmul_def interv_sum_list_conv_sum_set_nat atLeast0LessThan)
  ultimately show ?thesis using run by blast
qed

theorem table_mult_row_sums_witness:
  "\<exists>(h :: int store) I is C cs h'. is_matrix h I is (\<lambda>i j. (if i = j then 1 else 0, 0))
    \<and> is_matrix h C cs (\<lambda>_ _. (0, 0)) \<and> table_mult C I I h = Inr h' \<and> is_matrix h' C cs
       (\<lambda>i j. cmul (\<Sum>k < 2. if i = k then 1 else 0, \<Sum>k < (2::nat). 0) (if i = j then 1 else 0, 0))"
proof -
  obtain I h1 "is" where I: "is_matrix (h1 :: int store) I is (\<lambda>i j. (if i = j then 1 else 0, 0))"
    and dI: "tb_rows I = 2" "tb_columns I = 2"
    by (rule identity_init_matrix [of 2 2 store_example])
  obtain C h2 cs where C: "is_matrix h2 C cs (\<lambda>_ _. (0, 0))" and dC: "tb_rows C = 2" "tb_columns C = 2"
    and k: "\<forall>a < brk h1. cell h2 a = cell h1 a" "\<forall>a \<in> set (concat cs). brk h1 \<le> a" "brk h1 \<le> brk h2"
    by (rule zero_init_matrix [of 2 2 h1])
  have I2: "is_matrix h2 I is (\<lambda>i j. (if i = j then 1 else 0, 0))"
    by (rule is_matrix_frame [OF I k(1,3)])
  have "set (concat is) \<inter> set (concat cs) = {}"
    using matrix_below [OF I] k(2) by (meson disjoint_iff leD)
  then obtain h' where "table_mult C I I h2 = Inr h'" "is_matrix h' C cs
       (\<lambda>i j. cmul (\<Sum>k < 2. if i = k then 1 else 0, \<Sum>k < (2::nat). 0) (if i = j then 1 else 0, 0))"
    using table_mult_row_sums [OF I2 I2 C] dI dC by auto
  with I2 C show ?thesis by blast
qed

section \<open>Adding the noise\<close>


section \<open>Inversion\<close>

text \<open>C31: \<open>invert\<close> on an n by n table and an n by n augment (n at least 2, no shared node)
  returns, leaves its first table alone, and leaves in the augment the second component of two
  elimination rounds on the matrices, whatever the arithmetic; the in-place subtraction of the
  second round included.\<close>

theorem invert_refines_rounds:
  fixes h :: "('d::{plus,minus,times,divide,zero}) store"
  assumes "is_matrix h M ms f" and "is_matrix h U us g" and "square n M" and "square n U"
    and "set (concat ms) \<inter> set (concat us) = {}" and "2 \<le> n"
  shows "\<exists>h'. invert F M U h = Inr h' \<and> is_matrix h' M ms f
    \<and> is_matrix h' U us (snd (round_mat F 1 (round_mat F 0 (f, g))))"
  using invert_rounds [OF assms(1-5) assms(6)] .

definition libm_example :: "rat libm" where
  "libm_example = \<lparr>c_int = of_int, c_sqrt = id, c_ceil = (\<lambda>x. of_int \<lceil>x\<rceil>), c_sin = id, c_cos = id,
     c_log = id, c_pow = (\<lambda>x y. x), nonzero = (\<lambda>x. x \<noteq> 0), c_rand_max = 32767\<rparr>"

definition two_by_two :: "'d \<Rightarrow> 'd \<Rightarrow> 'd \<Rightarrow> 'd \<Rightarrow> nat \<Rightarrow> nat \<Rightarrow> ('d::zero) \<times> 'd" where
  "two_by_two a b c d i j = (if i = 0 then if j = 0 then a else b else if j = 0 then c else d, 0)"

definition rat_store :: "rat store" where
  "rat_store = \<lparr>cell = (\<lambda>_. \<lparr>nd_next = None, nd_row = 0, nd_col = 0, nd_imag = 0, nd_real = 0\<rparr>),
     brk = 0\<rparr>"

lemma two_tables:
  obtains h M ms U us where "is_matrix (h :: rat store) M ms (two_by_two a b c d)"
    and "is_matrix h U us (\<lambda>i j. (if i = j then 1 else 0, 0))"
    and "square 2 M" and "square 2 U" and "set (concat ms) \<inter> set (concat us) = {}"
proof -
  obtain M h1 ms where M: "is_matrix (h1 :: rat store) M ms (two_by_two a b c d)"
    and dM: "tb_rows M = 2" "tb_columns M = 2"
    by (rule build_matrix [of 2 2 rat_store "\<lambda>i j. append_new (i, j, two_by_two a b c d i j)"]) simp_all
  obtain U h2 us where U: "is_matrix h2 U us (\<lambda>i j. (if i = j then 1 else 0, 0))"
    and dU: "tb_rows U = 2" "tb_columns U = 2"
    and k: "\<forall>a < brk h1. cell h2 a = cell h1 a" "\<forall>a \<in> set (concat us). brk h1 \<le> a" "brk h1 \<le> brk h2"
    by (rule identity_init_matrix [of 2 2 h1])
  have "is_matrix h2 M ms (two_by_two a b c d)" by (rule is_matrix_frame [OF M k(1,3)])
  moreover have "set (concat ms) \<inter> set (concat us) = {}"
    using matrix_below [OF M] k(2) by (meson disjoint_iff leD)
  ultimately show ?thesis using that U dM dU by (simp add: square_def)
qed

theorem invert_refines_rounds_witness:
  "\<exists>(h :: rat store) M ms U us h'. is_matrix h M ms (two_by_two 2 1 4 4)
    \<and> invert libm_example M U h = Inr h'
    \<and> is_matrix h' U us (snd (round_mat libm_example 1 (round_mat libm_example 0
        (two_by_two 2 1 4 4, \<lambda>i j. (if i = j then 1 else 0, 0)))))"
proof -
  obtain h M ms U us where M: "is_matrix (h :: rat store) M ms (two_by_two 2 1 4 4)"
    and U: "is_matrix h U us (\<lambda>i j. (if i = j then 1 else 0, 0))"
    and sq: "square 2 M" "square 2 U" and apart: "set (concat ms) \<inter> set (concat us) = {}"
    by (rule two_tables)
  from invert_refines_rounds [OF M U sq apart order_refl, of libm_example] M show ?thesis by blast
qed

text \<open>The quotients that \<open>divide_array_by_double\<close> rounds when the matrix is real and 2 by 2.\<close>

definition exact_at :: "('d::field) libm \<Rightarrow> 'd set \<Rightarrow> bool" where
  "exact_at F X \<longleftrightarrow> (\<forall>x \<in> X. c_ceil F (x * c_int F 1000000) = x * c_int F 1000000)"

lemma scale_exact:
  "exact_at F X \<Longrightarrow> c_int F 1000000 \<noteq> 0 \<Longrightarrow> x / p \<in> X \<Longrightarrow> y / p \<in> X \<Longrightarrow> scale F p (x, y) = (x / p, y / p)"
  by (simp add: scale_def exact_at_def del: times_divide_eq_left)

lemma rounds_real_2x2:
  fixes a b c d :: "'d::field"
  assumes a: "a \<noteq> 0" and p: "d - c * (b / a) \<noteq> 0" and m: "c_int F 1000000 \<noteq> 0"
    and nz: "\<not> nonzero F 0"
    and ex: "exact_at F {0, 1, b / a, 1 / a, - (c / a) / (d - c * (b / a)), 1 / (d - c * (b / a))}"
    and i: "i < 2" and j: "j < 2"
  shows "snd (round_mat F 1 (round_mat F 0 (two_by_two a b c d, \<lambda>i j. (if i = j then 1 else 0, 0)))) i j
    = (if i = 0 then if j = 0 then d / (a * d - b * c) else - b / (a * d - b * c)
       else if j = 0 then - c / (a * d - b * c) else a / (a * d - b * c), 0)"
proof -
  let ?p = "d - c * (b / a)"
  have sc: "scale F q (x, 0) = (x / q, 0)" if "x / q \<in> {0, 1, b / a, 1 / a, - (c / a) / ?p, 1 / ?p}" for q x
    using scale_exact [OF ex m, of x q 0] that by simp
  obtain f1 g1 where r0: "round_mat F 0 (two_by_two a b c d, \<lambda>i j. (if i = j then 1 else 0, 0)) = (f1, g1)"
    by (cases "round_mat F 0 (two_by_two a b c d, \<lambda>i j. (if i = j then 1 else (0 :: 'd), (0 :: 'd)))")
  have f1: "f1 0 0 = (1, 0)" "f1 0 1 = (b / a, 0)" "f1 1 0 = (0, 0)" "f1 1 1 = (?p, 0)"
    and g1: "g1 0 0 = (1 / a, 0)" "g1 0 1 = (0, 0)" "g1 1 0 = (- (c / a), 0)" "g1 1 1 = (1, 0)"
    using r0 a
    by (auto simp: round_mat_def norm_rows_def two_by_two_def nz sc set_row_def sub_cell_def csub_def Let_def)
  have q: "?p = (a * d - b * c) / a" using a by (simp add: field_simps)
  have D: "a * d - b * c \<noteq> 0" using p q by auto
  have ij: "i = 0 \<or> i = 1" "j = 0 \<or> j = 1" using i j by auto
  have "snd (round_mat F 1 (f1, g1)) i j
    = (if i = 0 then if j = 0 then 1 / a - b / a * (- (c / a) / ?p) else 0 - b / a * (1 / ?p)
       else if j = 0 then - (c / a) / ?p else 1 / ?p, 0)"
    using ij p by (auto simp: round_mat_def norm_rows_def f1 g1 [unfolded One_nat_def] f1 [unfolded One_nat_def]
        nz sc set_row_def sub_cell_def csub_def Let_def)
  also have "\<dots> = (if i = 0 then if j = 0 then d / (a * d - b * c) else - b / (a * d - b * c)
       else if j = 0 then - c / (a * d - b * c) else a / (a * d - b * c), 0)"
    unfolding q using a D by (simp add: field_simps)
  finally show ?thesis by (simp add: r0)
qed

text \<open>For a real 2 by 2 matrix with non-zero pivots and the identity as augment, whenever
  rounding up at the sixth decimal is exact on the six quotients that occur, \<open>invert\<close> leaves
  the inverse of the matrix in the augment.\<close>

theorem invert_real_two_by_two:
  fixes h :: "('d::field) store"
  assumes "is_matrix h M ms (two_by_two a b c d)"
    and "is_matrix h U us (\<lambda>i j. (if i = j then 1 else 0, 0))"
    and "square 2 M" and "square 2 U" and "set (concat ms) \<inter> set (concat us) = {}"
    and "a \<noteq> 0" and "d - c * (b / a) \<noteq> 0" and "c_int F 1000000 \<noteq> 0" and "\<not> nonzero F 0"
    and "exact_at F {0, 1, b / a, 1 / a, - (c / a) / (d - c * (b / a)), 1 / (d - c * (b / a))}"
  shows "\<exists>h' x y z w. invert F M U h = Inr h' \<and> is_matrix h' U us (two_by_two x y z w)
    \<and> a * x + b * z = 1 \<and> a * y + b * w = 0 \<and> c * x + d * z = 0 \<and> c * y + d * w = 1"
proof -
  let ?D = "a * d - b * c"
  obtain h' where run: "invert F M U h = Inr h'"
    and m: "is_matrix h' U us (snd (round_mat F 1 (round_mat F 0
      (two_by_two a b c d, \<lambda>i j. (if i = j then 1 else 0, 0)))))"
    using invert_rounds [OF assms(1-5)] by auto
  have "is_matrix h' U us (two_by_two (d / ?D) (- b / ?D) (- c / ?D) (a / ?D))"
    by (rule is_matrix_cong [OF m])
       (use assms(4) rounds_real_2x2 [OF assms(6-10)] in \<open>auto simp: square_def two_by_two_def\<close>)
  moreover have "?D \<noteq> 0"
  proof -
    have "d - c * (b / a) = ?D / a" using assms(6) by (simp add: field_simps)
    with assms(7) show ?thesis by auto
  qed
  then have "a * (d / ?D) + b * (- c / ?D) = 1" "a * (- b / ?D) + b * (a / ?D) = 0"
    "c * (d / ?D) + d * (- c / ?D) = 0" "c * (- b / ?D) + d * (a / ?D) = 1"
    by (simp_all add: diff_divide_distrib [symmetric] mult.commute field_simps)
  ultimately show ?thesis using run by blast
qed

theorem invert_real_two_by_two_witness:
  "\<exists>(h :: rat store) M ms U us h' x y z w. is_matrix h M ms (two_by_two 2 1 4 4)
    \<and> invert libm_example M U h = Inr h' \<and> is_matrix h' U us (two_by_two x y z w)
    \<and> 2 * x + 1 * z = 1 \<and> 2 * y + 1 * w = 0 \<and> 4 * x + 4 * z = 0 \<and> 4 * y + 4 * w = 1"
proof -
  obtain h M ms U us where M: "is_matrix (h :: rat store) M ms (two_by_two 2 1 4 4)"
    and U: "is_matrix h U us (\<lambda>i j. (if i = j then 1 else 0, 0))"
    and sq: "square 2 M" "square 2 U" and apart: "set (concat ms) \<inter> set (concat us) = {}"
    by (rule two_tables)
  have "exact_at libm_example {0, 1, 1 / 2, 1 / 2, - (4 / 2) / (4 - 4 * (1 / 2)), 1 / (4 - 4 * (1 / 2))}"
    by (auto simp: exact_at_def libm_example_def intro: exI [of _ "- 1000000"])
  with invert_real_two_by_two [OF M U sq apart, of libm_example] M show ?thesis
    by (simp add: libm_example_def) blast
qed

end
