(* ===== verification/Sor.thy ===== *)
theory Sor
  imports Prelude Complex_Main
begin

text \<open>
  sefdm/algorythms/sor.list.c: successive over-relaxation on a tridiagonal matrix kept as one
  linked list of entries, and the sweep of guass-seidel.list.c, which shares everything else.

  A \<open>double\<close> is a type \<open>'d\<close> of which the definitions use the C operators only (C's division is
  \<open>div\<close> of the class \<open>divide\<close>, which a field writes \<open>/\<close>); the literals of
  \<open>main\<close> are the record \<open>lits\<close>. An array is a function of its index, which the code computes from
  its loop counters; the indices it reads from a node are checked against the size, here \<open>sz\<close>. What
  \<open>malloc\<close> and a declaration leave uninitialised is a parameter: \<open>junk\<close> holds the contents of the
  arrays and of \<open>max\<close> in one round of \<open>main\<close>. Every \<open>malloc\<close> succeeds: no result is checked.
\<close>

section \<open>State\<close>

record 'd snode =
  sn_next :: "nat option"
  sn_G :: 'd
  sn_row :: nat
  sn_col :: nat

record 'd sstore =
  sn_cell :: "nat \<Rightarrow> 'd snode"
  sn_brk :: nat

record 'd slist =
  sl_length :: nat
  sl_diag :: "nat \<Rightarrow> 'd"
  sl_head :: "nat option"
  sl_tail :: "nat option"

record 'd lits =
  lit_two :: 'd
  lit_source :: 'd
  lit_omega :: 'd
  lit_tol :: 'd

record 'd junk =
  jk_left :: "nat \<Rightarrow> 'd"
  jk_a :: "nat \<Rightarrow> nat \<Rightarrow> 'd"
  jk_diff :: "nat \<Rightarrow> 'd"
  jk_copy :: "nat \<Rightarrow> 'd"
  jk_max :: 'd

section \<open>Nodes and lists\<close>

definition upd_snode :: "nat \<Rightarrow> ('d snode \<Rightarrow> 'd snode) \<Rightarrow> 'd sstore \<Rightarrow> 'd sstore" where
  "upd_snode p f h = h\<lparr>sn_cell := (sn_cell h)(p := f (sn_cell h p))\<rparr>"

definition sor_node_init :: "nat \<Rightarrow> 'd \<Rightarrow> nat \<Rightarrow> nat \<Rightarrow> 'd sstore \<Rightarrow> 'd sstore" where
  "sor_node_init mynode in_G in_row in_col = upd_snode mynode (\<lambda>n. n\<lparr>
     sn_next := None, sn_G := in_G, sn_row := in_row, sn_col := in_col\<rparr>)"

definition list_init :: "(nat \<Rightarrow> 'd) \<Rightarrow> 'd slist" where
  "list_init g = \<lparr>sl_length = 0, sl_diag = g, sl_head = None, sl_tail = None\<rparr>"

definition list_append :: "nat \<Rightarrow> nat \<Rightarrow> 'd slist \<times> 'd sstore \<Rightarrow> ('d slist \<times> 'd sstore) res" where
  "list_append sz mynode = (\<lambda>(l, h).
     let h1 = upd_snode mynode (\<lambda>n. n\<lparr>sn_next := None\<rparr>) h;
         h2 = (case sl_tail l of None \<Rightarrow> h1
               | Some t \<Rightarrow> upd_snode t (\<lambda>n. n\<lparr>sn_next := Some mynode\<rparr>) h1);
         l1 = l\<lparr>sl_tail := Some mynode\<rparr>;
         l2 = (if sl_head l1 = None then l1\<lparr>sl_head := Some mynode\<rparr> else l1);
         l3 = l2\<lparr>sl_length := Suc (sl_length l2)\<rparr>;
         n = sn_cell h2 mynode
     in if sn_row n \<noteq> sn_col n then Inr (l3, h2)
        else if sn_row n < sz then Inr (l3\<lparr>sl_diag := (sl_diag l3)(sn_row n := sn_G n)\<rparr>, h2)
        else Inl IndexFault)"

text \<open>\<open>while (mynode!=NULL) { if (i++==x) break; mynode=mynode->next; }\<close>\<close>

fun get_node_from :: "nat \<Rightarrow> 'd sstore \<Rightarrow> nat \<Rightarrow> nat \<Rightarrow> nat option \<Rightarrow> nat option res" where
  "get_node_from 0 h i x p = Inl Diverges"
| "get_node_from (Suc k) h i x None = Inr None"
| "get_node_from (Suc k) h i x (Some p) =
     (if i = x then Inr (Some p) else get_node_from k h (Suc i) x (sn_next (sn_cell h p)))"

definition get_node :: "'d slist \<Rightarrow> nat \<Rightarrow> 'd sstore \<Rightarrow> nat option res" where
  "get_node mylist x h = get_node_from (Suc (sn_brk h)) h 0 x (sl_head mylist)"

section \<open>Vectors\<close>

definition x_init :: "nat \<Rightarrow> (nat \<Rightarrow> 'd::zero) \<Rightarrow> nat \<Rightarrow> 'd" where
  "x_init sz g = fold (\<lambda>i x. x(i := 0)) [0..<sz] g"

definition copy_x :: "nat \<Rightarrow> (nat \<Rightarrow> 'd) \<Rightarrow> (nat \<Rightarrow> 'd) \<Rightarrow> nat \<Rightarrow> 'd" where
  "copy_x sz g x = fold (\<lambda>i new_x. new_x(i := x i)) [0..<sz] g"

definition x_diff_y :: "nat \<Rightarrow> (nat \<Rightarrow> 'd::{minus,abs}) \<Rightarrow> (nat \<Rightarrow> 'd) \<Rightarrow> (nat \<Rightarrow> 'd) \<Rightarrow> nat \<Rightarrow> 'd" where
  "x_diff_y sz g x y = fold (\<lambda>i diffs. diffs(i := \<bar>x i - y i\<bar>)) [0..<sz] g"

definition max_x :: "nat \<Rightarrow> 'd \<Rightarrow> (nat \<Rightarrow> 'd::ord) \<Rightarrow> 'd" where
  "max_x sz g x = fold (\<lambda>i m. if m < x i then x i else m) [0..<sz] g"

definition create_x_0 :: "nat \<Rightarrow> (nat \<Rightarrow> 'd::one) \<Rightarrow> nat \<Rightarrow> 'd" where
  "create_x_0 sz g = fold (\<lambda>i x_0. x_0(i := 1)) [0..<sz] g"

definition create_b :: "nat \<Rightarrow> 'd::zero \<Rightarrow> (nat \<Rightarrow> 'd) \<Rightarrow> (nat \<Rightarrow> 'd) res" where
  "create_b sz S g =
     (if sz = 0 then Inl IndexFault
      else Inr ((fold (\<lambda>i b. b(i := 0)) [0..<sz - 1] g)(sz - 1 := S)))"

section \<open>The matrix\<close>

definition append_entry :: "nat \<Rightarrow> nat \<times> nat \<times> 'd \<Rightarrow> 'd slist \<times> 'd sstore \<Rightarrow> ('d slist \<times> 'd sstore) res" where
  "append_entry sz e = (\<lambda>(l, h). case e of (r, c, v) \<Rightarrow>
     list_append sz (sn_brk h) (l, sor_node_init (sn_brk h) v r c (h\<lparr>sn_brk := Suc (sn_brk h)\<rparr>)))"

text \<open>\<open>i == (j-1) || i == (j+1)\<close> on signed integers.\<close>

definition create_A :: "nat \<Rightarrow> 'd::one \<Rightarrow> (nat \<Rightarrow> 'd) \<Rightarrow> 'd sstore \<Rightarrow> ('d slist \<times> 'd sstore) res" where
  "create_A sz two g h =
     for_each [0..<sz] (\<lambda>i. for_each [0..<sz] (\<lambda>j s.
       bind_res (if int i = int j - 1 \<or> int i = int j + 1 then append_entry sz (i, j, 1) s else Inr s) (\<lambda>s1.
       if i = j then append_entry sz (i, i, two) s1 else Inr s1)))
     (list_init g, h)"

section \<open>The sweeps\<close>

text \<open>
  The \<open>do ... while (mynode != mylist->tail)\<close> loop that both sweeps start with: it fetches node
  \<open>k\<close> by walking from the head, stores its number in \<open>a\<close> and adds what is right of the diagonal.
\<close>

fun A_scan :: "nat \<Rightarrow> nat \<Rightarrow> 'd::{plus,times} slist \<Rightarrow> 'd sstore \<Rightarrow> (nat \<Rightarrow> 'd) \<Rightarrow> nat \<Rightarrow>
    (nat \<Rightarrow> nat \<Rightarrow> 'd) \<times> (nat \<Rightarrow> 'd) \<Rightarrow> ((nat \<Rightarrow> nat \<Rightarrow> 'd) \<times> (nat \<Rightarrow> 'd)) res" where
  "A_scan 0 sz mylist h x k s = Inl Diverges"
| "A_scan (Suc n) sz mylist h x k (a, A_x) =
     bind_res (bind_res (get_node mylist k h) deref) (\<lambda>mynode.
     let i = sn_row (sn_cell h mynode); j = sn_col (sn_cell h mynode); G = sn_G (sn_cell h mynode) in
     if sz \<le> i \<or> sz \<le> j then Inl IndexFault else
     let a1 = a(i := (a i)(j := G));
         A_x1 = (if i < j \<and> i \<noteq> j then A_x(i := A_x i + G * x j) else A_x)
     in if Some mynode = sl_tail mylist then Inr (a1, A_x1)
        else A_scan n sz mylist h x (Suc k) (a1, A_x1))"

definition right_sum :: "(nat \<Rightarrow> nat \<Rightarrow> 'd::{plus,times}) \<Rightarrow> (nat \<Rightarrow> 'd) \<Rightarrow> (nat \<Rightarrow> 'd) \<Rightarrow> nat \<Rightarrow> 'd" where
  "right_sum a A_x left_x i = fold (\<lambda>j right_x. right_x + left_x j * a i j) [0..<i] (A_x i)"

definition A_sor_x :: "nat \<Rightarrow> 'd::{zero,one,plus,minus,times,divide} slist \<Rightarrow> 'd sstore \<Rightarrow>
    (nat \<Rightarrow> 'd) \<Rightarrow> (nat \<Rightarrow> 'd) \<Rightarrow> 'd \<Rightarrow> 'd junk \<Rightarrow> (nat \<Rightarrow> 'd) res" where
  "A_sor_x sz mylist h x b omega jk =
     bind_res (A_scan (Suc (sn_brk h)) sz mylist h x 0 (jk_a jk, x_init sz (jk_diff jk))) (\<lambda>(a, A_x).
     let d = sl_diag mylist;
         left_x = (jk_left jk)(0 := (b 0 - A_x 0) div d 0)
     in Inr (fold (\<lambda>i left_x.
          let right_x = right_sum a A_x left_x i;
              l1 = left_x(i := 0);
              l2 = l1(i := l1 i + (1 - omega) * x i)
          in l2(i := l2 i + omega * (b i - right_x) div d i)) [1..<sz] left_x))"

text \<open>guass-seidel.list.c: \<open>left_x[i]+=(b[i]-right_x)/diag[i]\<close> on memory nobody has written.\<close>

definition A_back_x :: "nat \<Rightarrow> 'd::{zero,plus,minus,times,divide} slist \<Rightarrow> 'd sstore \<Rightarrow>
    (nat \<Rightarrow> 'd) \<Rightarrow> (nat \<Rightarrow> 'd) \<Rightarrow> 'd junk \<Rightarrow> (nat \<Rightarrow> 'd) res" where
  "A_back_x sz mylist h x b jk =
     bind_res (A_scan (Suc (sn_brk h)) sz mylist h x 0 (jk_a jk, x_init sz (jk_diff jk))) (\<lambda>(a, A_x).
     let d = sl_diag mylist;
         left_x = (jk_left jk)(0 := (b 0 - A_x 0) div d 0)
     in Inr (fold (\<lambda>i left_x. left_x(i := left_x i + (b i - right_sum a A_x left_x i) div d i))
          [1..<sz] left_x))"

section \<open>main\<close>

text \<open>
  The loop of \<open>main\<close> over either sweep, with fuel: \<open>None\<close> is "still running". The junk of round
  \<open>k\<close> is \<open>J k\<close>. The result is the number of rounds and the last vector.
\<close>

fun sweep_loop :: "nat \<Rightarrow> ((nat \<Rightarrow> 'd::{minus,abs,ord}) \<Rightarrow> 'd junk \<Rightarrow> (nat \<Rightarrow> 'd) res) \<Rightarrow> 'd \<Rightarrow> nat \<Rightarrow>
    (nat \<Rightarrow> 'd junk) \<Rightarrow> nat \<Rightarrow> (nat \<Rightarrow> 'd) \<Rightarrow> (nat \<times> (nat \<Rightarrow> 'd)) res option" where
  "sweep_loop 0 sweep tol sz J k x = None"
| "sweep_loop (Suc n) sweep tol sz J k x =
     (case sweep x (J k) of Inl e \<Rightarrow> Some (Inl e)
      | Inr new_x \<Rightarrow>
          let diff = x_diff_y sz (jk_diff (J k)) new_x x;
              error = max_x sz (jk_max (J k)) diff;
              x1 = copy_x sz (jk_copy (J k)) new_x
          in if tol < error then sweep_loop n sweep tol sz J (Suc k) x1 else Some (Inr (Suc k, x1)))"

text \<open>
  \<open>main\<close>: exit code and what is printed, the argument and the number of rounds; \<open>None\<close> for the
  argument is \<open>argc < 2\<close>. The time, printed as well, is left out.
\<close>

definition sor_main :: "nat \<Rightarrow> 'd::{zero,one,plus,minus,times,divide,abs,ord} lits \<Rightarrow> (nat \<Rightarrow> 'd) \<Rightarrow>
    (nat \<Rightarrow> 'd junk) \<Rightarrow> 'd sstore \<Rightarrow> int option \<Rightarrow> (int \<times> (int \<times> nat) option) res option" where
  "sor_main fuel L g J h arg =
     (case arg of None \<Rightarrow> Some (Inr (1, None))
      | Some n \<Rightarrow>
          (let sz = nat (n - 1) in
           case create_A sz (lit_two L) g h of Inl e \<Rightarrow> Some (Inl e)
           | Inr (A, h1) \<Rightarrow>
               (case create_b sz (lit_source L) g of Inl e \<Rightarrow> Some (Inl e)
                | Inr b \<Rightarrow>
                    map_option (\<lambda>r. bind_res r (\<lambda>(k, x). Inr (0, Some (n, k))))
                      (sweep_loop fuel (\<lambda>x jk. A_sor_x sz A h1 x b (lit_omega L) jk) (lit_tol L) sz J 0
                        (create_x_0 sz g)))))"

definition gs_main :: "nat \<Rightarrow> 'd::{zero,one,plus,minus,times,divide,abs,ord} lits \<Rightarrow> (nat \<Rightarrow> 'd) \<Rightarrow>
    (nat \<Rightarrow> 'd junk) \<Rightarrow> 'd sstore \<Rightarrow> int option \<Rightarrow> (int \<times> (int \<times> nat) option) res option" where
  "gs_main fuel L g J h arg =
     (case arg of None \<Rightarrow> Some (Inr (1, None))
      | Some n \<Rightarrow>
          (let sz = nat (n - 1) in
           case create_A sz (lit_two L) g h of Inl e \<Rightarrow> Some (Inl e)
           | Inr (A, h1) \<Rightarrow>
               (case create_b sz (lit_source L) g of Inl e \<Rightarrow> Some (Inl e)
                | Inr b \<Rightarrow>
                    map_option (\<lambda>r. bind_res r (\<lambda>(k, x). Inr (0, Some (n, k))))
                      (sweep_loop fuel (\<lambda>x jk. A_back_x sz A h1 x b jk) (lit_tol L) sz J 0
                        (create_x_0 sz g)))))"

end
