(* ===== verification/SorLemmas.thy ===== *)
theory SorLemmas
  imports Sor
begin

text \<open>
  What the routines of sor.list.c compute: the list that \<open>create_A\<close> builds, what the scan of the
  list leaves in its two arrays, and one sweep as equations between its old and new vectors.
\<close>

section \<open>Filling an array\<close>

lemma fold_fill: "fold (\<lambda>i y. y(i := f i)) [0..<n] g = (\<lambda>i. if i < n then f i else g i)"
  by (induction n) (auto simp: fun_eq_iff)

lemmas fill_simps = x_init_def copy_x_def x_diff_y_def create_x_0_def fold_fill

lemma create_b_Suc:
  "create_b (Suc n) S g = Inr (\<lambda>i. if i < n then 0 else if i = n then S else g i)"
  by (auto simp: create_b_def fold_fill fun_eq_iff)

lemma create_b_0 [simp]: "create_b 0 S g = Inl IndexFault"
  by (simp add: create_b_def)

text \<open>\<open>fold\<close> over an array whose element \<open>i\<close> is computed from the elements up to \<open>i\<close>.\<close>

definition sweep_to :: "(nat \<Rightarrow> (nat \<Rightarrow> 'd) \<Rightarrow> 'd) \<Rightarrow> nat \<Rightarrow> (nat \<Rightarrow> 'd) \<Rightarrow> nat \<Rightarrow> 'd" where
  "sweep_to F n l0 = fold (\<lambda>i l. l(i := F i l)) [1..<n] l0"

lemma sweep_to_Suc: "0 < n \<Longrightarrow> sweep_to F (Suc n) l0 = (sweep_to F n l0)(n := F n (sweep_to F n l0))"
  by (simp add: sweep_to_def)

lemma sweep_to_eq:
  assumes "\<And>i l l'. (\<And>j. j \<le> i \<Longrightarrow> l j = l' j) \<Longrightarrow> F i l = F i l'"
  shows "sweep_to F n l0 i = (if 1 \<le> i \<and> i < n then F i ((sweep_to F n l0)(i := l0 i)) else l0 i)"
proof (induction n arbitrary: i)
  case 0
  then show ?case by (simp add: sweep_to_def)
next
  case (Suc n)
  let ?y = "sweep_to F n l0"
  show ?case
  proof (cases "0 < n")
    case False
    then show ?thesis by (auto simp: sweep_to_def)
  next
    case True
    note y = sweep_to_Suc [OF this, of F l0]
    show ?thesis
    proof (cases "i = n")
      case i: True
      have "?y n = l0 n" using Suc.IH [of n] by simp
      then have "F n ?y = F n (?y(n := l0 n))" by (intro assms) auto
      then show ?thesis unfolding y i fun_upd_same fun_upd_upd using True by simp
    next
      case False
      have eq: "F i (?y(i := l0 i)) = F i ((?y(n := F n ?y))(i := l0 i))" if "i < n"
        by (rule assms) (use that in auto)
      have range: "1 \<le> i \<and> i < Suc n \<longleftrightarrow> 1 \<le> i \<and> i < n" using False by auto
      show ?thesis
      proof (cases "1 \<le> i \<and> i < n")
        case in_range: True
        then have "?y i = F i ((?y(n := F n ?y))(i := l0 i))"
          using Suc.IH [of i] eq by (simp only: simp_thms if_True)
        with in_range show ?thesis unfolding y fun_upd_other [OF False] range by (simp only: simp_thms if_True)
      next
        case out: False
        then show ?thesis unfolding y fun_upd_other [OF False] range
          using Suc.IH [of i] by (simp only: simp_thms if_False)
      qed
    qed
  qed
qed

section \<open>The list\<close>

definition sn_link :: "'d sstore \<Rightarrow> nat \<Rightarrow> nat option" where
  "sn_link h p = sn_next (sn_cell h p)"

definition sn_entry :: "'d sstore \<Rightarrow> nat \<Rightarrow> nat \<times> nat \<times> 'd" where
  "sn_entry h p = (sn_row (sn_cell h p), sn_col (sn_cell h p), sn_G (sn_cell h p))"

definition slist_rep :: "'d sstore \<Rightarrow> 'd slist \<Rightarrow> nat list \<Rightarrow> bool" where
  "slist_rep h l ps \<longleftrightarrow> chain (sn_link h) (sl_head l) ps \<and>
     sl_tail l = (if ps = [] then None else Some (last ps)) \<and> (\<forall>p \<in> set ps. p < sn_brk h)"

lemma slist_rep_fuel: "slist_rep h l ps \<Longrightarrow> length ps \<le> sn_brk h"
proof -
  assume "slist_rep h l ps"
  then have "distinct ps" "set ps \<subseteq> {..<sn_brk h}" by (auto simp: slist_rep_def dest: chain_distinct)
  then show ?thesis using card_mono [of "{..<sn_brk h}" "set ps"] by (simp add: distinct_card)
qed

lemma get_node_from_nth:
  assumes "chain (sn_link h) p ps" and "length ps < k" and "i \<le> x"
  shows "get_node_from k h i x p = Inr (if x - i < length ps then Some (ps ! (x - i)) else None)"
  using assms
proof (induction ps arbitrary: k p i)
  case Nil
  then show ?case by (cases k) auto
next
  case (Cons q ps)
  then obtain m where k: "k = Suc m" by (cases k) auto
  show ?case
  proof (cases "i = x")
    case False
    then have "get_node_from m h (Suc i) x (sn_link h q) =
        Inr (if x - Suc i < length ps then Some (ps ! (x - Suc i)) else None)"
      by (intro Cons.IH) (use Cons.prems k in auto)
    moreover have "x - i = Suc (x - Suc i)" using False Cons.prems(3) by simp
    ultimately show ?thesis using False Cons.prems k by (simp add: sn_link_def)
  qed (use Cons.prems k in simp)
qed

lemma get_node_nth:
  assumes "slist_rep h l ps"
  shows "get_node l x h = Inr (if x < length ps then Some (ps ! x) else None)"
  using get_node_from_nth [of h "sl_head l" ps "Suc (sn_brk h)" 0 x] slist_rep_fuel [OF assms] assms
  by (simp add: get_node_def slist_rep_def)

lemma sn_cell_upd [simp]:
  "sn_cell (upd_snode p f h) q = (if q = p then f (sn_cell h p) else sn_cell h q)"
  "sn_brk (upd_snode p f h) = sn_brk h"
  by (simp_all add: upd_snode_def)

lemma sor_node_init_simps [simp]:
  "sn_cell (sor_node_init p G r c h) q = (if q = p
     then (sn_cell h p)\<lparr>sn_next := None, sn_G := G, sn_row := r, sn_col := c\<rparr> else sn_cell h q)"
  "sn_brk (sor_node_init p G r c h) = sn_brk h"
  by (simp_all add: sor_node_init_def)

lemma append_entry_sim:
  assumes rep: "slist_rep h l ps" and "r = c \<longrightarrow> r < sz"
  shows "\<exists>l' h'. append_entry sz (r, c, v) (l, h) = Inr (l', h') \<and> slist_rep h' l' (ps @ [sn_brk h]) \<and>
    map (sn_entry h') (ps @ [sn_brk h]) = map (sn_entry h) ps @ [(r, c, v)] \<and>
    sl_diag l' = (if r = c then (sl_diag l)(r := v) else sl_diag l)"
proof -
  let ?p = "sn_brk h"
  define h1 where "h1 = upd_snode ?p (\<lambda>n. n\<lparr>sn_next := None\<rparr>) (sor_node_init ?p v r c (h\<lparr>sn_brk := Suc ?p\<rparr>))"
  define h2 where "h2 = (case sl_tail l of None \<Rightarrow> h1 | Some t \<Rightarrow> upd_snode t (\<lambda>n. n\<lparr>sn_next := Some ?p\<rparr>) h1)"
  define l2 where "l2 = l\<lparr>sl_tail := Some ?p, sl_head := (if sl_head l = None then Some ?p else sl_head l),
      sl_length := Suc (sl_length l), sl_diag := (if r = c then (sl_diag l)(r := v) else sl_diag l)\<rparr>"
  have new: "?p \<notin> set ps" using rep by (auto simp: slist_rep_def)
  have tail: "sl_tail l = (if ps = [] then None else Some (last ps))" using rep by (simp add: slist_rep_def)
  have entry: "sn_entry h2 q = (if q = ?p then (r, c, v) else sn_entry h q)" for q
    by (auto simp: h2_def h1_def sn_entry_def split: option.split)
  have brk: "sn_brk h2 = Suc ?p" by (simp add: h2_def h1_def split: option.split)
  have fields: "sn_row (sn_cell h2 ?p) = r" "sn_col (sn_cell h2 ?p) = c" "sn_G (sn_cell h2 ?p) = v"
    using entry [of ?p] by (simp_all add: sn_entry_def)
  have run: "append_entry sz (r, c, v) (l, h) = Inr (l2, h2)"
    unfolding append_entry_def list_append_def prod.case Let_def h1_def [symmetric] h2_def [symmetric]
    using fields assms(2) by (simp add: l2_def)
  have ch: "chain (sn_link h2) (sl_head l2) (ps @ [?p])"
  proof (cases ps rule: rev_cases)
    case Nil
    with rep have "sl_head l = None" "sl_tail l = None" by (auto simp: slist_rep_def)
    then show ?thesis using Nil by (simp add: l2_def h2_def h1_def sn_link_def)
  next
    case (snoc qs q)
    have c: "chain (sn_link h) (sl_head l) (qs @ [q])" using rep snoc by (simp add: slist_rep_def)
    have q: "q \<noteq> ?p" "q \<notin> set qs" "?p \<notin> set qs"
      using new snoc chain_distinct [OF c] by auto
    have "sn_link h2 = (sn_link h)(?p := None, q := Some ?p)"
      using q tail snoc by (auto simp: fun_eq_iff sn_link_def h2_def h1_def)
    moreover have "sl_head l2 = sl_head l" using c by (cases "sl_head l") (auto simp: l2_def)
    ultimately show ?thesis using c q snoc by (simp add: chain_append seg_append)
  qed
  have "map (sn_entry h2) (ps @ [?p]) = map (sn_entry h) ps @ [(r, c, v)]"
    using new by (auto simp: entry)
  moreover have "slist_rep h2 l2 (ps @ [?p])"
    using ch rep brk by (auto simp: slist_rep_def l2_def)
  moreover have "sl_diag l2 = (if r = c then (sl_diag l)(r := v) else sl_diag l)" by (simp add: l2_def)
  ultimately show ?thesis using run by blast
qed

section \<open>create\_A\<close>

definition tri_at :: "'d::one \<Rightarrow> nat \<Rightarrow> nat \<Rightarrow> (nat \<times> nat \<times> 'd) list" where
  "tri_at two i j = (if Suc i = j \<or> i = Suc j then [(i, j, 1)] else if i = j then [(i, i, two)] else [])"

definition tri_entries :: "'d::one \<Rightarrow> nat \<Rightarrow> (nat \<times> nat \<times> 'd) list" where
  "tri_entries two sz = concat (map (\<lambda>i. concat (map (tri_at two i) [0..<sz])) [0..<sz])"

lemma create_A_entries:
  "create_A sz two g h = for_each (tri_entries two sz) (append_entry sz) (list_init g, h)"
proof -
  have body: "bind_res (if int i = int j - 1 \<or> int i = int j + 1 then append_entry sz (i, j, 1) s else Inr s) (\<lambda>s1.
      if i = j then append_entry sz (i, i, two) s1 else Inr s1) = for_each (tri_at two i j) (append_entry sz) s"
    for i j s
  proof -
    have "int i = int j - 1 \<longleftrightarrow> Suc i = j" "int i = int j + 1 \<longleftrightarrow> i = Suc j" by auto
    then show ?thesis
      by (cases "append_entry sz (i, j, 1) s"; cases "append_entry sz (i, i, two) s") (auto simp: tri_at_def)
  qed
  show ?thesis unfolding create_A_def body tri_entries_def for_each_concat by (rule refl)
qed

lemma tri_entries_mem:
  "(r, c, v) \<in> set (tri_entries two sz) \<longleftrightarrow> r < sz \<and> c < sz \<and>
     (if Suc r = c \<or> r = Suc c then v = 1 else r = c \<and> v = two)"
  by (auto simp: tri_entries_def tri_at_def split: if_splits)

definition diag_of :: "(nat \<times> nat \<times> 'd) list \<Rightarrow> (nat \<Rightarrow> 'd) \<Rightarrow> nat \<Rightarrow> 'd" where
  "diag_of es = fold (\<lambda>(r, c, v) d. if r = c then d(r := v) else d) es"

lemma diag_of_two:
  assumes "\<forall>(r, c, v) \<in> set es. r = c \<longrightarrow> v = two"
  shows "diag_of es g i = (if \<exists>v. (i, i, v) \<in> set es then two else g i)"
  using assms unfolding diag_of_def
proof (induction es rule: rev_induct)
  case Nil
  then show ?case by simp
next
  case (snoc e es)
  then show ?case by (cases e) auto
qed

lemma create_A_sim:
  "\<exists>l h' ps. create_A sz two g h = Inr (l, h') \<and> slist_rep h' l ps \<and>
    map (sn_entry h') ps = tri_entries two sz \<and> (\<forall>i < sz. sl_diag l i = two)"
proof -
  let ?P = "\<lambda>es s. \<exists>ps. slist_rep (snd s) (fst s) ps \<and> map (sn_entry (snd s)) ps = es \<and>
    sl_diag (fst s) = diag_of es g"
  have "\<exists>s'. for_each (tri_entries two sz) (append_entry sz) (list_init g, h) = Inr s' \<and> ?P (tri_entries two sz) s'"
  proof (rule for_each_prefix)
    show "?P [] (list_init g, h)" by (simp add: list_init_def slist_rep_def diag_of_def)
    fix ys x zs u
    assume split: "tri_entries two sz = ys @ x # zs" and inv: "?P ys u"
    obtain r c v where x: "x = (r, c, v)" by (cases x)
    obtain l h1 where u: "u = (l, h1)" by (cases u)
    have "(r, c, v) \<in> set (tri_entries two sz)" using split x by simp
    then have "r = c \<longrightarrow> r < sz" by (simp add: tri_entries_mem)
    moreover from inv obtain ps where ps: "slist_rep h1 l ps" "map (sn_entry h1) ps = ys" "sl_diag l = diag_of ys g"
      by (auto simp: u)
    ultimately obtain l' h' where s: "append_entry sz (r, c, v) (l, h1) = Inr (l', h')"
      "slist_rep h' l' (ps @ [sn_brk h1])" "map (sn_entry h') (ps @ [sn_brk h1]) = ys @ [(r, c, v)]"
      "sl_diag l' = (if r = c then (sl_diag l)(r := v) else sl_diag l)"
      using append_entry_sim [of h1 l ps r c sz v] by auto
    have "sl_diag l' = diag_of (ys @ [x]) g" by (simp add: s(4) ps(3) x diag_of_def)
    with s show "\<exists>u'. append_entry sz x u = Inr u' \<and> ?P (ys @ [x]) u'" unfolding x u by fastforce
  qed
  then obtain l h' ps where "for_each (tri_entries two sz) (append_entry sz) (list_init g, h) = Inr (l, h')"
    "slist_rep h' l ps" "map (sn_entry h') ps = tri_entries two sz" "sl_diag l = diag_of (tri_entries two sz) g"
    by auto
  moreover have "diag_of (tri_entries two sz) g i = two" if "i < sz" for i
    by (subst diag_of_two [of _ two]) (use that in \<open>auto simp: tri_entries_mem split: if_splits\<close>)
  ultimately show ?thesis by (auto simp: create_A_entries)
qed

section \<open>The scan of the list\<close>

definition scan_of :: "(nat \<Rightarrow> 'd::{plus,times}) \<Rightarrow> (nat \<times> nat \<times> 'd) list \<Rightarrow>
    (nat \<Rightarrow> nat \<Rightarrow> 'd) \<times> (nat \<Rightarrow> 'd) \<Rightarrow> (nat \<Rightarrow> nat \<Rightarrow> 'd) \<times> (nat \<Rightarrow> 'd)" where
  "scan_of x = fold (\<lambda>(i, j, G) (a, A_x).
     (a(i := (a i)(j := G)), if i < j then A_x(i := A_x i + G * x j) else A_x))"

lemma A_scan_sim:
  assumes rep: "slist_rep h l ps" and sq: "\<forall>(r, c, v) \<in> set (map (sn_entry h) ps). r < sz \<and> c < sz"
    and "k < length ps" and "length ps - k \<le> n"
  shows "A_scan n sz l h x k s = Inr (scan_of x (drop k (map (sn_entry h) ps)) s)"
  using assms(3,4)
proof (induction n arbitrary: k s)
  case 0
  then show ?case by simp
next
  case (Suc n)
  obtain a A where s: "s = (a, A)" by (cases s)
  let ?p = "ps ! k"
  obtain i j G where e: "sn_entry h ?p = (i, j, G)" by (cases "sn_entry h ?p")
  then have f: "sn_row (sn_cell h ?p) = i" "sn_col (sn_cell h ?p) = j" "sn_G (sn_cell h ?p) = G"
    by (simp_all add: sn_entry_def)
  have "(i, j, G) \<in> set (map (sn_entry h) ps)" using Suc.prems(1) e by (force simp: in_set_conv_nth)
  then have ij: "i < sz" "j < sz" using sq by auto
  have get: "get_node l k h = Inr (Some ?p)" using get_node_nth [OF rep] Suc.prems(1) by simp
  have "distinct ps" using rep by (auto simp: slist_rep_def dest: chain_distinct)
  then have last: "Some ?p = sl_tail l \<longleftrightarrow> Suc k = length ps"
    using rep Suc.prems(1) by (auto simp: slist_rep_def last_conv_nth nth_eq_iff_index_eq)
  have drop: "drop k (map (sn_entry h) ps) = (i, j, G) # drop (Suc k) (map (sn_entry h) ps)"
    using Suc.prems(1) e by (subst Cons_nth_drop_Suc [symmetric]) auto
  let ?s' = "(a(i := (a i)(j := G)), if i < j then A(i := A i + G * x j) else A)"
  have step: "A_scan (Suc n) sz l h x k s = (if Suc k = length ps then Inr ?s' else A_scan n sz l h x (Suc k) ?s')"
    unfolding s A_scan.simps get bind_res_simps deref_simps f Let_def last using ij by simp
  have one: "scan_of x ((i, j, G) # es) s = scan_of x es ?s'" for es by (simp add: scan_of_def s)
  show ?case
  proof (cases "Suc k = length ps")
    case True
    then show ?thesis unfolding drop one step by (simp add: scan_of_def)
  next
    case False
    then show ?thesis unfolding drop one step using Suc.prems Suc.IH [of "Suc k" ?s'] by simp
  qed
qed

lemma scan_of_a:
  assumes "\<forall>(r, c, v) \<in> set es. v = F r c"
  shows "fst (scan_of x es s) i j = (if \<exists>v. (i, j, v) \<in> set es then F i j else fst s i j)"
  using assms unfolding scan_of_def
proof (induction es rule: rev_induct)
  case Nil
  then show ?case by simp
next
  case (snoc e es)
  then show ?case by (cases e) (auto simp: case_prod_unfold)
qed

lemma scan_of_A_x:
  fixes x :: "nat \<Rightarrow> 'd::comm_ring_1"
  shows "snd (scan_of x es s) i = snd s i + (\<Sum>(r, c, v) \<leftarrow> es. if r = i \<and> r < c then v * x c else 0)"
  unfolding scan_of_def
proof (induction es rule: rev_induct)
  case Nil
  then show ?case by simp
next
  case (snoc e es)
  then show ?case by (cases e) (auto simp: case_prod_unfold)
qed

lemma sum_list_over_concat: "sum_list (map f (concat xss)) = (\<Sum>xs \<leftarrow> xss. sum_list (map f xs))"
  by (induction xss) simp_all

lemma tri_right_of_diagonal:
  fixes x :: "nat \<Rightarrow> 'd::comm_ring_1"
  assumes "i < sz"
  shows "(\<Sum>(r, c, v) \<leftarrow> tri_entries two sz. if r = i \<and> r < c then v * x c else 0) =
    (if Suc i < sz then x (Suc i) else 0)"
proof -
  let ?f = "\<lambda>(r, c, v). if r = i \<and> r < c then v * x c else (0 :: 'd)"
  have "sum_list (map ?f (tri_at two r c)) = (if c = Suc i then if r = i then x c else 0 else 0)" for r c
    by (auto simp: tri_at_def)
  then have "sum_list (map ?f (tri_entries two sz)) =
      (\<Sum>r \<leftarrow> [0..<sz]. \<Sum>c \<leftarrow> [0..<sz]. if c = Suc i then if r = i then x c else 0 else 0)"
    by (simp add: tri_entries_def sum_list_over_concat o_def)
  also have "\<dots> = (\<Sum>r \<in> {0..<sz}. \<Sum>c \<in> {0..<sz}. if c = Suc i then if r = i then x c else 0 else 0)"
    by (simp add: interv_sum_list_conv_sum_set_nat)
  also have "\<dots> = (\<Sum>r \<in> {0..<sz}. if r = i then (if Suc i < sz then x (Suc i) else 0) else 0)"
    by (rule sum.cong) (auto simp: sum.delta)
  also have "\<dots> = (if Suc i < sz then x (Suc i) else 0)" using assms by (simp add: sum.delta)
  finally show ?thesis .
qed

section \<open>The matrix of a sweep\<close>

text \<open>
  The matrix a sweep really uses: the tridiagonal one, but below the first subdiagonal what
  happened to be in the uninitialised array \<open>a\<close>.
\<close>

definition sweep_matrix :: "'d::{zero,one} \<Rightarrow> (nat \<Rightarrow> nat \<Rightarrow> 'd) \<Rightarrow> nat \<Rightarrow> nat \<Rightarrow> 'd" where
  "sweep_matrix two ga i j =
     (if i = j then two else if Suc i = j \<or> i = Suc j then 1 else if j < i then ga i j else 0)"

lemma A_scan_create_A:
  fixes x :: "nat \<Rightarrow> 'd::comm_ring_1"
  assumes "slist_rep h l ps" and "map (sn_entry h) ps = tri_entries two sz" and "0 < sz"
  shows "\<exists>a A. A_scan (Suc (sn_brk h)) sz l h x 0 (ga, x_init sz g) = Inr (a, A) \<and>
    (\<forall>i < sz. A i = (if Suc i < sz then x (Suc i) else 0)) \<and>
    (\<forall>i < sz. \<forall>j < i. a i j = sweep_matrix two ga i j)"
proof -
  have "(0, 0, two) \<in> set (tri_entries two sz)" using assms(3) by (simp add: tri_entries_mem)
  then have ne: "0 < length ps" using assms(2) by (metis length_greater_0_conv length_map list.size(3) length_pos_if_in_set)
  let ?r = "scan_of x (tri_entries two sz) (ga, x_init sz g)"
  have "A_scan (Suc (sn_brk h)) sz l h x 0 (ga, x_init sz g) = Inr (scan_of x (drop 0 (map (sn_entry h) ps)) (ga, x_init sz g))"
    by (rule A_scan_sim [OF assms(1) _ ne])
      (use slist_rep_fuel [OF assms(1)] assms(2) in \<open>auto simp: tri_entries_mem\<close>)
  then have run: "A_scan (Suc (sn_brk h)) sz l h x 0 (ga, x_init sz g) = Inr (fst ?r, snd ?r)"
    by (simp add: assms(2))
  have "snd ?r i = (if Suc i < sz then x (Suc i) else 0)" if "i < sz" for i
    using that by (simp add: scan_of_A_x tri_right_of_diagonal fill_simps)
  moreover have "fst ?r i j = sweep_matrix two ga i j" if "i < sz" "j < i" for i j
    using that by (subst scan_of_a [where F = "\<lambda>r c. if r = c then two else 1"])
      (auto simp: tri_entries_mem sweep_matrix_def split: if_splits)
  ultimately show ?thesis using run by blast
qed

lemma sweep_matrix_row:
  fixes x :: "nat \<Rightarrow> 'd::comm_ring_1"
  assumes "i < sz"
  shows "(\<Sum>j < sz. sweep_matrix two ga i j * x j) =
    (if Suc i < sz then x (Suc i) else 0) + (\<Sum>j < i. x j * sweep_matrix two ga i j) + two * x i"
proof -
  let ?f = "\<lambda>j. sweep_matrix two ga i j * x j"
  have "sum ?f {..<sz} = sum ?f {..<i} + sum ?f {i..<sz}"
    using assms by (simp add: sum.atLeastLessThan_concat lessThan_atLeast0)
  also have "sum ?f {i..<sz} = ?f i + sum ?f {Suc i..<sz}"
    using assms by (rule sum.atLeast_Suc_lessThan)
  finally have "sum ?f {..<sz} = sum ?f {..<i} + (?f i + sum ?f {Suc i..<sz})" .
  moreover have "sum ?f {Suc i..<sz} = (\<Sum>j \<in> {Suc i..<sz}. if j = Suc i then x j else 0)"
    by (rule sum.cong) (auto simp: sweep_matrix_def)
  moreover have "\<dots> = (if Suc i < sz then x (Suc i) else 0)" by (simp add: sum.delta)
  moreover have "?f i = two * x i" by (simp add: sweep_matrix_def)
  ultimately show ?thesis by (simp add: mult.commute algebra_simps)
qed

end
