(* ===== verification/SorProps.thy ===== *)
theory SorProps
  imports SorLemmas
begin

text \<open>
  The properties of the relaxation program: which linear system its sweeps solve, and when its
  \<open>main\<close> ends.
\<close>

section \<open>One sweep\<close>

lemma right_sum_eq:
  fixes a :: "nat \<Rightarrow> nat \<Rightarrow> 'd::comm_ring_1"
  shows "right_sum a A_x l i = A_x i + (\<Sum>j < i. l j * a i j)"
proof -
  have "fold (\<lambda>j r. r + f j) [0..<n] z = z + (\<Sum>j < n. f j)" for n z and f :: "nat \<Rightarrow> 'd"
    by (induction n) (simp_all add: add.assoc)
  then show ?thesis by (simp add: right_sum_def)
qed

lemma right_sum_cong: "(\<And>j. j < i \<Longrightarrow> l j = l' j) \<Longrightarrow> right_sum a A_x l i = right_sum a A_x l' i"
  unfolding right_sum_def by (rule fold_cong) auto

text \<open>
  Both sweeps from the list that \<open>create_A\<close> builds: \<open>c\<close> is what \<open>left_x[i]\<close> holds before the
  last assignment to it, \<open>w\<close> the weight.
\<close>

definition sweep_of :: "'d::field \<Rightarrow> (nat \<Rightarrow> nat \<Rightarrow> 'd) \<Rightarrow> (nat \<Rightarrow> 'd) \<Rightarrow> 'd \<Rightarrow> nat \<Rightarrow>
    (nat \<Rightarrow> 'd) \<Rightarrow> (nat \<Rightarrow> 'd) \<Rightarrow> (nat \<Rightarrow> 'd) \<Rightarrow> bool" where
  "sweep_of two ga c w sz b x y \<longleftrightarrow> (\<forall>i < sz. y i =
     (if i = 0 then 0 else c i) + (if i = 0 then 1 else w) *
       (b i - ((if Suc i < sz then x (Suc i) else 0) + (\<Sum>j < i. y j * sweep_matrix two ga i j))) / two)"

lemma sweep_to_sweep_of:
  fixes b :: "nat \<Rightarrow> 'd::field"
  assumes A: "\<forall>i < sz. A i = (if Suc i < sz then x (Suc i) else 0)"
    and a: "\<forall>i < sz. \<forall>j < i. a i j = sweep_matrix two ga i j"
    and d: "\<forall>i < sz. d i = two"
    and y: "\<And>i. y i = (if 1 \<le> i \<and> i < sz then c i + w * (b i - right_sum a A y i) / d i else y0 i)"
    and y0: "y0 0 = (b 0 - A 0) / d 0" and "0 < sz"
  shows "sweep_of two ga c w sz b x y"
  unfolding sweep_of_def
proof (intro allI impI)
  fix i assume i: "i < sz"
  have rs: "right_sum a A y i = (if Suc i < sz then x (Suc i) else 0) + (\<Sum>j < i. y j * sweep_matrix two ga i j)"
  proof -
    have "(\<Sum>j < i. y j * a i j) = (\<Sum>j < i. y j * sweep_matrix two ga i j)"
      by (rule sum.cong) (use a i in auto)
    with A i show ?thesis by (simp add: right_sum_eq)
  qed
  show "y i = (if i = 0 then 0 else c i) + (if i = 0 then 1 else w) *
       (b i - ((if Suc i < sz then x (Suc i) else 0) + (\<Sum>j < i. y j * sweep_matrix two ga i j))) / two"
  proof (cases "i = 0")
    case True
    then show ?thesis using y [of 0] y0 A d \<open>0 < sz\<close> by simp
  next
    case False
    then show ?thesis using y [of i] i d rs by simp
  qed
qed

lemma A_sor_x_sweep:
  fixes x :: "nat \<Rightarrow> 'd::field"
  assumes "slist_rep h l ps" and "map (sn_entry h) ps = tri_entries two sz" and "0 < sz"
    and d: "\<forall>i < sz. sl_diag l i = two"
  shows "\<exists>y. A_sor_x sz l h x b omega jk = Inr y \<and>
    sweep_of two (jk_a jk) (\<lambda>i. (1 - omega) * x i) omega sz b x y"
proof -
  obtain a A where scan: "A_scan (Suc (sn_brk h)) sz l h x 0 (jk_a jk, x_init sz (jk_diff jk)) = Inr (a, A)"
    and A: "\<forall>i < sz. A i = (if Suc i < sz then x (Suc i) else 0)"
    and a: "\<forall>i < sz. \<forall>j < i. a i j = sweep_matrix two (jk_a jk) i j"
    using A_scan_create_A [OF assms(1,2,3)] by blast
  let ?y0 = "(jk_left jk)(0 := (b 0 - A 0) / sl_diag l 0)"
  let ?F = "\<lambda>i l'. (1 - omega) * x i + omega * (b i - right_sum a A l' i) / sl_diag l i"
  have "A_sor_x sz l h x b omega jk = Inr (sweep_to ?F sz ?y0)"
    unfolding A_sor_x_def scan bind_res_simps prod.case by (simp add: sweep_to_def Let_def)
  moreover have "sweep_of two (jk_a jk) (\<lambda>i. (1 - omega) * x i) omega sz b x (sweep_to ?F sz ?y0)"
  proof (rule sweep_to_sweep_of [OF A a d])
    fix i
    have F: "?F i l = ?F i l'" if "\<And>j. j \<le> i \<Longrightarrow> l j = l' j" for i l l'
      using right_sum_cong [of i l l'] that by simp
    have "?F i ((sweep_to ?F sz ?y0)(i := ?y0 i)) = ?F i (sweep_to ?F sz ?y0)"
      using right_sum_cong [of i "(sweep_to ?F sz ?y0)(i := ?y0 i)"] by simp
    with sweep_to_eq [of ?F sz ?y0 i, OF F]
    show "sweep_to ?F sz ?y0 i = (if 1 \<le> i \<and> i < sz then ?F i (sweep_to ?F sz ?y0) else ?y0 i)"
      by (simp only: split: if_splits)
  qed (simp_all add: \<open>0 < sz\<close>)
  ultimately show ?thesis by blast
qed

lemma A_back_x_sweep:
  fixes x :: "nat \<Rightarrow> 'd::field"
  assumes "slist_rep h l ps" and "map (sn_entry h) ps = tri_entries two sz" and "0 < sz"
    and d: "\<forall>i < sz. sl_diag l i = two"
  shows "\<exists>y. A_back_x sz l h x b jk = Inr y \<and> sweep_of two (jk_a jk) (jk_left jk) 1 sz b x y"
proof -
  obtain a A where scan: "A_scan (Suc (sn_brk h)) sz l h x 0 (jk_a jk, x_init sz (jk_diff jk)) = Inr (a, A)"
    and A: "\<forall>i < sz. A i = (if Suc i < sz then x (Suc i) else 0)"
    and a: "\<forall>i < sz. \<forall>j < i. a i j = sweep_matrix two (jk_a jk) i j"
    using A_scan_create_A [OF assms(1,2,3)] by blast
  define y0 where "y0 = (jk_left jk)(0 := (b 0 - A 0) / sl_diag l 0)"
  define F where "F = (\<lambda>i l'. l' i + (b i - right_sum a A l' i) / sl_diag l i)"
  define y where "y = sweep_to F sz y0"
  have "A_back_x sz l h x b jk = Inr y"
    unfolding A_back_x_def scan bind_res_simps prod.case by (simp add: sweep_to_def Let_def y_def F_def y0_def)
  moreover have "sweep_of two (jk_a jk) (jk_left jk) 1 sz b x y"
  proof (rule sweep_to_sweep_of [OF A a d])
    fix i
    have F: "F i l = F i l'" if "\<And>j. j \<le> i \<Longrightarrow> l j = l' j" for i l l'
      using right_sum_cong [of i l l'] that by (simp add: F_def)
    have "right_sum a A (y(i := y0 i)) i = right_sum a A y i" by (rule right_sum_cong) simp
    then have "F i (y(i := y0 i)) = y0 i + (b i - right_sum a A y i) / sl_diag l i" by (simp add: F_def)
    moreover have "1 \<le> i \<Longrightarrow> y0 i = jk_left jk i" by (simp add: y0_def)
    moreover note sweep_to_eq [of F sz y0 i, OF F, folded y_def]
    ultimately show "y i = (if 1 \<le> i \<and> i < sz then jk_left jk i + 1 * (b i - right_sum a A y i) / sl_diag l i else y0 i)"
      by (cases "1 \<le> i \<and> i < sz") (simp_all only: simp_thms if_True if_False mult_1)
  qed (simp_all add: \<open>0 < sz\<close> y0_def)
  ultimately show ?thesis by blast
qed

text \<open>The fixed points of a sweep are the solutions of a linear system.\<close>

lemma sweep_fixed_points:
  fixes x :: "nat \<Rightarrow> 'd::field"
  assumes sweep: "sweep_of two ga c w sz b x y" and two: "two \<noteq> 0"
    and key: "\<And>i \<beta>. 0 < i \<Longrightarrow> c i + w * \<beta> / two = x i \<longleftrightarrow> \<beta> = two * x i - e i" and e0: "e 0 = 0"
  shows "(\<forall>i < sz. y i = x i) \<longleftrightarrow> (\<forall>i < sz. (\<Sum>j < sz. sweep_matrix two ga i j * x j) = b i + e i)"
proof -
  have row: "y i = x i \<longleftrightarrow> (\<Sum>j < sz. sweep_matrix two ga i j * x j) = b i + e i"
    if i: "i < sz" and below: "\<forall>j < i. y j = x j" for i
  proof -
    let ?\<beta> = "b i - ((if Suc i < sz then x (Suc i) else 0) + (\<Sum>j < i. x j * sweep_matrix two ga i j))"
    have "(\<Sum>j < i. y j * sweep_matrix two ga i j) = (\<Sum>j < i. x j * sweep_matrix two ga i j)"
      by (rule sum.cong) (use below in auto)
    then have y: "y i = (if i = 0 then 0 else c i) + (if i = 0 then 1 else w) * ?\<beta> / two"
      using sweep i unfolding sweep_of_def by simp
    have "y i = x i \<longleftrightarrow> ?\<beta> = two * x i - e i"
    proof (cases "i = 0")
      case True
      have "y i = x i \<longleftrightarrow> ?\<beta> / two = x i" using y True by simp
      also have "\<dots> \<longleftrightarrow> ?\<beta> = two * x i - e i" using two e0 True by (auto simp: field_simps)
      finally show ?thesis .
    next
      case False
      then show ?thesis using y key [of i ?\<beta>] by simp
    qed
    also have "\<dots> \<longleftrightarrow> (\<Sum>j < sz. sweep_matrix two ga i j * x j) = b i + e i"
      unfolding sweep_matrix_row [OF i] by (auto simp: algebra_simps)
    finally show ?thesis .
  qed
  show ?thesis
  proof
    assume still: "\<forall>i < sz. y i = x i"
    then show "\<forall>i < sz. (\<Sum>j < sz. sweep_matrix two ga i j * x j) = b i + e i" using row by simp
  next
    assume solves: "\<forall>i < sz. (\<Sum>j < sz. sweep_matrix two ga i j * x j) = b i + e i"
    have "i < sz \<longrightarrow> y i = x i" for i
    proof (induction i rule: less_induct)
      case (less i)
      then show ?case using row [of i] solves by fastforce
    qed
    then show "\<forall>i < sz. y i = x i" by blast
  qed
qed

text \<open>
  C25: a vector is left unchanged by a sweep of either program if and only if it solves a
  certain linear system, and it is not the system the programs set up. Below the first
  subdiagonal both use the array \<open>a\<close>, which only the stored entries have been written to; the
  Gauss-Seidel sweep also adds to \<open>left_x\<close> without clearing it, which shifts the right-hand
  side. Both sweeps return, on every size, whatever the junk.
\<close>

theorem relaxation_fixed_points:
  fixes h :: "('d::field) sstore"
  assumes "two \<noteq> 0" "omega \<noteq> 0" "0 < sz"
  shows "\<exists>l h'. create_A sz two g h = Inr (l, h') \<and> (\<forall>x b jk.
    (\<exists>y. A_sor_x sz l h' x b omega jk = Inr y \<and>
      ((\<forall>i < sz. y i = x i) \<longleftrightarrow> (\<forall>i < sz. (\<Sum>j < sz. sweep_matrix two (jk_a jk) i j * x j) = b i))) \<and>
    (\<exists>y. A_back_x sz l h' x b jk = Inr y \<and>
      ((\<forall>i < sz. y i = x i) \<longleftrightarrow> (\<forall>i < sz. (\<Sum>j < sz. sweep_matrix two (jk_a jk) i j * x j) =
        b i + (if i = 0 then 0 else two * jk_left jk i)))))"
proof -
  obtain l h' ps where A: "create_A sz two g h = Inr (l, h')" and rep: "slist_rep h' l ps"
    "map (sn_entry h') ps = tri_entries two sz" and d: "\<forall>i < sz. sl_diag l i = two"
    using create_A_sim by blast
  have "\<exists>y. A_sor_x sz l h' x b omega jk = Inr y \<and>
      ((\<forall>i < sz. y i = x i) \<longleftrightarrow> (\<forall>i < sz. (\<Sum>j < sz. sweep_matrix two (jk_a jk) i j * x j) = b i))" for x b jk
  proof -
    have key: "(1 - omega) * x i + omega * \<beta> / two = x i \<longleftrightarrow> \<beta> = two * x i - 0" for i \<beta>
    proof -
      have "(1 - omega) * x i + omega * \<beta> / two = x i \<longleftrightarrow> omega * (\<beta> / two - x i) = 0" by (auto simp: algebra_simps)
      also have "\<dots> \<longleftrightarrow> \<beta> = two * x i - 0" using assms by (auto simp: field_simps)
      finally show ?thesis .
    qed
    obtain y where y: "A_sor_x sz l h' x b omega jk = Inr y"
      "sweep_of two (jk_a jk) (\<lambda>i. (1 - omega) * x i) omega sz b x y"
      using A_sor_x_sweep [OF rep assms(3) d, of x b omega jk] by blast
    from sweep_fixed_points [OF y(2) assms(1), where e = "\<lambda>_. 0", OF key] y(1) show ?thesis by auto
  qed
  moreover have "\<exists>y. A_back_x sz l h' x b jk = Inr y \<and>
      ((\<forall>i < sz. y i = x i) \<longleftrightarrow> (\<forall>i < sz. (\<Sum>j < sz. sweep_matrix two (jk_a jk) i j * x j) =
        b i + (if i = 0 then 0 else two * jk_left jk i)))" for x b jk
  proof -
    have key: "0 < i \<Longrightarrow> jk_left jk i + 1 * \<beta> / two = x i \<longleftrightarrow>
        \<beta> = two * x i - (if i = 0 then 0 else two * jk_left jk i)" for i \<beta>
      using assms(1) by (auto simp: field_simps)
    obtain y where y: "A_back_x sz l h' x b jk = Inr y" "sweep_of two (jk_a jk) (jk_left jk) 1 sz b x y"
      using A_back_x_sweep [OF rep assms(3) d, of x b jk] by blast
    from sweep_fixed_points [OF y(2) assms(1), where e = "\<lambda>i. if i = 0 then 0 else two * jk_left jk i", OF key] y(1)
    show ?thesis by simp
  qed
  ultimately show ?thesis using A by blast
qed

definition empty_store :: "rat sstore" where
  "empty_store = \<lparr>sn_cell = (\<lambda>_. \<lparr>sn_next = None, sn_G = 7, sn_row = 7, sn_col = 7\<rparr>), sn_brk = 0\<rparr>"

theorem relaxation_fixed_points_witness:
  "\<exists>l h'. create_A 3 2 (\<lambda>_. 7) empty_store = Inr (l, h') \<and> (\<forall>x b jk.
    (\<exists>y. A_sor_x 3 l h' x b (3 / 2) jk = Inr y \<and>
      ((\<forall>i < 3. y i = x i) \<longleftrightarrow> (\<forall>i < 3. (\<Sum>j < 3. sweep_matrix 2 (jk_a jk) i j * x j) = b i))) \<and>
    (\<exists>y. A_back_x 3 l h' x b jk = Inr y \<and>
      ((\<forall>i < 3. y i = x i) \<longleftrightarrow> (\<forall>i < 3. (\<Sum>j < 3. sweep_matrix 2 (jk_a jk) i j * x j) =
        b i + (if i = 0 then 0 else 2 * jk_left jk i)))))"
  by (rule relaxation_fixed_points) simp_all

section \<open>main\<close>

definition exact_lits :: "'d::linordered_field lits" where
  "exact_lits = \<lparr>lit_two = 2, lit_source = 10, lit_omega = 3 / 2, lit_tol = 1 / 10000\<rparr>"

lemma max_x_ge:
  fixes g :: "'d::linorder"
  shows "g \<le> max_x sz g f"
proof -
  have "g \<le> fold (\<lambda>i m. if m < f i then f i else m) is g" for "is"
    by (induction "is" arbitrary: g) (auto intro: order_trans less_imp_le)
  then show ?thesis by (simp add: max_x_def)
qed

lemma sweep_loop_returns:
  assumes "\<And>x jk. \<exists>y. sweep x jk = Inr y"
  shows "sweep_loop n sweep tol sz J k x = None \<or>
    (\<exists>k' x'. sweep_loop n sweep tol sz J k x = Some (Inr (k', x')) \<and> k < k' \<and> k' \<le> k + n)"
proof (induction n arbitrary: k x)
  case 0
  then show ?case by simp
next
  case (Suc n)
  obtain y where y: "sweep x (J k) = Inr y" using assms by blast
  show ?case
    using Suc.IH [of "Suc k" "copy_x sz (jk_copy (J k)) y"] y by (auto simp: Let_def)
qed

lemma sweep_loop_junk:
  fixes tol :: "'d::linordered_field"
  assumes "\<And>x jk. \<exists>y. sweep x jk = Inr y" and "\<forall>k. tol < jk_max (J k)"
  shows "sweep_loop n sweep tol sz J k x = None"
proof (induction n arbitrary: k x)
  case 0
  then show ?case by simp
next
  case (Suc n)
  obtain y where y: "sweep x (J k) = Inr y" using assms(1) by blast
  have "tol < max_x sz (jk_max (J k)) f" for f
    using assms(2) max_x_ge [of "jk_max (J k)" sz f] by (metis less_le_trans)
  then show ?case using Suc.IH y by (simp add: Let_def)
qed

text \<open>The program from the list it builds.\<close>

lemma sor_main_loop:
  fixes h :: "('d::linordered_field) sstore"
  assumes "2 \<le> n"
  shows "\<exists>sweep b. (\<forall>fuel. sor_main fuel exact_lits g J h (Some n) =
      map_option (\<lambda>r. bind_res r (\<lambda>(k, x). Inr (0, Some (n, k))))
      (sweep_loop fuel sweep (1 / 10000) (nat (n - 1)) J 0 (create_x_0 (nat (n - 1)) g))) \<and>
    (\<forall>x jk. \<exists>y. sweep x jk = Inr y \<and> y 0 = (b - (if 2 < n then x (Suc 0) else 0)) / 2) \<and>
    b = (if n = 2 then 10 else 0)"
proof -
  obtain m where m: "nat (n - 1) = Suc m" using assms by (cases "nat (n - 1)") auto
  then have m0: "m = 0 \<longleftrightarrow> n = 2" "0 < m \<longleftrightarrow> 2 < n" using assms by auto
  obtain l h' ps where A: "create_A (Suc m) 2 g h = Inr (l, h')" and rep: "slist_rep h' l ps"
    "map (sn_entry h') ps = tri_entries 2 (Suc m)" and d: "\<forall>i < Suc m. sl_diag l i = 2"
    using create_A_sim by blast
  let ?b = "\<lambda>i. if i < m then 0 else if i = m then 10 else g i"
  have "\<exists>y. A_sor_x (Suc m) l h' x ?b (3 / 2) jk = Inr y \<and>
      y 0 = (?b 0 - (if 2 < n then x (Suc 0) else 0)) / 2" for x jk
    using A_sor_x_sweep [OF rep _ d, of x ?b "3 / 2" jk] by (auto simp: sweep_of_def m0)
  moreover have "?b 0 = (if n = 2 then 10 else 0)" using m0 by auto
  moreover have "sor_main fuel exact_lits g J h (Some n) = map_option (\<lambda>r. bind_res r (\<lambda>(k, x). Inr (0, Some (n, k))))
      (sweep_loop fuel (\<lambda>x jk. A_sor_x (Suc m) l h' x ?b (3 / 2) jk) (1 / 10000) (nat (n - 1)) J 0
        (create_x_0 (nat (n - 1)) g))" for fuel
    by (simp add: sor_main_def Let_def m A create_b_Suc exact_lits_def)
  ultimately show ?thesis by blast
qed

text \<open>
  C12: what \<open>main\<close> does on its argument \<open>n\<close>. Below 2 it writes outside its vector \<open>b\<close>. Otherwise
  it never faults, and if it ends it exits with 0 and prints \<open>n\<close> and a number of rounds. It ends,
  after two rounds, for \<open>n = 2\<close>, provided the uninitialised \<open>max\<close> in \<open>max_x\<close> is never above the
  tolerance. If it always is above, \<open>main\<close> runs for ever, for every \<open>n\<close>.
\<close>

theorem sor_main_ends:
  fixes h :: "('d::linordered_field) sstore"
  shows "(n < 2 \<longrightarrow> sor_main fuel exact_lits g J h (Some n) = Some (Inl IndexFault)) \<and>
    (2 \<le> n \<longrightarrow> sor_main fuel exact_lits g J h (Some n) = None \<or>
      (\<exists>k. sor_main fuel exact_lits g J h (Some n) = Some (Inr (0, Some (n, k))) \<and> 0 < k \<and> k \<le> fuel)) \<and>
    ((\<forall>k. jk_max (J k) \<le> 1 / 10000) \<longrightarrow>
      sor_main (Suc (Suc fuel)) exact_lits g J h (Some 2) = Some (Inr (0, Some (2, 2)))) \<and>
    (2 \<le> n \<and> (\<forall>k. 1 / 10000 < jk_max (J k)) \<longrightarrow> sor_main fuel exact_lits g J h (Some n) = None)"
proof (intro conjI impI)
  assume "n < 2"
  then have "nat (n - 1) = 0" by simp
  then show "sor_main fuel exact_lits g J h (Some n) = Some (Inl IndexFault)"
    by (simp add: sor_main_def create_A_def)
next
  assume "2 \<le> n"
  then have n2: "2 \<le> n" by simp
  obtain sweep b where run: "\<forall>fuel. sor_main fuel exact_lits g J h (Some n) =
      map_option (\<lambda>r. bind_res r (\<lambda>(k, x). Inr (0, Some (n, k))))
      (sweep_loop fuel sweep (1 / 10000) (nat (n - 1)) J 0 (create_x_0 (nat (n - 1)) g))"
    and sw: "\<forall>x jk. \<exists>y. sweep x jk = Inr y \<and> y 0 = (b - (if 2 < n then x (Suc 0) else 0)) / 2"
    and b: "b = (if n = 2 then 10 else 0)"
    using sor_main_loop [OF n2, of g J h] by (elim exE conjE)
  from sw have total: "\<And>x jk. \<exists>y. sweep x jk = Inr y" by blast
  from sweep_loop_returns [where sweep = sweep and n = fuel and tol = "1 / 10000" and sz = "nat (n - 1)" and J = J
      and k = 0 and x = "create_x_0 (nat (n - 1)) g", OF total]
  show "sor_main fuel exact_lits g J h (Some n) = None \<or>
      (\<exists>k. sor_main fuel exact_lits g J h (Some n) = Some (Inr (0, Some (n, k))) \<and> 0 < k \<and> k \<le> fuel)"
    by (auto simp: run)
next
  assume small: "\<forall>k. jk_max (J k) \<le> 1 / 10000"
  have two: "(2 :: int) \<le> 2" by simp
  obtain sweep b where run: "\<forall>fuel. sor_main fuel exact_lits g J h (Some 2) =
      map_option (\<lambda>r. bind_res r (\<lambda>(k, x). Inr (0, Some (2, k))))
      (sweep_loop fuel sweep (1 / 10000) (nat (2 - 1)) J 0 (create_x_0 (nat (2 - 1)) g))"
    and sw: "\<forall>x jk. \<exists>y. sweep x jk = Inr y \<and> y 0 = (b - (if 2 < (2 :: int) then x (Suc 0) else 0)) / 2"
    and b: "b = (if (2 :: int) = 2 then 10 else 0)"
    using sor_main_loop [OF two, of g J h] by (elim exE conjE)
  have y5: "\<exists>y. sweep x jk = Inr y \<and> y 0 = 5" for x jk using sw b by auto
  have last: "sweep_loop (Suc f) sweep (1 / 10000) 1 J k x = Some (Inr (Suc k, copy_x 1 (jk_copy (J k)) y))"
    if "x 0 = 5" "sweep x (J k) = Inr y" "y 0 = 5" for f k x y
    using that spec [OF small, of k] by (simp add: Let_def max_x_def fill_simps not_less [symmetric] del: not_less)
  obtain y where y: "sweep (create_x_0 1 g) (J 0) = Inr y" "y 0 = 5" using y5 by blast
  let ?x = "copy_x 1 (jk_copy (J 0)) y"
  have four: "1 / 10000 < (4 :: 'd)" by simp
  moreover have "jk_max (J 0) < 4" by (rule le_less_trans [OF spec [OF small] four])
  ultimately have first: "sweep_loop (Suc (Suc fuel)) sweep (1 / 10000) 1 J 0 (create_x_0 1 g) =
      sweep_loop (Suc fuel) sweep (1 / 10000) 1 J 1 ?x"
    using y by (simp add: Let_def max_x_def fill_simps)
  obtain z where z: "sweep ?x (J 1) = Inr z" "z 0 = 5" using y5 by blast
  have "?x 0 = 5" using y by (simp add: fill_simps)
  from last [OF this z, of fuel] first
  show "sor_main (Suc (Suc fuel)) exact_lits g J h (Some 2) = Some (Inr (0, Some (2, 2)))"
    by (simp add: run)
next
  assume n: "2 \<le> n \<and> (\<forall>k. 1 / 10000 < jk_max (J k))"
  then have n2: "2 \<le> n" by simp
  obtain sweep b where run: "\<forall>fuel. sor_main fuel exact_lits g J h (Some n) =
      map_option (\<lambda>r. bind_res r (\<lambda>(k, x). Inr (0, Some (n, k))))
      (sweep_loop fuel sweep (1 / 10000) (nat (n - 1)) J 0 (create_x_0 (nat (n - 1)) g))"
    and sw: "\<forall>x jk. \<exists>y. sweep x jk = Inr y \<and> y 0 = (b - (if 2 < n then x (Suc 0) else 0)) / 2"
    and b: "b = (if n = 2 then 10 else 0)"
    using sor_main_loop [OF n2, of g J h] by (elim exE conjE)
  from sw have total: "\<And>x jk. \<exists>y. sweep x jk = Inr y" by blast
  moreover have "sweep_loop fuel sweep (1 / 10000) (nat (n - 1)) J 0 (create_x_0 (nat (n - 1)) g) = None"
    by (rule sweep_loop_junk [OF total]) (use n in simp)
  ultimately show "sor_main fuel exact_lits g J h (Some n) = None"
    by (simp add: run)
qed

definition junk_example :: "rat \<Rightarrow> rat junk" where
  "junk_example m = \<lparr>jk_left = (\<lambda>_. 7), jk_a = (\<lambda>_ _. 7), jk_diff = (\<lambda>_. 7), jk_copy = (\<lambda>_. 7), jk_max = m\<rparr>"

theorem sor_main_ends_witness:
  "sor_main 9 exact_lits (\<lambda>_. 7) (\<lambda>_. junk_example 0) empty_store (Some 1) = Some (Inl IndexFault) \<and>
    sor_main 9 exact_lits (\<lambda>_. 7) (\<lambda>_. junk_example 0) empty_store (Some 2) = Some (Inr (0, Some (2, 2))) \<and>
    sor_main 9 exact_lits (\<lambda>_. 7) (\<lambda>_. junk_example 1) empty_store (Some 20) = None"
  using sor_main_ends [of 1 9 "\<lambda>_. 7" "\<lambda>_. junk_example 0" empty_store] sor_main_ends [of 1 7 "\<lambda>_. 7" "\<lambda>_. junk_example 0" empty_store]
    sor_main_ends [of 20 9 "\<lambda>_. 7" "\<lambda>_. junk_example 1" empty_store]
  by (simp add: junk_example_def eval_nat_numeral)

end
