(* ===== verification/ConjGrad.thy ===== *)
theory ConjGrad
  imports SorLemmas
begin

text \<open>
  sefdm/algorythms/conjugate-gradient.list.c: conjugate gradients on the matrix of \<open>Sor\<close>, kept as
  a linked list without a separate diagonal. Nodes, \<open>copy_x\<close>, \<open>max_x\<close> and \<open>create_x_0\<close> are those
  of \<open>Sor\<close>, which has the same code. The fresh memory of the \<open>k\<close>-th array of a round is \<open>J k\<close>,
  the uninitialised \<open>max\<close> is \<open>mx\<close>; every \<open>malloc\<close> succeeds: no result is checked.
\<close>

section \<open>The list\<close>

record cg_list =
  gl_length :: nat
  gl_head :: "nat option"
  gl_tail :: "nat option"

definition cg_list_init :: cg_list where
  "cg_list_init = \<lparr>gl_length = 0, gl_head = None, gl_tail = None\<rparr>"

definition cg_list_append :: "nat \<Rightarrow> cg_list \<times> 'd sstore \<Rightarrow> cg_list \<times> 'd sstore" where
  "cg_list_append mynode = (\<lambda>(l, h).
     let h1 = upd_snode mynode (\<lambda>n. n\<lparr>sn_next := None\<rparr>) h;
         h2 = (case gl_tail l of None \<Rightarrow> h1
               | Some t \<Rightarrow> upd_snode t (\<lambda>n. n\<lparr>sn_next := Some mynode\<rparr>) h1);
         l1 = l\<lparr>gl_tail := Some mynode\<rparr>;
         l2 = (if gl_head l1 = None then l1\<lparr>gl_head := Some mynode\<rparr> else l1)
     in (l2\<lparr>gl_length := Suc (gl_length l2)\<rparr>, h2))"

text \<open>\<open>while (mynode!=mylist->tail) { if (i++==x) break; mynode=mynode->next; }\<close>\<close>

fun cg_get_node_from :: "nat \<Rightarrow> nat option \<Rightarrow> 'd sstore \<Rightarrow> nat \<Rightarrow> nat \<Rightarrow> nat option \<Rightarrow> nat option res" where
  "cg_get_node_from 0 tail h i x p = Inl Diverges"
| "cg_get_node_from (Suc k) tail h i x p =
     (if p = tail then Inr p
      else if i = x then Inr p
      else bind_res (deref p) (\<lambda>q. cg_get_node_from k tail h (Suc i) x (sn_next (sn_cell h q))))"

definition cg_get_node :: "cg_list \<Rightarrow> nat \<Rightarrow> 'd sstore \<Rightarrow> nat option res" where
  "cg_get_node mylist x h = cg_get_node_from (Suc (sn_brk h)) (gl_tail mylist) h 0 x (gl_head mylist)"

definition cg_append_entry :: "nat \<times> nat \<times> 'd \<Rightarrow> cg_list \<times> 'd sstore \<Rightarrow> cg_list \<times> 'd sstore" where
  "cg_append_entry e = (\<lambda>(l, h). case e of (r, c, v) \<Rightarrow>
     cg_list_append (sn_brk h) (l, sor_node_init (sn_brk h) v r c (h\<lparr>sn_brk := Suc (sn_brk h)\<rparr>)))"

definition cg_create_A :: "nat \<Rightarrow> 'd::one \<Rightarrow> 'd sstore \<Rightarrow> cg_list \<times> 'd sstore" where
  "cg_create_A sz two h =
     fold (\<lambda>i. fold (\<lambda>j s.
       let s1 = (if int i = int j - 1 \<or> int i = int j + 1 then cg_append_entry (i, j, 1) s else s)
       in if i = j then cg_append_entry (i, i, two) s1 else s1) [0..<sz]) [0..<sz] (cg_list_init, h)"

section \<open>Products\<close>

text \<open>Both products multiply an entry by the element of \<open>x\<close> where they add it.\<close>

definition A_prod_x :: "nat \<Rightarrow> (nat \<Rightarrow> 'd::{plus,times}) \<Rightarrow> cg_list \<Rightarrow> 'd sstore \<Rightarrow> (nat \<Rightarrow> 'd) \<Rightarrow>
    (nat \<Rightarrow> 'd) res" where
  "A_prod_x sz g mylist h x = for_each [0..<gl_length mylist] (\<lambda>i A_x.
     bind_res (bind_res (cg_get_node mylist i h) deref) (\<lambda>mynode.
     let r = sn_row (sn_cell h mynode) in
     if sz \<le> r then Inl IndexFault
     else Inr (A_x(r := A_x r + sn_G (sn_cell h mynode) * x r)))) g"

definition x_prod_A :: "nat \<Rightarrow> (nat \<Rightarrow> 'd::{plus,times}) \<Rightarrow> (nat \<Rightarrow> 'd) \<Rightarrow> cg_list \<Rightarrow> 'd sstore \<Rightarrow>
    (nat \<Rightarrow> 'd) res" where
  "x_prod_A sz g x mylist h = for_each [0..<gl_length mylist] (\<lambda>i x_A.
     bind_res (bind_res (cg_get_node mylist i h) deref) (\<lambda>mynode.
     let c = sn_col (sn_cell h mynode) in
     if sz \<le> c then Inl IndexFault
     else Inr (x_A(c := x_A c + sn_G (sn_cell h mynode) * x c)))) g"

definition x_sub_y :: "nat \<Rightarrow> (nat \<Rightarrow> 'd::minus) \<Rightarrow> (nat \<Rightarrow> 'd) \<Rightarrow> (nat \<Rightarrow> 'd) \<Rightarrow> nat \<Rightarrow> 'd" where
  "x_sub_y sz g x y = fold (\<lambda>i z. z(i := x i - y i)) [0..<sz] g"

definition x_add_y :: "nat \<Rightarrow> (nat \<Rightarrow> 'd::plus) \<Rightarrow> (nat \<Rightarrow> 'd) \<Rightarrow> (nat \<Rightarrow> 'd) \<Rightarrow> nat \<Rightarrow> 'd" where
  "x_add_y sz g x y = fold (\<lambda>i z. z(i := x i + y i)) [0..<sz] g"

definition x_y :: "nat \<Rightarrow> (nat \<Rightarrow> 'd::{zero,plus,times}) \<Rightarrow> (nat \<Rightarrow> 'd) \<Rightarrow> 'd" where
  "x_y sz x y = fold (\<lambda>i sum. sum + x i * y i) [0..<sz] 0"

text \<open>\<open>c_A\<close> allocates a node for every entry, fills it, and never appends it to the new list.\<close>

definition c_A :: "'d::times \<Rightarrow> cg_list \<Rightarrow> 'd sstore \<Rightarrow> (cg_list \<times> 'd sstore) res" where
  "c_A c mylist h = bind_res (for_each [0..<gl_length mylist] (\<lambda>i h.
     bind_res (bind_res (cg_get_node mylist i h) deref) (\<lambda>Anode.
     let a = sn_cell h Anode; mynode = sn_brk h in
     Inr (upd_snode mynode (\<lambda>n. n\<lparr>sn_G := c * sn_G a, sn_row := sn_row a, sn_col := sn_col a\<rparr>)
       (h\<lparr>sn_brk := Suc mynode\<rparr>)))) h) (\<lambda>h'. Inr (cg_list_init, h'))"

definition c_x :: "nat \<Rightarrow> (nat \<Rightarrow> 'd::times) \<Rightarrow> 'd \<Rightarrow> (nat \<Rightarrow> 'd) \<Rightarrow> nat \<Rightarrow> 'd" where
  "c_x sz g c x = fold (\<lambda>i z. z(i := c * x i)) [0..<sz] g"

section \<open>main\<close>

record 'd cg_state =
  cg_x :: "nat \<Rightarrow> 'd"
  cg_r :: "nat \<Rightarrow> 'd"
  cg_p :: "nat \<Rightarrow> 'd"
  cg_heap :: "'d sstore"
  cg_printed :: "((nat \<Rightarrow> 'd) \<times> 'd) list"

text \<open>The body of the loop, up to the printing of \<open>new_p\<close> and \<open>error\<close>.\<close>

definition cg_round :: "nat \<Rightarrow> cg_list \<Rightarrow> (nat \<Rightarrow> nat \<Rightarrow> 'd) \<Rightarrow> 'd \<Rightarrow>
    'd::{zero,plus,minus,times,divide,ord} cg_state \<Rightarrow> 'd cg_state res" where
  "cg_round sz A J mx s =
     (let x = cg_x s; r = cg_r s; p = cg_p s; h = cg_heap s in
      bind_res (x_prod_A sz (J 0) p A h) (\<lambda>p_A.
      let alpha = x_y sz r r div x_y sz p_A p;
          alphap = c_x sz (J 1) alpha p;
          new_x = x_add_y sz (J 2) x alphap in
      bind_res (c_A alpha A h) (\<lambda>(alphaA, h').
      bind_res (A_prod_x sz (J 3) alphaA h' p) (\<lambda>alphaAp.
      let new_r = x_sub_y sz (J 4) r alphaAp;
          beta = x_y sz new_r new_r div x_y sz r r;
          Bp = c_x sz (J 5) beta p;
          new_p = x_add_y sz (J 6) new_r Bp;
          error = max_x sz mx r
      in Inr \<lparr>cg_x = new_x, cg_r = new_r, cg_p = new_p, cg_heap = h',
           cg_printed = cg_printed s @ [(new_p, error)]\<rparr>))))"

text \<open>
  \<open>for (i=0;i<10;i++)\<close> around a body that itself counts \<open>i\<close> up to \<open>sz\<close>: the round after the first
  begins with \<open>i = sz + 1\<close>. When that is below 10 there is no end.
\<close>

fun cg_loop :: "nat \<Rightarrow> nat \<Rightarrow> nat \<Rightarrow> cg_list \<Rightarrow> (nat \<Rightarrow> nat \<Rightarrow> nat \<Rightarrow> 'd) \<Rightarrow> (nat \<Rightarrow> 'd) \<Rightarrow>
    'd::{zero,plus,minus,times,divide,ord} cg_state \<Rightarrow> 'd cg_state res" where
  "cg_loop 0 i sz A J mx s = Inl Diverges"
| "cg_loop (Suc k) i sz A J mx s =
     (if i < 10 then bind_res (cg_round sz A (J (Suc k)) (mx k) s) (cg_loop k (sz + 1) sz A J mx)
      else Inr s)"

text \<open>\<open>main\<close> has \<open>n\<close> = 16, so 15 unknowns; \<open>J 0\<close> are the arrays before the loop.\<close>

definition cg_n :: nat where "cg_n = 16"

definition cg_main :: "'d::{zero,one,plus,minus,times,divide,ord} lits \<Rightarrow> (nat \<Rightarrow> nat \<Rightarrow> nat \<Rightarrow> 'd) \<Rightarrow>
    (nat \<Rightarrow> 'd) \<Rightarrow> 'd sstore \<Rightarrow> 'd cg_state res" where
  "cg_main L J mx h =
     (let sz = cg_n - 1;
          b = fold (\<lambda>i b. b(i := if i = cg_n - 2 then lit_source L else 0)) [0..<sz] (J 0 0);
          x = create_x_0 sz (J 0 1);
          (A, h1) = cg_create_A sz (lit_two L) h in
      bind_res (A_prod_x sz (J 0 2) A h1 x) (\<lambda>Ax.
      let r = x_sub_y sz (J 0 3) b Ax;
          p = copy_x sz (J 0 4) r
      in cg_loop 2 0 sz A J mx \<lparr>cg_x = x, cg_r = r, cg_p = p, cg_heap = h1, cg_printed = []\<rparr>))"

end
