(* ===== verification/ConjGradProps.thy ===== *)
theory ConjGradProps
  imports ConjGrad
begin

text \<open>
  What conjugate-gradient.list.c computes. Its list is that of \<open>Sor\<close> without the diagonal, so
  \<open>create_A\<close> is known; the products then are sums over the entries.
\<close>

section \<open>The list\<close>

definition forget_diag :: "'d slist \<Rightarrow> cg_list" where
  "forget_diag l = \<lparr>gl_length = sl_length l, gl_head = sl_head l, gl_tail = sl_tail l\<rparr>"

lemma cg_append_entry_sim:
  assumes "append_entry sz e (l, h) = Inr (l', h')"
  shows "cg_append_entry e (forget_diag l, h) = (forget_diag l', h')" "sl_length l' = Suc (sl_length l)"
  using assms
  by (cases e; auto simp: append_entry_def list_append_def cg_append_entry_def cg_list_append_def
      forget_diag_def Let_def split: if_splits option.splits)+

lemma cg_append_entries_sim:
  assumes "for_each es (append_entry sz) (l, h) = Inr (l', h')"
  shows "fold cg_append_entry es (forget_diag l, h) = (forget_diag l', h') \<and>
    sl_length l' = sl_length l + length es"
  using assms
proof (induction es arbitrary: l h)
  case (Cons e es)
  then obtain l1 h1 where "append_entry sz e (l, h) = Inr (l1, h1)"
    "for_each es (append_entry sz) (l1, h1) = Inr (l', h')" by (auto simp: bind_res_eq_Inr)
  with Cons.IH [OF this(2)] cg_append_entry_sim [OF this(1)] show ?case by simp
qed simp

lemma fold_concat: "fold f (concat xss) s = fold (fold f) xss s"
  by (induction xss arbitrary: s) simp_all

lemma cg_create_A_entries:
  "cg_create_A sz two h = fold cg_append_entry (tri_entries two sz) (cg_list_init, h)"
proof -
  have body: "(let s1 = (if int i = int j - 1 \<or> int i = int j + 1 then cg_append_entry (i, j, 1) s else s)
      in if i = j then cg_append_entry (i, i, two) s1 else s1) = fold cg_append_entry (tri_at two i j) s"
    for i j s
    by (auto simp: tri_at_def)
  show ?thesis
    unfolding cg_create_A_def body tri_entries_def fold_concat fold_map comp_def by (rule refl)
qed

text \<open>The list at \<open>ps\<close> holds the entries \<open>es\<close>.\<close>

definition cg_rep :: "'d sstore \<Rightarrow> cg_list \<Rightarrow> nat list \<Rightarrow> (nat \<times> nat \<times> 'd) list \<Rightarrow> bool" where
  "cg_rep h l ps es \<longleftrightarrow> (\<exists>sl. slist_rep h sl ps \<and> l = forget_diag sl) \<and> gl_length l = length ps \<and>
     map (sn_entry h) ps = es"

lemma cg_create_A_rep:
  "\<exists>ps. cg_rep (snd (cg_create_A sz two h)) (fst (cg_create_A sz two h)) ps (tri_entries two sz)"
proof -
  define g where "g = (\<lambda>_ :: nat. two)"
  obtain l h' ps where A: "create_A sz two g h = Inr (l, h')" "slist_rep h' l ps"
    "map (sn_entry h') ps = tri_entries two sz"
    using create_A_sim [of sz two g h] by auto
  from A(1) have "for_each (tri_entries two sz) (append_entry sz) (list_init g, h) = Inr (l, h')"
    by (simp add: create_A_entries)
  from cg_append_entries_sim [OF this]
  have "cg_create_A sz two h = (forget_diag l, h')" "sl_length l = length (tri_entries two sz)"
    by (simp_all add: cg_create_A_entries forget_diag_def cg_list_init_def list_init_def)
  moreover have "length (tri_entries two sz) = length ps" using A(3) by (metis length_map)
  ultimately have "cg_rep h' (forget_diag l) ps (tri_entries two sz)"
    using A(2,3) by (auto simp: cg_rep_def forget_diag_def intro!: exI [of _ l])
  with \<open>cg_create_A sz two h = _\<close> show ?thesis by auto
qed

lemma cg_get_node_from_nth:
  assumes "chain (sn_link h) p ps" "tail = Some (last ps)" "length ps \<le> k" "i \<le> x" "x - i < length ps"
  shows "cg_get_node_from k tail h i x p = Inr (Some (ps ! (x - i)))"
  using assms
proof (induction ps arbitrary: k p i)
  case (Cons q ps)
  then obtain m where k: "k = Suc m" by (cases k) auto
  have dist: "distinct (q # ps)" using Cons.prems(1) by (rule chain_distinct)
  show ?case
  proof (cases "i = x \<or> ps = []")
    case True
    with Cons.prems k show ?thesis by (auto simp: chain_def)
  next
    case False
    then have ne: "Some q \<noteq> tail" using dist Cons.prems(2) by (auto simp: last_in_set)
    have "cg_get_node_from m tail h (Suc i) x (sn_link h q) = Inr (Some (ps ! (x - Suc i)))"
      using False Cons.prems k by (intro Cons.IH) auto
    moreover have "x - i = Suc (x - Suc i)" using False Cons.prems(4) by auto
    ultimately show ?thesis using False ne Cons.prems k by (auto simp: sn_link_def)
  qed
qed simp

lemma cg_get_node_nth:
  assumes "cg_rep h l ps es" "x < length ps"
  shows "cg_get_node l x h = Inr (Some (ps ! x))"
proof -
  from assms obtain sl where sl: "slist_rep h sl ps" "l = forget_diag sl" by (auto simp: cg_rep_def)
  from assms(2) have "ps \<noteq> []" by auto
  with sl show ?thesis
    using cg_get_node_from_nth [of h "gl_head l" ps "gl_tail l" "Suc (sn_brk h)" 0 x] assms(2)
      slist_rep_fuel [OF sl(1)]
    by (simp add: cg_get_node_def slist_rep_def forget_diag_def)
qed

section \<open>The products\<close>

text \<open>Both products are one loop over the entries, with the row or the column as the index.\<close>

definition prod_of :: "(nat \<times> nat \<times> 'd \<Rightarrow> nat) \<Rightarrow> (nat \<Rightarrow> 'd::{plus,times}) \<Rightarrow> (nat \<times> nat \<times> 'd) list \<Rightarrow>
    (nat \<Rightarrow> 'd) \<Rightarrow> nat \<Rightarrow> 'd" where
  "prod_of ix x es = fold (\<lambda>e z. z(ix e := z (ix e) + snd (snd e) * x (ix e))) es"

lemma cg_loop_entries:
  assumes rep: "cg_rep h l ps es"
    and step: "\<And>q z. q \<in> set ps \<Longrightarrow> body q z = Inr (f (sn_entry h q) z)"
  shows "for_each [0..<gl_length l] (\<lambda>i z. bind_res (bind_res (cg_get_node l i h) deref) (\<lambda>q. body q z)) z =
    Inr (fold f es z)"
proof -
  have len: "gl_length l = length ps" and es: "es = map (sn_entry h) ps"
    using rep by (auto simp: cg_rep_def)
  have "for_each [0..<length ps] (\<lambda>i z. bind_res (bind_res (cg_get_node l i h) deref) (\<lambda>q. body q z)) z =
      Inr (fold (\<lambda>i. f (sn_entry h (ps ! i))) [0..<length ps] z)"
    using cg_get_node_nth [OF rep] step by (intro for_each_pure) simp
  also have "fold (\<lambda>i. f (sn_entry h (ps ! i))) [0..<length ps] z =
      fold f (map (\<lambda>i. sn_entry h (ps ! i)) [0..<length ps]) z"
    by (simp add: fold_map comp_def)
  also have "map (\<lambda>i. sn_entry h (ps ! i)) [0..<length ps] = es"
    unfolding es by (rule nth_equalityI) simp_all
  finally show ?thesis by (simp add: len)
qed

lemma A_prod_x_of:
  assumes rep: "cg_rep h l ps es" and sq: "\<forall>(r, c, v) \<in> set es. r < sz"
  shows "A_prod_x sz g l h x = Inr (prod_of fst x es g)"
  unfolding A_prod_x_def prod_of_def Let_def
proof (rule cg_loop_entries [OF rep])
  fix q z
  assume "q \<in> set ps"
  then have "sn_entry h q \<in> set es" using rep by (auto simp: cg_rep_def)
  with sq have "sn_row (sn_cell h q) < sz" by (auto simp: sn_entry_def)
  then show "(if sz \<le> sn_row (sn_cell h q) then Inl IndexFault
      else Inr (z(sn_row (sn_cell h q) := z (sn_row (sn_cell h q)) + sn_G (sn_cell h q) * x (sn_row (sn_cell h q))))) =
    Inr (z(fst (sn_entry h q) := z (fst (sn_entry h q)) + snd (snd (sn_entry h q)) * x (fst (sn_entry h q))))"
    by (simp add: sn_entry_def)
qed

lemma x_prod_A_of:
  assumes rep: "cg_rep h l ps es" and sq: "\<forall>(r, c, v) \<in> set es. c < sz"
  shows "x_prod_A sz g x l h = Inr (prod_of (\<lambda>e. fst (snd e)) x es g)"
  unfolding x_prod_A_def prod_of_def Let_def
proof (rule cg_loop_entries [OF rep])
  fix q z
  assume "q \<in> set ps"
  then have "sn_entry h q \<in> set es" using rep by (auto simp: cg_rep_def)
  with sq have "sn_col (sn_cell h q) < sz" by (auto simp: sn_entry_def)
  then show "(if sz \<le> sn_col (sn_cell h q) then Inl IndexFault
      else Inr (z(sn_col (sn_cell h q) := z (sn_col (sn_cell h q)) + sn_G (sn_cell h q) * x (sn_col (sn_cell h q))))) =
    Inr (z(fst (snd (sn_entry h q)) := z (fst (snd (sn_entry h q))) +
      snd (snd (sn_entry h q)) * x (fst (snd (sn_entry h q)))))"
    by (simp add: sn_entry_def)
qed

text \<open>So each is the element of \<open>x\<close> times a sum of numbers of the matrix, on top of what was there.\<close>

definition line_sum :: "(nat \<times> nat \<times> 'd \<Rightarrow> nat) \<Rightarrow> (nat \<times> nat \<times> 'd::comm_semiring_1) list \<Rightarrow> nat \<Rightarrow> 'd" where
  "line_sum ix es i = sum_list (map (\<lambda>e. if ix e = i then snd (snd e) else 0) es)"

lemma line_sum_concat:
  "line_sum ix (concat (map F xs)) i = sum_list (map (\<lambda>x. line_sum ix (F x) i) xs)"
  by (induction xs) (simp_all add: line_sum_def)

lemma prod_of_line_sum: "prod_of ix x es g i = g i + line_sum ix es i * x i"
proof (induction es arbitrary: g)
  case Nil
  then show ?case by (simp add: prod_of_def line_sum_def)
next
  case (Cons e es)
  have "prod_of ix x (e # es) g i =
      prod_of ix x es (g(ix e := g (ix e) + snd (snd e) * x (ix e))) i"
    by (simp add: prod_of_def)
  then show ?case by (simp add: Cons.IH line_sum_def algebra_simps)
qed

text \<open>The rows and the columns of the matrix have the same sums.\<close>

definition tri_sum :: "'d::comm_semiring_1 \<Rightarrow> nat \<Rightarrow> nat \<Rightarrow> 'd" where
  "tri_sum two sz i = two + (if 0 < i then 1 else 0) + (if Suc i < sz then 1 else 0)"

lemma tri_sum_row:
  assumes "i < sz"
  shows "(\<Sum>j \<in> {..<sz}. (if Suc i = j \<or> i = Suc j then 1 else if i = j then two else 0)) = tri_sum two sz i"
proof -
  have "(\<Sum>j \<in> {..<sz}. (if Suc i = j \<or> i = Suc j then 1 else if i = j then two else 0)) =
      (\<Sum>j \<in> {..<sz}. (if j = i then two else 0) + (if 0 < i \<and> j = i - 1 then 1 else 0) +
        (if j = Suc i then 1 else 0))"
    by (intro sum.cong) auto
  also have "\<dots> = two + (if 0 < i then 1 else 0) + (if Suc i < sz then 1 else 0)"
    using assms by (cases i) (auto simp: sum.distrib sum.delta)
  finally show ?thesis by (simp add: tri_sum_def)
qed

lemma line_sum_tri:
  assumes "i < sz"
  shows "line_sum fst (tri_entries two sz) i = tri_sum two sz i"
    "line_sum (\<lambda>e. fst (snd e)) (tri_entries two sz) i = tri_sum two sz i"
proof -
  have at: "line_sum ix (tri_entries two sz) i = (\<Sum>r \<in> {..<sz}. \<Sum>c \<in> {..<sz}. line_sum ix (tri_at two r c) i)" for ix
    unfolding tri_entries_def line_sum_concat
    by (simp add: interv_sum_list_conv_sum_set_nat lessThan_atLeast0)
  have row: "line_sum fst (tri_at two r c) i =
      (if r = i then if Suc i = c \<or> i = Suc c then 1 else if i = c then two else 0 else 0)" for r c
    by (auto simp: line_sum_def tri_at_def)
  have col: "line_sum (\<lambda>e. fst (snd e)) (tri_at two r c) i =
      (if c = i then if Suc i = r \<or> i = Suc r then 1 else if i = r then two else 0 else 0)" for r c
    by (auto simp: line_sum_def tri_at_def)
  show "line_sum fst (tri_entries two sz) i = tri_sum two sz i"
    unfolding at row using assms
    by (subst sum.swap) (simp add: tri_sum_row sum.delta)
  show "line_sum (\<lambda>e. fst (snd e)) (tri_entries two sz) i = tri_sum two sz i"
    unfolding at col using assms by (simp add: tri_sum_row sum.delta)
qed

lemma A_prod_x_tri:
  fixes two :: "'d::comm_semiring_1"
  assumes "cg_rep h l ps (tri_entries two sz)"
  shows "\<exists>z. A_prod_x sz g l h x = Inr z \<and> (\<forall>i < sz. z i = g i + tri_sum two sz i * x i)"
    "\<exists>z. x_prod_A sz g x l h = Inr z \<and> (\<forall>i < sz. z i = g i + tri_sum two sz i * x i)"
proof -
  have "\<forall>(r, c, v) \<in> set (tri_entries two sz). r < sz" "\<forall>(r, c, v) \<in> set (tri_entries two sz). c < sz"
    by (auto simp: tri_entries_mem)
  from A_prod_x_of [OF assms this(1), of g x] x_prod_A_of [OF assms this(2), of g x]
  show "\<exists>z. A_prod_x sz g l h x = Inr z \<and> (\<forall>i < sz. z i = g i + tri_sum two sz i * x i)"
    "\<exists>z. x_prod_A sz g x l h = Inr z \<and> (\<forall>i < sz. z i = g i + tri_sum two sz i * x i)"
    by (auto simp: prod_of_line_sum line_sum_tri)
qed

section \<open>The empty multiple\<close>

lemma cg_rep_alloc:
  assumes "cg_rep h l ps es"
  shows "cg_rep (upd_snode (sn_brk h) f (h\<lparr>sn_brk := Suc (sn_brk h)\<rparr>)) l ps es"
proof -
  let ?h = "upd_snode (sn_brk h) f (h\<lparr>sn_brk := Suc (sn_brk h)\<rparr>)"
  from assms obtain sl where sl: "slist_rep h sl ps" "l = forget_diag sl" "gl_length l = length ps"
    "map (sn_entry h) ps = es" by (auto simp: cg_rep_def)
  then have old: "\<forall>p \<in> set ps. p < sn_brk h" by (simp add: slist_rep_def)
  then have "chain (sn_link ?h) (sl_head sl) ps = chain (sn_link h) (sl_head sl) ps"
    by (intro chain_cong) (auto simp: sn_link_def)
  then have "slist_rep ?h sl ps" using sl(1) old by (auto simp: slist_rep_def less_Suc_eq)
  moreover have "map (sn_entry ?h) ps = es" using sl(4) old by (auto simp: sn_entry_def)
  ultimately show ?thesis using sl by (auto simp: cg_rep_def)
qed

lemma c_A_empty:
  assumes rep: "cg_rep h l ps es"
  shows "\<exists>h'. c_A c l h = Inr (cg_list_init, h') \<and> cg_rep h' l ps es"
proof -
  have len: "gl_length l = length ps" using rep by (auto simp: cg_rep_def)
  have "\<exists>h'. for_each [0..<gl_length l] (\<lambda>i h.
      bind_res (bind_res (cg_get_node l i h) deref) (\<lambda>Anode.
      let a = sn_cell h Anode; mynode = sn_brk h in
      Inr (upd_snode mynode (\<lambda>n. n\<lparr>sn_G := c * sn_G a, sn_row := sn_row a, sn_col := sn_col a\<rparr>)
        (h\<lparr>sn_brk := Suc mynode\<rparr>)))) h = Inr h' \<and> cg_rep h' l ps es"
  proof (rule for_each_inv [where I = "\<lambda>u. cg_rep u l ps es", OF rep])
    fix i u
    assume "i \<in> set [0..<gl_length l]" and u: "cg_rep u l ps es"
    then have "cg_get_node l i u = Inr (Some (ps ! i))" using len by (intro cg_get_node_nth) auto
    with cg_rep_alloc [OF u] show "\<exists>u'. bind_res (bind_res (cg_get_node l i u) deref) (\<lambda>Anode.
      let a = sn_cell u Anode; mynode = sn_brk u in
      Inr (upd_snode mynode (\<lambda>n. n\<lparr>sn_G := c * sn_G a, sn_row := sn_row a, sn_col := sn_col a\<rparr>)
        (u\<lparr>sn_brk := Suc mynode\<rparr>))) = Inr u' \<and> cg_rep u' l ps es"
      by (simp add: Let_def)
  qed
  then show ?thesis by (auto simp: c_A_def)
qed

lemma A_prod_x_init: "A_prod_x sz g cg_list_init h x = Inr g"
  by (simp add: A_prod_x_def cg_list_init_def)

section \<open>A round\<close>

lemmas cg_fill_simps = x_sub_y_def x_add_y_def c_x_def copy_x_def create_x_0_def fold_fill

lemma x_y_sum: "x_y sz x y = (\<Sum>i \<in> {..<sz}. x i * y i :: 'd::comm_semiring_1)"
proof -
  have "fold (\<lambda>i sum. sum + x i * y i) [0..<n] (0 :: 'd) = (\<Sum>i \<in> {..<n}. x i * y i)" for n
    by (induction n) simp_all
  then show ?thesis by (simp add: x_y_def)
qed

text \<open>
  What one round computes when addition and multiplication are exact: the step length for the
  diagonal matrix of the line sums (on top of what was in the fresh arrays), the new vector, and a
  new residual that subtracts nothing but what was in fresh memory.
\<close>

lemma cg_round_result:
  fixes s :: "'d::{field, ord} cg_state"
  assumes "cg_rep (cg_heap s) A ps (tri_entries two sz)"
  shows "\<exists>s'. cg_round sz A J mx s = Inr s' \<and> length (cg_printed s') = Suc (length (cg_printed s)) \<and>
    (\<forall>i < sz. cg_x s' i = cg_x s i +
      (\<Sum>j \<in> {..<sz}. cg_r s j * cg_r s j) /
      (\<Sum>j \<in> {..<sz}. (J 0 j + tri_sum two sz j * cg_p s j) * cg_p s j) * cg_p s i) \<and>
    (\<forall>i < sz. cg_r s' i = cg_r s i - J 3 i)"
proof -
  obtain z where z: "x_prod_A sz (J 0) (cg_p s) A (cg_heap s) = Inr z"
    "\<forall>i < sz. z i = J 0 i + tri_sum two sz i * cg_p s i"
    using A_prod_x_tri(2) [OF assms, of "J 0" "cg_p s"] by auto
  define alpha where "alpha = x_y sz (cg_r s) (cg_r s) div x_y sz z (cg_p s)"
  obtain h' where h': "c_A alpha A (cg_heap s) = Inr (cg_list_init, h')"
    using c_A_empty [OF assms, of alpha] by auto
  have "alpha = (\<Sum>j \<in> {..<sz}. cg_r s j * cg_r s j) /
      (\<Sum>j \<in> {..<sz}. (J 0 j + tri_sum two sz j * cg_p s j) * cg_p s j)"
    unfolding alpha_def x_y_sum using z(2) by simp
  then show ?thesis
    using z(1) h' by (simp add: cg_round_def Let_def alpha_def [symmetric] A_prod_x_init cg_fill_simps)
qed

section \<open>main\<close>

text \<open>The residual before the loop, as the code computes it, and the step length from it.\<close>

definition cg_res :: "'d::field lits \<Rightarrow> (nat \<Rightarrow> 'd) \<Rightarrow> nat \<Rightarrow> 'd" where
  "cg_res L g i = (if i = 14 then lit_source L else 0) - (g i + tri_sum (lit_two L) 15 i)"

definition cg_alpha :: "'d::field lits \<Rightarrow> (nat \<Rightarrow> 'd) \<Rightarrow> (nat \<Rightarrow> 'd) \<Rightarrow> 'd" where
  "cg_alpha L g k = (\<Sum>j \<in> {..<15}. cg_res L g j * cg_res L g j) /
     (\<Sum>j \<in> {..<15}. (k j + tri_sum (lit_two L) 15 j * cg_res L g j) * cg_res L g j)"

text \<open>
  C6: with exact arithmetic, \<open>main\<close> ends without a fault after one round instead of ten, because
  the loops that print use its counter. The vector it prints is one step from the vector of ones
  along the residual, and both residual and step length are those of a diagonal matrix, the sums
  of the lines of \<open>A\<close>, added to what fresh memory held. The new residual subtracts fresh memory
  only, since the multiple of \<open>A\<close> is an empty list.
\<close>

theorem cg_main_one_round:
  fixes L :: "'d::{field, ord} lits"
  shows "\<exists>s. cg_main L J mx h = Inr s \<and> length (cg_printed s) = 1 \<and>
    (\<forall>i < 15. cg_x s i = 1 + cg_alpha L (J 0 2) (J 2 0) * cg_res L (J 0 2) i) \<and>
    (\<forall>i < 15. cg_r s i = cg_res L (J 0 2) i - J 2 3 i)"
proof -
  obtain A h1 where A: "cg_create_A 15 (lit_two L) h = (A, h1)" by (cases "cg_create_A 15 (lit_two L) h")
  obtain ps where rep: "cg_rep h1 A ps (tri_entries (lit_two L) 15)"
    using cg_create_A_rep [of 15 "lit_two L" h] A by auto
  define x where "x = create_x_0 15 (J 0 1)"
  define b where "b = fold (\<lambda>i b. b(i := if i = cg_n - 2 then lit_source L else 0)) [0..<15] (J 0 0)"
  obtain z where z: "A_prod_x 15 (J 0 2) A h1 x = Inr z"
    "\<forall>i < 15. z i = J 0 2 i + tri_sum (lit_two L) 15 i * x i"
    using A_prod_x_tri(1) [OF rep, of "J 0 2" x] by auto
  define r where "r = x_sub_y 15 (J 0 3) b z"
  define p where "p = copy_x 15 (J 0 4) r"
  define s0 where "s0 = \<lparr>cg_x = x, cg_r = r, cg_p = p, cg_heap = h1, cg_printed = []\<rparr>"
  have x: "x i = 1" and r: "r i = cg_res L (J 0 2) i" and p: "p i = cg_res L (J 0 2) i" if "i < 15" for i
    using that z(2) by (simp_all add: x_def r_def p_def b_def cg_fill_simps cg_res_def cg_n_def)
  obtain s where s: "cg_round 15 A (J 2) (mx 1) s0 = Inr s" "length (cg_printed s) = 1"
    "\<forall>i < 15. cg_x s i = 1 + cg_alpha L (J 0 2) (J 2 0) * cg_res L (J 0 2) i"
    "\<forall>i < 15. cg_r s i = cg_res L (J 0 2) i - J 2 3 i"
    using cg_round_result [of s0 A ps "lit_two L" 15 "J 2" "mx 1"] rep x r p
    by (auto simp: s0_def cg_alpha_def)
  have "cg_loop 2 0 15 A J mx s0 = Inr s"
    using s(1) by (simp add: numeral_2_eq_2)
  then have "cg_main L J mx h = Inr s"
    using A z(1) by (simp add: cg_main_def cg_n_def Let_def s0_def p_def r_def x_def b_def)
  with s show ?thesis by auto
qed

text \<open>On memory that happens to be 0 the program prints 104/503 as the first number.\<close>

definition cg_lits :: "real lits" where
  "cg_lits = \<lparr>lit_two = 2, lit_source = 10, lit_omega = 0, lit_tol = 0\<rparr>"

lemma cg_alpha_lits: "cg_alpha cg_lits (\<lambda>_. 0) (\<lambda>_. 0) = 133 / 503"
  by (simp add: cg_alpha_def cg_res_def tri_sum_def cg_lits_def lessThan_nat_numeral lessThan_Suc)

lemma cg_main_one_round_witness:
  "\<exists>s. cg_main cg_lits (\<lambda>_ _ _. 0) (\<lambda>_. 0) \<lparr>sn_cell = \<lambda>_. \<lparr>sn_next = None, sn_G = 0, sn_row = 0, sn_col = 0\<rparr>,
      sn_brk = 0\<rparr> = Inr s \<and> length (cg_printed s) = 1 \<and> cg_x s 0 = 104 / 503 \<and> cg_r s 14 = 7"
proof -
  obtain s where s: "cg_main cg_lits (\<lambda>_ _ _. 0) (\<lambda>_. 0)
      \<lparr>sn_cell = \<lambda>_. \<lparr>sn_next = None, sn_G = 0, sn_row = 0, sn_col = 0\<rparr>, sn_brk = 0\<rparr> = Inr s"
    "length (cg_printed s) = 1"
    "\<forall>i < 15. cg_x s i = 1 + cg_alpha cg_lits (\<lambda>_. 0) (\<lambda>_. 0) * cg_res cg_lits (\<lambda>_. 0) i"
    "\<forall>i < 15. cg_r s i = cg_res cg_lits (\<lambda>_. 0) i - 0"
    using cg_main_one_round [of cg_lits "\<lambda>_ _ _. 0" "\<lambda>_. 0"
        "\<lparr>sn_cell = \<lambda>_. \<lparr>sn_next = None, sn_G = 0, sn_row = 0, sn_col = 0\<rparr>, sn_brk = 0\<rparr>"] by auto
  have "cg_x s 0 = 104 / 503" "cg_r s 14 = 7"
    using s(3,4) by (simp_all add: cg_alpha_lits) (simp_all add: cg_res_def tri_sum_def cg_lits_def)
  with s(1,2) show ?thesis by auto
qed

end
