(* ===== verification/LinkedList.thy ===== *)
theory LinkedList
  imports Prelude "HOL-Library.Char_ord" "HOL-Library.List_Lexorder"
begin

text \<open>
  pthreads/linkedlist.c: the list of names with its head and end pointers, and the menu.

  The heap maps an address to a node, or to nothing once it has been freed, so that a use
  after \<open>free\<close> is a fault. \<open>strcmp\<close> is the lexicographic order of char lists. A message is
  copied into a buffer of \<open>sizeof (char *)\<close> bytes (the parameter \<open>psize\<close>): a longer one
  is written past its end, which is \<open>IndexFault\<close>. Fuel is the number of nodes allocated (and one more for the search, which
  dereferences before it tests).
\<close>

section \<open>State\<close>

record lnode =
  ln_message :: string
  ln_id :: int
  ln_next :: "nat option"

record llist =
  ll_mem :: "nat \<Rightarrow> lnode option"
  ll_brk :: nat
  ll_head :: "nat option"
  ll_end :: "nat option"

definition rd_lnode :: "llist \<Rightarrow> nat option \<Rightarrow> lnode res" where
  "rd_lnode s p = (case p of None \<Rightarrow> Inl NullDeref
     | Some a \<Rightarrow> (case ll_mem s a of None \<Rightarrow> Inl BadPointer | Some n \<Rightarrow> Inr n))"

definition set_next :: "nat option \<Rightarrow> nat option \<Rightarrow> llist \<Rightarrow> llist res" where
  "set_next p q s = bind_res (deref p) (\<lambda>a. bind_res (rd_lnode s p) (\<lambda>n.
     Inr (s\<lparr>ll_mem := (ll_mem s)(a \<mapsto> n\<lparr>ln_next := q\<rparr>)\<rparr>)))"

definition free_node :: "nat option \<Rightarrow> llist \<Rightarrow> llist res" where
  "free_node p s = (case p of None \<Rightarrow> Inr s
     | Some a \<Rightarrow> if ll_mem s a = None then Inl BadPointer
                 else Inr (s\<lparr>ll_mem := (ll_mem s)(a := None)\<rparr>))"

section \<open>Operations\<close>

definition initnode :: "nat \<Rightarrow> string \<Rightarrow> int \<Rightarrow> llist \<Rightarrow> (nat \<times> llist) res" where
  "initnode psize message i s = (if psize \<le> length message then Inl IndexFault else
     Inr (ll_brk s, s\<lparr>ll_mem := (ll_mem s)(ll_brk s \<mapsto>
            \<lparr>ln_message = message, ln_id = i, ln_next = None\<rparr>), ll_brk := Suc (ll_brk s)\<rparr>))"

definition add :: "nat \<Rightarrow> llist \<Rightarrow> llist res" where
  "add new s =
     (let s1 = (if ll_head s = None then s\<lparr>ll_head := Some new\<rparr> else s) in
      bind_res (set_next (ll_end s1) (Some new) s1) (\<lambda>s2.
      bind_res (set_next (Some new) None s2) (\<lambda>s3. Inr (s3\<lparr>ll_end := Some new\<rparr>))))"

fun searchname :: "nat \<Rightarrow> llist \<Rightarrow> nat option \<Rightarrow> string \<Rightarrow> (nat option) res" where
  "searchname 0 s ptr name = Inl Diverges"
| "searchname (Suc k) s ptr name = bind_res (rd_lnode s ptr) (\<lambda>n.
     if name = ln_message n then Inr ptr
     else if ln_next n = None then Inr None
     else searchname k s (ln_next n) name)"

text \<open>\<open>while (prev->next != temp) prev = prev->next;\<close>\<close>

fun find_prev :: "nat \<Rightarrow> llist \<Rightarrow> nat option \<Rightarrow> nat option \<Rightarrow> (nat option) res" where
  "find_prev 0 s prev temp = Inl Diverges"
| "find_prev (Suc k) s prev temp = bind_res (rd_lnode s prev) (\<lambda>n.
     if ln_next n = temp then Inr prev else find_prev k s (ln_next n) temp)"

definition deletenode :: "nat option \<Rightarrow> llist \<Rightarrow> llist res" where
  "deletenode temp s =
     (if temp = ll_head s then
        bind_res (rd_lnode s (ll_head s)) (\<lambda>n.
          let s1 = s\<lparr>ll_head := ln_next n\<rparr> in
          bind_res (if ll_end s1 = temp
                    then bind_res (rd_lnode s1 (ll_end s1)) (\<lambda>n. Inr (s1\<lparr>ll_end := ln_next n\<rparr>))
                    else Inr s1) (free_node temp))
      else
        bind_res (find_prev (ll_brk s) s (ll_head s) temp) (\<lambda>prev.
        bind_res (rd_lnode s temp) (\<lambda>n.
        bind_res (set_next prev (ln_next n) s) (\<lambda>s1.
          free_node temp (if ll_end s1 = temp then s1\<lparr>ll_end := prev\<rparr> else s1)))))"

fun insert_point :: "nat \<Rightarrow> llist \<Rightarrow> nat option \<Rightarrow> string \<Rightarrow> (nat option) res" where
  "insert_point 0 s temp name = Inl Diverges"
| "insert_point (Suc k) s temp name = bind_res (rd_lnode s temp) (\<lambda>n.
     if ln_message n < name
     then (if ln_next n = None then Inr None else insert_point k s (ln_next n) name)
     else Inr temp)"

definition insertnode :: "nat \<Rightarrow> llist \<Rightarrow> llist res" where
  "insertnode new s =
     (if ll_head s = None then set_next (Some new) None (s\<lparr>ll_head := Some new, ll_end := Some new\<rparr>)
      else bind_res (rd_lnode s (Some new)) (\<lambda>m.
        bind_res (insert_point (ll_brk s) s (ll_head s) (ln_message m)) (\<lambda>temp.
        if temp = ll_head s then
          bind_res (set_next (Some new) (ll_head s) s) (\<lambda>s1. Inr (s1\<lparr>ll_head := Some new\<rparr>))
        else
          bind_res (find_prev (ll_brk s) s (ll_head s) temp) (\<lambda>prev.
          bind_res (set_next prev (Some new) s) (\<lambda>s1.
          bind_res (set_next (Some new) temp s1) (\<lambda>s2.
            Inr (if ll_end s2 = prev then s2\<lparr>ll_end := Some new\<rparr> else s2)))))))"

fun free_from :: "nat \<Rightarrow> nat option \<Rightarrow> llist \<Rightarrow> llist res" where
  "free_from k None s = Inr s"
| "free_from 0 (Some a) s = Inl Diverges"
| "free_from (Suc k) (Some a) s = bind_res (rd_lnode s (Some a)) (\<lambda>n.
     bind_res (free_node (Some a) s) (free_from k (ln_next n)))"

definition deletelist :: "nat option \<Rightarrow> llist \<Rightarrow> llist res" where
  "deletelist ptr s =
     (if ll_head s = None then Inr s else
      bind_res (if ptr = ll_head s then Inr (s\<lparr>ll_head := None, ll_end := None\<rparr>)
                else bind_res (find_prev (ll_brk s) s (ll_head s) ptr) (\<lambda>temp. Inr (s\<lparr>ll_end := temp\<rparr>)))
        (free_from (ll_brk s) ptr))"

fun printlist :: "nat \<Rightarrow> llist \<Rightarrow> nat option \<Rightarrow> (string \<times> int) list res" where
  "printlist k s None = Inr []"
| "printlist 0 s (Some a) = Inl Diverges"
| "printlist (Suc k) s (Some a) = bind_res (rd_lnode s (Some a)) (\<lambda>n.
     bind_res (printlist k s (ln_next n)) (\<lambda>out. Inr ((ln_message n, ln_id n) # out)))"

text \<open>The cases of the menu; what is printed is returned with the list.\<close>

datatype menu = AddName string int | DeleteName string | ListNames
  | SearchName string | InsertName string int

type_synonym printed = "(string \<times> int) list option"

definition menu_step :: "nat \<Rightarrow> menu \<Rightarrow> llist \<Rightarrow> (printed \<times> llist) res" where
  "menu_step psize c s = (case c of
     AddName name i \<Rightarrow> bind_res (initnode psize name i s) (\<lambda>(p, s1).
       bind_res (add p s1) (\<lambda>s2. Inr (Some [], s2)))
   | DeleteName name \<Rightarrow> bind_res (searchname (Suc (ll_brk s)) s (ll_head s) name) (\<lambda>p.
       if p = None then Inr (None, s) else bind_res (deletenode p s) (\<lambda>s1. Inr (Some [], s1)))
   | ListNames \<Rightarrow> bind_res (printlist (ll_brk s) s (ll_head s)) (\<lambda>out. Inr (Some out, s))
   | SearchName name \<Rightarrow> bind_res (searchname (Suc (ll_brk s)) s (ll_head s) name) (\<lambda>p.
       if p = None then Inr (None, s)
       else bind_res (rd_lnode s p) (\<lambda>n. Inr (Some [(ln_message n, ln_id n)], s)))
   | InsertName name i \<Rightarrow> bind_res (initnode psize name i s) (\<lambda>(p, s1).
       bind_res (insertnode p s1) (\<lambda>s2. Inr (Some [], s2))))"

primrec menu_loop :: "nat \<Rightarrow> menu list \<Rightarrow> llist \<Rightarrow> (printed list \<times> llist) res" where
  "menu_loop psize [] s = bind_res (deletelist (ll_head s) s) (\<lambda>s'. Inr ([], s'))"
| "menu_loop psize (c # cs) s = bind_res (menu_step psize c s) (\<lambda>(out, s1).
     bind_res (menu_loop psize cs s1) (\<lambda>(outs, s2). Inr (out # outs, s2)))"

section \<open>What the list represents\<close>

definition lnx :: "llist \<Rightarrow> nat \<Rightarrow> nat option" where
  "lnx s a = (case ll_mem s a of None \<Rightarrow> None | Some n \<Rightarrow> ln_next n)"

definition lentry :: "llist \<Rightarrow> nat \<Rightarrow> string \<times> int" where
  "lentry s a = (case ll_mem s a of None \<Rightarrow> ([], 0) | Some n \<Rightarrow> (ln_message n, ln_id n))"

lemma lnx_lentry_ptrs [simp]:
  "lnx (s\<lparr>ll_head := p\<rparr>) = lnx s" "lnx (s\<lparr>ll_end := q\<rparr>) = lnx s"
  "lentry (s\<lparr>ll_head := p\<rparr>) = lentry s" "lentry (s\<lparr>ll_end := q\<rparr>) = lentry s"
  by (simp_all add: lnx_def lentry_def fun_eq_iff)

definition ll_rep :: "llist \<Rightarrow> nat list \<Rightarrow> bool" where
  "ll_rep s as \<longleftrightarrow> chain (lnx s) (ll_head s) as
     \<and> ll_end s = (if as = [] then None else Some (last as))
     \<and> (\<forall>a \<in> set as. a < ll_brk s \<and> ll_mem s a \<noteq> None)"

lemma rd_lnode_Some:
  "ll_mem s a \<noteq> None \<Longrightarrow> \<exists>n. ll_mem s a = Some n \<and> rd_lnode s (Some a) = Inr n
    \<and> ln_next n = lnx s a \<and> (ln_message n, ln_id n) = lentry s a"
  by (auto simp: rd_lnode_def lnx_def lentry_def)

lemma ll_rep_length: "ll_rep s as \<Longrightarrow> length as \<le> ll_brk s"
proof -
  assume r: "ll_rep s as"
  then have "set as \<subseteq> {..<ll_brk s}" "distinct as"
    by (auto simp: ll_rep_def dest: chain_distinct)
  then show ?thesis using card_mono [of "{..<ll_brk s}" "set as"] by (simp add: distinct_card)
qed

section \<open>The loops on a well-formed list\<close>

lemma searchname_chain:
  assumes "chain (lnx s) p as" and "as \<noteq> []" and "length as \<le> k"
    and "\<And>a. a \<in> set as \<Longrightarrow> ll_mem s a \<noteq> None"
  shows "searchname k s p name = Inr (find (\<lambda>a. fst (lentry s a) = name) as)"
  using assms
proof (induction as arbitrary: p k)
  case Nil
  then show ?case by simp
next
  case (Cons a as)
  obtain k' where k: "k = Suc k'" using Cons.prems(3) by (cases k) auto
  obtain n where n: "rd_lnode s (Some a) = Inr n" "ln_next n = lnx s a"
    "(ln_message n, ln_id n) = lentry s a"
    using rd_lnode_Some [of s a] Cons.prems(4) by auto
  from Cons.prems(1) have p: "p = Some a" and ch: "chain (lnx s) (lnx s a) as" by simp_all
  have m: "fst (lentry s a) = ln_message n" using n(3) by (metis fst_conv)
  show ?case
  proof (cases "as = []")
    case True
    with ch show ?thesis by (simp add: k p n(1,2) m eq_commute)
  next
    case False
    with ch have "lnx s a \<noteq> None" by (cases as) auto
    with Cons.IH [OF ch False, of k'] Cons.prems k show ?thesis
      by (simp add: k p n(1,2) m eq_commute)
  qed
qed

lemma printlist_chain:
  assumes "chain (lnx s) p as" and "length as \<le> k" and "\<And>a. a \<in> set as \<Longrightarrow> ll_mem s a \<noteq> None"
  shows "printlist k s p = Inr (map (lentry s) as)"
  using assms
proof (induction as arbitrary: p k)
  case Nil
  then show ?case by simp
next
  case (Cons a as)
  obtain k' where k: "k = Suc k'" using Cons.prems(2) by (cases k) auto
  obtain n where n: "rd_lnode s (Some a) = Inr n" "ln_next n = lnx s a"
    "(ln_message n, ln_id n) = lentry s a"
    using rd_lnode_Some [of s a] Cons.prems(3) by auto
  with Cons k show ?case by simp
qed

lemma find_prev_chain:
  assumes "chain (lnx s) p (us @ a # vs)" and "Suc (length us) \<le> k"
    and "\<And>b. b \<in> set (us @ a # vs) \<Longrightarrow> ll_mem s b \<noteq> None"
    and "t = (if vs = [] then None else Some (hd vs))"
  shows "find_prev k s p t = Inr (Some a)"
  using assms
proof (induction us arbitrary: p k)
  case Nil
  obtain k' where k: "k = Suc k'" using Nil.prems(2) by (cases k) auto
  obtain n where n: "rd_lnode s (Some a) = Inr n" "ln_next n = lnx s a"
    using rd_lnode_Some [of s a] Nil.prems(3) by auto
  have "lnx s a = t" using Nil.prems(1,4) by (auto dest: chain_start)
  with n Nil.prems(1) show ?case by (simp add: k)
next
  case (Cons u us)
  obtain k' where k: "k = Suc k'" using Cons.prems(2) by (cases k) auto
  obtain n where n: "rd_lnode s (Some u) = Inr n" "ln_next n = lnx s u"
    using rd_lnode_Some [of s u] Cons.prems(3) by auto
  from Cons.prems(1) have p: "p = Some u" and ch: "chain (lnx s) (lnx s u) (us @ a # vs)" by simp_all
  have "lnx s u \<noteq> t"
  proof -
    have "distinct (us @ a # vs)" by (rule chain_distinct [OF ch])
    then have "hd (us @ [a]) \<notin> set vs" by (cases us) auto
    moreover have "lnx s u = Some (hd (us @ [a]))" using chain_start [OF ch] by (cases us) auto
    ultimately show ?thesis using Cons.prems(4) by (cases vs) auto
  qed
  moreover have "find_prev k' s (lnx s u) t = Inr (Some a)"
    by (rule Cons.IH [OF ch]) (use Cons.prems k in auto)
  ultimately show ?case by (simp add: k p n)
qed

lemma insert_point_chain:
  assumes "chain (lnx s) p as" and "as \<noteq> []" and "length as \<le> k"
    and "\<And>a. a \<in> set as \<Longrightarrow> ll_mem s a \<noteq> None"
  shows "insert_point k s p name
    = Inr (case dropWhile (\<lambda>a. fst (lentry s a) < name) as of [] \<Rightarrow> None | a # _ \<Rightarrow> Some a)"
  using assms
proof (induction as arbitrary: p k)
  case Nil
  then show ?case by simp
next
  case (Cons a as)
  obtain k' where k: "k = Suc k'" using Cons.prems(3) by (cases k) auto
  obtain n where n: "rd_lnode s (Some a) = Inr n" "ln_next n = lnx s a"
    "(ln_message n, ln_id n) = lentry s a"
    using rd_lnode_Some [of s a] Cons.prems(4) by auto
  from Cons.prems(1) have p: "p = Some a" and ch: "chain (lnx s) (lnx s a) as" by simp_all
  have m: "fst (lentry s a) = ln_message n" using n(3) by (metis fst_conv)
  show ?case
  proof (cases "as = []")
    case True
    with ch show ?thesis by (simp add: k p n(1,2) m)
  next
    case False
    with ch have "lnx s a \<noteq> None" by (cases as) auto
    with Cons.IH [OF ch False, of k'] Cons.prems k show ?thesis by (auto simp: k p n(1,2) m)
  qed
qed

lemma free_from_chain:
  assumes "chain (lnx s) p as" and "length as \<le> k" and "\<And>a. a \<in> set as \<Longrightarrow> ll_mem s a \<noteq> None"
  shows "\<exists>m. free_from k p s = Inr (s\<lparr>ll_mem := m\<rparr>) \<and> (\<forall>a. m a = (if a \<in> set as then None else ll_mem s a))"
  using assms
proof (induction as arbitrary: p k s)
  case Nil
  then show ?case by (auto intro!: exI [of _ "ll_mem s"])
next
  case (Cons a as)
  obtain k' where k: "k = Suc k'" using Cons.prems(2) by (cases k) auto
  obtain n where n: "rd_lnode s (Some a) = Inr n" "ln_next n = lnx s a"
    using rd_lnode_Some [of s a] Cons.prems(3) by auto
  let ?s = "s\<lparr>ll_mem := (ll_mem s)(a := None)\<rparr>"
  from Cons.prems(1) have p: "p = Some a" and ch: "chain (lnx s) (lnx s a) as" by simp_all
  have "a \<notin> set as" using chain_distinct [OF Cons.prems(1)] by simp
  then have "lnx ?s b = lnx s b" if "b \<in> set as" for b using that by (auto simp: lnx_def)
  with ch have ch': "chain (lnx ?s) (lnx s a) as" using chain_cong [of as "lnx ?s" "lnx s"] by blast
  have live: "ll_mem ?s b \<noteq> None" if "b \<in> set as" for b
    using Cons.prems(3) [of b] that \<open>a \<notin> set as\<close> by auto
  have "length as \<le> k'" using Cons.prems(2) k by simp
  from Cons.IH [OF ch' this live] obtain m where "free_from k' (lnx s a) ?s = Inr (?s\<lparr>ll_mem := m\<rparr>)"
    and "\<forall>b. m b = (if b \<in> set as then None else ll_mem ?s b)"
    by blast
  moreover have "free_node (Some a) s = Inr ?s" using Cons.prems(3) by (simp add: free_node_def)
  ultimately show ?case using n by (auto simp: k p)
qed

section \<open>The operations on a well-formed list\<close>

lemma set_next_ok:
  assumes "ll_mem s a \<noteq> None"
  obtains s' where "set_next (Some a) q s = Inr s'" and "lnx s' = (lnx s)(a := q)"
    and "lentry s' = lentry s" and "ll_head s' = ll_head s" and "ll_end s' = ll_end s"
    and "ll_brk s' = ll_brk s" and "\<And>b. ll_mem s' b = None \<longleftrightarrow> ll_mem s b = None"
proof -
  from assms obtain n where n: "ll_mem s a = Some n" by auto
  let ?s = "s\<lparr>ll_mem := (ll_mem s)(a \<mapsto> n\<lparr>ln_next := q\<rparr>)\<rparr>"
  have "set_next (Some a) q s = Inr ?s" by (simp add: set_next_def rd_lnode_def n)
  then show ?thesis
    by (rule that) (auto simp: lnx_def lentry_def n fun_eq_iff)
qed

lemma initnode_ok:
  assumes "ll_rep s as" and "length message < psize"
  obtains s' where "initnode psize message i s = Inr (ll_brk s, s')" and "ll_rep s' as"
    and "ll_brk s \<notin> set as" and "ll_mem s' (ll_brk s) \<noteq> None" and "ll_brk s < ll_brk s'"
    and "lentry s' (ll_brk s) = (message, i)" and "\<And>a. a \<in> set as \<Longrightarrow> lentry s' a = lentry s a"
proof -
  let ?n = "ll_brk s"
  let ?s = "s\<lparr>ll_mem := (ll_mem s)(?n \<mapsto> \<lparr>ln_message = message, ln_id = i, ln_next = None\<rparr>),
              ll_brk := Suc ?n\<rparr>"
  have fresh: "?n \<notin> set as" using assms(1) by (auto simp: ll_rep_def)
  have "lnx ?s a = lnx s a" if "a \<in> set as" for a using that fresh by (auto simp: lnx_def)
  then have rep: "ll_rep ?s as"
    using assms(1) chain_cong [of as "lnx ?s" "lnx s"] fresh by (auto simp: ll_rep_def less_Suc_eq)
  have run: "initnode psize message i s = Inr (?n, ?s)" using assms(2) by (simp add: initnode_def)
  show ?thesis
  proof (rule that [OF run rep])
    show "lentry ?s a = lentry s a" if "a \<in> set as" for a using that fresh by (auto simp: lentry_def)
  qed (use fresh in \<open>simp_all add: lentry_def\<close>)
qed

lemma add_ok:
  assumes r: "ll_rep s as" and new: "new \<notin> set as" "ll_mem s new \<noteq> None" "new < ll_brk s"
    and ne: "as \<noteq> []"
  obtains s' where "add new s = Inr s'" and "ll_rep s' (as @ [new])" and "lentry s' = lentry s"
proof -
  from r ne obtain us u where as: "as = us @ [u]" by (meson rev_exhaust)
  have hd: "ll_head s \<noteq> None" and u: "ll_end s = Some u" and mu: "ll_mem s u \<noteq> None"
    using r ne by (auto simp: ll_rep_def as dest: chain_start)
  obtain s1 where s1: "set_next (Some u) (Some new) s = Inr s1" and n1: "lnx s1 = (lnx s)(u := Some new)"
    and e1: "lentry s1 = lentry s" "ll_head s1 = ll_head s" "ll_end s1 = ll_end s" "ll_brk s1 = ll_brk s"
    and m1: "\<And>b. ll_mem s1 b = None \<longleftrightarrow> ll_mem s b = None"
    using set_next_ok [OF mu] by metis
  have "ll_mem s1 new \<noteq> None" using new m1 by simp
  then obtain s2 where s2: "set_next (Some new) None s1 = Inr s2" and n2: "lnx s2 = (lnx s1)(new := None)"
    and e2: "lentry s2 = lentry s1" "ll_head s2 = ll_head s1" "ll_end s2 = ll_end s1" "ll_brk s2 = ll_brk s1"
    and m2: "\<And>b. ll_mem s2 b = None \<longleftrightarrow> ll_mem s1 b = None"
    using set_next_ok by metis
  have dist: "u \<notin> set us" "u \<noteq> new" "new \<notin> set us"
    using r new by (auto simp: ll_rep_def as dest: chain_distinct)
  have "seg (lnx s) (ll_head s) us (Some u)" using r by (simp add: ll_rep_def as chain_def seg_snoc)
  then have "seg (lnx s2) (ll_head s) us (Some u)" using dist by (simp add: n1 n2)
  then have "chain (lnx s2) (ll_head s) ((us @ [u]) @ [new])"
    using dist by (simp add: chain_def seg_append n1 n2)
  then have "ll_rep (s2\<lparr>ll_end := Some new\<rparr>) (as @ [new])"
    using r new e1 e2 m1 m2 by (simp add: ll_rep_def as lnx_def)
  moreover have "add new s = Inr (s2\<lparr>ll_end := Some new\<rparr>)"
    using hd by (auto simp: add_def u s1 s2)
  moreover have "lentry (s2\<lparr>ll_end := Some new\<rparr>) = lentry s"
    using e1 e2 by (simp add: lentry_def fun_eq_iff)
  ultimately show ?thesis using that by blast
qed

lemma free_node_ok:
  assumes "ll_mem s a \<noteq> None"
  obtains s' where "free_node (Some a) s = Inr s'"
    and "\<And>b. b \<noteq> a \<Longrightarrow> lnx s' b = lnx s b" and "\<And>b. b \<noteq> a \<Longrightarrow> lentry s' b = lentry s b"
    and "ll_head s' = ll_head s" and "ll_end s' = ll_end s" and "ll_brk s' = ll_brk s"
    and "\<And>b. ll_mem s' b = None \<longleftrightarrow> b = a \<or> ll_mem s b = None"
proof -
  let ?s = "s\<lparr>ll_mem := (ll_mem s)(a := None)\<rparr>"
  have "free_node (Some a) s = Inr ?s" using assms by (simp add: free_node_def)
  then show ?thesis by (rule that) (auto simp: lnx_def lentry_def)
qed

lemma deletenode_ok:
  assumes r: "ll_rep s (us @ a # vs)"
  obtains s' where "deletenode (Some a) s = Inr s'" and "ll_rep s' (us @ vs)"
    and "\<And>b. b \<noteq> a \<Longrightarrow> lentry s' b = lentry s b"
proof -
  from r have ch: "chain (lnx s) (ll_head s) (us @ a # vs)"
    and en: "ll_end s = Some (if vs = [] then a else last vs)"
    and live: "\<And>b. b \<in> set (us @ a # vs) \<Longrightarrow> b < ll_brk s \<and> ll_mem s b \<noteq> None"
    unfolding ll_rep_def by auto
  have dist: "distinct (us @ a # vs)" by (rule chain_distinct [OF ch])
  have ma: "ll_mem s a \<noteq> None" using live by simp
  obtain n where n: "rd_lnode s (Some a) = Inr n" "ln_next n = lnx s a"
    using rd_lnode_Some [OF ma] by auto
  show ?thesis
  proof (cases us)
    case Nil
    with ch have hd: "ll_head s = Some a" and tl: "chain (lnx s) (lnx s a) vs" by simp_all
    let ?s1 = "s\<lparr>ll_head := lnx s a, ll_end := (if ll_end s = Some a then lnx s a else ll_end s)\<rparr>"
    have "ll_mem ?s1 a \<noteq> None" using ma by simp
    then obtain s' where f: "free_node (Some a) ?s1 = Inr s'"
      and nx: "\<And>b. b \<noteq> a \<Longrightarrow> lnx s' b = lnx ?s1 b" and en': "\<And>b. b \<noteq> a \<Longrightarrow> lentry s' b = lentry ?s1 b"
      and s': "ll_head s' = lnx s a" "ll_end s' = ll_end ?s1" "ll_brk s' = ll_brk s"
      and m: "\<And>b. ll_mem s' b = None \<longleftrightarrow> b = a \<or> ll_mem s b = None"
      using free_node_ok [of ?s1 a] by auto
    have run: "deletenode (Some a) s = Inr s'"
      using n f hd by (cases "ll_end s = Some a") (simp_all add: deletenode_def rd_lnode_def split: option.splits)
    have "lnx s' b = lnx s b" if "b \<in> set vs" for b
      using nx [of b] that dist Nil by (auto simp: lnx_def)
    then have "chain (lnx s') (lnx s a) vs" using tl chain_cong [of vs "lnx s'" "lnx s"] by blast
    moreover have "ll_end s' = (if vs = [] then None else Some (last vs))"
      using en dist tl Nil s'(2) by (auto simp: last_in_set)
    ultimately have "ll_rep s' (us @ vs)"
      using live dist Nil s' m by (auto simp: ll_rep_def)
    then show ?thesis using that run en' by (auto simp: lentry_def)
  next
    case (Cons u0 us0)
    then obtain us' u where us: "us = us' @ [u]" by (metis list.distinct(1) rev_exhaust)
    have hd: "ll_head s = Some u0" using ch by (simp add: Cons)
    have "u0 \<noteq> a" using dist by (auto simp: Cons)
    have prev: "find_prev (ll_brk s) s (ll_head s) (Some a) = Inr (Some u)"
    proof (rule find_prev_chain [where us = us' and vs = "a # vs"])
      show "chain (lnx s) (ll_head s) (us' @ u # a # vs)" using ch by (simp add: us)
      show "Suc (length us') \<le> ll_brk s" using ll_rep_length [OF r] by (simp add: us)
    qed (use live us in auto)
    have mu: "ll_mem s u \<noteq> None" using live us by simp
    obtain s1 where s1: "set_next (Some u) (lnx s a) s = Inr s1" and n1: "lnx s1 = (lnx s)(u := lnx s a)"
      and e1: "lentry s1 = lentry s" "ll_head s1 = ll_head s" "ll_end s1 = ll_end s" "ll_brk s1 = ll_brk s"
      and m1: "\<And>b. ll_mem s1 b = None \<longleftrightarrow> ll_mem s b = None"
      using set_next_ok [OF mu] by metis
    let ?s2 = "if ll_end s1 = Some a then s1\<lparr>ll_end := Some u\<rparr> else s1"
    have same2: "lnx ?s2 = lnx s1" "lentry ?s2 = lentry s" "ll_mem ?s2 = ll_mem s1" "ll_head ?s2 = ll_head s"
      "ll_brk ?s2 = ll_brk s"
      by (simp_all add: e1)
    have "ll_mem ?s2 a \<noteq> None" using ma m1 same2(3) by simp
    then obtain s' where f: "free_node (Some a) ?s2 = Inr s'"
      and nx: "\<And>b. b \<noteq> a \<Longrightarrow> lnx s' b = lnx ?s2 b" and en': "\<And>b. b \<noteq> a \<Longrightarrow> lentry s' b = lentry ?s2 b"
      and s': "ll_head s' = ll_head ?s2" "ll_end s' = ll_end ?s2" "ll_brk s' = ll_brk ?s2"
      and m: "\<And>b. ll_mem s' b = None \<longleftrightarrow> b = a \<or> ll_mem ?s2 b = None"
      using free_node_ok [of ?s2 a] by blast
    have run: "deletenode (Some a) s = Inr s'"
      using f n s1 prev hd \<open>u0 \<noteq> a\<close> by (simp add: deletenode_def)
    have nx': "lnx s' b = ((lnx s)(u := lnx s a)) b" if "b \<noteq> a" for b
      using nx [OF that] same2(1) n1 by simp
    have "seg (lnx s) (ll_head s) us' (Some u)" and tl: "chain (lnx s) (lnx s a) vs"
      using ch by (auto simp: us chain_def seg_append)
    moreover have "lnx s' b = lnx s b" if "b \<in> set us'" for b
    proof -
      have "b \<noteq> a" "b \<noteq> u" using that dist us by auto
      then show ?thesis using nx' [of b] by simp
    qed
    ultimately have "seg (lnx s') (ll_head s) us' (Some u)"
      using seg_cong [of us' "lnx s'" "lnx s"] by simp
    moreover have "chain (lnx s') (lnx s' u) vs"
    proof -
      have "lnx s' u = lnx s a" using nx' [of u] dist us by auto
      moreover have "lnx s' b = lnx s b" if "b \<in> set vs" for b
      proof -
        have "b \<noteq> a" "b \<noteq> u" using that dist us by auto
        then show ?thesis using nx' [of b] by simp
      qed
      ultimately show ?thesis using tl chain_cong [of vs "lnx s'" "lnx s"] by simp
    qed
    ultimately have "chain (lnx s') (ll_head s') (us @ vs)"
      using s' same2 by (auto simp: us chain_def seg_append)
    moreover have "ll_end s' = (if us @ vs = [] then None else Some (last (us @ vs)))"
      using s'(2) e1 en dist us by (auto dest: last_in_set)
    ultimately have "ll_rep s' (us @ vs)"
      using live dist s'(3) same2 m m1 by (auto simp: ll_rep_def)
    then show ?thesis using that run en' same2(2) by auto
  qed
qed

lemma insertnode_ok:
  assumes r: "ll_rep s as" and new: "new \<notin> set as" "ll_mem s new \<noteq> None" "new < ll_brk s"
  obtains s' where "insertnode new s = Inr s'" and "lentry s' = lentry s"
    and "ll_rep s' (takeWhile (\<lambda>a. fst (lentry s a) < fst (lentry s new)) as @ new
                    # dropWhile (\<lambda>a. fst (lentry s a) < fst (lentry s new)) as)"
proof (cases "as = []")
  case True
  let ?s1 = "s\<lparr>ll_head := Some new, ll_end := Some new\<rparr>"
  have "ll_mem ?s1 new \<noteq> None" using new by simp
  then obtain s' where "set_next (Some new) None ?s1 = Inr s'" and "lnx s' = (lnx ?s1)(new := None)"
    and "lentry s' = lentry ?s1" and "ll_head s' = Some new" "ll_end s' = Some new" "ll_brk s' = ll_brk s"
    and "\<And>b. ll_mem s' b = None \<longleftrightarrow> ll_mem s b = None"
    using set_next_ok [of ?s1 new None] by auto
  then show ?thesis using that [of s'] r new True
    by (simp add: insertnode_def ll_rep_def)
next
  case False
  let ?P = "\<lambda>a. fst (lentry s a) < fst (lentry s new)"
  define us where "us = takeWhile ?P as"
  define vs where "vs = dropWhile ?P as"
  have as: "as = us @ vs" by (simp add: us_def vs_def)
  from r have ch: "chain (lnx s) (ll_head s) as" and en: "ll_end s = Some (last as)"
    and live: "\<And>b. b \<in> set as \<Longrightarrow> b < ll_brk s \<and> ll_mem s b \<noteq> None"
    using False unfolding ll_rep_def by auto
  have dist: "distinct as" by (rule chain_distinct [OF ch])
  have hd: "ll_head s = Some (hd as)" using chain_start [OF ch] False by simp
  obtain m where m: "rd_lnode s (Some new) = Inr m" "ln_message m = fst (lentry s new)"
    using rd_lnode_Some [OF new(2)] by (metis fst_conv)
  define temp where "temp = (case vs of [] \<Rightarrow> None | a # _ \<Rightarrow> Some a)"
  have temp_eq: "temp = (if vs = [] then None else Some (hd vs))" by (simp add: temp_def split: list.split)
  have point: "insert_point (ll_brk s) s (ll_head s) (ln_message m) = Inr temp"
    unfolding m(2) temp_def vs_def
    by (rule insert_point_chain [OF ch False ll_rep_length [OF r]]) (use live in blast)
  show ?thesis
  proof (cases "us = []")
    case True
    then have vs: "vs = as" using as by simp
    obtain s1 where s1: "set_next (Some new) (ll_head s) s = Inr s1" and n1: "lnx s1 = (lnx s)(new := ll_head s)"
      and e1: "lentry s1 = lentry s" "ll_head s1 = ll_head s" "ll_end s1 = ll_end s" "ll_brk s1 = ll_brk s"
      and m1: "\<And>b. ll_mem s1 b = None \<longleftrightarrow> ll_mem s b = None"
      using set_next_ok [OF new(2)] by metis
    let ?s' = "s1\<lparr>ll_head := Some new\<rparr>"
    have "insertnode new s = Inr ?s'"
      using hd m point vs False s1 by (simp add: insertnode_def temp_eq)
    moreover have "lnx ?s' = (lnx s)(new := ll_head s)" "lentry ?s' = lentry s"
      by (simp_all add: n1 e1)
    then have "ll_rep ?s' (us @ new # vs)"
      using ch en new live e1 m1 True vs False by (simp add: ll_rep_def)
    ultimately show ?thesis
      using that [of ?s'] \<open>lentry ?s' = lentry s\<close> by (simp add: us_def vs_def)
  next
    case False
    then obtain us' u where us: "us = us' @ [u]" by (meson rev_exhaust)
    have asu: "as = us' @ u # vs" by (simp add: as us)
    have "temp \<noteq> ll_head s"
    proof -
      have "hd as = hd us" "hd us \<in> set us" using False by (simp_all add: as)
      with dist have "hd as \<notin> set vs" by (auto simp: as)
      then show ?thesis using hd by (cases vs) (auto simp: temp_eq)
    qed
    have prev: "find_prev (ll_brk s) s (ll_head s) temp = Inr (Some u)"
      by (rule find_prev_chain [OF ch [unfolded asu]])
         (use ll_rep_length [OF r] live asu temp_eq in auto)
    have mu: "ll_mem s u \<noteq> None" using live asu by simp
    obtain s1 where s1: "set_next (Some u) (Some new) s = Inr s1" and n1: "lnx s1 = (lnx s)(u := Some new)"
      and e1: "lentry s1 = lentry s" "ll_head s1 = ll_head s" "ll_end s1 = ll_end s" "ll_brk s1 = ll_brk s"
      and m1: "\<And>b. ll_mem s1 b = None \<longleftrightarrow> ll_mem s b = None"
      using set_next_ok [OF mu] by metis
    have "ll_mem s1 new \<noteq> None" using new(2) m1 by simp
    then obtain s2 where s2: "set_next (Some new) temp s1 = Inr s2" and n2: "lnx s2 = (lnx s1)(new := temp)"
      and e2: "lentry s2 = lentry s1" "ll_head s2 = ll_head s1" "ll_end s2 = ll_end s1" "ll_brk s2 = ll_brk s1"
      and m2: "\<And>b. ll_mem s2 b = None \<longleftrightarrow> ll_mem s1 b = None"
      using set_next_ok by metis
    let ?s' = "if ll_end s2 = Some u then s2\<lparr>ll_end := Some new\<rparr> else s2"
    have run: "insertnode new s = Inr ?s'"
      using hd m point prev \<open>temp \<noteq> ll_head s\<close> by (simp add: insertnode_def s1 s2)
    have s': "lnx ?s' = (lnx s)(u := Some new, new := temp)" "lentry ?s' = lentry s" "ll_mem ?s' = ll_mem s2"
      "ll_head ?s' = ll_head s" "ll_brk ?s' = ll_brk s"
      "ll_end ?s' = (if ll_end s = Some u then Some new else ll_end s)"
      by (simp_all add: e1 e2 n1 n2)
    have un: "u \<noteq> new" "new \<notin> set us'" "new \<notin> set vs" "u \<notin> set us'" "u \<notin> set vs"
      using new(1) dist by (auto simp: asu)
    have "seg (lnx s) (ll_head s) us' (Some u)" and tl: "chain (lnx s) (lnx s u) vs"
      using ch by (auto simp: asu chain_def seg_append)
    moreover have "lnx s u = temp" using chain_start [OF tl] by (simp add: temp_eq)
    ultimately have "chain (lnx ?s') (ll_head ?s') (us @ new # vs)"
      using un by (simp add: s' us chain_def seg_append)
    moreover have "ll_end ?s' = Some (last (us @ new # vs))"
      using en dist un by (auto simp: s' asu dest: last_in_set)
    ultimately have "ll_rep ?s' (us @ new # vs)"
      using live new s' m1 m2 unfolding ll_rep_def by (auto simp: as)
    then show ?thesis using that [OF run s'(2)] by (simp add: us_def vs_def)
  qed
qed

lemma deletelist_ok:
  assumes r: "ll_rep s as"
  obtains s' where "deletelist (ll_head s) s = Inr s'" and "ll_rep s' []"
    and "\<And>a. a \<in> set as \<Longrightarrow> ll_mem s' a = None"
proof (cases "as = []")
  case True
  with r have "ll_head s = None" by (simp add: ll_rep_def)
  with r True show ?thesis using that [of s] by (simp add: deletelist_def)
next
  case False
  let ?s = "s\<lparr>ll_head := None, ll_end := None\<rparr>"
  from r have ch: "chain (lnx s) (ll_head s) as" by (simp add: ll_rep_def)
  have same: "lnx ?s = lnx s" by (simp add: lnx_def [abs_def])
  obtain m where "free_from (ll_brk s) (ll_head s) ?s = Inr (?s\<lparr>ll_mem := m\<rparr>)"
    and m: "\<forall>a. m a = (if a \<in> set as then None else ll_mem ?s a)"
    using free_from_chain [of ?s "ll_head s" as "ll_brk s"] ch r ll_rep_length [OF r]
    by (auto simp: same ll_rep_def)
  moreover have "ll_head s \<noteq> None" using chain_start [OF ch] False by simp
  ultimately have "deletelist (ll_head s) s = Inr (?s\<lparr>ll_mem := m\<rparr>)" by (auto simp: deletelist_def)
  then show ?thesis by (rule that) (use m in \<open>simp_all add: ll_rep_def\<close>)
qed

end
