(* ===== verification/LinkedListProps.thy ===== *)
theory LinkedListProps
  imports LinkedList
begin

text \<open>
  pthreads/linkedlist.c against a list of names: \<open>name_step\<close> says what each menu entry
  does to the list and where it crashes, and the linked list does exactly that.
\<close>

section \<open>The list of names\<close>







section \<open>The refinement, case by case\<close>










section \<open>Sessions\<close>





end
