(* ===== verification/RingBuffer.thy ===== *)
theory RingBuffer
  imports Prelude
begin

text \<open>
  pthreads/pc-9.c: the ten-slot queue and the producer and consumer that share it.

  \<open>queueAdd\<close> and \<open>queueDel\<close> are the code's; the threads' loops are a step relation
  \<open>pc_step\<close> over any queue operations, one step per section between two scheduling points
  (taking the mutex, giving it up in \<open>pthread_cond_wait\<close>, the signal after the unlock). A
  waiting thread may also wake up spuriously. The locale \<open>bounded_fifo\<close> is what the threads
  rely on; the ring buffer is its instance.
\<close>

section \<open>The queue\<close>

definition QUEUESIZE :: nat where "QUEUESIZE = 10"

record 'a rqueue =
  q_buf :: "'a list"
  q_head :: nat
  q_tail :: nat
  q_full :: bool
  q_empty :: bool

definition queueInit :: "'a list \<Rightarrow> 'a rqueue" where
  "queueInit garbage = \<lparr>q_buf = garbage, q_head = 0, q_tail = 0, q_full = False, q_empty = True\<rparr>"

definition queueAdd :: "'a rqueue \<Rightarrow> 'a \<Rightarrow> 'a rqueue" where
  "queueAdd q x =
     (let q1 = q\<lparr>q_buf := (q_buf q)[q_tail q := x]\<rparr>;
          q2 = q1\<lparr>q_tail := Suc (q_tail q1)\<rparr>;
          q3 = (if q_tail q2 = QUEUESIZE then q2\<lparr>q_tail := 0\<rparr> else q2);
          q4 = (if q_tail q3 = q_head q3 then q3\<lparr>q_full := True\<rparr> else q3)
      in q4\<lparr>q_empty := False\<rparr>)"

definition queueDel :: "'a rqueue \<Rightarrow> 'a \<times> 'a rqueue" where
  "queueDel q =
     (let out = q_buf q ! q_head q;
          q2 = q\<lparr>q_head := Suc (q_head q)\<rparr>;
          q3 = (if q_head q2 = QUEUESIZE then q2\<lparr>q_head := 0\<rparr> else q2);
          q4 = (if q_head q3 = q_tail q3 then q3\<lparr>q_empty := True\<rparr> else q3)
      in (out, q4\<lparr>q_full := False\<rparr>))"

text \<open>The elements in the queue, oldest first.\<close>

definition q_count :: "'a rqueue \<Rightarrow> nat" where
  "q_count q = (if q_full q then QUEUESIZE else (q_tail q + QUEUESIZE - q_head q) mod QUEUESIZE)"

definition q_view :: "'a rqueue \<Rightarrow> 'a list" where
  "q_view q = map (\<lambda>k. q_buf q ! ((q_head q + k) mod QUEUESIZE)) [0..<q_count q]"

definition q_ok :: "'a rqueue \<Rightarrow> bool" where
  "q_ok q \<longleftrightarrow> length (q_buf q) = QUEUESIZE \<and> q_head q < QUEUESIZE \<and> q_tail q < QUEUESIZE
     \<and> (q_full q \<longrightarrow> q_tail q = q_head q \<and> \<not> q_empty q)
     \<and> (q_empty q \<longleftrightarrow> q_tail q = q_head q \<and> \<not> q_full q)"

lemma wrap_if: "m < n \<Longrightarrow> (if Suc m = n then 0 else Suc m) = Suc m mod n"
  by auto

lemma queueAdd_fields:
  assumes "q_ok q"
  shows "q_buf (queueAdd q x) = (q_buf q)[q_tail q := x]"
    and "q_head (queueAdd q x) = q_head q"
    and "q_tail (queueAdd q x) = Suc (q_tail q) mod QUEUESIZE"
    and "q_full (queueAdd q x) \<longleftrightarrow> Suc (q_tail q) mod QUEUESIZE = q_head q \<or> q_full q"
    and "\<not> q_empty (queueAdd q x)"
  using assms wrap_if [of "q_tail q" QUEUESIZE]
  by (auto simp: queueAdd_def Let_def q_ok_def split: if_splits)

lemma queueDel_fields:
  assumes "q_ok q"
  shows "fst (queueDel q) = q_buf q ! q_head q"
    and "q_buf (snd (queueDel q)) = q_buf q"
    and "q_tail (snd (queueDel q)) = q_tail q"
    and "q_head (snd (queueDel q)) = Suc (q_head q) mod QUEUESIZE"
    and "q_empty (snd (queueDel q)) \<longleftrightarrow> Suc (q_head q) mod QUEUESIZE = q_tail q \<or> q_empty q"
    and "\<not> q_full (snd (queueDel q))"
  using assms wrap_if [of "q_head q" QUEUESIZE]
  by (auto simp: queueDel_def Let_def q_ok_def split: if_splits)

text \<open>The arithmetic of the indices, for the ten slots the code has.\<close>

lemma mod_ten: "x < 20 \<Longrightarrow> x mod 10 = (if x < 10 then x else x - (10::nat))"
  by (simp add: mod_if)

lemma count_after_add:
  assumes "q_ok q" and "\<not> q_full q"
  shows "q_count (queueAdd q x) = Suc (q_count q)"
    and "(q_head q + q_count q) mod QUEUESIZE = q_tail q" and "q_count q < QUEUESIZE"
proof -
  have h: "q_head q < 10" "q_tail q < 10" and e: "q_empty q \<longleftrightarrow> q_tail q = q_head q"
    using assms by (auto simp: q_ok_def QUEUESIZE_def)
  have c: "q_count q = (q_tail q + 10 - q_head q) mod 10" using assms(2) by (simp add: q_count_def QUEUESIZE_def)
  show "(q_head q + q_count q) mod QUEUESIZE = q_tail q"
    unfolding c QUEUESIZE_def using h by (simp add: mod_ten)
  show "q_count q < QUEUESIZE" unfolding c QUEUESIZE_def by simp
  have "q_full (queueAdd q x) \<longleftrightarrow> Suc (q_tail q) mod 10 = q_head q"
    using queueAdd_fields(4) [OF assms(1)] assms(2) by (simp add: QUEUESIZE_def)
  then show "q_count (queueAdd q x) = Suc (q_count q)"
    unfolding q_count_def [of "queueAdd q x"] c queueAdd_fields(2,3) [OF assms(1)] QUEUESIZE_def
    using h by (simp add: mod_ten) arith
qed

lemma count_after_del:
  assumes "q_ok q" and "\<not> q_empty q"
  shows "Suc (q_count (snd (queueDel q))) = q_count q" and "0 < q_count q"
proof -
  have h: "q_head q < 10" "q_tail q < 10" and e: "q_full q \<longleftrightarrow> q_tail q = q_head q"
    using assms by (auto simp: q_ok_def QUEUESIZE_def)
  have c: "q_count q = (if q_tail q = q_head q then 10 else (q_tail q + 10 - q_head q) mod 10)"
    using e by (simp add: q_count_def QUEUESIZE_def)
  show "0 < q_count q" unfolding c using h by (simp add: mod_ten) arith
  have "q_count (snd (queueDel q)) = (q_tail q + 10 - Suc (q_head q) mod 10) mod 10"
    unfolding q_count_def [of "snd (queueDel q)"]
    using queueDel_fields [OF assms(1)] by (simp add: QUEUESIZE_def)
  then show "Suc (q_count (snd (queueDel q))) = q_count q"
    unfolding c using h by (simp add: mod_ten) arith
qed

lemma q_ok_init: "length garbage = QUEUESIZE \<Longrightarrow> q_ok (queueInit garbage)"
  by (simp add: q_ok_def queueInit_def QUEUESIZE_def)

lemma q_ok_add: "q_ok q \<Longrightarrow> \<not> q_full q \<Longrightarrow> q_ok (queueAdd q x)"
proof -
  assume q: "q_ok q" "\<not> q_full q"
  have "Suc (q_tail q) mod QUEUESIZE < QUEUESIZE" by (simp add: QUEUESIZE_def)
  with q show ?thesis
    by (auto simp: q_ok_def [of "queueAdd q x"] queueAdd_fields [OF q(1)]) (auto simp: q_ok_def)
qed

lemma q_ok_del: "q_ok q \<Longrightarrow> \<not> q_empty q \<Longrightarrow> q_ok (snd (queueDel q))"
proof -
  assume q: "q_ok q" "\<not> q_empty q"
  have "Suc (q_head q) mod QUEUESIZE < QUEUESIZE" by (simp add: QUEUESIZE_def)
  with q show ?thesis
    by (auto simp: q_ok_def [of "snd (queueDel q)"] queueDel_fields [OF q(1)]) (auto simp: q_ok_def)
qed

lemma q_view_add:
  assumes "q_ok q" and "\<not> q_full q"
  shows "q_view (queueAdd q x) = q_view q @ [x]"
proof -
  note n = count_after_add [OF assms]
  have t: "q_tail q < length (q_buf q)" using assms by (simp add: q_ok_def)
  have same: "(q_buf q)[q_tail q := x] ! ((q_head q + k) mod QUEUESIZE) = q_buf q ! ((q_head q + k) mod QUEUESIZE)"
    if "k < q_count q" for k
  proof -
    have "(q_head q + k) mod QUEUESIZE \<noteq> q_tail q"
    proof
      assume "(q_head q + k) mod QUEUESIZE = q_tail q"
      then have "(q_head q + k) mod 10 = (q_head q + q_count q) mod 10" using n(2) by (simp add: QUEUESIZE_def)
      moreover have "q_head q < 10" "q_count q < 10" using assms(1) n(3) by (simp_all add: q_ok_def QUEUESIZE_def)
      ultimately show False using that by (simp add: mod_ten split: if_splits)
    qed
    then show ?thesis by simp
  qed
  have "map (\<lambda>k. (q_buf q)[q_tail q := x] ! ((q_head q + k) mod QUEUESIZE)) [0..<q_count q]
      = map (\<lambda>k. q_buf q ! ((q_head q + k) mod QUEUESIZE)) [0..<q_count q]"
    using same by simp
  moreover have "q_view (queueAdd q x)
      = map (\<lambda>k. (q_buf q)[q_tail q := x] ! ((q_head q + k) mod QUEUESIZE)) [0..<Suc (q_count q)]"
    unfolding q_view_def n(1) queueAdd_fields [OF assms(1)] ..
  ultimately show ?thesis using t by (simp add: q_view_def n(2))
qed

lemma q_view_del:
  assumes "q_ok q" and "\<not> q_empty q"
  shows "q_view q = fst (queueDel q) # q_view (snd (queueDel q))"
proof -
  note n = count_after_del [OF assms]
  have h: "q_head q mod QUEUESIZE = q_head q" using assms by (simp add: q_ok_def)
  have shift: "(Suc (q_head q) mod QUEUESIZE + k) mod QUEUESIZE = (q_head q + Suc k) mod QUEUESIZE" for k
    using mod_add_left_eq [of "Suc (q_head q)" QUEUESIZE k] by simp
  have "q_view q = map (\<lambda>k. q_buf q ! ((q_head q + k) mod QUEUESIZE)) [0..<Suc (q_count (snd (queueDel q)))]"
    unfolding q_view_def n(1) ..
  also have "\<dots> = q_buf q ! q_head q # map (\<lambda>k. q_buf q ! ((q_head q + Suc k) mod QUEUESIZE)) [0..<q_count (snd (queueDel q))]"
    by (simp add: upt_conv_Cons map_Suc_upt [symmetric] h del: upt_Suc)
  also have "\<dots> = fst (queueDel q) # q_view (snd (queueDel q))"
    unfolding q_view_def queueDel_fields [OF assms(1)] shift ..
  finally show ?thesis .
qed

lemma q_view_empty: "q_ok q \<Longrightarrow> q_empty q \<longleftrightarrow> q_view q = []"
  using count_after_del(2) [of q] by (auto simp: q_view_def q_ok_def q_count_def)

lemma q_view_full: "q_ok q \<Longrightarrow> q_full q \<longleftrightarrow> length (q_view q) = QUEUESIZE"
  using count_after_add(3) [of q] by (auto simp: q_view_def q_count_def)

section \<open>The threads\<close>

datatype owner = Nobody | Producer | Consumer

datatype ploc = PLoop | PTest | PWait | PRelock | PSignal | PDone

datatype cloc = CLoop | CTest | CWait | CRelock | CPrint

record ('q, 'a) pc =
  pc_queue :: 'q
  pc_mut :: owner
  pc_ploc :: ploc
  pc_i :: nat
  pc_cloc :: cloc
  pc_d :: 'a
  pc_out :: "'a list"

inductive pc_step :: "nat \<Rightarrow> ('q \<Rightarrow> nat \<Rightarrow> 'q) \<Rightarrow> ('q \<Rightarrow> nat \<times> 'q) \<Rightarrow> ('q \<Rightarrow> bool) \<Rightarrow> ('q \<Rightarrow> bool)
    \<Rightarrow> ('q, nat) pc \<Rightarrow> ('q, nat) pc \<Rightarrow> bool"
  for n add del is_full is_empty where
  p_lock: "pc_ploc s = PLoop \<Longrightarrow> pc_i s < n \<Longrightarrow> pc_mut s = Nobody
    \<Longrightarrow> pc_step n add del is_full is_empty s (s\<lparr>pc_ploc := PTest, pc_mut := Producer\<rparr>)"
| p_exit: "pc_ploc s = PLoop \<Longrightarrow> \<not> pc_i s < n
    \<Longrightarrow> pc_step n add del is_full is_empty s (s\<lparr>pc_ploc := PDone\<rparr>)"
| p_wait: "pc_ploc s = PTest \<Longrightarrow> is_full (pc_queue s)
    \<Longrightarrow> pc_step n add del is_full is_empty s (s\<lparr>pc_ploc := PWait, pc_mut := Nobody\<rparr>)"
| p_add: "pc_ploc s = PTest \<Longrightarrow> \<not> is_full (pc_queue s)
    \<Longrightarrow> pc_step n add del is_full is_empty s (s\<lparr>pc_queue := add (pc_queue s) (pc_i s),
          pc_i := Suc (pc_i s), pc_mut := Nobody, pc_ploc := PSignal\<rparr>)"
| p_signal: "pc_ploc s = PSignal
    \<Longrightarrow> pc_step n add del is_full is_empty s (s\<lparr>pc_ploc := PLoop,
          pc_cloc := (if pc_cloc s = CWait then CRelock else pc_cloc s)\<rparr>)"
| p_spurious: "pc_ploc s = PWait
    \<Longrightarrow> pc_step n add del is_full is_empty s (s\<lparr>pc_ploc := PRelock\<rparr>)"
| p_relock: "pc_ploc s = PRelock \<Longrightarrow> pc_mut s = Nobody
    \<Longrightarrow> pc_step n add del is_full is_empty s (s\<lparr>pc_ploc := PTest, pc_mut := Producer\<rparr>)"
| c_lock: "pc_cloc s = CLoop \<Longrightarrow> pc_mut s = Nobody
    \<Longrightarrow> pc_step n add del is_full is_empty s (s\<lparr>pc_cloc := CTest, pc_mut := Consumer\<rparr>)"
| c_wait: "pc_cloc s = CTest \<Longrightarrow> is_empty (pc_queue s)
    \<Longrightarrow> pc_step n add del is_full is_empty s (s\<lparr>pc_cloc := CWait, pc_mut := Nobody\<rparr>)"
| c_del: "pc_cloc s = CTest \<Longrightarrow> \<not> is_empty (pc_queue s)
    \<Longrightarrow> pc_step n add del is_full is_empty s (s\<lparr>pc_queue := snd (del (pc_queue s)),
          pc_d := fst (del (pc_queue s)), pc_mut := Nobody, pc_cloc := CPrint,
          pc_ploc := (if pc_ploc s = PWait then PRelock else pc_ploc s)\<rparr>)"
| c_print: "pc_cloc s = CPrint
    \<Longrightarrow> pc_step n add del is_full is_empty s (s\<lparr>pc_out := pc_out s @ [pc_d s], pc_cloc := CLoop\<rparr>)"
| c_spurious: "pc_cloc s = CWait
    \<Longrightarrow> pc_step n add del is_full is_empty s (s\<lparr>pc_cloc := CRelock\<rparr>)"
| c_relock: "pc_cloc s = CRelock \<Longrightarrow> pc_mut s = Nobody
    \<Longrightarrow> pc_step n add del is_full is_empty s (s\<lparr>pc_cloc := CTest, pc_mut := Consumer\<rparr>)"

inductive_cases pc_stepE: "pc_step n add del is_full is_empty s s'"

definition pc_init :: "'q \<Rightarrow> nat \<Rightarrow> ('q, nat) pc" where
  "pc_init q g = \<lparr>pc_queue = q, pc_mut = Nobody, pc_ploc = PLoop, pc_i = 0, pc_cloc = CLoop,
     pc_d = g, pc_out = []\<rparr>"

text \<open>
  The invariant: the mutex is held exactly at the test; everything added so far has been
  printed, is about to be, or is in the queue, in order; and a consumer that waits unsignalled
  has nothing to take, or the producer's signal is still to come.
\<close>

definition pc_inv :: "nat \<Rightarrow> ('q \<Rightarrow> bool) \<Rightarrow> ('q \<Rightarrow> nat list) \<Rightarrow> nat \<Rightarrow> ('q, nat) pc \<Rightarrow> bool" where
  "pc_inv n ok view cap s \<longleftrightarrow> ok (pc_queue s)
     \<and> pc_out s @ (if pc_cloc s = CPrint then [pc_d s] else []) @ view (pc_queue s) = [0..<pc_i s]
     \<and> pc_i s \<le> n
     \<and> (pc_ploc s \<in> {PTest, PWait, PRelock} \<longrightarrow> pc_i s < n)
     \<and> (pc_mut s = Producer \<longleftrightarrow> pc_ploc s = PTest) \<and> (pc_mut s = Consumer \<longleftrightarrow> pc_cloc s = CTest)
     \<and> (pc_ploc s = PDone \<longrightarrow> pc_i s = n)
     \<and> (pc_cloc s = CWait \<longrightarrow> view (pc_queue s) = [] \<or> pc_ploc s = PSignal)
     \<and> (pc_ploc s = PWait \<longrightarrow> length (view (pc_queue s)) = cap)"

locale bounded_fifo =
  fixes add :: "'q \<Rightarrow> nat \<Rightarrow> 'q" and del :: "'q \<Rightarrow> nat \<times> 'q"
    and is_full :: "'q \<Rightarrow> bool" and is_empty :: "'q \<Rightarrow> bool"
    and ok :: "'q \<Rightarrow> bool" and view :: "'q \<Rightarrow> nat list" and cap :: nat
  assumes add_ok: "ok q \<Longrightarrow> \<not> is_full q \<Longrightarrow> ok (add q x)"
    and add_view: "ok q \<Longrightarrow> \<not> is_full q \<Longrightarrow> view (add q x) = view q @ [x]"
    and del_ok: "ok q \<Longrightarrow> \<not> is_empty q \<Longrightarrow> ok (snd (del q))"
    and del_view: "ok q \<Longrightarrow> \<not> is_empty q \<Longrightarrow> view q = fst (del q) # view (snd (del q))"
    and empty_iff: "ok q \<Longrightarrow> is_empty q \<longleftrightarrow> view q = []"
    and full_iff: "ok q \<Longrightarrow> is_full q \<longleftrightarrow> length (view q) = cap"
    and cap_pos: "0 < cap"
begin

lemma step_inv:
  assumes "pc_step n add del is_full is_empty s s'" and "pc_inv n ok view cap s"
  shows "pc_inv n ok view cap s'"
  using assms(1)
proof (cases rule: pc_step.cases)
  case p_add
  have "ok (pc_queue s)" using assms(2) by (simp add: pc_inv_def)
  with p_add add_ok [of "pc_queue s" "pc_i s"] add_view [of "pc_queue s" "pc_i s"] assms(2)
  show ?thesis by (auto simp: pc_inv_def simp flip: append_assoc)
next
  case c_del
  have "ok (pc_queue s)" using assms(2) by (simp add: pc_inv_def)
  with c_del del_ok [of "pc_queue s"] del_view [of "pc_queue s"] assms(2)
  show ?thesis by (auto simp: pc_inv_def)
next
  case p_wait
  with assms(2) full_iff [of "pc_queue s"] show ?thesis by (auto simp: pc_inv_def)
next
  case c_wait
  with assms(2) empty_iff [of "pc_queue s"] show ?thesis by (auto simp: pc_inv_def)
qed (use assms(2) in \<open>auto simp: pc_inv_def\<close>)

lemma steps_inv:
  assumes "(pc_step n add del is_full is_empty)\<^sup>*\<^sup>* s s'" and "pc_inv n ok view cap s"
  shows "pc_inv n ok view cap s'"
  using assms by (induction rule: rtranclp_induct) (auto intro: step_inv)

text \<open>A state in which nothing but a spurious wake-up can happen has delivered everything.\<close>

lemma stuck_done:
  assumes "pc_inv n ok view cap s"
    and "\<And>s'. pc_step n add del is_full is_empty s s'
      \<Longrightarrow> pc_cloc s = CWait \<and> s' = s\<lparr>pc_cloc := CRelock\<rparr> \<or> pc_ploc s = PWait \<and> s' = s\<lparr>pc_ploc := PRelock\<rparr>"
  shows "pc_ploc s = PDone \<and> pc_out s = [0..<n]"
proof -
  note st = pc_step.intros [of s, where n = n and add = add and del = del
      and is_full = is_full and is_empty = is_empty]
  have only: "pc_cloc s' = pc_cloc s \<and> pc_ploc s = PWait \<and> pc_ploc s' = PRelock
      \<or> pc_cloc s = CWait \<and> pc_cloc s' = CRelock \<and> pc_ploc s' = pc_ploc s"
    if "pc_step n add del is_full is_empty s s'" for s'
    using assms(2) [OF that] by auto
  have not_test: "pc_ploc s \<noteq> PTest"
    using only [OF st(3)] only [OF st(4)] by (cases "is_full (pc_queue s)") auto
  have not_signal: "pc_ploc s \<noteq> PSignal" using only [OF st(5)] by auto
  have c: "pc_cloc s = CWait"
  proof (cases "pc_cloc s")
    case CLoop
    have "pc_mut s \<noteq> Nobody" using only [OF st(8) [OF CLoop]] CLoop by auto
    with assms(1) CLoop not_test show ?thesis by (cases "pc_mut s") (auto simp: pc_inv_def)
  next
    case CTest
    then show ?thesis using only [OF st(9)] only [OF st(10)] by (cases "is_empty (pc_queue s)") auto
  next
    case CRelock
    have "pc_mut s \<noteq> Nobody" using only [OF st(13) [OF CRelock]] CRelock by auto
    with assms(1) CRelock not_test show ?thesis by (cases "pc_mut s") (auto simp: pc_inv_def)
  next
    case CPrint
    then show ?thesis using only [OF st(11) [OF CPrint]] by auto
  qed
  have free: "pc_mut s = Nobody" using assms(1) c not_test by (cases "pc_mut s") (auto simp: pc_inv_def)
  have p: "pc_ploc s = PDone"
  proof (cases "pc_ploc s")
    case PLoop
    then show ?thesis using only [OF st(1) [OF PLoop _ free]] only [OF st(2) [OF PLoop]]
      by (cases "pc_i s < n") auto
  next
    case PWait
    with assms(1) c cap_pos show ?thesis by (auto simp: pc_inv_def)
  next
    case PRelock
    then show ?thesis using only [OF st(7) [OF PRelock free]] by auto
  qed (use not_test not_signal in auto)
  with assms(1) c show ?thesis by (auto simp: pc_inv_def)
qed

end

interpretation ring: bounded_fifo queueAdd queueDel q_full q_empty q_ok q_view QUEUESIZE
  by (unfold_locales;
      (rule q_ok_add q_view_add q_ok_del q_view_del q_view_empty q_view_full; assumption)?)
     (simp add: QUEUESIZE_def)

section \<open>The program\<close>

abbreviation pc9_step :: "(nat rqueue, nat) pc \<Rightarrow> (nat rqueue, nat) pc \<Rightarrow> bool" where
  "pc9_step \<equiv> pc_step 4 queueAdd queueDel q_full q_empty"

lemma pc9_init_inv:
  "length garbage = QUEUESIZE \<Longrightarrow> pc_inv 4 q_ok q_view QUEUESIZE (pc_init (queueInit garbage) g)"
  by (simp add: pc_inv_def pc_init_def q_ok_init q_view_def q_count_def) (simp add: queueInit_def)

text \<open>However the producer and the consumer of pc-9.c interleave, the consumer prints the
  numbers in the order they were produced, each once; the producer never waits; and where
  nothing but a spurious wake-up of the consumer can happen, the producer has ended and all
  four numbers were printed (no lost wake-up).\<close>

theorem producer_consumer_delivers:
  assumes "length garbage = QUEUESIZE" and "pc9_step\<^sup>*\<^sup>* (pc_init (queueInit garbage) g) s"
  shows "pc_out s @ (if pc_cloc s = CPrint then [pc_d s] else []) @ q_view (pc_queue s) = [0..<pc_i s]
    \<and> pc_i s \<le> 4 \<and> pc_ploc s \<noteq> PWait
    \<and> ((\<forall>s'. pc9_step s s' \<longrightarrow> pc_cloc s = CWait \<and> s' = s\<lparr>pc_cloc := CRelock\<rparr>)
        \<longrightarrow> pc_ploc s = PDone \<and> pc_out s = [0, 1, 2, 3])"
proof -
  have inv: "pc_inv 4 q_ok q_view QUEUESIZE s"
    by (rule ring.steps_inv [OF assms(2) pc9_init_inv [OF assms(1)]])
  have len: "length (q_view (pc_queue s)) \<le> 4"
  proof -
    from inv have "pc_out s @ (if pc_cloc s = CPrint then [pc_d s] else []) @ q_view (pc_queue s) = [0..<pc_i s]"
      and "pc_i s \<le> 4" by (simp_all add: pc_inv_def)
    from arg_cong [OF this(1), of length] this(2) show ?thesis by simp
  qed
  have "pc_ploc s = PDone \<and> pc_out s = [0..<4]"
    if "\<forall>s'. pc9_step s s' \<longrightarrow> pc_cloc s = CWait \<and> s' = s\<lparr>pc_cloc := CRelock\<rparr>"
    by (rule ring.stuck_done [OF inv]) (use that in blast)
  moreover have "[0..<4] = [0, 1, 2, 3::nat]" by (simp add: upt_rec)
  ultimately show ?thesis using inv len by (auto simp: pc_inv_def QUEUESIZE_def)
qed

definition pc_example :: "(nat rqueue, nat) pc" where
  "pc_example = pc_init (queueInit (replicate 10 0)) 0"

theorem producer_consumer_delivers_witness:
  "\<exists>s. pc9_step\<^sup>*\<^sup>* pc_example s \<and> pc_i s = 1
    \<and> pc_out s @ (if pc_cloc s = CPrint then [pc_d s] else []) @ q_view (pc_queue s) = [0]"
proof -
  let ?s1 = "pc_example\<lparr>pc_ploc := PTest, pc_mut := Producer\<rparr>"
  let ?s2 = "?s1\<lparr>pc_queue := queueAdd (pc_queue ?s1) (pc_i ?s1), pc_i := Suc (pc_i ?s1),
      pc_mut := Nobody, pc_ploc := PSignal\<rparr>"
  have "pc9_step pc_example ?s1" by (rule p_lock) (simp_all add: pc_example_def pc_init_def)
  moreover have "pc9_step ?s1 ?s2"
    by (rule p_add) (simp_all add: pc_example_def pc_init_def queueInit_def)
  ultimately have r: "pc9_step\<^sup>*\<^sup>* pc_example ?s2" by (rule converse_rtranclp_into_rtranclp [OF _ r_into_rtranclp])
  have i: "pc_i ?s2 = 1" by (simp add: pc_example_def pc_init_def)
  have "pc_out ?s2 @ (if pc_cloc ?s2 = CPrint then [pc_d ?s2] else []) @ q_view (pc_queue ?s2) = [0..<pc_i ?s2]"
    by (rule producer_consumer_delivers [OF _ r [unfolded pc_example_def], folded pc_example_def,
          THEN conjunct1]) (simp add: QUEUESIZE_def)
  with r i show ?thesis by (intro exI [of _ ?s2]) simp
qed

end
