(* ===== verification/RingMain.thy ===== *)
theory RingMain
  imports RingBuffer
begin

text \<open>
  The whole of pthreads/pc-9.c: \<open>main\<close> allocates the queue, creates the two threads, waits for
  both, and would then signal them and delete the queue. The threads are those of \<open>RingBuffer\<close>.
  \<open>malloc\<close> of the queue may fail, which \<open>main\<close> tests; its other results are not tested and
  succeed here. The signals to ended threads, after the waiting, have no effect on the state.
\<close>

text \<open>The blocks \<open>queueInit\<close> allocates and \<open>queueDelete\<close> frees, in its order.\<close>

datatype qblock = BMut | BNotFull | BNotEmpty | BQueue

definition all_blocks :: "qblock list" where
  "all_blocks = [BMut, BNotFull, BNotEmpty, BQueue]"

definition free_block :: "qblock \<Rightarrow> qblock list \<Rightarrow> qblock list res" where
  "free_block b live =
     (if BQueue \<in> set live \<and> b \<in> set live then Inr (remove1 b live) else Inl BadPointer)"

definition queueDelete :: "qblock list \<Rightarrow> qblock list res" where
  "queueDelete live = for_each [BMut, BNotFull, BNotEmpty, BQueue] free_block live"

datatype pm_loc =
  PmInit | PmCreatePro | PmCreateCon | PmJoinPro | PmJoinCon | PmKill | PmDelete | PmHup | PmExit nat

record pc_prog =
  pg_pc :: "(nat rqueue, nat) pc"
  pg_pro :: bool
  pg_con :: bool
  pg_live :: "qblock list"
  pg_main :: pm_loc

text \<open>Where the consumer has ended: its loop has no exit.\<close>

fun consumer_ended :: "cloc \<Rightarrow> bool" where
  "consumer_ended CLoop = False" | "consumer_ended CTest = False" | "consumer_ended CWait = False"
| "consumer_ended CRelock = False" | "consumer_ended CPrint = False"

inductive pg_step :: "pc_prog \<Rightarrow> pc_prog \<Rightarrow> bool" where
  pg_no_queue: "pg_main s = PmInit \<Longrightarrow> pg_step s (s\<lparr>pg_main := PmExit 1\<rparr>)"
| pg_init: "pg_main s = PmInit \<Longrightarrow> length garbage = QUEUESIZE \<Longrightarrow>
    pg_step s (s\<lparr>pg_pc := pc_init (queueInit garbage) g, pg_live := all_blocks, pg_main := PmCreatePro\<rparr>)"
| pg_create_pro: "pg_main s = PmCreatePro \<Longrightarrow> pg_step s (s\<lparr>pg_pro := True, pg_main := PmCreateCon\<rparr>)"
| pg_create_con: "pg_main s = PmCreateCon \<Longrightarrow> pg_step s (s\<lparr>pg_con := True, pg_main := PmJoinPro\<rparr>)"
| pg_join_pro: "pg_main s = PmJoinPro \<Longrightarrow> pc_ploc (pg_pc s) = PDone \<Longrightarrow>
    pg_step s (s\<lparr>pg_main := PmJoinCon\<rparr>)"
| pg_join_con: "pg_main s = PmJoinCon \<Longrightarrow> consumer_ended (pc_cloc (pg_pc s)) \<Longrightarrow>
    pg_step s (s\<lparr>pg_main := PmKill\<rparr>)"
| pg_kill: "pg_main s = PmKill \<Longrightarrow> pg_step s (s\<lparr>pg_main := PmDelete\<rparr>)"
| pg_delete: "pg_main s = PmDelete \<Longrightarrow> queueDelete (pg_live s) = Inr live \<Longrightarrow>
    pg_step s (s\<lparr>pg_live := live, pg_main := PmHup\<rparr>)"
| pg_hup: "pg_main s = PmHup \<Longrightarrow> pg_step s (s\<lparr>pg_main := PmExit 0\<rparr>)"
| pg_thread: "pc9_step (pg_pc s) p \<Longrightarrow> (pc_ploc p \<noteq> pc_ploc (pg_pc s) \<longrightarrow> pg_pro s) \<Longrightarrow>
    (pc_cloc p \<noteq> pc_cloc (pg_pc s) \<longrightarrow> pg_con s) \<Longrightarrow> pg_step s (s\<lparr>pg_pc := p\<rparr>)"

definition pg_start :: pc_prog where
  "pg_start = \<lparr>pg_pc = pc_init (queueInit []) 0, pg_pro = False, pg_con = False, pg_live = [],
     pg_main = PmInit\<rparr>"

lemma queueDelete_all: "queueDelete all_blocks = Inr []"
  by (simp add: queueDelete_def all_blocks_def free_block_def)

text \<open>Until the queue is there no thread runs; afterwards it stays, and \<open>main\<close> waits.\<close>

definition pg_inv :: "pc_prog \<Rightarrow> bool" where
  "pg_inv s \<longleftrightarrow>
     (pg_main s \<in> {PmInit, PmExit 1} \<and> \<not> pg_pro s \<and> \<not> pg_con s) \<or>
     (pg_main s \<in> {PmCreatePro, PmCreateCon, PmJoinPro, PmJoinCon} \<and> pg_live s = all_blocks \<and>
      (pg_main s \<noteq> PmCreatePro \<longrightarrow> pg_pro s) \<and>
      (pg_main s \<in> {PmJoinPro, PmJoinCon} \<longrightarrow> pg_con s) \<and>
      (\<exists>garbage g. length garbage = QUEUESIZE \<and>
         pc9_step\<^sup>*\<^sup>* (pc_init (queueInit garbage) g) (pg_pc s)))"

lemma pc_step_moves:
  "pc_step n add del f e s s' \<Longrightarrow> pc_ploc s' \<noteq> pc_ploc s \<or> pc_cloc s' \<noteq> pc_cloc s"
  by (erule pc_stepE) simp_all

lemma consumer_never_ends: "\<not> consumer_ended c"
  by (cases c) simp_all

lemma pg_step_inv: "pg_step s s' \<Longrightarrow> pg_inv s \<Longrightarrow> pg_inv s'"
proof (induction rule: pg_step.induct)
  case (pg_init s garbage g)
  then show ?case by (auto simp: pg_inv_def)
next
  case (pg_thread s p)
  then have "pg_pro s \<or> pg_con s" using pc_step_moves [OF pg_thread(1)] by auto
  with pg_thread show ?case by (auto simp: pg_inv_def intro: rtranclp.rtrancl_into_rtrancl)
qed (auto simp: pg_inv_def consumer_never_ends)

lemma pg_reach_inv: "pg_step\<^sup>*\<^sup>* pg_start s \<Longrightarrow> pg_inv s"
proof (induction rule: rtranclp_induct)
  case base
  show ?case by (simp add: pg_start_def pg_inv_def)
qed (rule pg_step_inv)

text \<open>
  C34: however \<open>main\<close>, the producer and the consumer of pc-9.c interleave, either there is no
  memory for the queue and \<open>main\<close> exits with 1, or: the consumer prints the numbers in the order
  they were produced, each once; the producer never waits; the queue is never freed; and where
  nothing but a spurious wake-up of the consumer can happen, all four numbers were printed (no
  wake-up is lost) and \<open>main\<close> waits for the consumer, for ever.
\<close>

theorem pc9_program_delivers:
  assumes "pg_step\<^sup>*\<^sup>* pg_start s"
  shows "pg_main s \<in> {PmInit, PmExit 1} \<or>
    (let p = pg_pc s in
      pc_out p @ (if pc_cloc p = CPrint then [pc_d p] else []) @ q_view (pc_queue p) = [0..<pc_i p] \<and>
      pc_i p \<le> 4 \<and> pc_ploc p \<noteq> PWait \<and> pg_live s = all_blocks \<and>
      pg_main s \<in> {PmCreatePro, PmCreateCon, PmJoinPro, PmJoinCon} \<and>
      ((\<forall>s'. pg_step s s' \<longrightarrow> pc_cloc p = CWait \<and> s' = s\<lparr>pg_pc := p\<lparr>pc_cloc := CRelock\<rparr>\<rparr>) \<longrightarrow>
        pg_main s = PmJoinCon \<and> pc_ploc p = PDone \<and> pc_out p = [0, 1, 2, 3]))"
proof (cases "pg_main s \<in> {PmInit, PmExit 1}")
  case False
  with pg_reach_inv [OF assms] obtain garbage g
    where at: "pg_main s \<in> {PmCreatePro, PmCreateCon, PmJoinPro, PmJoinCon}"
      and live: "pg_live s = all_blocks" "pg_main s \<in> {PmJoinPro, PmJoinCon} \<longrightarrow> pg_pro s \<and> pg_con s"
      and len: "length garbage = QUEUESIZE"
      and run: "pc9_step\<^sup>*\<^sup>* (pc_init (queueInit garbage) g) (pg_pc s)"
    by (auto simp: pg_inv_def)
  note deliver = producer_consumer_delivers [OF len run]
  have "pg_main s = PmJoinCon \<and> pc_ploc (pg_pc s) = PDone \<and> pc_out (pg_pc s) = [0, 1, 2, 3]"
    if stuck: "\<forall>s'. pg_step s s' \<longrightarrow> pc_cloc (pg_pc s) = CWait \<and>
      s' = s\<lparr>pg_pc := (pg_pc s)\<lparr>pc_cloc := CRelock\<rparr>\<rparr>"
  proof -
    have main: "pg_main s' = pg_main s" if "pg_step s s'" for s' using stuck that by auto
    have join: "pg_main s \<in> {PmJoinPro, PmJoinCon}"
      using at main [OF pg_create_pro] main [OF pg_create_con] by auto
    have "pc_cloc (pg_pc s) = CWait \<and> p = (pg_pc s)\<lparr>pc_cloc := CRelock\<rparr>"
      if "pc9_step (pg_pc s) p" for p
    proof -
      have "pg_step s (s\<lparr>pg_pc := p\<rparr>)" using pg_thread [OF that] live(2) join by auto
      then have wake: "pc_cloc (pg_pc s) = CWait"
        "s\<lparr>pg_pc := p\<rparr> = s\<lparr>pg_pc := (pg_pc s)\<lparr>pc_cloc := CRelock\<rparr>\<rparr>" using stuck by auto
      from arg_cong [OF wake(2), of pg_pc] wake(1) show ?thesis by simp
    qed
    with deliver have "pc_ploc (pg_pc s) = PDone \<and> pc_out (pg_pc s) = [0, 1, 2, 3]" by blast
    moreover from this have "pg_main s \<noteq> PmJoinPro" using main [OF pg_join_pro] by auto
    ultimately show ?thesis using join by auto
  qed
  with deliver at live(1) show ?thesis by (auto simp: Let_def)
qed simp

lemma pc9_program_delivers_witness:
  "\<exists>s. pg_step\<^sup>*\<^sup>* pg_start s \<and> pg_main s = PmJoinPro \<and> pg_live s = all_blocks \<and> pg_pro s \<and> pg_con s \<and>
    pc_out (pg_pc s) @ (if pc_cloc (pg_pc s) = CPrint then [pc_d (pg_pc s)] else []) @
      q_view (pc_queue (pg_pc s)) = [0..<pc_i (pg_pc s)]"
proof -
  define s1 where "s1 = pg_start\<lparr>pg_pc := pc_init (queueInit (replicate 10 0)) 0,
    pg_live := all_blocks, pg_main := PmCreatePro\<rparr>"
  define s2 where "s2 = s1\<lparr>pg_pro := True, pg_main := PmCreateCon\<rparr>"
  define s3 where "s3 = s2\<lparr>pg_con := True, pg_main := PmJoinPro\<rparr>"
  have "pg_step pg_start s1" unfolding s1_def
    by (rule pg_init) (simp_all add: pg_start_def QUEUESIZE_def)
  moreover have "pg_step s1 s2" unfolding s2_def by (rule pg_create_pro) (simp add: s1_def)
  moreover have "pg_step s2 s3" unfolding s3_def by (rule pg_create_con) (simp add: s2_def)
  ultimately have run: "pg_step\<^sup>*\<^sup>* pg_start s3" by (auto intro: converse_rtranclp_into_rtranclp)
  have "pg_main s3 = PmJoinPro" "pg_live s3 = all_blocks" "pg_pro s3" "pg_con s3"
    by (simp_all add: s3_def s2_def s1_def)
  with run pc9_program_delivers [OF run] show ?thesis by (auto simp: Let_def)
qed

end
