(* ===== verification/WorkQueue.thy ===== *)
theory WorkQueue
  imports Prelude
begin

text \<open>
  pthreads/workcrew/queue.c and control.c: the queue of nodes and the \<open>data_control\<close> that
  makes it thread-aware.

  A node of the C code is any struct that begins with a \<open>next\<close> pointer; here it is any
  extension of the record \<open>qnode\<close>, so that the same \<open>queue_put\<close> and \<open>queue_get\<close> serve the
  work nodes and the cleanup nodes, as the casts of the code do. A heap maps an address to
  its node, or to nothing where none is allocated. The owner of a mutex is a thread number.
\<close>

section \<open>queue.c\<close>

record qnode =
  qn_next :: "nat option"

record node_queue =
  nq_head :: "nat option"
  nq_tail :: "nat option"

type_synonym 'n nodes = "nat \<Rightarrow> 'n qnode_scheme option"

definition queue_init :: "node_queue \<Rightarrow> node_queue" where
  "queue_init q = q\<lparr>nq_head := None, nq_tail := None\<rparr>"

definition queue_put :: "'n nodes \<Rightarrow> node_queue \<Rightarrow> nat \<Rightarrow> ('n nodes \<times> node_queue) res" where
  "queue_put h q n = (case h n of None \<Rightarrow> Inl BadPointer
     | Some x \<Rightarrow> let h1 = h(n \<mapsto> x\<lparr>qn_next := nq_head q\<rparr>); q1 = q\<lparr>nq_head := Some n\<rparr> in
         Inr (h1, if nq_tail q1 \<noteq> None then q1\<lparr>nq_tail := Some n\<rparr> else q1))"

definition queue_get :: "'n nodes \<Rightarrow> node_queue \<Rightarrow> (nat option \<times> node_queue) res" where
  "queue_get h q = (case nq_head q of None \<Rightarrow> Inr (None, q)
     | Some n \<Rightarrow> (case h n of None \<Rightarrow> Inl BadPointer
         | Some x \<Rightarrow> Inr (Some n, q\<lparr>nq_head := qn_next x\<rparr>)))"

section \<open>control.c\<close>

text \<open>
  \<open>pthread_mutex_init\<close> and \<open>pthread_cond_init\<close> may fail, which the arguments of \<open>control_init\<close>
  say; \<open>pthread_mutex_destroy\<close> refuses a locked mutex. The condition variable has no state of
  its own: the threads waiting on it are known by where they stand. \<open>control_activate\<close> and
  \<open>control_deactivate\<close> are the step in which they hold the mutex, and exist when it is free.
\<close>

record data_control =
  dc_mutex :: "nat option"
  dc_active :: bool

definition control_init :: "bool \<Rightarrow> bool \<Rightarrow> data_control \<Rightarrow> bool \<times> data_control" where
  "control_init mutex_ok cond_ok c =
     (if \<not> mutex_ok then (True, c)
      else if \<not> cond_ok then (True, c\<lparr>dc_mutex := None\<rparr>)
      else (False, c\<lparr>dc_mutex := None, dc_active := False\<rparr>))"

definition control_destroy :: "data_control \<Rightarrow> bool \<times> data_control" where
  "control_destroy c = (if dc_mutex c \<noteq> None then (True, c) else (False, c\<lparr>dc_active := False\<rparr>))"

definition control_activate :: "data_control \<Rightarrow> data_control option" where
  "control_activate c = (if dc_mutex c = None then Some (c\<lparr>dc_active := True\<rparr>) else None)"

definition control_deactivate :: "data_control \<Rightarrow> data_control option" where
  "control_deactivate c = (if dc_mutex c = None then Some (c\<lparr>dc_active := False\<rparr>) else None)"

section \<open>What a queue holds\<close>

definition qn_link :: "'n nodes \<Rightarrow> nat \<Rightarrow> nat option" where
  "qn_link h a = (case h a of None \<Rightarrow> None | Some x \<Rightarrow> qn_next x)"

definition queue_holds :: "'n nodes \<Rightarrow> node_queue \<Rightarrow> nat list \<Rightarrow> bool" where
  "queue_holds h q ns \<longleftrightarrow> chain (qn_link h) (nq_head q) ns \<and> set ns \<subseteq> dom h"

lemma queue_holds_distinct: "queue_holds h q ns \<Longrightarrow> distinct ns"
  by (auto simp: queue_holds_def dest: chain_distinct)

lemma queue_holds_head: "queue_holds h q ns \<Longrightarrow> nq_head q = (if ns = [] then None else Some (hd ns))"
  by (auto simp: queue_holds_def dest: chain_start)

lemma queue_holds_init [simp]: "queue_holds h (queue_init q) []"
  by (simp add: queue_holds_def queue_init_def)

lemma queue_holds_unique: "queue_holds h q ns \<Longrightarrow> queue_holds h q ms \<Longrightarrow> ns = ms"
  by (auto simp: queue_holds_def dest: chain_unique)

text \<open>Writing to nodes outside the queue, or the data of its nodes, does not touch it.\<close>

lemma queue_holds_frame:
  assumes "queue_holds h q ns"
    and "\<And>a. a \<in> set ns \<Longrightarrow> h' a \<noteq> None \<and> qn_link h' a = qn_link h a"
  shows "queue_holds h' q ns"
proof -
  have "chain (qn_link h') (nq_head q) ns = chain (qn_link h) (nq_head q) ns"
    by (rule chain_cong) (use assms(2) in simp)
  with assms show ?thesis by (auto simp: queue_holds_def)
qed

lemma queue_put_holds:
  assumes "queue_holds h q ns" and "h n = Some x" and "n \<notin> set ns"
  shows "\<exists>q'. queue_put h q n = Inr (h(n \<mapsto> x\<lparr>qn_next := nq_head q\<rparr>), q')
    \<and> queue_holds (h(n \<mapsto> x\<lparr>qn_next := nq_head q\<rparr>)) q' (n # ns)"
proof -
  let ?h = "h(n \<mapsto> x\<lparr>qn_next := nq_head q\<rparr>)"
  have "queue_holds ?h q ns"
    by (rule queue_holds_frame [OF assms(1)]) (use assms in \<open>auto simp: queue_holds_def qn_link_def\<close>)
  then have "queue_holds ?h q' (n # ns)" if "nq_head q' = Some n" for q'
    using that by (simp add: queue_holds_def qn_link_def)
  then show ?thesis using assms(2) by (simp add: queue_put_def Let_def)
qed

lemma queue_get_holds:
  assumes "queue_holds h q (n # ns)"
  shows "\<exists>q'. queue_get h q = Inr (Some n, q') \<and> queue_holds h q' ns"
proof -
  from assms obtain x where "h n = Some x" "nq_head q = Some n" "qn_link h n = qn_next x"
    by (auto simp: queue_holds_def qn_link_def)
  with assms show ?thesis by (simp add: queue_get_def queue_holds_def)
qed

lemma queue_get_empty: "queue_holds h q [] \<Longrightarrow> queue_get h q = Inr (None, q)"
  by (simp add: queue_holds_def queue_get_def)

text \<open>A queue that starts empty never gets a tail: \<open>queue_put\<close> updates it only when it is set.\<close>

lemma queue_tail_never_set:
  "nq_tail q = None \<Longrightarrow> queue_put h q n = Inr (h', q') \<Longrightarrow> nq_tail q' = None"
  by (auto simp: queue_put_def Let_def split: option.splits)

section \<open>The contract its clients use\<close>

text \<open>
  A store of nodes that behaves as a stack: what is put last is got first. (The README calls
  the queues first-in-first-out.)
\<close>

locale node_stack =
  fixes put :: "'h \<Rightarrow> 'q \<Rightarrow> nat \<Rightarrow> ('h \<times> 'q) res"
    and get :: "'h \<Rightarrow> 'q \<Rightarrow> (nat option \<times> 'q) res"
    and holds :: "'h \<Rightarrow> 'q \<Rightarrow> nat list \<Rightarrow> bool"
    and allocated :: "'h \<Rightarrow> nat \<Rightarrow> bool"
  assumes put_law: "holds h q ns \<Longrightarrow> allocated h n \<Longrightarrow> n \<notin> set ns
      \<Longrightarrow> \<exists>h' q'. put h q n = Inr (h', q') \<and> holds h' q' (n # ns) \<and> (\<forall>a. allocated h' a = allocated h a)"
    and get_law: "holds h q (n # ns) \<Longrightarrow> \<exists>q'. get h q = Inr (Some n, q') \<and> holds h q' ns"
    and get_none: "holds h q [] \<Longrightarrow> get h q = Inr (None, q)"
begin

primrec put_all :: "nat list \<Rightarrow> 'h \<times> 'q \<Rightarrow> ('h \<times> 'q) res" where
  "put_all [] hq = Inr hq"
| "put_all (n # ns) hq = bind_res (put (fst hq) (snd hq) n) (put_all ns)"

primrec get_all :: "nat \<Rightarrow> 'h \<Rightarrow> 'q \<Rightarrow> (nat option list \<times> 'q) res" where
  "get_all 0 h q = Inr ([], q)"
| "get_all (Suc k) h q = bind_res (get h q) (\<lambda>(n, q1).
     bind_res (get_all k h q1) (\<lambda>(ns, q2). Inr (n # ns, q2)))"

lemma put_all_holds:
  "holds h q ms \<Longrightarrow> distinct (ns @ ms) \<Longrightarrow> (\<forall>n \<in> set ns. allocated h n)
    \<Longrightarrow> \<exists>h' q'. put_all ns (h, q) = Inr (h', q') \<and> holds h' q' (rev ns @ ms)"
proof (induction ns arbitrary: h q ms)
  case Nil
  then show ?case by simp
next
  case (Cons n ns)
  obtain h1 q1 where 1: "put h q n = Inr (h1, q1)" "holds h1 q1 (n # ms)" "\<forall>a. allocated h1 a = allocated h a"
    using put_law [OF Cons.prems(1), of n] Cons.prems by auto
  have "\<exists>h' q'. put_all ns (h1, q1) = Inr (h', q') \<and> holds h' q' (rev ns @ n # ms)"
    by (rule Cons.IH [OF 1(2)]) (use Cons.prems 1(3) in auto)
  with 1(1) show ?case by simp
qed

lemma get_all_holds:
  "holds h q ns \<Longrightarrow> \<exists>q'. get_all (length ns) h q = Inr (map Some ns, q') \<and> holds h q' []"
proof (induction ns arbitrary: q)
  case Nil
  then show ?case by simp
next
  case (Cons n ns)
  from get_law [OF Cons.prems] obtain q1 where "get h q = Inr (Some n, q1)" "holds h q1 ns" by blast
  with Cons.IH [of q1] show ?case by auto
qed

text \<open>Last in, first out.\<close>

lemma stack_lifo:
  assumes "holds h q []" and "distinct ns" and "\<forall>n \<in> set ns. allocated h n"
  shows "\<exists>h' q' q''. put_all ns (h, q) = Inr (h', q')
    \<and> get_all (length ns) h' q' = Inr (map Some (rev ns), q'') \<and> holds h' q'' []"
proof -
  have "distinct (ns @ [])" using assms(2) by simp
  from put_all_holds [OF assms(1) this assms(3)] obtain h' q' where
    "put_all ns (h, q) = Inr (h', q')" and h: "holds h' q' (rev ns)" by auto
  moreover from get_all_holds [OF h] obtain q'' where
    "get_all (length ns) h' q' = Inr (map Some (rev ns), q'')" "holds h' q'' []" by auto
  ultimately show ?thesis by blast
qed

end

interpretation workq: node_stack queue_put queue_get queue_holds "\<lambda>h a. h a \<noteq> None"
proof
  fix h :: "'a nodes" and q ns n
  assume q: "queue_holds h q ns" and "h n \<noteq> None" and n: "n \<notin> set ns"
  then obtain x where x: "h n = Some x" by blast
  from queue_put_holds [OF q x n] obtain q' where q':
    "queue_put h q n = Inr (h(n \<mapsto> x\<lparr>qn_next := nq_head q\<rparr>), q')"
    "queue_holds (h(n \<mapsto> x\<lparr>qn_next := nq_head q\<rparr>)) q' (n # ns)" by blast
  have "\<forall>a. ((h(n \<mapsto> x\<lparr>qn_next := nq_head q\<rparr>)) a \<noteq> None) = (h a \<noteq> None)" using x by simp
  with q' show "\<exists>h' q'. queue_put h q n = Inr (h', q') \<and> queue_holds h' q' (n # ns)
      \<and> (\<forall>a. (h' a \<noteq> None) = (h a \<noteq> None))" by blast
next
  fix h :: "'a nodes" and q n ns
  assume "queue_holds h q (n # ns)"
  then show "\<exists>q'. queue_get h q = Inr (Some n, q') \<and> queue_holds h q' ns" by (rule queue_get_holds)
next
  fix h :: "'a nodes" and q
  assume "queue_holds h q []"
  then show "queue_get h q = Inr (None, q)" by (rule queue_get_empty)
qed

end
