(* ===== verification/Workcrew.thy ===== *)
theory Workcrew
  imports WorkQueue
begin

text \<open>
  pthreads/workcrew/workcrew-log8.c: acceptors produce jobs into the accept queue \<open>aq\<close>,
  processors move them to the respond queue \<open>rq\<close>, responders answer and free them. A thread
  that stops puts its cleanup node into \<open>cq\<close>, where the thread that stops the server joins it.

  Every thread is a small machine: its location names the next line of its function, and a
  step runs to the next point where another thread can act (a mutex operation, a queue
  operation, a message). Worker \<open>t\<close> is the thread number \<open>Suc t\<close>; 0 is the thread that runs
  \<open>stop_server\<close>. A thread that cannot get a mutex stays where it is. A thread waiting for a
  condition may be woken at any time: this covers signals, broadcasts and spurious wake-ups,
  so that a signal itself changes nothing.

  Unlocking a mutex one does not own, and using a queue without its mutex, is undefined
  behaviour; the argument \<open>strict\<close> makes it a fault. Otherwise such an unlock releases the
  mutex whoever owns it, as the NPTL implementation does. Reading a freed node is always a fault.
\<close>

section \<open>State\<close>

datatype qid = AQ | RQ | CQ

record wqueue =
  wq_control :: data_control
  wq_work :: node_queue

record wnode = qnode +
  wn_job :: nat
  wn_responder :: nat
  wn_processor :: nat
  wn_acceptor :: nat

record cnode = qnode +
  cn_threadnum :: int
  cn_tid :: nat

datatype role = Responder | Acceptor | Processor

text \<open>
  \<open>Outer b\<close> to \<open>Exit b\<close>: the acceptor may get there without the mutex, after a failed
  \<open>malloc\<close>; \<open>b\<close> says whether it holds it.
\<close>

datatype crew_pc = Begin | Outer bool | Inner | Asleep | Relock | Test | Take | Leave bool
  | Pass | PassPut | PassLeave | Report | Again | Alloc bool | Put bool
  | Exit bool | ExitR | Stop | StopPut | StopLeave | StopSay | Ended

record crew_thread =
  th_role :: role
  th_pc :: crew_pc
  th_node :: "nat option"
  th_cnode :: nat

datatype logged = Produced nat nat | Processed nat nat nat | Responded nat nat nat

datatype ctl_pc = CtlRun | DeactA | DeactR | DeactC | JoinStart | JoinLoop | JoinTest | JoinAsleep
  | JoinRelock | JoinTake | JoinLeave | JoinThread | JoinFree | JoinReturn | Cleanup | CtlEnd

record wc =
  wc_queues :: "qid \<Rightarrow> wqueue"
  wc_wnodes :: "nat \<Rightarrow> wnode option"
  wc_cnodes :: "nat \<Rightarrow> cnode option"
  wc_brk :: nat
  wc_numconnects :: nat
  wc_numthreads :: int
  wc_threads :: "crew_thread list"
  wc_log :: "logged list"
  wc_ctl :: ctl_pc
  wc_cur :: "nat option"
  wc_ret :: int
  wc_abort :: bool

abbreviation wc_control :: "wc \<Rightarrow> qid \<Rightarrow> data_control" where
  "wc_control s q \<equiv> wq_control (wc_queues s q)"

abbreviation wc_work :: "wc \<Rightarrow> qid \<Rightarrow> node_queue" where
  "wc_work s q \<equiv> wq_work (wc_queues s q)"

abbreviation wc_active :: "wc \<Rightarrow> qid \<Rightarrow> bool" where
  "wc_active s q \<equiv> dc_active (wc_control s q)"

abbreviation wc_owner :: "wc \<Rightarrow> qid \<Rightarrow> nat option" where
  "wc_owner s q \<equiv> dc_mutex (wc_control s q)"

definition set_control :: "qid \<Rightarrow> data_control \<Rightarrow> wc \<Rightarrow> wc" where
  "set_control q c s = s\<lparr>wc_queues := (wc_queues s)(q := (wc_queues s q)\<lparr>wq_control := c\<rparr>)\<rparr>"

definition set_work :: "qid \<Rightarrow> node_queue \<Rightarrow> wc \<Rightarrow> wc" where
  "set_work q w s = s\<lparr>wc_queues := (wc_queues s)(q := (wc_queues s q)\<lparr>wq_work := w\<rparr>)\<rparr>"

definition set_owner :: "qid \<Rightarrow> nat option \<Rightarrow> wc \<Rightarrow> wc" where
  "set_owner q p s = set_control q ((wc_control s q)\<lparr>dc_mutex := p\<rparr>) s"

definition goto :: "nat \<Rightarrow> crew_pc \<Rightarrow> wc \<Rightarrow> wc" where
  "goto t p s = s\<lparr>wc_threads := (wc_threads s)[t := (wc_threads s ! t)\<lparr>th_pc := p\<rparr>]\<rparr>"

definition set_node :: "nat \<Rightarrow> nat option \<Rightarrow> wc \<Rightarrow> wc" where
  "set_node t p s = s\<lparr>wc_threads := (wc_threads s)[t := (wc_threads s ! t)\<lparr>th_node := p\<rparr>]\<rparr>"

section \<open>Mutexes and shared queues\<close>

definition lock :: "qid \<Rightarrow> nat \<Rightarrow> crew_pc \<Rightarrow> wc \<Rightarrow> wc res" where
  "lock q t p s = (if wc_owner s q = None then Inr (goto t p (set_owner q (Some (Suc t)) s)) else Inr s)"

definition unlock :: "bool \<Rightarrow> qid \<Rightarrow> nat \<Rightarrow> crew_pc \<Rightarrow> wc \<Rightarrow> wc res" where
  "unlock strict q t p s =
     (if strict \<and> wc_owner s q \<noteq> Some (Suc t) then Inl (Panic ''unlock'')
      else Inr (goto t p (set_owner q None s)))"

definition put_work :: "bool \<Rightarrow> qid \<Rightarrow> nat \<Rightarrow> nat option \<Rightarrow> wc \<Rightarrow> wc res" where
  "put_work strict q t p s =
     (if strict \<and> wc_owner s q \<noteq> Some (Suc t) then Inl (Panic ''race'')
      else bind_res (deref p) (\<lambda>a. bind_res (queue_put (wc_wnodes s) (wc_work s q) a) (\<lambda>(h, w).
        Inr (set_work q w (s\<lparr>wc_wnodes := h\<rparr>)))))"

definition get_work :: "bool \<Rightarrow> qid \<Rightarrow> nat \<Rightarrow> wc \<Rightarrow> (nat option \<times> wc) res" where
  "get_work strict q t s =
     (if strict \<and> wc_owner s q \<noteq> Some (Suc t) then Inl (Panic ''race'')
      else bind_res (queue_get (wc_wnodes s) (wc_work s q)) (\<lambda>(p, w). Inr (p, set_work q w s)))"

definition rd_work :: "nat option \<Rightarrow> wc \<Rightarrow> wnode res" where
  "rd_work p s = bind_res (deref p) (\<lambda>a. case wc_wnodes s a of None \<Rightarrow> Inl BadPointer | Some n \<Rightarrow> Inr n)"

definition wr_work :: "nat option \<Rightarrow> (wnode \<Rightarrow> wnode) \<Rightarrow> wc \<Rightarrow> wc res" where
  "wr_work p f s = bind_res (deref p) (\<lambda>a. bind_res (rd_work p s) (\<lambda>n.
     Inr (s\<lparr>wc_wnodes := (wc_wnodes s)(a \<mapsto> f n)\<rparr>)))"

definition free_work :: "nat option \<Rightarrow> wc \<Rightarrow> wc res" where
  "free_work p s = bind_res (deref p) (\<lambda>a. Inr (s\<lparr>wc_wnodes := (wc_wnodes s)(a := None)\<rparr>))"

definition send_log :: "logged \<Rightarrow> wc \<Rightarrow> wc" where
  "send_log m s = s\<lparr>wc_log := wc_log s @ [m]\<rparr>"

text \<open>The waiting loop and the test after it, the same lines in \<open>responder\<close> and \<open>processor\<close>.\<close>

definition await :: "bool \<Rightarrow> qid \<Rightarrow> nat \<Rightarrow> wc \<Rightarrow> wc res" where
  "await strict q t s =
     (if nq_head (wc_work s q) = None \<and> wc_active s q then unlock strict q t Asleep s
      else Inr (goto t Test s))"

definition still_active :: "qid \<Rightarrow> nat \<Rightarrow> wc \<Rightarrow> wc" where
  "still_active q t s = goto t (if wc_active s q then Take else Exit True) s"

section \<open>The threads\<close>

definition stop_thread :: "bool \<Rightarrow> nat \<Rightarrow> wc \<Rightarrow> wc res" where
  "stop_thread strict t s = (let c = th_cnode (wc_threads s ! t) in case th_pc (wc_threads s ! t) of
     Stop \<Rightarrow> lock CQ t StopPut s
   | StopPut \<Rightarrow> (if strict \<and> wc_owner s CQ \<noteq> Some (Suc t) then Inl (Panic ''race'')
       else bind_res (queue_put (wc_cnodes s) (wc_work s CQ) c) (\<lambda>(h, w).
         Inr (goto t StopLeave (set_work CQ w (s\<lparr>wc_cnodes := h\<rparr>)))))
   | StopLeave \<Rightarrow> unlock strict CQ t StopSay s
   | StopSay \<Rightarrow> (case wc_cnodes s c of None \<Rightarrow> Inl BadPointer | Some n \<Rightarrow> Inr (goto t Ended s))
   | _ \<Rightarrow> Inr s)"

definition responder :: "bool \<Rightarrow> nat \<Rightarrow> wc \<Rightarrow> wc res" where
  "responder strict t s = (let p = th_node (wc_threads s ! t) in case th_pc (wc_threads s ! t) of
     Begin \<Rightarrow> lock RQ t (Outer True) s
   | Outer _ \<Rightarrow> Inr (goto t (if wc_active s RQ then Inner else Exit True) s)
   | Inner \<Rightarrow> await strict RQ t s
   | Relock \<Rightarrow> lock RQ t Inner s
   | Test \<Rightarrow> Inr (still_active RQ t s)
   | Take \<Rightarrow> bind_res (get_work strict RQ t s) (\<lambda>(p, s1).
       bind_res (wr_work p (\<lambda>n. n\<lparr>wn_responder := Suc t\<rparr>) s1) (\<lambda>s2.
         Inr (goto t (Leave True) (set_node t p s2))))
   | Leave _ \<Rightarrow> unlock strict RQ t Report s
   | Report \<Rightarrow> bind_res (rd_work p s) (\<lambda>n.
       bind_res (free_work p (send_log (Responded (wn_responder n) (wn_job n) (wn_processor n)) s))
         (\<lambda>s1. Inr (goto t Again s1)))
   | Again \<Rightarrow> lock RQ t (Outer True) s
   | Exit _ \<Rightarrow> unlock strict RQ t Stop s
   | _ \<Rightarrow> stop_thread strict t s)"

definition processor :: "bool \<Rightarrow> nat \<Rightarrow> wc \<Rightarrow> wc res" where
  "processor strict t s = (let p = th_node (wc_threads s ! t) in case th_pc (wc_threads s ! t) of
     Begin \<Rightarrow> lock AQ t (Outer True) s
   | Outer _ \<Rightarrow> Inr (goto t (if wc_active s RQ then Inner else Exit True) s)
   | Inner \<Rightarrow> await strict AQ t s
   | Relock \<Rightarrow> lock AQ t Inner s
   | Test \<Rightarrow> Inr (still_active AQ t s)
   | Take \<Rightarrow> bind_res (get_work strict AQ t s) (\<lambda>(p, s1).
       bind_res (wr_work p (\<lambda>n. n\<lparr>wn_processor := Suc t\<rparr>) s1) (\<lambda>s2.
         Inr (goto t (Leave True) (set_node t p s2))))
   | Leave _ \<Rightarrow> unlock strict AQ t Pass s
   | Pass \<Rightarrow> lock RQ t PassPut s
   | PassPut \<Rightarrow> bind_res (put_work strict RQ t p s) (\<lambda>s1. Inr (goto t PassLeave s1))
   | PassLeave \<Rightarrow> unlock strict RQ t Report s
   | Report \<Rightarrow> bind_res (rd_work p s) (\<lambda>n.
       Inr (goto t Again (send_log (Processed (wn_processor n) (wn_job n) (wn_acceptor n)) s)))
   | Again \<Rightarrow> lock AQ t (Outer True) s
   | Exit _ \<Rightarrow> unlock strict AQ t ExitR s
   | ExitR \<Rightarrow> unlock strict RQ t Stop s
   | _ \<Rightarrow> stop_thread strict t s)"

text \<open>A fresh node; its link field holds what \<open>malloc\<close> left there, here NULL.\<close>

definition new_work :: "nat \<Rightarrow> wc \<Rightarrow> wc" where
  "new_work t s = set_node t (Some (wc_brk s)) (s\<lparr>wc_wnodes := (wc_wnodes s)(wc_brk s \<mapsto>
       \<lparr>qn_next = None, wn_job = wc_numconnects s, wn_responder = 0, wn_processor = 0, wn_acceptor = Suc t\<rparr>),
     wc_brk := Suc (wc_brk s), wc_numconnects := Suc (wc_numconnects s)\<rparr>)"

definition acceptor :: "bool \<Rightarrow> bool \<Rightarrow> nat \<Rightarrow> wc \<Rightarrow> wc res" where
  "acceptor strict mem t s = (let p = th_node (wc_threads s ! t) in case th_pc (wc_threads s ! t) of
     Begin \<Rightarrow> lock AQ t (Outer True) s
   | Outer b \<Rightarrow> Inr (goto t (if wc_active s AQ then Alloc b else Exit b) s)
   | Alloc b \<Rightarrow> if mem then Inr (goto t (Put b) (new_work t s)) else unlock strict AQ t (Outer False) s
   | Put b \<Rightarrow> bind_res (put_work strict AQ t p s) (\<lambda>s1. Inr (goto t (Leave b) s1))
   | Leave b \<Rightarrow> unlock strict AQ t Report s
   | Report \<Rightarrow> bind_res (rd_work p s) (\<lambda>n.
       Inr (goto t Again (send_log (Produced (wn_acceptor n) (wn_job n)) s)))
   | Again \<Rightarrow> lock AQ t (Outer True) s
   | Exit b \<Rightarrow> unlock strict AQ t Stop s
   | _ \<Rightarrow> stop_thread strict t s)"

definition crew_step :: "bool \<Rightarrow> bool \<Rightarrow> nat \<Rightarrow> wc \<Rightarrow> wc res" where
  "crew_step strict mem t s = (if length (wc_threads s) \<le> t then Inr s
     else case th_role (wc_threads s ! t) of
       Responder \<Rightarrow> responder strict t s
     | Acceptor \<Rightarrow> acceptor strict mem t s
     | Processor \<Rightarrow> processor strict t s)"

definition wake :: "nat \<Rightarrow> wc \<Rightarrow> wc" where
  "wake t s = (if t < length (wc_threads s) \<and> th_pc (wc_threads s ! t) = Asleep then goto t Relock s else s)"

section \<open>Stopping the server\<close>

definition deactivate :: "qid \<Rightarrow> ctl_pc \<Rightarrow> wc \<Rightarrow> wc" where
  "deactivate q p s = (case control_deactivate (wc_control s q) of
     None \<Rightarrow> s | Some c \<Rightarrow> (set_control q c s)\<lparr>wc_ctl := p\<rparr>)"

definition join_threads :: "bool \<Rightarrow> wc \<Rightarrow> wc res" where
  "join_threads strict s = (case wc_ctl s of
     JoinStart \<Rightarrow> Inr (s\<lparr>wc_ret := wc_numthreads s, wc_numthreads := wc_numthreads s - 1, wc_ctl := JoinLoop\<rparr>)
   | JoinLoop \<Rightarrow> Inr (if wc_numthreads s + 2 = 0 then s\<lparr>wc_ctl := JoinReturn\<rparr>
       else if wc_owner s CQ = None then (set_owner CQ (Some 0) s)\<lparr>wc_ctl := JoinTest\<rparr> else s)
   | JoinTest \<Rightarrow> Inr (if nq_head (wc_work s CQ) = None then (set_owner CQ None s)\<lparr>wc_ctl := JoinAsleep\<rparr>
       else s\<lparr>wc_ctl := JoinTake\<rparr>)
   | JoinRelock \<Rightarrow> Inr (if wc_owner s CQ = None then (set_owner CQ (Some 0) s)\<lparr>wc_ctl := JoinTest\<rparr> else s)
   | JoinTake \<Rightarrow> bind_res (queue_get (wc_cnodes s) (wc_work s CQ)) (\<lambda>(p, w).
       Inr ((set_work CQ w s)\<lparr>wc_cur := p, wc_ctl := JoinLeave\<rparr>))
   | JoinLeave \<Rightarrow> (if strict \<and> wc_owner s CQ \<noteq> Some 0 then Inl (Panic ''unlock'')
       else Inr ((set_owner CQ None s)\<lparr>wc_ctl := JoinThread\<rparr>))
   | JoinThread \<Rightarrow> bind_res (deref (wc_cur s)) (\<lambda>a. case wc_cnodes s a of None \<Rightarrow> Inl BadPointer
       | Some n \<Rightarrow> Inr (if th_pc (wc_threads s ! cn_tid n) = Ended
           then s\<lparr>wc_cnodes := (wc_cnodes s)(a \<mapsto> n\<lparr>qn_next := None\<rparr>), wc_ctl := JoinFree\<rparr> else s))
   | JoinFree \<Rightarrow> bind_res (deref (wc_cur s)) (\<lambda>a. case wc_cnodes s a of None \<Rightarrow> Inl BadPointer
       | Some n \<Rightarrow> Inr (s\<lparr>wc_cnodes := (wc_cnodes s)(a := None), wc_numthreads := wc_numthreads s - 1,
           wc_ctl := JoinLoop\<rparr>))
   | _ \<Rightarrow> Inr s)"

definition cleanup_structs :: "wc \<Rightarrow> wc" where
  "cleanup_structs s = fold (\<lambda>q s. set_control q (snd (control_destroy (wc_control s q))) s) [AQ, RQ, CQ] s"

definition stop_server :: "bool \<Rightarrow> wc \<Rightarrow> wc res" where
  "stop_server strict s = (case wc_ctl s of
     CtlRun \<Rightarrow> Inr (s\<lparr>wc_ctl := DeactA\<rparr>)
   | DeactA \<Rightarrow> Inr (deactivate AQ DeactR s)
   | DeactR \<Rightarrow> Inr (deactivate RQ DeactC s)
   | DeactC \<Rightarrow> Inr (deactivate CQ JoinStart s)
   | JoinReturn \<Rightarrow> if wc_abort s then Inl (Panic ''dabort'') else Inr (s\<lparr>wc_ctl := Cleanup\<rparr>)
   | Cleanup \<Rightarrow> Inr ((cleanup_structs s)\<lparr>wc_ctl := CtlEnd\<rparr>)
   | _ \<Rightarrow> join_threads strict s)"

definition wake_ctl :: "wc \<Rightarrow> wc" where
  "wake_ctl s = (if wc_ctl s = JoinAsleep then s\<lparr>wc_ctl := JoinRelock\<rparr> else s)"

section \<open>Starting it\<close>

text \<open>The results of the calls that may fail are arguments.\<close>

definition initialize_structs :: "(qid \<Rightarrow> bool \<times> bool) \<Rightarrow> wc \<Rightarrow> wc res" where
  "initialize_structs ok s =
     bind_res (for_each [AQ, RQ, CQ] (\<lambda>q s.
       case control_init (fst (ok q)) (snd (ok q)) (wc_control s q) of (failed, c) \<Rightarrow>
         if failed then Inl (Panic ''dabort'')
         else Inr (set_work q (queue_init (wc_work s q)) (set_control q c s)))
       (s\<lparr>wc_numthreads := 0, wc_numconnects := 0\<rparr>))
     (for_each [RQ, AQ, CQ] (\<lambda>q s. case control_activate (wc_control s q) of
         None \<Rightarrow> Inr s | Some c \<Rightarrow> Inr (set_control q c s)))"

text \<open>
  One turn of the loops of \<open>create_threads\<close>: whether it makes the function return 1, and the
  state. The three answers are those of \<open>malloc\<close>, \<open>pthread_create\<close> and the second \<open>malloc\<close>.
\<close>

definition create_thread :: "bool \<times> bool \<times> bool \<Rightarrow> role \<Rightarrow> wc \<Rightarrow> bool \<times> wc" where
  "create_thread ok r s =
     (if \<not> fst ok then (True, s) else
      let a = wc_brk s; t = length (wc_threads s);
          s1 = s\<lparr>wc_brk := Suc a, wc_cnodes := (wc_cnodes s)(a \<mapsto>
                   \<lparr>qn_next = None, cn_threadnum = wc_numthreads s, cn_tid = t\<rparr>)\<rparr> in
      if \<not> fst (snd ok) then (True, s1) else
      let s2 = s1\<lparr>wc_threads := wc_threads s1 @
                   [\<lparr>th_role = r, th_pc = Begin, th_node = None, th_cnode = a\<rparr>]\<rparr> in
      if \<not> snd (snd ok) then (True, s2) else (False, s2\<lparr>wc_numthreads := wc_numthreads s2 + 1\<rparr>))"

primrec create_loop :: "((bool \<times> bool \<times> bool) \<times> role) list \<Rightarrow> wc \<Rightarrow> bool \<times> wc" where
  "create_loop [] s = (False, s)"
| "create_loop (x # xs) s = (case create_thread (fst x) (snd x) s of (failed, s1) \<Rightarrow>
     if failed then (True, s1) else create_loop xs s1)"

definition NUM_RESPONDER :: nat where "NUM_RESPONDER = 4"
definition NUM_PRODUCER :: nat where "NUM_PRODUCER = 4"
definition NUM_CONSUMER :: nat where "NUM_CONSUMER = 4"

definition crew_roles :: "role list" where
  "crew_roles = replicate NUM_RESPONDER Responder @ replicate NUM_PRODUCER Acceptor
     @ replicate NUM_CONSUMER Processor"

definition create_threads :: "(nat \<Rightarrow> bool \<times> bool \<times> bool) \<Rightarrow> wc \<Rightarrow> bool \<times> wc" where
  "create_threads ok s = create_loop (zip (map ok [0..<length crew_roles]) crew_roles) s"

definition start_server :: "(qid \<Rightarrow> bool \<times> bool) \<Rightarrow> (nat \<Rightarrow> bool \<times> bool \<times> bool) \<Rightarrow> wc \<Rightarrow> wc res" where
  "start_server init_ok create_ok s = bind_res (initialize_structs init_ok s) (\<lambda>s1.
     case create_threads create_ok s1 of (failed, s2) \<Rightarrow>
       Inr (s2\<lparr>wc_ctl := (if failed then JoinStart else CtlRun), wc_abort := failed\<rparr>))"

section \<open>Runs\<close>

text \<open>A schedule says which thread moves; \<open>NoMem\<close> is a move in which \<open>malloc\<close> fails.\<close>

datatype move = Run nat | NoMem nat | Wake nat | Ctl | WakeCtl

definition crew_move :: "bool \<Rightarrow> move \<Rightarrow> wc \<Rightarrow> wc res" where
  "crew_move strict m s = (case m of
     Run t \<Rightarrow> crew_step strict True t s
   | NoMem t \<Rightarrow> crew_step strict False t s
   | Wake t \<Rightarrow> Inr (wake t s)
   | Ctl \<Rightarrow> stop_server strict s
   | WakeCtl \<Rightarrow> Inr (wake_ctl s))"

definition crew_run :: "bool \<Rightarrow> move list \<Rightarrow> wc \<Rightarrow> wc res" where
  "crew_run strict ms s = for_each ms (crew_move strict) s"

definition crew_blank :: wc where
  "crew_blank = \<lparr>wc_queues = (\<lambda>_. \<lparr>wq_control = \<lparr>dc_mutex = None, dc_active = False\<rparr>,
       wq_work = \<lparr>nq_head = None, nq_tail = None\<rparr>\<rparr>),
     wc_wnodes = (\<lambda>_. None), wc_cnodes = (\<lambda>_. None), wc_brk = 0, wc_numconnects = 0,
     wc_numthreads = 2, wc_threads = [], wc_log = [], wc_ctl = CtlEnd, wc_cur = None, wc_ret = 0,
     wc_abort = False\<rparr>"

end
