(* ===== verification/WorkcrewInv.thy ===== *)
theory WorkcrewInv
  imports Workcrew
begin

text \<open>
  The invariant of the work crew: each mutex is held exactly by the thread whose location is
  between its lock and its unlock; every work node is in one of the two queues or in the hands
  of one thread; a cleanup node is freed once, after its thread has ended, and
  \<open>numthreads\<close> counts those still to be joined.
\<close>

section \<open>Reading the state after an update\<close>

lemma goto_fields [simp]:
  "wc_queues (goto t p s) = wc_queues s" "wc_wnodes (goto t p s) = wc_wnodes s"
  "wc_cnodes (goto t p s) = wc_cnodes s" "wc_brk (goto t p s) = wc_brk s"
  "wc_numconnects (goto t p s) = wc_numconnects s" "wc_numthreads (goto t p s) = wc_numthreads s"
  "wc_log (goto t p s) = wc_log s" "wc_ctl (goto t p s) = wc_ctl s" "wc_cur (goto t p s) = wc_cur s"
  "wc_abort (goto t p s) = wc_abort s"
  "wc_threads (goto t p s) = (wc_threads s)[t := (wc_threads s ! t)\<lparr>th_pc := p\<rparr>]"
  by (simp_all add: goto_def)

lemma set_node_fields [simp]:
  "wc_queues (set_node t p s) = wc_queues s" "wc_wnodes (set_node t p s) = wc_wnodes s"
  "wc_cnodes (set_node t p s) = wc_cnodes s" "wc_brk (set_node t p s) = wc_brk s"
  "wc_numconnects (set_node t p s) = wc_numconnects s" "wc_numthreads (set_node t p s) = wc_numthreads s"
  "wc_log (set_node t p s) = wc_log s" "wc_ctl (set_node t p s) = wc_ctl s" "wc_cur (set_node t p s) = wc_cur s"
  "wc_abort (set_node t p s) = wc_abort s"
  "wc_threads (set_node t p s) = (wc_threads s)[t := (wc_threads s ! t)\<lparr>th_node := p\<rparr>]"
  by (simp_all add: set_node_def)

lemma set_owner_fields [simp]:
  "wc_owner (set_owner q p s) q' = (if q' = q then p else wc_owner s q')"
  "wc_active (set_owner q p s) q' = wc_active s q'" "wc_work (set_owner q p s) q' = wc_work s q'"
  "wc_wnodes (set_owner q p s) = wc_wnodes s"
  "wc_cnodes (set_owner q p s) = wc_cnodes s" "wc_brk (set_owner q p s) = wc_brk s"
  "wc_numconnects (set_owner q p s) = wc_numconnects s" "wc_numthreads (set_owner q p s) = wc_numthreads s"
  "wc_log (set_owner q p s) = wc_log s" "wc_ctl (set_owner q p s) = wc_ctl s" "wc_cur (set_owner q p s) = wc_cur s"
  "wc_abort (set_owner q p s) = wc_abort s" "wc_threads (set_owner q p s) = wc_threads s"
  by (simp_all add: set_owner_def set_control_def)

lemma set_work_fields [simp]:
  "wc_work (set_work q w s) q' = (if q' = q then w else wc_work s q')"
  "wc_control (set_work q w s) q' = wc_control s q'"
  "wc_wnodes (set_work q w s) = wc_wnodes s"
  "wc_cnodes (set_work q w s) = wc_cnodes s" "wc_brk (set_work q w s) = wc_brk s"
  "wc_numconnects (set_work q w s) = wc_numconnects s" "wc_numthreads (set_work q w s) = wc_numthreads s"
  "wc_log (set_work q w s) = wc_log s" "wc_ctl (set_work q w s) = wc_ctl s" "wc_cur (set_work q w s) = wc_cur s"
  "wc_abort (set_work q w s) = wc_abort s" "wc_threads (set_work q w s) = wc_threads s"
  by (simp_all add: set_work_def)

lemma set_control_fields [simp]:
  "wc_control (set_control q c s) q' = (if q' = q then c else wc_control s q')"
  "wc_work (set_control q c s) q' = wc_work s q'"
  "wc_wnodes (set_control q c s) = wc_wnodes s"
  "wc_cnodes (set_control q c s) = wc_cnodes s" "wc_brk (set_control q c s) = wc_brk s"
  "wc_numconnects (set_control q c s) = wc_numconnects s" "wc_numthreads (set_control q c s) = wc_numthreads s"
  "wc_log (set_control q c s) = wc_log s" "wc_ctl (set_control q c s) = wc_ctl s" "wc_cur (set_control q c s) = wc_cur s"
  "wc_abort (set_control q c s) = wc_abort s" "wc_threads (set_control q c s) = wc_threads s"
  by (simp_all add: set_control_def)

lemma send_log_fields [simp]:
  "wc_queues (send_log m s) = wc_queues s" "wc_wnodes (send_log m s) = wc_wnodes s"
  "wc_cnodes (send_log m s) = wc_cnodes s" "wc_brk (send_log m s) = wc_brk s"
  "wc_numconnects (send_log m s) = wc_numconnects s" "wc_numthreads (send_log m s) = wc_numthreads s"
  "wc_ctl (send_log m s) = wc_ctl s" "wc_cur (send_log m s) = wc_cur s"
  "wc_abort (send_log m s) = wc_abort s" "wc_threads (send_log m s) = wc_threads s"
  by (simp_all add: send_log_def)

lemma new_work_fields [simp]:
  "wc_queues (new_work t s) = wc_queues s" "wc_cnodes (new_work t s) = wc_cnodes s"
  "wc_brk (new_work t s) = Suc (wc_brk s)" "wc_numconnects (new_work t s) = Suc (wc_numconnects s)"
  "wc_numthreads (new_work t s) = wc_numthreads s" "wc_log (new_work t s) = wc_log s"
  "wc_ctl (new_work t s) = wc_ctl s" "wc_cur (new_work t s) = wc_cur s" "wc_abort (new_work t s) = wc_abort s"
  "wc_threads (new_work t s) = (wc_threads s)[t := (wc_threads s ! t)\<lparr>th_node := Some (wc_brk s)\<rparr>]"
  by (simp_all add: new_work_def)

lemma sum_list_map_update:
  fixes f :: "'a \<Rightarrow> 'b::comm_monoid_add"
  shows "i < length xs \<Longrightarrow> sum_list (map f (xs[i := y])) + f (xs ! i) = sum_list (map f xs) + f y"
proof (induction xs arbitrary: i)
  case Nil
  then show ?case by simp
next
  case (Cons x xs)
  then show ?case by (cases i) (auto simp: ac_simps)
qed

section \<open>Locations\<close>

definition home :: "role \<Rightarrow> qid" where
  "home r = (if r = Responder then RQ else AQ)"

text \<open>The mutex a thread holds, and whether it has a work node to itself.\<close>

definition held :: "role \<Rightarrow> crew_pc \<Rightarrow> qid option" where
  "held r p = (case p of
     Outer b \<Rightarrow> if b \<or> r \<noteq> Acceptor then Some (home r) else None
   | Inner \<Rightarrow> Some (home r) | Test \<Rightarrow> Some (home r) | Take \<Rightarrow> Some (home r)
   | Leave b \<Rightarrow> if b \<or> r \<noteq> Acceptor then Some (home r) else None
   | PassPut \<Rightarrow> Some RQ | PassLeave \<Rightarrow> Some RQ
   | Alloc b \<Rightarrow> if b then Some (home r) else None
   | Put b \<Rightarrow> if b then Some (home r) else None
   | Exit b \<Rightarrow> if b \<or> r \<noteq> Acceptor then Some (home r) else None
   | StopPut \<Rightarrow> Some CQ | StopLeave \<Rightarrow> Some CQ
   | _ \<Rightarrow> None)"

definition in_hand :: "role \<Rightarrow> crew_pc \<Rightarrow> bool" where
  "in_hand r p = (case p of Put _ \<Rightarrow> True | Leave _ \<Rightarrow> r \<noteq> Acceptor | Pass \<Rightarrow> True | PassPut \<Rightarrow> True
     | Report \<Rightarrow> r = Responder | _ \<Rightarrow> False)"

definition has_put :: "crew_pc \<Rightarrow> bool" where
  "has_put p = (case p of StopLeave \<Rightarrow> True | StopSay \<Rightarrow> True | Ended \<Rightarrow> True | _ \<Rightarrow> False)"

text \<open>After its \<open>queue_put\<close> a thread still reads the node it gave away.\<close>

definition has_node :: "role \<Rightarrow> crew_pc \<Rightarrow> bool" where
  "has_node r p = (in_hand r p \<or> (case p of Leave _ \<Rightarrow> True | PassLeave \<Rightarrow> True | Report \<Rightarrow> True | _ \<Rightarrow> False))"

abbreviation th_held :: "crew_thread \<Rightarrow> qid option" where
  "th_held th \<equiv> held (th_role th) (th_pc th)"

definition owned :: "crew_thread \<Rightarrow> nat multiset" where
  "owned th = (if in_hand (th_role th) (th_pc th) then {#the (th_node th)#} else {#})"

definition hands :: "wc \<Rightarrow> nat multiset" where
  "hands s = sum_list (map owned (wc_threads s))"

lemma hands_update:
  "t < length (wc_threads s) \<Longrightarrow> wc_threads s' = (wc_threads s)[t := x]
    \<Longrightarrow> hands s' + owned (wc_threads s ! t) = hands s + owned x"
  by (simp add: hands_def sum_list_map_update)

lemma hands_same:
  "t < length (wc_threads s) \<Longrightarrow> wc_threads s' = (wc_threads s)[t := x]
    \<Longrightarrow> owned x = owned (wc_threads s ! t) \<Longrightarrow> hands s' = hands s"
  using hands_update [of t s s' x] by simp

section \<open>The invariant\<close>

text \<open>Owners of mutexes against what each thread thinks it holds.\<close>

definition own_ok :: "('q \<Rightarrow> nat option) \<Rightarrow> (nat \<Rightarrow> 'q option) \<Rightarrow> bool" where
  "own_ok own h \<longleftrightarrow> (\<forall>q i. own q = Some i \<longleftrightarrow> h i = Some q)"

lemma own_okD: "own_ok own h \<Longrightarrow> h i = Some q \<Longrightarrow> own q = Some i"
  and own_okE: "own_ok own h \<Longrightarrow> own q = Some i \<Longrightarrow> h i = Some q"
  by (simp_all add: own_ok_def)

lemma own_okI:
  "(\<And>q i. own q = Some i \<Longrightarrow> h i = Some q) \<Longrightarrow> (\<And>q i. h i = Some q \<Longrightarrow> own q = Some i) \<Longrightarrow> own_ok own h"
  unfolding own_ok_def by blast

lemma own_ok_lock:
  assumes "own_ok own h" and "own q = None" and "h i = None"
  shows "own_ok (own(q \<mapsto> i)) (h(i \<mapsto> q))"
proof (rule own_okI)
  show "(h(i \<mapsto> q)) j = Some q'" if "(own(q \<mapsto> i)) q' = Some j" for q' j
    using that assms own_okE [OF assms(1), of q' j] by (auto split: if_splits)
  show "(own(q \<mapsto> i)) q' = Some j" if "(h(i \<mapsto> q)) j = Some q'" for q' j
    using that assms own_okD [OF assms(1), of j q'] by (auto split: if_splits)
qed

lemma own_ok_unlock:
  assumes "own_ok own h" and "own q = Some i"
  shows "own_ok (own(q := None)) (h(i := None))"
proof (rule own_okI)
  show "(h(i := None)) j = Some q'" if "(own(q := None)) q' = Some j" for q' j
    using that assms own_okE [OF assms(1), of q' j] own_okE [OF assms] by (auto split: if_splits)
  show "(own(q := None)) q' = Some j" if "(h(i := None)) j = Some q'" for q' j
    using that assms own_okD [OF assms(1), of j q'] by (auto split: if_splits)
qed

definition holds :: "wc \<Rightarrow> nat \<Rightarrow> qid option" where
  "holds s i = (case i of
     0 \<Rightarrow> if wc_ctl s \<in> {JoinTest, JoinTake, JoinLeave} then Some CQ else None
   | Suc t \<Rightarrow> if t < length (wc_threads s) then th_held (wc_threads s ! t) else None)"

lemma holds_simps [simp]:
  "holds s 0 = (if wc_ctl s \<in> {JoinTest, JoinTake, JoinLeave} then Some CQ else None)"
  "holds s (Suc t) = (if t < length (wc_threads s) then th_held (wc_threads s ! t) else None)"
  by (simp_all add: holds_def)

lemma holds_update:
  assumes "t < length (wc_threads s)" and "wc_threads s' = (wc_threads s)[t := x]" and "wc_ctl s' = wc_ctl s"
  shows "holds s' = (holds s)(Suc t := th_held x)"
proof
  fix i
  show "holds s' i = ((holds s)(Suc t := th_held x)) i"
    using assms by (cases i) (auto simp: nth_upd)
qed

definition crew_mutex_ok :: "wc \<Rightarrow> bool" where
  "crew_mutex_ok s \<longleftrightarrow> own_ok (\<lambda>q. wc_owner s q) (holds s)"

lemma crew_mutex_ownerD:
  "crew_mutex_ok s \<Longrightarrow> t < length (wc_threads s)
    \<Longrightarrow> wc_owner s q = Some (Suc t) \<longleftrightarrow> th_held (wc_threads s ! t) = Some q"
  by (simp add: crew_mutex_ok_def own_ok_def)

fun answered :: "logged \<Rightarrow> nat list" where
  "answered (Responded r j p) = [j]"
| "answered _ = []"

definition responses :: "wc \<Rightarrow> nat list" where
  "responses s = concat (map answered (wc_log s))"

definition job_of :: "wc \<Rightarrow> nat \<Rightarrow> nat" where
  "job_of s a = (case wc_wnodes s a of None \<Rightarrow> 0 | Some n \<Rightarrow> wn_job n)"

definition jobs_ok :: "wc \<Rightarrow> bool" where
  "jobs_ok s \<longleftrightarrow> (\<forall>a \<in> dom (wc_wnodes s). a < wc_brk s)
     \<and> image_mset (job_of s) (mset_set (dom (wc_wnodes s))) + mset (responses s) = mset [0..<wc_numconnects s]"

definition nodes_ok :: "wc \<Rightarrow> nat list \<Rightarrow> nat list \<Rightarrow> bool" where
  "nodes_ok s as rs \<longleftrightarrow> queue_holds (wc_wnodes s) (wc_work s AQ) as
     \<and> queue_holds (wc_wnodes s) (wc_work s RQ) rs
     \<and> finite (dom (wc_wnodes s)) \<and> mset as + mset rs + hands s = mset_set (dom (wc_wnodes s))"

definition thread_ok :: "wc \<Rightarrow> crew_thread \<Rightarrow> bool" where
  "thread_ok s th \<longleftrightarrow>
     (has_node (th_role th) (th_pc th) \<longrightarrow> th_node th \<noteq> None)
   \<and> (th_pc th = Test \<longrightarrow> nq_head (wc_work s (home (th_role th))) \<noteq> None \<or> \<not> wc_active s (home (th_role th)))
   \<and> (th_pc th = Take \<longrightarrow> nq_head (wc_work s (home (th_role th))) \<noteq> None)"

definition threads_ok :: "wc \<Rightarrow> bool" where
  "threads_ok s \<longleftrightarrow> (\<forall>th \<in> set (wc_threads s). thread_ok s th)"

definition joining :: "wc \<Rightarrow> bool" where
  "joining s \<longleftrightarrow> wc_ctl s \<in> {JoinLeave, JoinThread, JoinFree}"

definition clean_ok :: "wc \<Rightarrow> nat list \<Rightarrow> bool" where
  "clean_ok s cs \<longleftrightarrow> queue_holds (wc_cnodes s) (wc_work s CQ) cs
     \<and> distinct (map th_cnode (wc_threads s))
     \<and> (\<forall>c \<in> set cs. \<exists>th \<in> set (wc_threads s). th_cnode th = c \<and> has_put (th_pc th))
     \<and> (\<forall>t < length (wc_threads s). th_pc (wc_threads s ! t) \<noteq> Ended
          \<longrightarrow> wc_cnodes s (th_cnode (wc_threads s ! t)) \<noteq> None)
     \<and> (\<forall>t < length (wc_threads s). \<forall>n. wc_cnodes s (th_cnode (wc_threads s ! t)) = Some n \<longrightarrow> cn_tid n = t)
     \<and> (joining s \<longrightarrow> (\<exists>t < length (wc_threads s). wc_cur s = Some (th_cnode (wc_threads s ! t))
          \<and> th_cnode (wc_threads s ! t) \<notin> set cs \<and> wc_cnodes s (th_cnode (wc_threads s ! t)) \<noteq> None
          \<and> has_put (th_pc (wc_threads s ! t))
          \<and> (wc_ctl s = JoinFree \<longrightarrow> th_pc (wc_threads s ! t) = Ended)))
     \<and> (wc_ctl s = JoinTake \<longrightarrow> cs \<noteq> [])"

text \<open>The threads already joined are those whose cleanup node has been freed.\<close>

definition joined :: "wc \<Rightarrow> nat" where
  "joined s = length (filter (\<lambda>th. wc_cnodes s (th_cnode th) = None) (wc_threads s))"

definition before_join :: "wc \<Rightarrow> bool" where
  "before_join s \<longleftrightarrow> wc_ctl s \<in> {CtlRun, DeactA, DeactR, DeactC, JoinStart}"

definition count_ok :: "wc \<Rightarrow> bool" where
  "count_ok s \<longleftrightarrow> wc_ctl s \<notin> {JoinReturn, Cleanup, CtlEnd}
     \<and> wc_numthreads s = (if before_join s then int (length (wc_threads s))
         else int (length (wc_threads s)) - 1 - int (joined s))
     \<and> (before_join s \<longrightarrow> joined s = 0) \<and> length (wc_threads s) = length crew_roles"

text \<open>What holds of every run, and what holds until a mutex or a queue is misused.\<close>

definition stop_inv :: "wc \<Rightarrow> bool" where
  "stop_inv s \<longleftrightarrow> (\<exists>cs. clean_ok s cs) \<and> count_ok s"

definition crew_inv :: "wc \<Rightarrow> bool" where
  "crew_inv s \<longleftrightarrow> crew_mutex_ok s \<and> (\<exists>as rs. nodes_ok s as rs) \<and> jobs_ok s \<and> threads_ok s"

section \<open>Steps that only move a thread\<close>

lemma crew_mutex_move:
  assumes "crew_mutex_ok s" and "t < length (wc_threads s)"
    and "wc_threads s' = (wc_threads s)[t := x]" and "th_held x = th_held (wc_threads s ! t)"
    and "\<And>q. wc_owner s' q = wc_owner s q" and "wc_ctl s' = wc_ctl s"
  shows "crew_mutex_ok s'"
proof -
  have "holds s' = holds s" using holds_update [OF assms(2,3,6)] assms(2,4) by (simp add: fun_eq_iff)
  with assms(1,5) show ?thesis by (simp add: crew_mutex_ok_def)
qed

lemma crew_mutex_lock:
  assumes "crew_mutex_ok s" and "t < length (wc_threads s)" and "wc_owner s q = None"
    and "wc_threads s' = (wc_threads s)[t := x]" and "th_held (wc_threads s ! t) = None" and "th_held x = Some q"
    and "\<And>q'. wc_owner s' q' = (if q' = q then Some (Suc t) else wc_owner s q')" and "wc_ctl s' = wc_ctl s"
  shows "crew_mutex_ok s'"
proof -
  have "own_ok ((\<lambda>q. wc_owner s q)(q \<mapsto> Suc t)) ((holds s)(Suc t \<mapsto> q))"
    by (rule own_ok_lock) (use assms in \<open>simp_all add: crew_mutex_ok_def\<close>)
  moreover have "(\<lambda>q'. wc_owner s' q') = (\<lambda>q. wc_owner s q)(q \<mapsto> Suc t)" using assms(7) by (simp add: fun_eq_iff)
  moreover have "holds s' = (holds s)(Suc t \<mapsto> q)" using holds_update [OF assms(2,4,8)] assms(6) by simp
  ultimately show ?thesis by (simp add: crew_mutex_ok_def)
qed

lemma crew_mutex_unlock:
  assumes "crew_mutex_ok s" and "t < length (wc_threads s)" and "wc_owner s q = Some (Suc t)"
    and "wc_threads s' = (wc_threads s)[t := x]" and "th_held x = None"
    and "\<And>q'. wc_owner s' q' = (if q' = q then None else wc_owner s q')" and "wc_ctl s' = wc_ctl s"
  shows "crew_mutex_ok s'"
proof -
  have "own_ok ((\<lambda>q. wc_owner s q)(q := None)) ((holds s)(Suc t := None))"
    by (rule own_ok_unlock) (use assms in \<open>simp_all add: crew_mutex_ok_def\<close>)
  moreover have "(\<lambda>q'. wc_owner s' q') = (\<lambda>q. wc_owner s q)(q := None)" using assms(6) by (simp add: fun_eq_iff)
  moreover have "holds s' = (holds s)(Suc t := None)" using holds_update [OF assms(2,4,7)] assms(5) by simp
  ultimately show ?thesis by (simp add: crew_mutex_ok_def)
qed

text \<open>The data part of a step that leaves nodes and queues alone.\<close>

lemma nodes_ok_frame:
  assumes "nodes_ok s as rs" and "wc_wnodes s' = wc_wnodes s" and "hands s' = hands s"
    and "wc_work s' AQ = wc_work s AQ" and "wc_work s' RQ = wc_work s RQ"
  shows "nodes_ok s' as rs"
  using assms by (simp add: nodes_ok_def)

lemma jobs_ok_frame:
  assumes "jobs_ok s" and "wc_wnodes s' = wc_wnodes s" and "wc_brk s' = wc_brk s"
    and "wc_numconnects s' = wc_numconnects s" and "responses s' = responses s"
  shows "jobs_ok s'"
proof -
  have "job_of s' = job_of s" using assms(2) by (simp add: job_of_def fun_eq_iff)
  with assms show ?thesis by (simp add: jobs_ok_def)
qed

lemma threads_ok_update:
  assumes "threads_ok s" and "wc_threads s' = (wc_threads s)[t := x]" and "thread_ok s' x"
    and "\<And>u. u < length (wc_threads s) \<Longrightarrow> u \<noteq> t \<Longrightarrow> thread_ok s (wc_threads s ! u) \<Longrightarrow> thread_ok s' (wc_threads s ! u)"
  shows "threads_ok s'"
  unfolding threads_ok_def
proof
  fix th
  assume "th \<in> set (wc_threads s')"
  then obtain u where u: "u < length (wc_threads s)" "th = (if u = t then x else wc_threads s ! u)"
    using assms(2) by (auto simp: in_set_conv_nth nth_upd)
  then show "thread_ok s' th"
    using assms(1,3) assms(4) [of u] by (auto simp: threads_ok_def)
qed

lemma crew_mutex_unique:
  assumes "crew_mutex_ok s" and "t < length (wc_threads s)" and "u < length (wc_threads s)"
    and "th_held (wc_threads s ! t) = Some q" and "th_held (wc_threads s ! u) = Some q"
  shows "t = u"
  using crew_mutex_ownerD [OF assms(1,2), of q] crew_mutex_ownerD [OF assms(1,3), of q] assms(4,5) by simp

lemma owned_pc: "in_hand (th_role th) p = in_hand (th_role th) (th_pc th) \<Longrightarrow> owned (th\<lparr>th_pc := p\<rparr>) = owned th"
  by (simp add: owned_def)

lemma thread_ok_cong:
  assumes "\<And>q. q \<noteq> CQ \<Longrightarrow> wc_work s' q = wc_work s q" and "\<And>q. q \<noteq> CQ \<Longrightarrow> wc_active s' q = wc_active s q"
  shows "thread_ok s' th = thread_ok s th"
proof -
  have "home r \<noteq> CQ" for r by (simp add: home_def)
  with assms show ?thesis by (simp add: thread_ok_def)
qed

lemma crew_inv_moved:
  assumes inv: "crew_inv s" and t: "t < length (wc_threads s)" and m: "crew_mutex_ok s'"
    and ths: "wc_threads s' = (wc_threads s)[t := (wc_threads s ! t)\<lparr>th_pc := p\<rparr>]"
    and hand: "in_hand (th_role (wc_threads s ! t)) p = in_hand (th_role (wc_threads s ! t)) (th_pc (wc_threads s ! t))"
    and ok: "thread_ok s ((wc_threads s ! t)\<lparr>th_pc := p\<rparr>)"
    and heap: "wc_wnodes s' = wc_wnodes s" "wc_brk s' = wc_brk s" "wc_numconnects s' = wc_numconnects s"
      "responses s' = responses s"
    and work: "\<And>q. q \<noteq> CQ \<Longrightarrow> wc_work s' q = wc_work s q" and act: "\<And>q. q \<noteq> CQ \<Longrightarrow> wc_active s' q = wc_active s q"
  shows "crew_inv s'"
proof -
  from inv obtain as rs where n: "nodes_ok s as rs" and j: "jobs_ok s" and th: "threads_ok s"
    unfolding crew_inv_def by blast
  have "hands s' = hands s" by (rule hands_same [OF t ths]) (rule owned_pc [OF hand])
  then have "nodes_ok s' as rs" by (rule nodes_ok_frame [OF n heap(1)]) (simp_all add: work)
  moreover have "jobs_ok s'" by (rule jobs_ok_frame [OF j heap])
  moreover have "threads_ok s'"
    by (rule threads_ok_update [OF th ths]) (use ok thread_ok_cong [of s' s] work act in simp_all)
  ultimately show ?thesis using m unfolding crew_inv_def by blast
qed

lemma inv_goto:
  assumes "crew_inv s" and "t < length (wc_threads s)" and "th = wc_threads s ! t"
    and "held (th_role th) p = held (th_role th) (th_pc th)"
    and "in_hand (th_role th) p = in_hand (th_role th) (th_pc th)"
    and "thread_ok s (th\<lparr>th_pc := p\<rparr>)"
  shows "crew_inv (goto t p s)"
proof (rule crew_inv_moved [OF assms(1,2)])
  show "crew_mutex_ok (goto t p s)"
    by (rule crew_mutex_move [OF _ assms(2), where x = "(wc_threads s ! t)\<lparr>th_pc := p\<rparr>"]) (use assms in \<open>simp_all add: crew_inv_def\<close>)
qed (use assms in \<open>simp_all add: responses_def\<close>)

lemma crew_inv_lock:
  assumes "crew_inv s" and "t < length (wc_threads s)" and "th = wc_threads s ! t"
    and "held (th_role th) (th_pc th) = None" and "held (th_role th) p = Some q"
    and "in_hand (th_role th) p = in_hand (th_role th) (th_pc th)"
    and "thread_ok s (th\<lparr>th_pc := p\<rparr>)"
  shows "\<exists>s'. lock q t p s = Inr s' \<and> crew_inv s'"
proof (cases "wc_owner s q")
  case None
  have "crew_inv (goto t p (set_owner q (Some (Suc t)) s))"
  proof (rule crew_inv_moved [OF assms(1,2)])
    show "crew_mutex_ok (goto t p (set_owner q (Some (Suc t)) s))"
      by (rule crew_mutex_lock [OF _ assms(2) None, where x = "(wc_threads s ! t)\<lparr>th_pc := p\<rparr>"]) (use assms in \<open>simp_all add: crew_inv_def\<close>)
  qed (use assms in \<open>simp_all add: responses_def\<close>)
  with None show ?thesis by (simp add: lock_def)
next
  case (Some u)
  with assms(1) show ?thesis by (simp add: lock_def)
qed

lemma inv_unlock:
  assumes "crew_inv s" and "t < length (wc_threads s)" and "th = wc_threads s ! t"
    and "held (th_role th) (th_pc th) = Some q" and "held (th_role th) p = None"
    and "in_hand (th_role th) p = in_hand (th_role th) (th_pc th)"
    and "thread_ok s (th\<lparr>th_pc := p\<rparr>)"
  shows "\<exists>s'. unlock True q t p s = Inr s' \<and> crew_inv s'"
proof -
  have own: "wc_owner s q = Some (Suc t)"
    using crew_mutex_ownerD [of s t q] assms(1-4) by (simp add: crew_inv_def)
  have "crew_inv (goto t p (set_owner q None s))"
  proof (rule crew_inv_moved [OF assms(1,2)])
    show "crew_mutex_ok (goto t p (set_owner q None s))"
      by (rule crew_mutex_unlock [OF _ assms(2) own, where x = "(wc_threads s ! t)\<lparr>th_pc := p\<rparr>"]) (use assms in \<open>simp_all add: crew_inv_def\<close>)
  qed (use assms in \<open>simp_all add: responses_def\<close>)
  with own show ?thesis by (simp add: unlock_def)
qed

lemma inv_await:
  assumes "crew_inv s" and "t < length (wc_threads s)" and "th = wc_threads s ! t"
    and "th_pc th = Inner" and "q = home (th_role th)"
  shows "\<exists>s'. await True q t s = Inr s' \<and> crew_inv s'"
proof (cases "nq_head (wc_work s q) = None \<and> wc_active s q")
  case True
  have "\<exists>s'. unlock True q t Asleep s = Inr s' \<and> crew_inv s'"
    by (rule inv_unlock [OF assms(1,2)])
      (use assms in \<open>auto simp: held_def in_hand_def thread_ok_def has_node_def\<close>)
  with True show ?thesis by (simp add: await_def)
next
  case False
  have "crew_inv (goto t Test s)"
    by (rule inv_goto [OF assms(1,2)])
      (use assms False in \<open>auto simp: held_def in_hand_def thread_ok_def has_node_def\<close>)
  with False show ?thesis by (auto simp: await_def)
qed

lemma inv_still_active:
  assumes "crew_inv s" and "t < length (wc_threads s)" and "th = wc_threads s ! t"
    and "th_pc th = Test" and "q = home (th_role th)"
  shows "crew_inv (still_active q t s)"
  unfolding still_active_def
proof (rule inv_goto [OF assms(1,2)])
  have "thread_ok s th" using assms(1-3) by (simp add: crew_inv_def threads_ok_def)
  with assms(4,5) show "thread_ok s ((wc_threads s ! t)\<lparr>th_pc := if wc_active s q then Take else Exit True\<rparr>)"
    by (auto simp: thread_ok_def has_node_def in_hand_def assms(3))
qed (use assms in \<open>auto simp: held_def in_hand_def\<close>)

end
