(* ===== verification/WorkcrewSteps.thy ===== *)
theory WorkcrewSteps
  imports WorkcrewInv
begin

text \<open>
  The steps of the work crew that move a node, and with them the preservation of the
  invariant by every thread.
\<close>

section \<open>Nodes and their owners\<close>

lemma hands_part:
  assumes "t < length (wc_threads s)"
  shows "owned (wc_threads s ! t) \<subseteq># hands s"
proof -
  have "hands s = owned (wc_threads s ! t) + sum_list (map owned ((wc_threads s)[t := (wc_threads s ! t)\<lparr>th_pc := Ended\<rparr>]))"
    using hands_update [OF assms, of "s\<lparr>wc_threads := (wc_threads s)[t := (wc_threads s ! t)\<lparr>th_pc := Ended\<rparr>]\<rparr>"]
    by (simp add: hands_def owned_def in_hand_def add.commute)
  then show ?thesis by simp
qed

text \<open>A node in the hands of a thread is allocated and in neither queue.\<close>

lemma hand_node:
  assumes "nodes_ok s as rs" and "threads_ok s" and "t < length (wc_threads s)" and "th = wc_threads s ! t"
    and "in_hand (th_role th) (th_pc th)"
  obtains a n where "th_node th = Some a" and "wc_wnodes s a = Some n" and "a \<notin> set as" and "a \<notin> set rs"
    and "owned th = {#a#}"
proof -
  have "thread_ok s th" using assms by (simp add: threads_ok_def)
  then obtain a where a: "th_node th = Some a" using assms(5) by (auto simp: thread_ok_def has_node_def)
  have o: "owned th = {#a#}" using a assms(5) by (simp add: owned_def)
  have e: "mset as + mset rs + hands s = mset_set (dom (wc_wnodes s))" and fin: "finite (dom (wc_wnodes s))"
    using assms(1) by (simp_all add: nodes_ok_def)
  have "{#a#} \<subseteq># hands s" using hands_part [OF assms(3)] o assms(4) by simp
  then have h: "1 \<le> count (hands s) a" using mset_subset_eq_count [of "{#a#}" "hands s" a] by simp
  have "count (mset as + mset rs + hands s) a \<le> 1" unfolding e using fin by (simp add: count_mset_set')
  then have "count (mset as) a + count (mset rs) a + count (hands s) a \<le> 1" by (simp only: count_union)
  with h have 0: "count (mset as) a = 0" "count (mset rs) a = 0" and c: "count (hands s) a = 1" by linarith+
  have ar: "a \<notin> set as" "a \<notin> set rs" using 0 by (metis count_eq_zero_iff set_mset_mset)+
  have "a \<in># mset_set (dom (wc_wnodes s))"
    unfolding e [symmetric] count_greater_zero_iff [symmetric] using c by simp
  then have "a \<in> dom (wc_wnodes s)" using fin by simp
  then obtain n where "wc_wnodes s a = Some n" by blast
  then show ?thesis using ar by (rule that [OF a _ _ _ o])
qed

lemma job_of_upd:
  assumes "wc_wnodes s a = Some n" and "wn_job n' = wn_job n" and "wc_wnodes s' = (wc_wnodes s)(a \<mapsto> n')"
  shows "job_of s' = job_of s"
  using assms by (auto simp: job_of_def fun_eq_iff)

lemma jobs_ok_write:
  assumes "jobs_ok s" and "wc_wnodes s a = Some n" and "wn_job n' = wn_job n"
    and "wc_wnodes s' = (wc_wnodes s)(a \<mapsto> n')" and "wc_brk s' = wc_brk s"
    and "wc_numconnects s' = wc_numconnects s" and "responses s' = responses s"
  shows "jobs_ok s'"
proof -
  have "dom (wc_wnodes s') = dom (wc_wnodes s)" using assms(2,4) by auto
  then show ?thesis using assms job_of_upd [OF assms(2-4)] by (simp add: jobs_ok_def)
qed

text \<open>The two queues by name, for steps that exist for either.\<close>

lemma qid_cases: "q \<noteq> CQ \<Longrightarrow> (q = AQ \<Longrightarrow> P) \<Longrightarrow> (q = RQ \<Longrightarrow> P) \<Longrightarrow> P"
  by (cases q) auto

lemma holds_write:
  assumes "queue_holds h w ns" and "h a = Some (n :: 'n qnode_scheme)" and "qn_next n' = qn_next n"
  shows "queue_holds (h(a \<mapsto> n')) w ns"
  by (rule queue_holds_frame [OF assms(1)]) (use assms in \<open>auto simp: qn_link_def queue_holds_def\<close>)

lemma holds_other:
  assumes "queue_holds h w ns" and "a \<notin> set ns"
  shows "queue_holds (h(a := v)) w ns"
  by (rule queue_holds_frame [OF assms(1)]) (use assms in \<open>auto simp: qn_link_def queue_holds_def\<close>)

section \<open>Taking a node from a queue\<close>

lemma inv_take:
  assumes inv: "crew_inv s" and t: "t < length (wc_threads s)" and th: "th = wc_threads s ! t"
    and pc: "th_pc th = Take" and role: "th_role th \<noteq> Acceptor" and q: "q = home (th_role th)"
    and f: "\<And>n. qn_next (f n) = qn_next n" "\<And>n. wn_job (f n) = wn_job n"
  shows "\<exists>p s1 s2. get_work True q t s = Inr (p, s1) \<and> wr_work p f s1 = Inr s2
    \<and> crew_inv (goto t (Leave True) (set_node t p s2))"
proof -
  from inv obtain as rs where n: "nodes_ok s as rs" and j: "jobs_ok s" and tok: "threads_ok s"
    and m: "crew_mutex_ok s" unfolding crew_inv_def by blast
  have qn: "q \<noteq> CQ" using q by (simp add: home_def)
  have held: "th_held th = Some q" using pc q by (simp add: held_def)
  have own: "wc_owner s q = Some (Suc t)" using crew_mutex_ownerD [OF m t] held th by simp
  define ns where "ns = (if q = AQ then as else rs)"
  have hq: "queue_holds (wc_wnodes s) (wc_work s q) ns"
    using n qn by (cases q) (simp_all add: nodes_ok_def ns_def)
  have "thread_ok s th" using tok t th by (simp add: threads_ok_def)
  then have "nq_head (wc_work s q) \<noteq> None" using pc q by (simp add: thread_ok_def)
  then obtain a ns' where ns: "ns = a # ns'" using queue_holds_head [OF hq] by (cases ns) auto
  from queue_get_holds [OF hq [unfolded ns]] obtain w where w: "queue_get (wc_wnodes s) (wc_work s q) = Inr (Some a, w)"
    and hw: "queue_holds (wc_wnodes s) w ns'" by blast
  from hq ns obtain x where x: "wc_wnodes s a = Some x" by (auto simp: queue_holds_def)
  let ?s1 = "set_work q w s"
  let ?s2 = "?s1\<lparr>wc_wnodes := (wc_wnodes s)(a \<mapsto> f x)\<rparr>"
  let ?s' = "goto t (Leave True) (set_node t (Some a) ?s2)"
  let ?th = "th\<lparr>th_node := Some a, th_pc := Leave True\<rparr>"
  have ths: "wc_threads ?s' = (wc_threads s)[t := ?th]" using t th by simp
  have work: "wc_work ?s' q' = (if q' = q then w else wc_work s q')" for q' by (simp add: set_work_def)
  have ctl: "wc_control ?s' q' = wc_control s q'" for q' by (simp add: set_work_def)
  have get: "get_work True q t s = Inr (Some a, ?s1)" using own w by (simp add: get_work_def)
  moreover have "wr_work (Some a) f ?s1 = Inr ?s2" using x by (simp add: wr_work_def rd_work_def)
  moreover have "crew_inv ?s'"
  proof -
    have "crew_mutex_ok ?s'"
      by (rule crew_mutex_move [OF m t ths])
        (use held role th ctl in \<open>simp_all add: held_def q\<close>)
    moreover have "nodes_ok ?s' (if q = AQ then ns' else as) (if q = AQ then rs else ns')"
    proof -
      have dom: "dom (wc_wnodes ?s') = dom (wc_wnodes s)" using x by auto
      have "hands ?s' + owned th = hands s + owned ?th" using hands_update [OF t ths] th by simp
      then have h: "hands ?s' = hands s + {#a#}" using pc role by (simp add: owned_def in_hand_def)
      have "queue_holds (wc_wnodes ?s') (wc_work ?s' q') ms"
        if "queue_holds (wc_wnodes s) (wc_work s q') ms" "q' \<noteq> q" for q' ms
        unfolding work using that holds_write [where h = "wc_wnodes s" and a = a and n = x and n' = "f x", OF _ x] f by simp
      moreover have "queue_holds (wc_wnodes ?s') (wc_work ?s' q) ns'"
        unfolding work using holds_write [where n' = "f x", OF hw x] f by simp
      ultimately show ?thesis using n qn h ns unfolding nodes_ok_def dom ns_def by (cases q) auto
    qed
    moreover have "jobs_ok ?s'"
      by (rule jobs_ok_write [OF j x, of "f x"]) (simp_all add: f responses_def)
    moreover have "threads_ok ?s'"
    proof (rule threads_ok_update [OF tok ths])
      show "thread_ok ?s' ?th" by (simp add: thread_ok_def)
      fix u
      assume u: "u < length (wc_threads s)" "u \<noteq> t" and ok: "thread_ok s (wc_threads s ! u)"
      have "th_held (wc_threads s ! u) \<noteq> Some q"
        using crew_mutex_unique [OF m t u(1)] held th u(2) by auto
      then show "thread_ok ?s' (wc_threads s ! u)"
        using ok unfolding thread_ok_def work ctl by (auto simp: held_def)
    qed
    ultimately show ?thesis unfolding crew_inv_def by blast
  qed
  ultimately show ?thesis by blast
qed

section \<open>Putting a node into a queue\<close>

lemma inv_put:
  assumes inv: "crew_inv s" and t: "t < length (wc_threads s)" and th: "th = wc_threads s ! t"
    and held: "th_held th = Some q" and hand: "in_hand (th_role th) (th_pc th)" and qn: "q \<noteq> CQ"
    and new: "held (th_role th) p = Some q" "\<not> in_hand (th_role th) p" "p \<noteq> Test" "p \<noteq> Take"
  shows "\<exists>s1. put_work True q t (th_node th) s = Inr s1 \<and> crew_inv (goto t p s1)"
proof -
  from inv obtain as rs where n: "nodes_ok s as rs" and j: "jobs_ok s" and tok: "threads_ok s"
    and m: "crew_mutex_ok s" unfolding crew_inv_def by blast
  have own: "wc_owner s q = Some (Suc t)" using crew_mutex_ownerD [OF m t] held th by simp
  obtain a x where a: "th_node th = Some a" "wc_wnodes s a = Some x" "a \<notin> set as" "a \<notin> set rs" "owned th = {#a#}"
    by (rule hand_node [OF n tok t th hand])
  define ns where "ns = (if q = AQ then as else rs)"
  have hq: "queue_holds (wc_wnodes s) (wc_work s q) ns"
    using n qn by (cases q) (simp_all add: nodes_ok_def ns_def)
  have ans: "a \<notin> set ns" using a by (simp add: ns_def)
  let ?x = "x\<lparr>qn_next := nq_head (wc_work s q)\<rparr>"
  from queue_put_holds [OF hq a(2) ans] obtain w where
    w: "queue_put (wc_wnodes s) (wc_work s q) a = Inr ((wc_wnodes s)(a \<mapsto> ?x), w)"
    and hw: "queue_holds ((wc_wnodes s)(a \<mapsto> ?x)) w (a # ns)" by blast
  let ?s1 = "set_work q w (s\<lparr>wc_wnodes := (wc_wnodes s)(a \<mapsto> ?x)\<rparr>)"
  let ?s' = "goto t p ?s1"
  let ?th = "th\<lparr>th_pc := p\<rparr>"
  have ths: "wc_threads ?s' = (wc_threads s)[t := ?th]" using th by simp
  have work: "wc_work ?s' q' = (if q' = q then w else wc_work s q')" for q' by (simp add: set_work_def)
  have ctl: "wc_control ?s' q' = wc_control s q'" for q' by (simp add: set_work_def)
  have wn: "wc_wnodes ?s' = (wc_wnodes s)(a \<mapsto> ?x)" by simp
  have "put_work True q t (th_node th) s = Inr ?s1" using own w a(1) by (simp add: put_work_def)
  moreover have "crew_inv ?s'"
  proof -
    have "crew_mutex_ok ?s'"
      by (rule crew_mutex_move [OF m t ths]) (use held new th ctl in simp_all)
    moreover have "nodes_ok ?s' (if q = AQ then a # as else as) (if q = AQ then rs else a # rs)"
    proof -
      have dom: "dom (wc_wnodes ?s') = dom (wc_wnodes s)" using a(2) unfolding wn by auto
      have "hands ?s' + owned th = hands s + owned ?th" using hands_update [OF t ths] th by simp
      then have h: "hands ?s' + {#a#} = hands s" using new a(5) by (simp add: owned_def)
      have other: "queue_holds (wc_wnodes ?s') (wc_work ?s' q') ms"
        if "queue_holds (wc_wnodes s) (wc_work s q') ms" "q' \<noteq> q" "a \<notin> set ms" for q' ms
        unfolding work wn using that holds_other [OF that(1,3), of "Some ?x"] by simp
      have "queue_holds (wc_wnodes ?s') (wc_work ?s' q) (a # ns)" unfolding work wn using hw by simp
      moreover have "mset as + mset rs + (hands ?s' + {#a#}) = mset_set (dom (wc_wnodes s))"
        using n h by (simp add: nodes_ok_def)
      ultimately show ?thesis using n qn a(3,4) other unfolding nodes_ok_def dom ns_def
        by (cases q) (auto simp: ac_simps)
    qed
    moreover have "jobs_ok ?s'"
      by (rule jobs_ok_write [OF j a(2), of ?x]) (simp_all add: responses_def)
    moreover have "threads_ok ?s'"
    proof (rule threads_ok_update [OF tok ths])
      have "thread_ok s th" using tok t th by (simp add: threads_ok_def)
      then show "thread_ok ?s' ?th" using new a(1) by (simp add: thread_ok_def)
      fix u
      assume u: "u < length (wc_threads s)" "u \<noteq> t" and ok: "thread_ok s (wc_threads s ! u)"
      have "th_held (wc_threads s ! u) \<noteq> Some q"
        using crew_mutex_unique [OF m t u(1)] held th u(2) by auto
      then show "thread_ok ?s' (wc_threads s ! u)"
        using ok unfolding thread_ok_def work ctl by (auto simp: held_def)
    qed
    ultimately show ?thesis unfolding crew_inv_def by blast
  qed
  ultimately show ?thesis by blast
qed

section \<open>Making and freeing a node\<close>

lemma inv_new:
  assumes inv: "crew_inv s" and t: "t < length (wc_threads s)" and th: "th = wc_threads s ! t"
    and pc: "th_pc th = Alloc b"
  shows "crew_inv (goto t (Put b) (new_work t s))"
proof -
  from inv obtain as rs where n: "nodes_ok s as rs" and j: "jobs_ok s" and tok: "threads_ok s"
    and m: "crew_mutex_ok s" unfolding crew_inv_def by blast
  let ?a = "wc_brk s" and ?k = "wc_numconnects s"
  let ?x = "\<lparr>qn_next = None, wn_job = ?k, wn_responder = 0, wn_processor = 0, wn_acceptor = Suc t\<rparr>"
  let ?s' = "goto t (Put b) (new_work t s)"
  let ?th = "th\<lparr>th_node := Some ?a, th_pc := Put b\<rparr>"
  have fresh: "?a \<notin> dom (wc_wnodes s)" using j by (auto simp: jobs_ok_def)
  have fin: "finite (dom (wc_wnodes s))" using n by (simp add: nodes_ok_def)
  have ths: "wc_threads ?s' = (wc_threads s)[t := ?th]" using t th by (simp add: new_work_def)
  have wn: "wc_wnodes ?s' = (wc_wnodes s)(?a \<mapsto> ?x)" by (simp add: new_work_def)
  have q: "wc_queues ?s' = wc_queues s" by (simp add: new_work_def)
  have dom: "dom (wc_wnodes ?s') = insert ?a (dom (wc_wnodes s))" unfolding wn by simp
  have ms: "mset_set (dom (wc_wnodes ?s')) = add_mset ?a (mset_set (dom (wc_wnodes s)))"
    unfolding dom using fin fresh by simp
  have "crew_mutex_ok ?s'"
    by (rule crew_mutex_move [OF m t ths]) (use pc th q in \<open>simp_all add: held_def new_work_def\<close>)
  moreover have "nodes_ok ?s' as rs"
  proof -
    have "hands ?s' + owned th = hands s + owned ?th" using hands_update [OF t ths] th by simp
    then have h: "hands ?s' = hands s + {#?a#}" using pc by (simp add: owned_def in_hand_def)
    have "?a \<notin> set as" "?a \<notin> set rs" using n fresh by (auto simp: nodes_ok_def queue_holds_def)
    then have "queue_holds (wc_wnodes ?s') (wc_work s AQ) as" "queue_holds (wc_wnodes ?s') (wc_work s RQ) rs"
      using n holds_other [of "wc_wnodes s" _ _ ?a "Some ?x"] unfolding wn by (simp_all add: nodes_ok_def)
    moreover have "mset as + mset rs + hands ?s' = mset_set (dom (wc_wnodes ?s'))"
      using n unfolding ms h nodes_ok_def by simp
    moreover have "finite (dom (wc_wnodes ?s'))" unfolding dom using fin by simp
    ultimately show ?thesis unfolding nodes_ok_def q by blast
  qed
  moreover have "jobs_ok ?s'"
  proof -
    have old: "job_of ?s' c = job_of s c" if "c \<in># mset_set (dom (wc_wnodes s))" for c
      using that fresh fin unfolding job_of_def wn by auto
    have new: "job_of ?s' ?a = ?k" unfolding job_of_def wn by simp
    have "image_mset (job_of ?s') (mset_set (dom (wc_wnodes ?s')))
        = add_mset ?k (image_mset (job_of s) (mset_set (dom (wc_wnodes s))))"
      by (simp only: ms image_mset_add_mset new image_mset_cong [OF old])
    moreover have "\<forall>c \<in> dom (wc_wnodes ?s'). c < wc_brk ?s'"
      using j unfolding dom jobs_ok_def by (simp add: less_Suc_eq)
    moreover have "responses ?s' = responses s" "wc_numconnects ?s' = Suc ?k" by (simp_all add: responses_def)
    ultimately show ?thesis using j unfolding jobs_ok_def by simp
  qed
  moreover have "threads_ok ?s'"
  proof (rule threads_ok_update [OF tok ths])
    show "thread_ok ?s' ?th" by (simp add: thread_ok_def)
    show "thread_ok ?s' (wc_threads s ! u)" if "thread_ok s (wc_threads s ! u)" for u
      using that by (simp add: thread_ok_def q)
  qed
  ultimately show ?thesis unfolding crew_inv_def by blast
qed

lemma inv_respond:
  assumes inv: "crew_inv s" and t: "t < length (wc_threads s)" and th: "th = wc_threads s ! t"
    and pc: "th_pc th = Report" and role: "th_role th = Responder"
  shows "\<exists>n s1. rd_work (th_node th) s = Inr n
    \<and> free_work (th_node th) (send_log (Responded (wn_responder n) (wn_job n) (wn_processor n)) s) = Inr s1
    \<and> crew_inv (goto t Again s1)"
proof -
  from inv obtain as rs where n: "nodes_ok s as rs" and j: "jobs_ok s" and tok: "threads_ok s"
    and m: "crew_mutex_ok s" unfolding crew_inv_def by blast
  have hand: "in_hand (th_role th) (th_pc th)" using pc role by (simp add: in_hand_def)
  obtain a x where a: "th_node th = Some a" "wc_wnodes s a = Some x" "a \<notin> set as" "a \<notin> set rs" "owned th = {#a#}"
    by (rule hand_node [OF n tok t th hand])
  let ?m = "Responded (wn_responder x) (wn_job x) (wn_processor x)"
  let ?s1 = "(send_log ?m s)\<lparr>wc_wnodes := (wc_wnodes s)(a := None)\<rparr>"
  let ?s' = "goto t Again ?s1"
  let ?th = "th\<lparr>th_pc := Again\<rparr>"
  have ths: "wc_threads ?s' = (wc_threads s)[t := ?th]" using th by (simp add: send_log_def)
  have wn: "wc_wnodes ?s' = (wc_wnodes s)(a := None)" by simp
  have q: "wc_queues ?s' = wc_queues s" by (simp add: send_log_def)
  have fin: "finite (dom (wc_wnodes s))" using n by (simp add: nodes_ok_def)
  have dom: "dom (wc_wnodes ?s') = dom (wc_wnodes s) - {a}" unfolding wn by simp
  have ms: "mset_set (dom (wc_wnodes s)) = add_mset a (mset_set (dom (wc_wnodes ?s')))"
    unfolding dom using fin a(2) by (simp add: mset_set.remove domI)
  have "crew_inv ?s'"
  proof -
    have "crew_mutex_ok ?s'"
      by (rule crew_mutex_move [OF m t ths]) (use pc th q role in \<open>simp_all add: held_def send_log_def\<close>)
    moreover have "nodes_ok ?s' as rs"
    proof -
      have "hands ?s' + owned th = hands s + owned ?th" using hands_update [OF t ths] th by simp
      then have h: "hands s = hands ?s' + {#a#}" using a(5) by (simp add: owned_def in_hand_def)
      have "mset as + mset rs + hands ?s' + {#a#} = mset_set (dom (wc_wnodes ?s')) + {#a#}"
        using n h ms by (simp add: nodes_ok_def)
      then have "mset as + mset rs + hands ?s' = mset_set (dom (wc_wnodes ?s'))" by simp
      moreover have "finite (dom (wc_wnodes ?s'))" unfolding dom using fin by simp
      moreover have "queue_holds (wc_wnodes ?s') (wc_work s AQ) as" "queue_holds (wc_wnodes ?s') (wc_work s RQ) rs"
        unfolding wn using n a(3,4) holds_other [of "wc_wnodes s" _ _ a None] by (simp_all add: nodes_ok_def)
      ultimately show ?thesis unfolding nodes_ok_def q by simp
    qed
    moreover have "jobs_ok ?s'"
    proof -
      have old: "job_of ?s' c = job_of s c" if "c \<in># mset_set (dom (wc_wnodes ?s'))" for c
        using that fin unfolding dom job_of_def wn by auto
      have job: "job_of s a = wn_job x" using a(2) by (simp add: job_of_def)
      have "image_mset (job_of s) (mset_set (dom (wc_wnodes s)))
          = add_mset (wn_job x) (image_mset (job_of ?s') (mset_set (dom (wc_wnodes ?s'))))"
        by (simp only: ms image_mset_add_mset job image_mset_cong [OF old])
      moreover have "responses ?s' = responses s @ [wn_job x]" by (simp add: responses_def send_log_def)
      moreover have "wc_numconnects ?s' = wc_numconnects s" "wc_brk ?s' = wc_brk s" by (simp_all add: send_log_def)
      ultimately show ?thesis using j unfolding jobs_ok_def dom by (auto simp: ac_simps)
    qed
    moreover have "threads_ok ?s'"
    proof (rule threads_ok_update [OF tok ths])
      show "thread_ok ?s' ?th" by (simp add: thread_ok_def has_node_def in_hand_def)
      show "thread_ok ?s' (wc_threads s ! u)" if "thread_ok s (wc_threads s ! u)" for u
        using that by (simp add: thread_ok_def q)
    qed
    ultimately show ?thesis unfolding crew_inv_def by blast
  qed
  moreover have "rd_work (th_node th) s = Inr x" using a by (simp add: rd_work_def)
  moreover have "free_work (th_node th) (send_log ?m s) = Inr ?s1"
    using a(1) by (simp add: free_work_def send_log_def)
  ultimately show ?thesis by blast
qed

section \<open>Every thread\<close>

text \<open>
  What can go wrong in a run in which every misuse is a fault, by the location of the thread:
  reading a node after giving it away, the second unlock at the end of \<open>processor\<close>, and what
  \<open>acceptor\<close> does after a failed \<open>malloc\<close>.
\<close>

definition misuse :: "bool \<Rightarrow> nat \<Rightarrow> wc \<Rightarrow> fault option" where
  "misuse mem t s = (let th = wc_threads s ! t in
     if th_role th = Processor \<and> th_pc th = ExitR then Some (Panic ''unlock'')
     else if th_role th \<noteq> Responder \<and> th_pc th = Report \<and> wc_wnodes s (the (th_node th)) = None
       then Some BadPointer
     else if th_role th = Acceptor \<and> (th_pc th \<in> {Leave False, Exit False} \<or> th_pc th = Alloc False \<and> \<not> mem)
       then Some (Panic ''unlock'')
     else if th_role th = Acceptor \<and> th_pc th = Put False then Some (Panic ''race'') else None)"

definition step_ok :: "bool \<Rightarrow> nat \<Rightarrow> wc \<Rightarrow> wc res \<Rightarrow> bool" where
  "step_ok mem t s r \<longleftrightarrow> (case misuse mem t s of
     None \<Rightarrow> \<exists>s'. r = Inr s' \<and> crew_inv s' | Some e \<Rightarrow> r = Inl e)"

lemma step_okI: "misuse mem t s = None \<Longrightarrow> r = Inr s' \<Longrightarrow> crew_inv s' \<Longrightarrow> step_ok mem t s r"
  by (simp add: step_ok_def)

lemma step_okI2: "misuse mem t s = None \<Longrightarrow> \<exists>s'. r = Inr s' \<and> crew_inv s' \<Longrightarrow> step_ok mem t s r"
  by (simp add: step_ok_def)

lemmas loc_defs = held_def in_hand_def thread_ok_def has_node_def home_def

lemma stop_inv_queue:
  "clean_ok s cs \<Longrightarrow> t < length (wc_threads s) \<Longrightarrow> th_pc (wc_threads s ! t) = StopPut
    \<Longrightarrow> \<exists>x. wc_cnodes s (th_cnode (wc_threads s ! t)) = Some x \<and> th_cnode (wc_threads s ! t) \<notin> set cs"
proof -
  assume c: "clean_ok s cs" and t: "t < length (wc_threads s)" and pc: "th_pc (wc_threads s ! t) = StopPut"
  have "th_cnode (wc_threads s ! t) \<notin> set cs"
  proof
    assume "th_cnode (wc_threads s ! t) \<in> set cs"
    then obtain u where u: "u < length (wc_threads s)" "th_cnode (wc_threads s ! u) = th_cnode (wc_threads s ! t)"
      "has_put (th_pc (wc_threads s ! u))"
      using c unfolding clean_ok_def by (metis in_set_conv_nth)
    have "u = t" using c u(1,2) t unfolding clean_ok_def by (metis length_map nth_eq_iff_index_eq nth_map)
    with u(3) pc show False by (simp add: has_put_def)
  qed
  moreover have "wc_cnodes s (th_cnode (wc_threads s ! t)) \<noteq> None"
    using c t pc unfolding clean_ok_def by (metis crew_pc.distinct)
  ultimately show ?thesis by blast
qed

lemma stop_thread_inv:
  assumes inv: "crew_inv s" and st: "stop_inv s" and t: "t < length (wc_threads s)" and th: "th = wc_threads s ! t"
  shows "\<exists>s'. stop_thread True t s = Inr s' \<and> crew_inv s'"
proof -
  from st obtain cs where c: "clean_ok s cs" unfolding stop_inv_def by blast
  have tok: "thread_ok s th" using inv t th by (simp add: crew_inv_def threads_ok_def)
  show ?thesis
  proof (cases "th_pc th")
    case Stop
    have "\<exists>s'. lock CQ t StopPut s = Inr s' \<and> crew_inv s'"
      by (rule crew_inv_lock [OF inv t th]) (use Stop in \<open>simp_all add: loc_defs\<close>)
    with Stop th show ?thesis by (simp add: stop_thread_def)
  next
    case StopPut
    then obtain x where x: "wc_cnodes s (th_cnode th) = Some x" "th_cnode th \<notin> set cs"
      using stop_inv_queue [OF c t] th by blast
    have "queue_holds (wc_cnodes s) (wc_work s CQ) cs" using c by (simp add: clean_ok_def)
    from queue_put_holds [OF this x] obtain h w where
      w: "queue_put (wc_cnodes s) (wc_work s CQ) (th_cnode th) = Inr (h, w)" by blast
    have own: "wc_owner s CQ = Some (Suc t)"
      using crew_mutex_ownerD [of s t CQ] inv t th StopPut by (simp add: crew_inv_def held_def)
    let ?s' = "goto t StopLeave (set_work CQ w (s\<lparr>wc_cnodes := h\<rparr>))"
    have q: "wc_work ?s' q = wc_work s q" if "q \<noteq> CQ" for q using that by (simp add: set_work_def)
    have a: "wc_control ?s' q = wc_control s q" for q by (simp add: set_work_def)
    have ths: "wc_threads ?s' = (wc_threads s)[t := (wc_threads s ! t)\<lparr>th_pc := StopLeave\<rparr>]" by simp
    have "crew_inv ?s'"
    proof (rule crew_inv_moved [OF inv t _ ths])
      show "crew_mutex_ok ?s'"
        by (rule crew_mutex_move [OF _ t ths]) (use inv StopPut th a in \<open>simp_all add: crew_inv_def loc_defs\<close>)
    qed (use StopPut th tok q a in \<open>simp_all add: loc_defs responses_def\<close>)
    with StopPut th own w show ?thesis by (simp add: stop_thread_def)
  next
    case StopLeave
    have "\<exists>s'. unlock True CQ t StopSay s = Inr s' \<and> crew_inv s'"
      by (rule inv_unlock [OF inv t th]) (use StopLeave in \<open>simp_all add: loc_defs\<close>)
    with StopLeave th show ?thesis by (simp add: stop_thread_def)
  next
    case StopSay
    have "wc_cnodes s (th_cnode th) \<noteq> None"
      using c t th StopSay unfolding clean_ok_def by (metis crew_pc.distinct)
    moreover have "crew_inv (goto t Ended s)"
      by (rule inv_goto [OF inv t th]) (use StopSay in \<open>simp_all add: loc_defs\<close>)
    ultimately show ?thesis using StopSay th by (auto simp: stop_thread_def)
  qed (use inv th in \<open>simp_all add: stop_thread_def\<close>)
qed

lemma responder_inv:
  assumes inv: "crew_inv s" and st: "stop_inv s" and t: "t < length (wc_threads s)" and th: "th = wc_threads s ! t"
    and r: "th_role th = Responder"
  shows "\<exists>s'. responder True t s = Inr s' \<and> crew_inv s'"
proof -
  have tok: "thread_ok s th" using inv t th by (simp add: crew_inv_def threads_ok_def)
  note stop = stop_thread_inv [OF inv st t th]
  show ?thesis
  proof (cases "th_pc th")
    case Begin
    have "\<exists>s'. lock RQ t (Outer True) s = Inr s' \<and> crew_inv s'"
      by (rule crew_inv_lock [OF inv t th]) (use Begin r in \<open>simp_all add: loc_defs\<close>)
    with Begin th show ?thesis by (simp add: responder_def)
  next
    case (Outer b)
    have "crew_inv (goto t (if wc_active s RQ then Inner else Exit True) s)"
      by (rule inv_goto [OF inv t th]) (use Outer r in \<open>simp_all add: loc_defs\<close>)
    with Outer th show ?thesis by (simp add: responder_def)
  next
    case Inner
    have "\<exists>s'. await True RQ t s = Inr s' \<and> crew_inv s'"
      by (rule inv_await [OF inv t th Inner]) (use r in \<open>simp add: home_def\<close>)
    with Inner th show ?thesis by (simp add: responder_def)
  next
    case Relock
    have "\<exists>s'. lock RQ t Inner s = Inr s' \<and> crew_inv s'"
      by (rule crew_inv_lock [OF inv t th]) (use Relock r in \<open>simp_all add: loc_defs\<close>)
    with Relock th show ?thesis by (simp add: responder_def)
  next
    case Test
    have "crew_inv (still_active RQ t s)"
      by (rule inv_still_active [OF inv t th Test]) (use r in \<open>simp add: home_def\<close>)
    with Test th show ?thesis by (simp add: responder_def)
  next
    case Take
    have "\<exists>p s1 s2. get_work True RQ t s = Inr (p, s1) \<and> wr_work p (\<lambda>n. n\<lparr>wn_responder := Suc t\<rparr>) s1 = Inr s2
        \<and> crew_inv (goto t (Leave True) (set_node t p s2))"
      by (rule inv_take [OF inv t th Take]) (use r in \<open>simp_all add: home_def\<close>)
    with Take th show ?thesis by (auto simp: responder_def)
  next
    case (Leave b)
    have "\<exists>s'. unlock True RQ t Report s = Inr s' \<and> crew_inv s'"
      by (rule inv_unlock [OF inv t th]) (use Leave r tok in \<open>simp_all add: loc_defs\<close>)
    with Leave th show ?thesis by (simp add: responder_def)
  next
    case Report
    with inv_respond [OF inv t th Report r] th show ?thesis by (auto simp: responder_def)
  next
    case Again
    have "\<exists>s'. lock RQ t (Outer True) s = Inr s' \<and> crew_inv s'"
      by (rule crew_inv_lock [OF inv t th]) (use Again r in \<open>simp_all add: loc_defs\<close>)
    with Again th show ?thesis by (simp add: responder_def)
  next
    case (Exit b)
    have "\<exists>s'. unlock True RQ t Stop s = Inr s' \<and> crew_inv s'"
      by (rule inv_unlock [OF inv t th]) (use Exit r in \<open>simp_all add: loc_defs\<close>)
    with Exit th show ?thesis by (simp add: responder_def)
  qed (use stop th in \<open>simp_all add: responder_def\<close>)
qed

lemma own_not: "crew_inv s \<Longrightarrow> t < length (wc_threads s) \<Longrightarrow> th = wc_threads s ! t \<Longrightarrow> th_held th \<noteq> Some q
    \<Longrightarrow> wc_owner s q \<noteq> Some (Suc t)"
  using crew_mutex_ownerD [of s t q] by (simp add: crew_inv_def)

lemma inv_report:
  assumes inv: "crew_inv s" and t: "t < length (wc_threads s)" and th: "th = wc_threads s ! t"
    and pc: "th_pc th = Report" and r: "th_role th \<noteq> Responder" and m: "answered m = []"
  shows "crew_inv (goto t Again (send_log m s))"
proof (rule crew_inv_moved [OF inv t, where p = Again])
  show "crew_mutex_ok (goto t Again (send_log m s))"
    by (rule crew_mutex_move [OF _ t, where x = "(wc_threads s ! t)\<lparr>th_pc := Again\<rparr>"])
      (use inv pc th r in \<open>simp_all add: crew_inv_def held_def\<close>)
  show "responses (goto t Again (send_log m s)) = responses s" by (simp add: responses_def send_log_def m)
qed (use pc th r in \<open>simp_all add: loc_defs\<close>)

lemma processor_inv:
  assumes inv: "crew_inv s" and st: "stop_inv s" and t: "t < length (wc_threads s)" and th: "th = wc_threads s ! t"
    and r: "th_role th = Processor"
  shows "step_ok mem t s (processor True t s)"
proof -
  have tok: "thread_ok s th" using inv t th by (simp add: crew_inv_def threads_ok_def)
  have stop_ok: "step_ok mem t s (stop_thread True t s)" if "misuse mem t s = None"
    by (rule step_okI2 [OF that stop_thread_inv [OF inv st t th]])
  have ok: "step_ok mem t s (processor True t s)"
    if "th_pc th \<notin> {ExitR, Report}" "\<exists>s'. processor True t s = Inr s' \<and> crew_inv s'"
    by (rule step_okI2 [OF _ that(2)]) (use that(1) r th in \<open>simp add: misuse_def Let_def\<close>)
  show ?thesis
  proof (cases "th_pc th")
    case Begin
    have "\<exists>s'. lock AQ t (Outer True) s = Inr s' \<and> crew_inv s'"
      by (rule crew_inv_lock [OF inv t th]) (use Begin r in \<open>simp_all add: loc_defs\<close>)
    with Begin th show ?thesis by (intro ok) (simp_all add: processor_def)
  next
    case (Outer b)
    have "crew_inv (goto t (if wc_active s RQ then Inner else Exit True) s)"
      by (rule inv_goto [OF inv t th]) (use Outer r in \<open>simp_all add: loc_defs\<close>)
    with Outer th show ?thesis by (intro ok) (simp_all add: processor_def)
  next
    case Inner
    have "\<exists>s'. await True AQ t s = Inr s' \<and> crew_inv s'"
      by (rule inv_await [OF inv t th Inner]) (use r in \<open>simp add: home_def\<close>)
    with Inner th show ?thesis by (intro ok) (simp_all add: processor_def)
  next
    case Relock
    have "\<exists>s'. lock AQ t Inner s = Inr s' \<and> crew_inv s'"
      by (rule crew_inv_lock [OF inv t th]) (use Relock r in \<open>simp_all add: loc_defs\<close>)
    with Relock th show ?thesis by (intro ok) (simp_all add: processor_def)
  next
    case Test
    have "crew_inv (still_active AQ t s)"
      by (rule inv_still_active [OF inv t th Test]) (use r in \<open>simp add: home_def\<close>)
    with Test th show ?thesis by (intro ok) (simp_all add: processor_def)
  next
    case Take
    have "\<exists>p s1 s2. get_work True AQ t s = Inr (p, s1) \<and> wr_work p (\<lambda>n. n\<lparr>wn_processor := Suc t\<rparr>) s1 = Inr s2
        \<and> crew_inv (goto t (Leave True) (set_node t p s2))"
      by (rule inv_take [OF inv t th Take]) (use r in \<open>simp_all add: home_def\<close>)
    with Take th show ?thesis by (intro ok) (auto simp: processor_def)
  next
    case (Leave b)
    have "\<exists>s'. unlock True AQ t Pass s = Inr s' \<and> crew_inv s'"
      by (rule inv_unlock [OF inv t th]) (use Leave r tok in \<open>simp_all add: loc_defs\<close>)
    with Leave th show ?thesis by (intro ok) (simp_all add: processor_def)
  next
    case Pass
    have "\<exists>s'. lock RQ t PassPut s = Inr s' \<and> crew_inv s'"
      by (rule crew_inv_lock [OF inv t th]) (use Pass r tok in \<open>simp_all add: loc_defs\<close>)
    with Pass th show ?thesis by (intro ok) (simp_all add: processor_def)
  next
    case PassPut
    have "\<exists>s1. put_work True RQ t (th_node th) s = Inr s1 \<and> crew_inv (goto t PassLeave s1)"
      by (rule inv_put [OF inv t th]) (use PassPut r in \<open>simp_all add: loc_defs\<close>)
    with PassPut th show ?thesis by (intro ok) (auto simp: processor_def)
  next
    case PassLeave
    have "\<exists>s'. unlock True RQ t Report s = Inr s' \<and> crew_inv s'"
      by (rule inv_unlock [OF inv t th]) (use PassLeave r tok in \<open>simp_all add: loc_defs\<close>)
    with PassLeave th show ?thesis by (intro ok) (simp_all add: processor_def)
  next
    case Report
    from tok Report obtain a where a: "th_node th = Some a" by (auto simp: loc_defs)
    show ?thesis
    proof (cases "wc_wnodes s a")
      case None
      with Report r th a show ?thesis
        by (simp add: step_ok_def misuse_def Let_def processor_def rd_work_def)
    next
      case (Some n)
      have "crew_inv (goto t Again (send_log (Processed (wn_processor n) (wn_job n) (wn_acceptor n)) s))"
        by (rule inv_report [OF inv t th Report]) (simp_all add: r)
      with Report r th a Some show ?thesis
        by (intro step_okI) (simp_all add: misuse_def Let_def processor_def rd_work_def)
    qed
  next
    case Again
    have "\<exists>s'. lock AQ t (Outer True) s = Inr s' \<and> crew_inv s'"
      by (rule crew_inv_lock [OF inv t th]) (use Again r in \<open>simp_all add: loc_defs\<close>)
    with Again th show ?thesis by (intro ok) (simp_all add: processor_def)
  next
    case (Exit b)
    have "\<exists>s'. unlock True AQ t ExitR s = Inr s' \<and> crew_inv s'"
      by (rule inv_unlock [OF inv t th]) (use Exit r in \<open>simp_all add: loc_defs\<close>)
    with Exit th show ?thesis by (intro ok) (simp_all add: processor_def)
  next
    case ExitR
    have "wc_owner s RQ \<noteq> Some (Suc t)" by (rule own_not [OF inv t th]) (use ExitR in \<open>simp add: held_def\<close>)
    with ExitR r th show ?thesis by (simp add: step_ok_def misuse_def Let_def processor_def unlock_def)
  qed (use stop_ok r th in \<open>simp_all add: processor_def misuse_def Let_def\<close>)
qed

lemma acceptor_inv:
  assumes inv: "crew_inv s" and st: "stop_inv s" and t: "t < length (wc_threads s)" and th: "th = wc_threads s ! t"
    and r: "th_role th = Acceptor"
  shows "step_ok mem t s (acceptor True mem t s)"
proof -
  have tok: "thread_ok s th" using inv t th by (simp add: crew_inv_def threads_ok_def)
  have stop_ok: "step_ok mem t s (stop_thread True t s)" if "misuse mem t s = None"
    by (rule step_okI2 [OF that stop_thread_inv [OF inv st t th]])
  have ok: "step_ok mem t s (acceptor True mem t s)"
    if "misuse mem t s = None" "\<exists>s'. acceptor True mem t s = Inr s' \<and> crew_inv s'"
    by (rule step_okI2 [OF that])
  have lost: "wc_owner s AQ \<noteq> Some (Suc t)" if "th_pc th \<in> {Leave False, Exit False, Alloc False, Put False}"
    by (rule own_not [OF inv t th]) (use that r in \<open>auto simp: held_def\<close>)
  note m = misuse_def Let_def acceptor_def r th
  show ?thesis
  proof (cases "th_pc th")
    case Begin
    have "\<exists>s'. lock AQ t (Outer True) s = Inr s' \<and> crew_inv s'"
      by (rule crew_inv_lock [OF inv t th]) (use Begin r in \<open>simp_all add: loc_defs\<close>)
    with Begin r th show ?thesis by (intro ok) (simp_all add: m)
  next
    case (Outer b)
    have "crew_inv (goto t (if wc_active s AQ then Alloc b else Exit b) s)"
      by (rule inv_goto [OF inv t th]) (use Outer r in \<open>simp_all add: loc_defs\<close>)
    with Outer r th show ?thesis by (intro ok) (simp_all add: m)
  next
    case (Alloc b)
    show ?thesis
    proof (cases mem)
      case True
      with inv_new [OF inv t th Alloc] Alloc r th show ?thesis by (intro ok) (simp_all add: m)
    next
      case False
      show ?thesis
      proof (cases b)
        case True
        have "\<exists>s'. unlock True AQ t (Outer False) s = Inr s' \<and> crew_inv s'"
          by (rule inv_unlock [OF inv t th]) (use Alloc True r in \<open>simp_all add: loc_defs\<close>)
        with Alloc True False r th show ?thesis by (intro ok) (simp_all add: m)
      next
        case b: False
        with False lost Alloc r th show ?thesis by (simp add: step_ok_def m unlock_def)
      qed
    qed
  next
    case (Put b)
    show ?thesis
    proof (cases b)
      case True
      have "\<exists>s1. put_work True AQ t (th_node th) s = Inr s1 \<and> crew_inv (goto t (Leave True) s1)"
        by (rule inv_put [OF inv t th]) (use Put True r in \<open>simp_all add: loc_defs\<close>)
      with Put True r th show ?thesis by (intro ok) (auto simp: m)
    next
      case False
      with lost Put r th show ?thesis by (simp add: step_ok_def m put_work_def)
    qed
  next
    case (Leave b)
    show ?thesis
    proof (cases b)
      case True
      have "\<exists>s'. unlock True AQ t Report s = Inr s' \<and> crew_inv s'"
        by (rule inv_unlock [OF inv t th]) (use Leave True r tok in \<open>simp_all add: loc_defs\<close>)
      with Leave True r th show ?thesis by (intro ok) (simp_all add: m)
    next
      case False
      with lost Leave r th show ?thesis by (simp add: step_ok_def m unlock_def)
    qed
  next
    case Report
    from tok Report obtain a where a: "th_node th = Some a" by (auto simp: loc_defs)
    show ?thesis
    proof (cases "wc_wnodes s a")
      case None
      with Report r th a show ?thesis by (simp add: step_ok_def m rd_work_def)
    next
      case (Some n)
      have "crew_inv (goto t Again (send_log (Produced (wn_acceptor n) (wn_job n)) s))"
        by (rule inv_report [OF inv t th Report]) (simp_all add: r)
      with Report r th a Some show ?thesis by (intro step_okI) (simp_all add: m rd_work_def)
    qed
  next
    case Again
    have "\<exists>s'. lock AQ t (Outer True) s = Inr s' \<and> crew_inv s'"
      by (rule crew_inv_lock [OF inv t th]) (use Again r in \<open>simp_all add: loc_defs\<close>)
    with Again r th show ?thesis by (intro ok) (simp_all add: m)
  next
    case (Exit b)
    show ?thesis
    proof (cases b)
      case True
      have "\<exists>s'. unlock True AQ t Stop s = Inr s' \<and> crew_inv s'"
        by (rule inv_unlock [OF inv t th]) (use Exit True r in \<open>simp_all add: loc_defs\<close>)
      with Exit True r th show ?thesis by (intro ok) (simp_all add: m)
    next
      case False
      with lost Exit r th show ?thesis by (simp add: step_ok_def m unlock_def)
    qed
  qed (use stop_ok r th in \<open>simp_all add: m\<close>)
qed

lemma crew_step_inv:
  assumes "crew_inv s" and "stop_inv s" and "t < length (wc_threads s)"
  shows "step_ok mem t s (crew_step True mem t s)"
proof (cases "th_role (wc_threads s ! t)")
  case Responder
  moreover have "misuse mem t s = None" using Responder by (simp add: misuse_def Let_def)
  ultimately show ?thesis using responder_inv [OF assms refl Responder] assms(3)
    by (intro step_okI2) (simp_all add: crew_step_def)
next
  case Acceptor
  with acceptor_inv [OF assms refl Acceptor] assms(3) show ?thesis by (simp add: crew_step_def)
next
  case Processor
  with processor_inv [OF assms refl Processor] assms(3) show ?thesis by (simp add: crew_step_def)
qed

end
