(* ===== verification/WorkcrewStop.thy ===== *)
theory WorkcrewStop
  imports WorkcrewSteps
begin

text \<open>
  Stopping the crew: the part of the invariant about cleanup nodes, which no misuse of the
  work queues can break, and the steps of the thread that runs \<open>stop_server\<close>.
\<close>

section \<open>Steps that leave the cleanup queue alone\<close>

definition quiet :: "nat \<Rightarrow> wc \<Rightarrow> wc \<Rightarrow> bool" where
  "quiet t s s' \<longleftrightarrow> wc_cnodes s' = wc_cnodes s \<and> wc_work s' CQ = wc_work s CQ \<and> wc_ctl s' = wc_ctl s
     \<and> wc_cur s' = wc_cur s \<and> wc_numthreads s' = wc_numthreads s
     \<and> (\<exists>x. wc_threads s' = (wc_threads s)[t := x] \<and> th_cnode x = th_cnode (wc_threads s ! t)
          \<and> has_put (th_pc x) = has_put (th_pc (wc_threads s ! t))
          \<and> (th_pc (wc_threads s ! t) = Ended \<longrightarrow> th_pc x = Ended))"

lemma map_cnode_update:
  "th_cnode x = th_cnode (ths ! t) \<Longrightarrow> map th_cnode (ths[t := x]) = map th_cnode ths"
  by (metis list_update_id map_update)

lemma joined_map: "joined s = length (filter (\<lambda>c. wc_cnodes s c = None) (map th_cnode (wc_threads s)))"
  by (simp add: joined_def filter_map o_def)

lemma joined_frame:
  assumes "map th_cnode (wc_threads s') = map th_cnode (wc_threads s)"
    and "\<And>c. wc_cnodes s' c = None \<longleftrightarrow> wc_cnodes s c = None"
  shows "joined s' = joined s"
  unfolding joined_map assms ..

lemma quiet_clean:
  assumes "quiet t s s'" and "clean_ok s cs" and "t < length (wc_threads s)"
  shows "clean_ok s' cs"
proof -
  from assms(1) obtain x where x: "wc_threads s' = (wc_threads s)[t := x]" "th_cnode x = th_cnode (wc_threads s ! t)"
    "has_put (th_pc x) = has_put (th_pc (wc_threads s ! t))" "th_pc (wc_threads s ! t) = Ended \<longrightarrow> th_pc x = Ended"
    and e: "wc_cnodes s' = wc_cnodes s" "wc_work s' CQ = wc_work s CQ" "wc_ctl s' = wc_ctl s" "wc_cur s' = wc_cur s"
    unfolding quiet_def by blast
  have len: "length (wc_threads s') = length (wc_threads s)" by (simp add: x(1))
  have cn: "th_cnode (wc_threads s' ! u) = th_cnode (wc_threads s ! u)" for u
    using x(1,2) by (simp add: nth_upd)
  have put: "has_put (th_pc (wc_threads s' ! u)) = has_put (th_pc (wc_threads s ! u))" for u
    using x(1,3) by (simp add: nth_upd)
  have ended: "th_pc (wc_threads s ! u) = Ended \<Longrightarrow> th_pc (wc_threads s' ! u) = Ended" for u
    using x(1,4) by (simp add: nth_upd)
  have ex: "(\<exists>th \<in> set (wc_threads s'). P th) \<longleftrightarrow> (\<exists>u < length (wc_threads s). P (wc_threads s' ! u))" for P
    using len by (metis in_set_conv_nth)
  have ex0: "(\<exists>th \<in> set (wc_threads s). P th) \<longleftrightarrow> (\<exists>u < length (wc_threads s). P (wc_threads s ! u))" for P
    by (metis in_set_conv_nth)
  have "distinct (map th_cnode (wc_threads s'))"
    using assms(2) x(1,2) map_cnode_update [OF x(2)] by (simp add: clean_ok_def)
  moreover have "joining s' = joining s" by (simp add: joining_def e)
  ultimately show ?thesis using assms(2) ended
    unfolding clean_ok_def ex ex0 len cn put e by blast
qed

lemma quiet_stop_inv:
  assumes "quiet t s s'" and "stop_inv s" and "t < length (wc_threads s)"
  shows "stop_inv s'"
proof -
  from assms(2) obtain cs where cs: "clean_ok s cs" and cnt: "count_ok s" unfolding stop_inv_def by blast
  from assms(1) obtain x where x: "wc_threads s' = (wc_threads s)[t := x]" "th_cnode x = th_cnode (wc_threads s ! t)"
    and e: "wc_cnodes s' = wc_cnodes s" "wc_ctl s' = wc_ctl s" "wc_numthreads s' = wc_numthreads s"
    unfolding quiet_def by blast
  have "joined s' = joined s"
    by (rule joined_frame) (use map_cnode_update [OF x(2)] x(1) e in simp_all)
  then have "count_ok s'" using cnt x(1) e by (simp add: count_ok_def before_join_def)
  with quiet_clean [OF assms(1) cs assms(3)] show ?thesis unfolding stop_inv_def by blast
qed

lemma quiet_refl: "quiet t s s"
  unfolding quiet_def by (auto intro: exI [of _ "wc_threads s ! t"])

lemma quietI:
  assumes "wc_threads s' = (wc_threads s)[t := x]" and "th_cnode x = th_cnode (wc_threads s ! t)"
    and "has_put (th_pc x) = has_put (th_pc (wc_threads s ! t))" and "th_pc (wc_threads s ! t) \<noteq> Ended"
    and "wc_cnodes s' = wc_cnodes s" and "wc_work s' CQ = wc_work s CQ" and "wc_ctl s' = wc_ctl s"
    and "wc_cur s' = wc_cur s" and "wc_numthreads s' = wc_numthreads s"
  shows "quiet t s s'"
  unfolding quiet_def using assms by (intro conjI exI [of _ x]) simp_all

abbreviation same_put :: "nat \<Rightarrow> wc \<Rightarrow> crew_pc \<Rightarrow> bool" where
  "same_put t s p \<equiv> has_put p = has_put (th_pc (wc_threads s ! t)) \<and> th_pc (wc_threads s ! t) \<noteq> Ended"

lemma quiet_goto:
  assumes "same_put t s p" and "wc_threads s1 = wc_threads s" and "wc_cnodes s1 = wc_cnodes s"
    and "wc_work s1 CQ = wc_work s CQ" and "wc_ctl s1 = wc_ctl s" and "wc_cur s1 = wc_cur s"
    and "wc_numthreads s1 = wc_numthreads s"
  shows "quiet t s (goto t p s1)"
  by (rule quietI [where x = "(wc_threads s ! t)\<lparr>th_pc := p\<rparr>"]) (use assms in simp_all)

lemma quiet_lock: "same_put t s p \<Longrightarrow> lock q t p s = Inr s' \<Longrightarrow> quiet t s s'"
  unfolding lock_def by (auto simp: quiet_refl intro: quiet_goto split: if_splits)

lemma quiet_unlock: "same_put t s p \<Longrightarrow> unlock strict q t p s = Inr s' \<Longrightarrow> quiet t s s'"
  unfolding unlock_def by (auto intro: quiet_goto split: if_splits)

lemma quiet_await:
  assumes "th_pc (wc_threads s ! t) = Inner" and "await strict q t s = Inr s'"
  shows "quiet t s s'"
proof (cases "nq_head (wc_work s q) = None \<and> wc_active s q")
  case True
  with assms have "unlock strict q t Asleep s = Inr s'" by (simp add: await_def)
  then show ?thesis by (rule quiet_unlock [rotated]) (simp add: assms(1) has_put_def)
next
  case False
  with assms(2) have "s' = goto t Test s" by (auto simp: await_def)
  with assms(1) show ?thesis by (auto simp: has_put_def intro: quiet_goto)
qed

lemma quiet_still_active: "th_pc (wc_threads s ! t) = Test \<Longrightarrow> quiet t s (still_active q t s)"
  unfolding still_active_def by (auto simp: has_put_def intro: quiet_goto)

lemma get_work_fields:
  assumes "get_work strict q t s = Inr (p, s1)" and "q \<noteq> CQ"
  shows "wc_threads s1 = wc_threads s" "wc_cnodes s1 = wc_cnodes s" "wc_work s1 CQ = wc_work s CQ"
    "wc_ctl s1 = wc_ctl s" "wc_cur s1 = wc_cur s" "wc_numthreads s1 = wc_numthreads s"
  using assms by (auto simp: get_work_def bind_res_eq_Inr split: if_splits)

lemma put_work_fields:
  assumes "put_work strict q t p s = Inr s1" and "q \<noteq> CQ"
  shows "wc_threads s1 = wc_threads s" "wc_cnodes s1 = wc_cnodes s" "wc_work s1 CQ = wc_work s CQ"
    "wc_ctl s1 = wc_ctl s" "wc_cur s1 = wc_cur s" "wc_numthreads s1 = wc_numthreads s"
  using assms by (auto simp: put_work_def set_work_def bind_res_eq_Inr split: if_splits)

lemma wr_work_fields:
  assumes "wr_work p f s = Inr s1"
  shows "wc_threads s1 = wc_threads s" "wc_cnodes s1 = wc_cnodes s" "wc_work s1 q = wc_work s q"
    "wc_ctl s1 = wc_ctl s" "wc_cur s1 = wc_cur s" "wc_numthreads s1 = wc_numthreads s"
  using assms by (auto simp: wr_work_def bind_res_eq_Inr)

lemma free_work_fields:
  assumes "free_work p s = Inr s1"
  shows "wc_threads s1 = wc_threads s" "wc_cnodes s1 = wc_cnodes s" "wc_work s1 q = wc_work s q"
    "wc_ctl s1 = wc_ctl s" "wc_cur s1 = wc_cur s" "wc_numthreads s1 = wc_numthreads s"
  using assms by (auto simp: free_work_def bind_res_eq_Inr)

lemma quiet_take:
  assumes "get_work strict q t s = Inr (p, s1)" and "wr_work p f s1 = Inr s2" and "q \<noteq> CQ"
    and "th_pc (wc_threads s ! t) = Take" and "t < length (wc_threads s)"
  shows "quiet t s (goto t (Leave True) (set_node t p s2))"
proof -
  note f = get_work_fields [OF assms(1,3)] wr_work_fields [OF assms(2)]
  show ?thesis
    by (rule quietI [where x = "(wc_threads s ! t)\<lparr>th_node := p, th_pc := Leave True\<rparr>"])
      (use f assms(4,5) in \<open>simp_all add: has_put_def\<close>)
qed

section \<open>Every thread keeps the stopping invariant\<close>

lemma stop_put_inv:
  assumes st: "stop_inv s" and t: "t < length (wc_threads s)" and pc: "th_pc (wc_threads s ! t) = StopPut"
    and r: "stop_thread strict t s = Inr s'"
  shows "stop_inv s'"
proof -
  from st obtain cs where cs: "clean_ok s cs" and cnt: "count_ok s" unfolding stop_inv_def by blast
  let ?c = "th_cnode (wc_threads s ! t)"
  from stop_inv_queue [OF cs t pc] obtain x where x: "wc_cnodes s ?c = Some x" "?c \<notin> set cs" by blast
  have hq: "queue_holds (wc_cnodes s) (wc_work s CQ) cs" using cs by (simp add: clean_ok_def)
  let ?h = "(wc_cnodes s)(?c \<mapsto> x\<lparr>qn_next := nq_head (wc_work s CQ)\<rparr>)"
  from queue_put_holds [OF hq x] obtain w where w: "queue_put (wc_cnodes s) (wc_work s CQ) ?c = Inr (?h, w)"
    and hw: "queue_holds ?h w (?c # cs)" by blast
  have s': "s' = goto t StopLeave (set_work CQ w (s\<lparr>wc_cnodes := ?h\<rparr>))"
    using r pc w by (auto simp: stop_thread_def split: if_splits)
  have e: "wc_cnodes s' = ?h" "wc_work s' CQ = w" "wc_ctl s' = wc_ctl s" "wc_cur s' = wc_cur s"
    "wc_numthreads s' = wc_numthreads s" by (simp_all add: s' set_work_def)
  have ths: "wc_threads s' = (wc_threads s)[t := (wc_threads s ! t)\<lparr>th_pc := StopLeave\<rparr>]" by (simp add: s')
  have cn: "map th_cnode (wc_threads s') = map th_cnode (wc_threads s)"
    unfolding ths by (rule map_cnode_update) simp
  have cu: "th_cnode (wc_threads s' ! u) = th_cnode (wc_threads s ! u)" for u by (simp add: ths nth_upd)
  have len: "length (wc_threads s') = length (wc_threads s)" by (simp add: ths)
  have alive: "?h c = None \<longleftrightarrow> wc_cnodes s c = None" for c using x by simp
  have mono: "has_put (th_pc (wc_threads s ! u)) \<Longrightarrow> has_put (th_pc (wc_threads s' ! u))" for u
    by (auto simp: ths nth_upd has_put_def)
  have other: "th_pc (wc_threads s' ! u) = th_pc (wc_threads s ! u)" if "u \<noteq> t" for u using that by (simp add: ths nth_upd)
  have fresh: "\<not> has_put (th_pc (wc_threads s ! t))" using pc by (simp add: has_put_def)
  have clean: "clean_ok s' (?c # cs)"
    unfolding clean_ok_def e cn
  proof (intro conjI)
    show "queue_holds ?h w (?c # cs)" by (rule hw)
    show "distinct (map th_cnode (wc_threads s))" using cs by (simp add: clean_ok_def)
    show "\<forall>c \<in> set (?c # cs). \<exists>th \<in> set (wc_threads s'). th_cnode th = c \<and> has_put (th_pc th)"
    proof
      fix c
      assume "c \<in> set (?c # cs)"
      then consider "c = ?c" | "c \<in> set cs" by auto
      then show "\<exists>th \<in> set (wc_threads s'). th_cnode th = c \<and> has_put (th_pc th)"
      proof cases
        case 1
        have "wc_threads s' ! t \<in> set (wc_threads s')" using t len by simp
        moreover have "has_put (th_pc (wc_threads s' ! t))" using t by (simp add: ths has_put_def)
        ultimately show ?thesis using 1 cu by blast
      next
        case 2
        then obtain u where u: "u < length (wc_threads s)" "th_cnode (wc_threads s ! u) = c"
          "has_put (th_pc (wc_threads s ! u))" using cs unfolding clean_ok_def by (metis in_set_conv_nth)
        have "wc_threads s' ! u \<in> set (wc_threads s')" using u(1) len by simp
        then show ?thesis using u(2) mono [OF u(3)] cu by blast
      qed
    qed
    show "\<forall>u < length (wc_threads s'). th_pc (wc_threads s' ! u) \<noteq> Ended \<longrightarrow> ?h (th_cnode (wc_threads s' ! u)) \<noteq> None"
    proof (intro allI impI)
      fix u
      assume u: "u < length (wc_threads s')" "th_pc (wc_threads s' ! u) \<noteq> Ended"
      show "?h (th_cnode (wc_threads s' ! u)) \<noteq> None"
      proof (cases "u = t")
        case True
        then show ?thesis using x by (simp add: cu)
      next
        case False
        with u cs show ?thesis unfolding alive cu len other [OF False] clean_ok_def by blast
      qed
    qed
    have tid: "\<forall>u < length (wc_threads s). \<forall>n. wc_cnodes s (th_cnode (wc_threads s ! u)) = Some n \<longrightarrow> cn_tid n = u"
      using cs by (simp add: clean_ok_def)
    then have "cn_tid x = t" using x t by blast
    show "\<forall>u < length (wc_threads s'). \<forall>n. ?h (th_cnode (wc_threads s' ! u)) = Some n \<longrightarrow> cn_tid n = u"
      unfolding cu len using tid x by auto
    show "joining s' \<longrightarrow> (\<exists>u < length (wc_threads s'). wc_cur s = Some (th_cnode (wc_threads s' ! u))
        \<and> th_cnode (wc_threads s' ! u) \<notin> set (?c # cs) \<and> ?h (th_cnode (wc_threads s' ! u)) \<noteq> None
        \<and> has_put (th_pc (wc_threads s' ! u)) \<and> (wc_ctl s = JoinFree \<longrightarrow> th_pc (wc_threads s' ! u) = Ended))"
    proof
      assume "joining s'"
      then have "joining s" by (simp add: joining_def e)
      then obtain u where u: "u < length (wc_threads s)" "wc_cur s = Some (th_cnode (wc_threads s ! u))"
        "th_cnode (wc_threads s ! u) \<notin> set cs" "wc_cnodes s (th_cnode (wc_threads s ! u)) \<noteq> None"
        "has_put (th_pc (wc_threads s ! u))" "wc_ctl s = JoinFree \<longrightarrow> th_pc (wc_threads s ! u) = Ended"
        using cs unfolding clean_ok_def by blast
      have ut: "u \<noteq> t" using u(5) fresh by blast
      have "th_cnode (wc_threads s ! u) \<noteq> ?c"
        using cs u(1) t ut unfolding clean_ok_def by (metis length_map nth_eq_iff_index_eq nth_map)
      then show "\<exists>u < length (wc_threads s'). wc_cur s = Some (th_cnode (wc_threads s' ! u))
        \<and> th_cnode (wc_threads s' ! u) \<notin> set (?c # cs) \<and> ?h (th_cnode (wc_threads s' ! u)) \<noteq> None
        \<and> has_put (th_pc (wc_threads s' ! u)) \<and> (wc_ctl s = JoinFree \<longrightarrow> th_pc (wc_threads s' ! u) = Ended)"
        using u other [OF ut] unfolding alive cu len by (intro exI [of _ u]) simp
    qed
    show "wc_ctl s = JoinTake \<longrightarrow> ?c # cs \<noteq> []" by simp
  qed
  have "joined s' = joined s" by (rule joined_frame [OF cn]) (simp only: e alive)
  then have "count_ok s'" using cnt e len by (simp add: count_ok_def before_join_def)
  with clean show ?thesis unfolding stop_inv_def by blast
qed

lemma stop_thread_stop_inv:
  assumes st: "stop_inv s" and t: "t < length (wc_threads s)" and r: "stop_thread strict t s = Inr s'"
  shows "stop_inv s'"
proof (cases "th_pc (wc_threads s ! t)")
  case Stop
  with r have "lock CQ t StopPut s = Inr s'" by (simp add: stop_thread_def)
  then have "quiet t s s'" by (rule quiet_lock [rotated]) (simp add: Stop has_put_def)
  then show ?thesis by (rule quiet_stop_inv [OF _ st t])
next
  case StopPut
  then show ?thesis by (rule stop_put_inv [OF st t _ r])
next
  case StopLeave
  with r have "unlock strict CQ t StopSay s = Inr s'" by (simp add: stop_thread_def)
  then have "quiet t s s'" by (rule quiet_unlock [rotated]) (simp add: StopLeave has_put_def)
  then show ?thesis by (rule quiet_stop_inv [OF _ st t])
next
  case StopSay
  with r have "s' = goto t Ended s" by (auto simp: stop_thread_def split: option.splits)
  then have "quiet t s s'" by (simp add: quiet_goto StopSay has_put_def)
  then show ?thesis by (rule quiet_stop_inv [OF _ st t])
qed (use st r in \<open>simp_all add: stop_thread_def\<close>)

lemma has_put_simps [simp]:
  "\<not> has_put Begin" "\<not> has_put (Outer b)" "\<not> has_put Inner" "\<not> has_put Asleep" "\<not> has_put Relock"
  "\<not> has_put Test" "\<not> has_put Take" "\<not> has_put (Leave b)" "\<not> has_put Pass" "\<not> has_put PassPut"
  "\<not> has_put PassLeave" "\<not> has_put Report" "\<not> has_put Again" "\<not> has_put (Alloc b)" "\<not> has_put (Put b)"
  "\<not> has_put (Exit b)" "\<not> has_put ExitR" "\<not> has_put Stop"
  by (simp_all add: has_put_def)

lemma early_steps:
  assumes "\<not> has_put (th_pc (wc_threads s ! t))" and "\<not> has_put p"
  shows "lock q t p s = Inr s' \<Longrightarrow> quiet t s s'"
    and "unlock strict q t p s = Inr s' \<Longrightarrow> quiet t s s'"
    and "quiet t s (goto t p s)"
    and "quiet t s (goto t p (send_log m s))"
proof -
  have sp: "same_put t s p" using assms by (auto simp: has_put_def)
  show "lock q t p s = Inr s' \<Longrightarrow> quiet t s s'" by (rule quiet_lock [OF sp])
  show "unlock strict q t p s = Inr s' \<Longrightarrow> quiet t s s'" by (rule quiet_unlock [OF sp])
  show "quiet t s (goto t p s)" by (rule quiet_goto [OF sp]) simp_all
  show "quiet t s (goto t p (send_log m s))" by (rule quiet_goto [OF sp]) simp_all
qed

lemmas early_elims = early_steps(1) [rotated 2] early_steps(2) [rotated 2] quiet_await [rotated]

text \<open>
  The locations of the roles' own code: every step there either is quiet or is left to
  \<open>stop_thread\<close>.
\<close>

lemma responder_quiet:
  assumes t: "t < length (wc_threads s)" and r: "responder strict t s = Inr s'"
  shows "quiet t s s' \<or> stop_thread strict t s = Inr s'"
proof (cases "th_pc (wc_threads s ! t)")
  case Take
  with r obtain p s1 s2 where "get_work strict RQ t s = Inr (p, s1)"
    "wr_work p (\<lambda>n. n\<lparr>wn_responder := Suc t\<rparr>) s1 = Inr s2" "s' = goto t (Leave True) (set_node t p s2)"
    by (auto simp: responder_def bind_res_eq_Inr)
  then show ?thesis using quiet_take [of strict RQ t s p s1] Take t by blast
next
  case Report
  with r have "\<exists>m s1. free_work (th_node (wc_threads s ! t)) (send_log m s) = Inr s1 \<and> s' = goto t Again s1"
    by (auto simp: responder_def Let_def bind_res_eq_Inr)
  then obtain m s1 where "free_work (th_node (wc_threads s ! t)) (send_log m s) = Inr s1" "s' = goto t Again s1"
    by blast
  then show ?thesis using free_work_fields Report by (intro disjI1) (simp add: quiet_goto has_put_def)
qed (use r in \<open>auto simp: responder_def quiet_still_active
    intro!: early_steps(3,4) elim!: early_elims split: if_splits\<close>)

lemma processor_quiet:
  assumes t: "t < length (wc_threads s)" and r: "processor strict t s = Inr s'"
  shows "quiet t s s' \<or> stop_thread strict t s = Inr s'"
proof (cases "th_pc (wc_threads s ! t)")
  case Take
  with r obtain p s1 s2 where "get_work strict AQ t s = Inr (p, s1)"
    "wr_work p (\<lambda>n. n\<lparr>wn_processor := Suc t\<rparr>) s1 = Inr s2" "s' = goto t (Leave True) (set_node t p s2)"
    by (auto simp: processor_def bind_res_eq_Inr)
  then show ?thesis using quiet_take [of strict AQ t s p s1] Take t by blast
next
  case PassPut
  with r obtain s1 where "put_work strict RQ t (th_node (wc_threads s ! t)) s = Inr s1" "s' = goto t PassLeave s1"
    by (auto simp: processor_def bind_res_eq_Inr)
  then show ?thesis using put_work_fields [of strict RQ t _ s s1] PassPut
    by (intro disjI1) (simp add: quiet_goto has_put_def)
qed (use r in \<open>auto simp: processor_def quiet_still_active bind_res_eq_Inr
    intro!: early_steps(3,4) elim!: early_elims split: if_splits\<close>)

lemma acceptor_quiet:
  assumes t: "t < length (wc_threads s)" and r: "acceptor strict mem t s = Inr s'"
  shows "quiet t s s' \<or> stop_thread strict t s = Inr s'"
proof (cases "th_pc (wc_threads s ! t)")
  case (Alloc b)
  show ?thesis
  proof (cases mem)
    case True
    with Alloc r have s': "s' = goto t (Put b) (new_work t s)" by (simp add: acceptor_def)
    have "quiet t s s'" unfolding s'
      by (rule quietI [where x = "(wc_threads s ! t)\<lparr>th_node := Some (wc_brk s), th_pc := Put b\<rparr>"])
        (use Alloc t in \<open>simp_all add: has_put_def\<close>)
    then show ?thesis ..
  next
    case False
    with Alloc r have "unlock strict AQ t (Outer False) s = Inr s'" by (simp add: acceptor_def)
    then have "quiet t s s'" by (rule quiet_unlock [rotated]) (simp add: Alloc has_put_def)
    then show ?thesis ..
  qed
next
  case (Put b)
  with r obtain s1 where "put_work strict AQ t (th_node (wc_threads s ! t)) s = Inr s1" "s' = goto t (Leave b) s1"
    by (auto simp: acceptor_def bind_res_eq_Inr)
  then show ?thesis using put_work_fields [of strict AQ t _ s s1] Put
    by (intro disjI1) (simp add: quiet_goto has_put_def)
qed (use r in \<open>auto simp: acceptor_def bind_res_eq_Inr
    intro!: early_steps(3,4) elim!: early_elims split: if_splits\<close>)

lemma crew_step_stop_inv:
  assumes st: "stop_inv s" and r: "crew_step strict mem t s = Inr s'"
  shows "stop_inv s'"
proof (cases "t < length (wc_threads s)")
  case True
  have "quiet t s s' \<or> stop_thread strict t s = Inr s'"
  proof (cases "th_role (wc_threads s ! t)")
    case Responder
    with r True show ?thesis by (intro responder_quiet) (simp_all add: crew_step_def)
  next
    case Acceptor
    with r True show ?thesis by (intro acceptor_quiet [where mem = mem]) (simp_all add: crew_step_def)
  next
    case Processor
    with r True show ?thesis by (intro processor_quiet) (simp_all add: crew_step_def)
  qed
  then show ?thesis using quiet_stop_inv [OF _ st True] stop_thread_stop_inv [OF st True] by blast
next
  case False
  with r st show ?thesis by (simp add: crew_step_def)
qed

section \<open>The thread that stops the server\<close>

lemma deactivate_cases:
  "deactivate q p s = s \<or> (wc_owner s q = None \<and>
     deactivate q p s = (set_control q ((wc_control s q)\<lparr>dc_active := False\<rparr>) s)\<lparr>wc_ctl := p\<rparr>)"
  by (simp add: deactivate_def control_deactivate_def)

lemma clean_ctl:
  assumes "clean_ok s cs" and "wc_cnodes s' = wc_cnodes s" and "wc_threads s' = wc_threads s"
    and "wc_work s' CQ = wc_work s CQ" and "\<not> joining s'" and "wc_ctl s' = JoinTake \<longrightarrow> cs \<noteq> []"
  shows "clean_ok s' cs"
  using assms unfolding clean_ok_def by simp

lemma joined_same: "wc_cnodes s' = wc_cnodes s \<Longrightarrow> wc_threads s' = wc_threads s \<Longrightarrow> joined s' = joined s"
  by (simp add: joined_def)

lemma joined_le: "joined s \<le> length (wc_threads s)"
  by (simp add: joined_def)

lemma filter_one_more:
  assumes "distinct (map f xs)" and "u < length xs" and "\<not> P (f (xs ! u))"
  shows "length (filter (\<lambda>x. f x = f (xs ! u) \<or> P (f x)) xs) = Suc (length (filter (\<lambda>x. P (f x)) xs))"
  using assms
proof (induction xs arbitrary: u)
  case Nil
  then show ?case by simp
next
  case (Cons x xs)
  show ?case
  proof (cases u)
    case 0
    have "f y \<noteq> f x" if "y \<in> set xs" for y using Cons.prems(1) that by (metis distinct.simps(2) image_eqI list.map(2) set_map)
    then have "filter (\<lambda>y. f y = f x \<or> P (f y)) xs = filter (\<lambda>y. P (f y)) xs" by (auto intro: filter_cong)
    with 0 Cons.prems(3) show ?thesis by simp
  next
    case (Suc v)
    then have "f x \<noteq> f (xs ! v)" using Cons.prems(1,2) by auto
    with Suc Cons show ?thesis by simp
  qed
qed

lemma join_take_inv:
  assumes cs: "clean_ok s cs" and cnt: "count_ok s" and pc: "wc_ctl s = JoinTake" and r: "join_threads strict s = Inr s'"
  shows "stop_inv s'"
proof -
  from cs pc obtain c cs' where c: "cs = c # cs'" by (cases cs) (simp_all add: clean_ok_def)
  have hq: "queue_holds (wc_cnodes s) (wc_work s CQ) (c # cs')" using cs c by (simp add: clean_ok_def)
  from queue_get_holds [OF hq] obtain w where w: "queue_get (wc_cnodes s) (wc_work s CQ) = Inr (Some c, w)"
    and hw: "queue_holds (wc_cnodes s) w cs'" by blast
  have s': "s' = (set_work CQ w s)\<lparr>wc_cur := Some c, wc_ctl := JoinLeave\<rparr>" using r pc w by (simp add: join_threads_def)
  have e: "wc_cnodes s' = wc_cnodes s" "wc_threads s' = wc_threads s" "wc_work s' CQ = w" "wc_cur s' = Some c"
    "wc_ctl s' = JoinLeave" "wc_numthreads s' = wc_numthreads s" by (simp_all add: s' set_work_def)
  have dc: "c \<notin> set cs'" using queue_holds_distinct [OF hq] by simp
  have al: "wc_cnodes s c \<noteq> None" using hq by (auto simp: queue_holds_def)
  from cs c obtain u where u: "u < length (wc_threads s)" "th_cnode (wc_threads s ! u) = c" "has_put (th_pc (wc_threads s ! u))"
    unfolding clean_ok_def by (metis in_set_conv_nth list.set_intros(1))
  have "clean_ok s' cs'"
    unfolding clean_ok_def e
  proof (intro conjI)
    show "joining s' \<longrightarrow> (\<exists>t < length (wc_threads s). Some c = Some (th_cnode (wc_threads s ! t))
          \<and> th_cnode (wc_threads s ! t) \<notin> set cs' \<and> wc_cnodes s (th_cnode (wc_threads s ! t)) \<noteq> None
          \<and> has_put (th_pc (wc_threads s ! t))
          \<and> (JoinLeave = JoinFree \<longrightarrow> th_pc (wc_threads s ! t) = Ended))"
      using u dc al by (intro impI exI [of _ u]) simp
  qed (use hw cs c in \<open>simp_all add: clean_ok_def\<close>)
  moreover have "count_ok s'"
    using cnt pc joined_same [OF e(1,2)] e by (simp add: count_ok_def before_join_def)
  ultimately show ?thesis unfolding stop_inv_def by blast
qed

lemma join_node:
  assumes "clean_ok s cs" and "joining s"
  obtains u n where "u < length (wc_threads s)" and "wc_cur s = Some (th_cnode (wc_threads s ! u))"
    and "wc_cnodes s (th_cnode (wc_threads s ! u)) = Some n" and "cn_tid n = u"
    and "th_cnode (wc_threads s ! u) \<notin> set cs" and "has_put (th_pc (wc_threads s ! u))"
    and "wc_ctl s = JoinFree \<Longrightarrow> th_pc (wc_threads s ! u) = Ended"
proof -
  from assms obtain u where u: "u < length (wc_threads s)" "wc_cur s = Some (th_cnode (wc_threads s ! u))"
    "th_cnode (wc_threads s ! u) \<notin> set cs" "wc_cnodes s (th_cnode (wc_threads s ! u)) \<noteq> None"
    "has_put (th_pc (wc_threads s ! u))" "wc_ctl s = JoinFree \<longrightarrow> th_pc (wc_threads s ! u) = Ended"
    unfolding clean_ok_def by blast
  then obtain n where n: "wc_cnodes s (th_cnode (wc_threads s ! u)) = Some n" by blast
  have "cn_tid n = u" using assms(1) u(1) n unfolding clean_ok_def by blast
  with u n show ?thesis using that by blast
qed

text \<open>\<open>pthread_join\<close> stores the thread's result through its second argument, the node itself.\<close>

lemma join_thread_inv:
  assumes cs: "clean_ok s cs" and cnt: "count_ok s" and pc: "wc_ctl s = JoinThread" and r: "join_threads strict s = Inr s'"
  shows "stop_inv s'"
proof -
  have j: "joining s" by (simp add: joining_def pc)
  obtain u n where u: "u < length (wc_threads s)" "wc_cur s = Some (th_cnode (wc_threads s ! u))"
    "wc_cnodes s (th_cnode (wc_threads s ! u)) = Some n" "cn_tid n = u" "th_cnode (wc_threads s ! u) \<notin> set cs"
    "has_put (th_pc (wc_threads s ! u))" by (rule join_node [OF cs j])
  let ?c = "th_cnode (wc_threads s ! u)"
  let ?h = "(wc_cnodes s)(?c \<mapsto> n\<lparr>qn_next := None\<rparr>)"
  show ?thesis
  proof (cases "th_pc (wc_threads s ! u) = Ended")
    case False
    with r pc u have "s' = s" by (simp add: join_threads_def)
    with cs cnt show ?thesis unfolding stop_inv_def by blast
  next
    case True
    with r pc u have s': "s' = s\<lparr>wc_cnodes := ?h, wc_ctl := JoinFree\<rparr>" by (simp add: join_threads_def)
    have e: "wc_cnodes s' = ?h" "wc_threads s' = wc_threads s" "wc_work s' CQ = wc_work s CQ" "wc_cur s' = wc_cur s"
      "wc_ctl s' = JoinFree" "wc_numthreads s' = wc_numthreads s" by (simp_all add: s')
    have alive: "?h c = None \<longleftrightarrow> wc_cnodes s c = None" for c using u(3) by simp
    have hq: "queue_holds ?h (wc_work s CQ) cs" 
    by (rule holds_other [OF _ u(5)]) (use cs in \<open>simp add: clean_ok_def\<close>)
    have tid: "\<forall>t < length (wc_threads s). \<forall>m. ?h (th_cnode (wc_threads s ! t)) = Some m \<longrightarrow> cn_tid m = t"
      using cs u(3) unfolding clean_ok_def by (auto split: if_splits)
    have "clean_ok s' cs"
      unfolding clean_ok_def e alive
    proof (intro conjI)
      show "joining s' \<longrightarrow> (\<exists>t < length (wc_threads s). wc_cur s = Some (th_cnode (wc_threads s ! t))
          \<and> th_cnode (wc_threads s ! t) \<notin> set cs \<and> wc_cnodes s (th_cnode (wc_threads s ! t)) \<noteq> None
          \<and> has_put (th_pc (wc_threads s ! t))
          \<and> (JoinFree = JoinFree \<longrightarrow> th_pc (wc_threads s ! t) = Ended))"
        using u True by (intro impI exI [of _ u]) simp
    qed (use hq tid cs in \<open>simp_all add: clean_ok_def\<close>)
    moreover have "joined s' = joined s" by (rule joined_frame) (simp_all only: e alive)
    then have "count_ok s'" using cnt pc e by (simp add: count_ok_def before_join_def)
    ultimately show ?thesis unfolding stop_inv_def by blast
  qed
qed

lemma join_free_inv:
  assumes cs: "clean_ok s cs" and cnt: "count_ok s" and pc: "wc_ctl s = JoinFree" and r: "join_threads strict s = Inr s'"
  shows "stop_inv s'"
proof -
  have j: "joining s" by (simp add: joining_def pc)
  obtain u n where u: "u < length (wc_threads s)" "wc_cur s = Some (th_cnode (wc_threads s ! u))"
    "wc_cnodes s (th_cnode (wc_threads s ! u)) = Some n" "cn_tid n = u" "th_cnode (wc_threads s ! u) \<notin> set cs"
    and ended: "th_pc (wc_threads s ! u) = Ended" using join_node [OF cs j] pc by metis
  let ?c = "th_cnode (wc_threads s ! u)"
  let ?h = "(wc_cnodes s)(?c := None)"
  from r pc u have s': "s' = s\<lparr>wc_cnodes := ?h, wc_numthreads := wc_numthreads s - 1, wc_ctl := JoinLoop\<rparr>"
    by (simp add: join_threads_def)
  have e: "wc_cnodes s' = ?h" "wc_threads s' = wc_threads s" "wc_work s' CQ = wc_work s CQ"
    "wc_ctl s' = JoinLoop" "wc_numthreads s' = wc_numthreads s - 1" by (simp_all add: s')
  have hq: "queue_holds ?h (wc_work s CQ) cs" 
    by (rule holds_other [OF _ u(5)]) (use cs in \<open>simp add: clean_ok_def\<close>)
  have dist: "distinct (map th_cnode (wc_threads s))" using cs by (simp add: clean_ok_def)
  have neq: "th_cnode (wc_threads s ! t) \<noteq> ?c" if "t < length (wc_threads s)" "t \<noteq> u" for t
    using dist that u(1) by (metis length_map nth_eq_iff_index_eq nth_map)
  have live: "\<forall>t < length (wc_threads s). th_pc (wc_threads s ! t) \<noteq> Ended \<longrightarrow> ?h (th_cnode (wc_threads s ! t)) \<noteq> None"
  proof (intro allI impI)
    fix t
    assume t: "t < length (wc_threads s)" "th_pc (wc_threads s ! t) \<noteq> Ended"
    then have "t \<noteq> u" using ended by blast
    with neq [OF t(1) this] t cs show "?h (th_cnode (wc_threads s ! t)) \<noteq> None" by (simp add: clean_ok_def)
  qed
  have tid: "\<forall>t < length (wc_threads s). \<forall>m. ?h (th_cnode (wc_threads s ! t)) = Some m \<longrightarrow> cn_tid m = t"
    using cs unfolding clean_ok_def by (auto split: if_splits)
  have "clean_ok s' cs"
    unfolding clean_ok_def e
    by (intro conjI) (use hq live tid dist cs in \<open>simp_all add: clean_ok_def joining_def e(4)\<close>)
  moreover have "joined s' = Suc (joined s)"
  proof -
    have "joined s' = length (filter (\<lambda>th. th_cnode th = ?c \<or> wc_cnodes s (th_cnode th) = None) (wc_threads s))"
      unfolding joined_def e by (rule arg_cong [of _ _ length]) (rule filter_cong, auto)
    then show ?thesis unfolding joined_def
      using filter_one_more [OF dist u(1), of "\<lambda>c. wc_cnodes s c = None"] u(3) by simp
  qed
  then have "count_ok s'" using cnt pc e by (simp add: count_ok_def before_join_def)
  ultimately show ?thesis unfolding stop_inv_def by blast
qed

lemma join_threads_stop_inv:
  assumes st: "stop_inv s" and r: "join_threads strict s = Inr s'"
  shows "stop_inv s'"
proof -
  from st obtain cs where cs: "clean_ok s cs" and cnt: "count_ok s" unfolding stop_inv_def by blast
  have ctl: "stop_inv u"
    if "wc_cnodes u = wc_cnodes s" "wc_threads u = wc_threads s" "wc_work u CQ = wc_work s CQ"
      "wc_numthreads u = wc_numthreads s" "\<not> before_join s" "\<not> before_join u"
      "wc_ctl u \<in> {JoinLoop, JoinTest, JoinAsleep, JoinTake}" "wc_ctl u = JoinTake \<longrightarrow> cs \<noteq> []" for u
  proof -
    have "clean_ok u cs"
      by (rule clean_ctl [OF cs]) (use that in \<open>auto simp: joining_def\<close>)
    moreover have "count_ok u"
      using cnt that joined_same [OF that(1,2)] by (auto simp: count_ok_def)
    ultimately show ?thesis unfolding stop_inv_def by blast
  qed
  have hd: "nq_head (wc_work s CQ) = (if cs = [] then None else Some (hd cs))"
    using queue_holds_head cs unfolding clean_ok_def by blast
  show ?thesis
  proof (cases "wc_ctl s")
    case JoinStart
    with r have s': "s' = s\<lparr>wc_ret := wc_numthreads s, wc_numthreads := wc_numthreads s - 1, wc_ctl := JoinLoop\<rparr>"
      by (simp add: join_threads_def)
    have "clean_ok s' cs" by (rule clean_ctl [OF cs]) (simp_all add: s' joining_def)
    moreover have "joined s' = joined s" by (rule joined_same) (simp_all add: s')
    then have "count_ok s'" using cnt JoinStart by (simp add: count_ok_def before_join_def s')
    ultimately show ?thesis unfolding stop_inv_def by blast
  next
    case JoinLoop
    have "wc_numthreads s + 2 \<noteq> 0" using cnt JoinLoop joined_le [of s] by (simp add: count_ok_def before_join_def)
    with r JoinLoop have "s' = (if wc_owner s CQ = None then (set_owner CQ (Some 0) s)\<lparr>wc_ctl := JoinTest\<rparr> else s)"
      by (simp add: join_threads_def)
    then show ?thesis using st JoinLoop ctl [of "(set_owner CQ (Some 0) s)\<lparr>wc_ctl := JoinTest\<rparr>"]
      by (simp add: before_join_def set_owner_def set_control_def)
  next
    case JoinTest
    with r hd have "s' = (if cs = [] then (set_owner CQ None s)\<lparr>wc_ctl := JoinAsleep\<rparr> else s\<lparr>wc_ctl := JoinTake\<rparr>)"
      by (cases "cs = []") (simp_all add: join_threads_def)
    then show ?thesis using JoinTest ctl [of "(set_owner CQ None s)\<lparr>wc_ctl := JoinAsleep\<rparr>"] ctl [of "s\<lparr>wc_ctl := JoinTake\<rparr>"]
      by (simp add: before_join_def set_owner_def set_control_def)
  next
    case JoinRelock
    with r have "s' = (if wc_owner s CQ = None then (set_owner CQ (Some 0) s)\<lparr>wc_ctl := JoinTest\<rparr> else s)"
      by (simp add: join_threads_def)
    then show ?thesis using st JoinRelock ctl [of "(set_owner CQ (Some 0) s)\<lparr>wc_ctl := JoinTest\<rparr>"]
      by (simp add: before_join_def set_owner_def set_control_def)
  next
    case JoinTake
    then show ?thesis by (rule join_take_inv [OF cs cnt _ r])
  next
    case JoinLeave
    with r have s': "s' = (set_owner CQ None s)\<lparr>wc_ctl := JoinThread\<rparr>"
      by (auto simp: join_threads_def split: if_splits)
    have e: "wc_cnodes s' = wc_cnodes s" "wc_threads s' = wc_threads s" "wc_work s' CQ = wc_work s CQ"
      "wc_numthreads s' = wc_numthreads s" "wc_ctl s' = JoinThread" "wc_cur s' = wc_cur s"
      by (simp_all add: s' set_owner_def set_control_def)
    have "clean_ok s' cs" using cs JoinLeave by (simp add: clean_ok_def e joining_def)
    moreover have "count_ok s'"
      using cnt JoinLeave joined_same [OF e(1,2)] by (simp add: count_ok_def before_join_def e)
    ultimately show ?thesis unfolding stop_inv_def by blast
  next
    case JoinThread
    then show ?thesis by (rule join_thread_inv [OF cs cnt _ r])
  next
    case JoinFree
    then show ?thesis by (rule join_free_inv [OF cs cnt _ r])
  qed (use r st in \<open>simp_all add: join_threads_def\<close>)
qed

lemma stop_server_stop_inv:
  assumes st: "stop_inv s" and r: "stop_server strict s = Inr s'"
  shows "stop_inv s'"
proof -
  from st obtain cs where cs: "clean_ok s cs" and cnt: "count_ok s" unfolding stop_inv_def by blast
  have before: "stop_inv u"
    if "wc_cnodes u = wc_cnodes s" "wc_threads u = wc_threads s" "wc_work u CQ = wc_work s CQ"
      "wc_numthreads u = wc_numthreads s" "before_join s" "before_join u" for u
  proof -
    have "clean_ok u cs"
      by (rule clean_ctl [OF cs]) (use that in \<open>auto simp: joining_def before_join_def\<close>)
    moreover have "wc_ctl u \<notin> {JoinReturn, Cleanup, CtlEnd}" using that(6) by (auto simp: before_join_def)
    then have "count_ok u" using cnt that(2,4-6) joined_same [OF that(1,2)] by (simp add: count_ok_def)
    ultimately show ?thesis unfolding stop_inv_def by blast
  qed
  have de: "stop_inv (deactivate q p s)" if "before_join s" "p \<in> {DeactR, DeactC, JoinStart}" for q p
  proof (cases "deactivate q p s = s")
    case True
    with st show ?thesis by simp
  next
    case False
    let ?u = "(set_control q ((wc_control s q)\<lparr>dc_active := False\<rparr>) s)\<lparr>wc_ctl := p\<rparr>"
    have "stop_inv ?u" by (rule before) (use that in \<open>auto simp: before_join_def set_control_def\<close>)
    with False show ?thesis using deactivate_cases [of q p s] by simp
  qed
  show ?thesis
  proof (cases "wc_ctl s")
    case CtlRun
    with r have "s' = s\<lparr>wc_ctl := DeactA\<rparr>" by (simp add: stop_server_def)
    then show ?thesis using CtlRun by (simp add: before before_join_def)
  next
    case DeactA
    with r de [where q = AQ and p = DeactR] show ?thesis by (simp add: stop_server_def before_join_def)
  next
    case DeactR
    with r de [where q = RQ and p = DeactC] show ?thesis by (simp add: stop_server_def before_join_def)
  next
    case DeactC
    with r de [where q = CQ and p = JoinStart] show ?thesis by (simp add: stop_server_def before_join_def)
  next
    case JoinReturn
    with cnt show ?thesis by (simp add: count_ok_def)
  next
    case Cleanup
    with cnt show ?thesis by (simp add: count_ok_def)
  next
    case CtlEnd
    with r st show ?thesis by (simp add: stop_server_def join_threads_def)
  qed (use r join_threads_stop_inv [OF st] in \<open>simp_all add: stop_server_def\<close>)
qed

lemma wake_stop_inv: "stop_inv s \<Longrightarrow> stop_inv (wake t s)"
  unfolding wake_def by (auto intro!: quiet_stop_inv [of t s] early_steps(3))

lemma wake_ctl_stop_inv:
  assumes "stop_inv s"
  shows "stop_inv (wake_ctl s)"
proof (cases "wc_ctl s = JoinAsleep")
  case True
  from assms obtain cs where cs: "clean_ok s cs" and cnt: "count_ok s" unfolding stop_inv_def by blast
  have "clean_ok (wake_ctl s) cs" by (rule clean_ctl [OF cs]) (simp_all add: wake_ctl_def True joining_def)
  moreover have "joined (wake_ctl s) = joined s" by (rule joined_same) (simp_all add: wake_ctl_def)
  then have "count_ok (wake_ctl s)" using cnt True by (simp add: count_ok_def before_join_def wake_ctl_def)
  ultimately show ?thesis unfolding stop_inv_def by blast
next
  case False
  with assms show ?thesis by (simp add: wake_ctl_def)
qed

lemma crew_move_stop_inv: "stop_inv s \<Longrightarrow> crew_move strict m s = Inr s' \<Longrightarrow> stop_inv s'"
  by (cases m) (auto simp: crew_move_def intro: crew_step_stop_inv stop_server_stop_inv wake_stop_inv wake_ctl_stop_inv)

section \<open>The work queues are not its business\<close>

lemma crew_inv_ctl:
  assumes inv: "crew_inv s" and m: "crew_mutex_ok s'"
    and e: "wc_wnodes s' = wc_wnodes s" "wc_threads s' = wc_threads s" "wc_brk s' = wc_brk s"
      "wc_numconnects s' = wc_numconnects s" "wc_log s' = wc_log s"
    and work: "\<And>q. q \<noteq> CQ \<Longrightarrow> wc_work s' q = wc_work s q" and act: "\<And>q. wc_active s' q \<Longrightarrow> wc_active s q"
  shows "crew_inv s'"
proof -
  from inv obtain as rs where n: "nodes_ok s as rs" and j: "jobs_ok s" and th: "threads_ok s"
    unfolding crew_inv_def by blast
  have "nodes_ok s' as rs" by (rule nodes_ok_frame [OF n e(1)]) (simp_all add: work hands_def e(2))
  moreover have "jobs_ok s'" by (rule jobs_ok_frame [OF j]) (simp_all add: e responses_def)
  moreover have "threads_ok s'"
  proof -
    have "home r \<noteq> CQ" for r by (simp add: home_def)
    then have "thread_ok s' x" if "thread_ok s x" for x
      using that work act unfolding thread_ok_def by metis
    with th show ?thesis by (simp add: threads_ok_def e(2))
  qed
  ultimately show ?thesis using m unfolding crew_inv_def by blast
qed

lemma ctl_mutex_move:
  assumes "crew_mutex_ok s" and "\<And>q. wc_owner s' q = wc_owner s q" and "wc_threads s' = wc_threads s"
    and "holds s' 0 = holds s 0"
  shows "crew_mutex_ok s'"
proof -
  have "holds s' i = holds s i" for i using assms(3,4) by (cases i) simp_all
  then have "holds s' = holds s" by blast
  with assms(1,2) show ?thesis by (simp add: crew_mutex_ok_def)
qed

lemma ctl_mutex_lock:
  assumes "crew_mutex_ok s" and "wc_owner s CQ = None" and "holds s 0 = None"
    and "wc_ctl s' = JoinTest" and "wc_threads s' = wc_threads s"
    and "\<And>q. wc_owner s' q = (if q = CQ then Some 0 else wc_owner s q)"
  shows "crew_mutex_ok s'"
proof -
  have "own_ok ((\<lambda>q. wc_owner s q)(CQ \<mapsto> 0)) ((holds s)(0 \<mapsto> CQ))"
    by (rule own_ok_lock) (use assms in \<open>simp_all add: crew_mutex_ok_def\<close>)
  moreover have "(\<lambda>q. wc_owner s' q) = (\<lambda>q. wc_owner s q)(CQ \<mapsto> 0)" using assms(6) by (simp add: fun_eq_iff)
  moreover have "holds s' i = ((holds s)(0 \<mapsto> CQ)) i" for i using assms(4,5) by (cases i) simp_all
  then have "holds s' = (holds s)(0 \<mapsto> CQ)" by blast
  ultimately show ?thesis by (simp add: crew_mutex_ok_def)
qed

lemma ctl_mutex_unlock:
  assumes "crew_mutex_ok s" and "holds s 0 = Some CQ" and "holds s' 0 = None"
    and "wc_threads s' = wc_threads s" and "\<And>q. wc_owner s' q = (if q = CQ then None else wc_owner s q)"
  shows "crew_mutex_ok s'"
proof -
  have "wc_owner s CQ = Some 0" using own_okD [of "\<lambda>q. wc_owner s q" "holds s" 0 CQ] assms(1,2) by (simp add: crew_mutex_ok_def)
  then have "own_ok ((\<lambda>q. wc_owner s q)(CQ := None)) ((holds s)(0 := None))"
    by (intro own_ok_unlock) (use assms in \<open>simp_all add: crew_mutex_ok_def\<close>)
  moreover have "(\<lambda>q. wc_owner s' q) = (\<lambda>q. wc_owner s q)(CQ := None)" using assms(5) by (simp add: fun_eq_iff)
  moreover have "holds s' i = ((holds s)(0 := None)) i" for i using assms(3,4) by (cases i) simp_all
  then have "holds s' = (holds s)(0 := None)" by blast
  ultimately show ?thesis by (simp add: crew_mutex_ok_def)
qed

lemma deactivate_inv:
  assumes "crew_inv s" and "wc_ctl s \<in> {DeactA, DeactR, DeactC}" and "p \<in> {DeactR, DeactC, JoinStart}"
  shows "crew_inv (deactivate q p s)"
proof (cases "deactivate q p s = s")
  case True
  with assms(1) show ?thesis by simp
next
  case False
  let ?u = "(set_control q ((wc_control s q)\<lparr>dc_active := False\<rparr>) s)\<lparr>wc_ctl := p\<rparr>"
  have ctl: "wc_control ?u q' = (if q' = q then (wc_control s q)\<lparr>dc_active := False\<rparr> else wc_control s q')" for q'
    by (simp add: set_control_def)
  have "crew_inv ?u"
  proof (rule crew_inv_ctl [OF assms(1)])
    show "crew_mutex_ok ?u"
      by (rule ctl_mutex_move [of s]) (use assms ctl in \<open>auto simp: crew_inv_def\<close>)
  qed (use ctl in \<open>auto simp: set_control_def split: if_splits\<close>)
  with False show ?thesis using deactivate_cases [of q p s] by simp
qed

text \<open>No step of the stopping thread faults in a run without misuse.\<close>

lemma stop_server_inv:
  assumes inv: "crew_inv s" and st: "stop_inv s"
  shows "\<exists>s'. stop_server True s = Inr s' \<and> crew_inv s'"
proof -
  from st obtain cs where cs: "clean_ok s cs" and cnt: "count_ok s" unfolding stop_inv_def by blast
  have m: "crew_mutex_ok s" using inv by (simp add: crew_inv_def)
  have hd: "nq_head (wc_work s CQ) = (if cs = [] then None else Some (hd cs))"
    using queue_holds_head cs unfolding clean_ok_def by blast
  have move: "crew_inv u" if "holds u 0 = holds s 0" "wc_queues u = wc_queues s" "wc_wnodes u = wc_wnodes s"
      "wc_threads u = wc_threads s" "wc_brk u = wc_brk s" "wc_numconnects u = wc_numconnects s" "wc_log u = wc_log s" for u
    by (rule crew_inv_ctl [OF inv ctl_mutex_move [OF m]]) (use that in simp_all)
  have lock: "crew_inv ((set_owner CQ (Some 0) s)\<lparr>wc_ctl := JoinTest\<rparr>)" if "wc_owner s CQ = None" "holds s 0 = None"
    by (rule crew_inv_ctl [OF inv ctl_mutex_lock [OF m that]])
      (auto simp: set_owner_def set_control_def split: if_splits)
  have unlock: "crew_inv ((set_owner CQ None s)\<lparr>wc_ctl := p\<rparr>)"
    if "holds s 0 = Some CQ" "p \<in> {JoinAsleep, JoinThread}" for p
    by (rule crew_inv_ctl [OF inv ctl_mutex_unlock [OF m that(1)]])
      (use that(2) in \<open>auto simp: set_owner_def set_control_def split: if_splits\<close>)
  show ?thesis
  proof (cases "wc_ctl s")
    case CtlRun
    then show ?thesis by (simp add: stop_server_def move)
  next
    case DeactA
    then show ?thesis using deactivate_inv [OF inv] by (simp add: stop_server_def)
  next
    case DeactR
    then show ?thesis using deactivate_inv [OF inv] by (simp add: stop_server_def)
  next
    case DeactC
    then show ?thesis using deactivate_inv [OF inv] by (simp add: stop_server_def)
  next
    case JoinStart
    then show ?thesis by (simp add: stop_server_def join_threads_def move)
  next
    case JoinLoop
    have "wc_numthreads s + 2 \<noteq> 0" using cnt JoinLoop joined_le [of s] by (simp add: count_ok_def before_join_def)
    with JoinLoop show ?thesis using lock inv by (simp add: stop_server_def join_threads_def)
  next
    case JoinTest
    with hd show ?thesis using unlock [of JoinAsleep]
      by (cases "cs = []") (simp_all add: stop_server_def join_threads_def move)
  next
    case JoinAsleep
    with inv show ?thesis by (simp add: stop_server_def join_threads_def)
  next
    case JoinRelock
    with inv show ?thesis using lock by (simp add: stop_server_def join_threads_def)
  next
    case JoinTake
    with cs obtain c cs' where c: "cs = c # cs'" by (cases cs) (simp_all add: clean_ok_def)
    then obtain w where w: "queue_get (wc_cnodes s) (wc_work s CQ) = Inr (Some c, w)"
      using queue_get_holds cs unfolding clean_ok_def by blast
    let ?u = "(set_work CQ w s)\<lparr>wc_cur := Some c, wc_ctl := JoinLeave\<rparr>"
    have "crew_inv ?u"
    proof (rule crew_inv_ctl [OF inv])
      show "crew_mutex_ok ?u" by (rule ctl_mutex_move [OF m]) (simp_all add: JoinTake set_work_def)
    qed (auto simp: set_work_def split: if_splits)
    with JoinTake w show ?thesis by (simp add: stop_server_def join_threads_def)
  next
    case JoinLeave
    have "wc_owner s CQ = Some 0"
      using own_okD [of "\<lambda>q. wc_owner s q" "holds s" 0 CQ] m JoinLeave by (simp add: crew_mutex_ok_def)
    with JoinLeave show ?thesis using unlock [of JoinThread] by (simp add: stop_server_def join_threads_def)
  next
    case JoinThread
    have j: "joining s" by (simp add: joining_def JoinThread)
    obtain u n where u: "wc_cur s = Some (th_cnode (wc_threads s ! u))"
      "wc_cnodes s (th_cnode (wc_threads s ! u)) = Some n" by (rule join_node [OF cs j])
    with JoinThread inv show ?thesis by (simp add: stop_server_def join_threads_def move)
  next
    case JoinFree
    have j: "joining s" by (simp add: joining_def JoinFree)
    obtain u n where u: "wc_cur s = Some (th_cnode (wc_threads s ! u))"
      "wc_cnodes s (th_cnode (wc_threads s ! u)) = Some n" by (rule join_node [OF cs j])
    with JoinFree show ?thesis by (simp add: stop_server_def join_threads_def move)
  qed (use cnt in \<open>simp_all add: count_ok_def\<close>)
qed

lemma wake_inv: "crew_inv s \<Longrightarrow> crew_inv (wake t s)"
  unfolding wake_def by (auto intro!: inv_goto [OF _ _ refl] simp: loc_defs)

lemma wake_ctl_inv:
  assumes "crew_inv s"
  shows "crew_inv (wake_ctl s)"
proof (cases "wc_ctl s = JoinAsleep")
  case True
  then have w: "wake_ctl s = s\<lparr>wc_ctl := JoinRelock\<rparr>" by (simp add: wake_ctl_def)
  have "crew_mutex_ok (s\<lparr>wc_ctl := JoinRelock\<rparr>)"
    by (rule ctl_mutex_move [of s]) (use assms True in \<open>simp_all add: crew_inv_def\<close>)
  then show ?thesis unfolding w by (rule crew_inv_ctl [OF assms]) simp_all
next
  case False
  with assms show ?thesis by (simp add: wake_ctl_def)
qed

end
