(* ===== verification/WorkcrewProps.thy ===== *)
theory WorkcrewProps
  imports WorkcrewStop
begin

text \<open>
  The properties of the work crew, for a server whose \<open>start_server\<close> succeeded.
\<close>

section \<open>A server that has started\<close>

definition started :: "wc \<Rightarrow> bool" where
  "started s \<longleftrightarrow> wc_wnodes s = Map.empty \<and> wc_log s = [] \<and> wc_numconnects s = 0
     \<and> (\<forall>q. wc_queues s q = \<lparr>wq_control = \<lparr>dc_mutex = None, dc_active = True\<rparr>,
          wq_work = \<lparr>nq_head = None, nq_tail = None\<rparr>\<rparr>)
     \<and> wc_numthreads s = int (length (wc_threads s)) \<and> distinct (map th_cnode (wc_threads s))
     \<and> (\<forall>t < length (wc_threads s). th_pc (wc_threads s ! t) = Begin \<and> th_node (wc_threads s ! t) = None
          \<and> th_cnode (wc_threads s ! t) < wc_brk s
          \<and> (\<exists>n. wc_cnodes s (th_cnode (wc_threads s ! t)) = Some n \<and> cn_tid n = t))"

lemma initialize_structs_started:
  assumes "initialize_structs ok crew_blank = Inr s"
  shows "started s \<and> wc_threads s = []"
proof -
  have "fst (ok q) \<and> snd (ok q)" for q
    using assms by (cases q) (auto simp: initialize_structs_def control_init_def split: if_splits)
  then have ok: "ok = (\<lambda>_. (True, True))" by (simp add: fun_eq_iff prod_eq_iff)
  have "wc_queues s q = \<lparr>wq_control = \<lparr>dc_mutex = None, dc_active = True\<rparr>,
      wq_work = \<lparr>nq_head = None, nq_tail = None\<rparr>\<rparr>" for q
    using assms unfolding ok
    by (cases q) (auto simp: initialize_structs_def control_init_def control_activate_def queue_init_def
        set_control_def set_work_def crew_blank_def)
  moreover have "wc_wnodes s = Map.empty \<and> wc_log s = [] \<and> wc_numconnects s = 0 \<and> wc_numthreads s = 0 \<and> wc_threads s = []"
    using assms unfolding ok
    by (auto simp: initialize_structs_def control_init_def control_activate_def queue_init_def
        set_control_def set_work_def crew_blank_def)
  ultimately show ?thesis by (simp add: started_def)
qed

lemma create_thread_started:
  assumes "started s" and "create_thread ok r s = (False, s')"
  shows "started s' \<and> map th_role (wc_threads s') = map th_role (wc_threads s) @ [r]
    \<and> wc_queues s' = wc_queues s"
proof -
  let ?a = "wc_brk s" and ?n = "length (wc_threads s)"
  let ?c = "\<lparr>qn_next = None, cn_threadnum = wc_numthreads s, cn_tid = ?n\<rparr>"
  have s': "s' = s\<lparr>wc_brk := Suc ?a, wc_cnodes := (wc_cnodes s)(?a \<mapsto> ?c),
      wc_threads := wc_threads s @ [\<lparr>th_role = r, th_pc = Begin, th_node = None, th_cnode = ?a\<rparr>],
      wc_numthreads := wc_numthreads s + 1\<rparr>"
    using assms(2) by (simp add: create_thread_def Let_def split: if_splits)
  have "?a \<notin> set (map th_cnode (wc_threads s))"
    using assms(1) by (auto simp: started_def in_set_conv_nth)
  moreover have "th_cnode (wc_threads s ! t) \<noteq> ?a" if "t < ?n" for t
    using assms(1) that by (auto simp: started_def)
  ultimately show ?thesis using assms(1) unfolding s'
    by (auto simp: started_def nth_append less_Suc_eq)
qed

lemma create_loop_started:
  "started s \<Longrightarrow> create_loop xs s = (False, s') \<Longrightarrow>
     started s' \<and> map th_role (wc_threads s') = map th_role (wc_threads s) @ map snd xs \<and> wc_queues s' = wc_queues s"
proof (induction xs arbitrary: s)
  case Nil
  then show ?case by simp
next
  case (Cons x xs)
  obtain f s1 where c: "create_thread (fst x) (snd x) s = (f, s1)" by fastforce
  with Cons.prems(2) have "\<not> f" and r: "create_loop xs s1 = (False, s')" by (auto split: if_splits)
  with c have c': "create_thread (fst x) (snd x) s = (False, s1)" by simp
  note s1 = create_thread_started [OF Cons.prems(1) c']
  with Cons.IH [OF conjunct1 [OF s1] r] show ?case by simp
qed

lemma start_server_started:
  assumes "start_server iok cok crew_blank = Inr s" and "\<not> wc_abort s"
  shows "started s" and "wc_ctl s = CtlRun" and "map th_role (wc_threads s) = crew_roles"
proof -
  obtain s1 where s1: "initialize_structs iok crew_blank = Inr s1"
    using assms(1) by (auto simp: start_server_def bind_res_eq_Inr)
  note i = initialize_structs_started [OF s1]
  obtain f s2 where s2: "create_threads cok s1 = (f, s2)" by fastforce
  with assms s1 have f: "\<not> f" and s: "s = s2\<lparr>wc_ctl := CtlRun, wc_abort := False\<rparr>"
    by (auto simp: start_server_def)
  from s2 f have "create_loop (zip (map cok [0..<length crew_roles]) crew_roles) s1 = (False, s2)"
    by (simp add: create_threads_def)
  from create_loop_started [OF conjunct1 [OF i] this] i
  have st: "started s2" and roles: "map th_role (wc_threads s2) = crew_roles" by simp_all
  show "map th_role (wc_threads s) = crew_roles" using roles by (simp add: s)
  show "started s" using st by (simp add: started_def s)
  show "wc_ctl s = CtlRun" by (simp add: s)
qed

lemma start_server_inv:
  assumes "start_server iok cok crew_blank = Inr s" and "\<not> wc_abort s"
  shows "crew_inv s" and "stop_inv s"
proof -
  note st = start_server_started(1) [OF assms] and ctl = start_server_started(2) [OF assms]
  have at_begin: "th_pc th = Begin" if "th \<in> set (wc_threads s)" for th
    using st that by (auto simp: started_def in_set_conv_nth)
  have "crew_mutex_ok s"
    unfolding crew_mutex_ok_def
  proof (rule own_okI)
    show "wc_owner s q = Some i \<Longrightarrow> holds s i = Some q" for q i using st by (simp add: started_def)
    show "holds s i = Some q \<Longrightarrow> wc_owner s q = Some i" for q i
      using st by (cases i) (auto simp: started_def held_def ctl split: if_splits)
  qed
  moreover have "sum_list (map owned ths) = {#}" if "set ths \<subseteq> set (wc_threads s)" for ths
    using that at_begin by (induction ths) (auto simp: owned_def in_hand_def)
  then have "hands s = {#}" by (simp add: hands_def)
  then have "nodes_ok s [] []" using st by (simp add: nodes_ok_def started_def queue_holds_def)
  moreover have "jobs_ok s" using st by (simp add: jobs_ok_def started_def responses_def)
  moreover have "threads_ok s" using at_begin by (auto simp: threads_ok_def thread_ok_def has_node_def in_hand_def)
  ultimately show "crew_inv s" unfolding crew_inv_def by blast
  have "clean_ok s []"
    unfolding clean_ok_def using st by (auto simp: started_def queue_holds_def joining_def ctl)
  moreover have "wc_cnodes s (th_cnode th) \<noteq> None" if "th \<in> set (wc_threads s)" for th
    using st that unfolding started_def by (metis in_set_conv_nth option.distinct(1))
  then have "joined s = 0" by (simp add: joined_def filter_empty_conv)
  then have "count_ok s" using st start_server_started(3) [OF assms, THEN arg_cong [of _ _ length]]
    by (simp add: count_ok_def before_join_def started_def ctl)
  ultimately show "stop_inv s" unfolding stop_inv_def by blast
qed

text \<open>Runs keep the invariants; the number and the roles of the threads never change.\<close>

lemma crew_move_inv:
  assumes "crew_inv s" and "stop_inv s" and "crew_move True m s = Inr s'"
  shows "crew_inv s'"
proof -
  have step: "crew_inv s'" if "crew_step True mem t s = Inr s'" for mem t
  proof (cases "t < length (wc_threads s)")
    case True
    with crew_step_inv [OF assms(1,2) True, of mem] that show ?thesis
      by (auto simp: step_ok_def split: option.splits)
  next
    case False
    with that assms(1) show ?thesis by (simp add: crew_step_def)
  qed
  show ?thesis
  proof (cases m)
    case Ctl
    with assms stop_server_inv [OF assms(1,2)] show ?thesis by (auto simp: crew_move_def)
  qed (use assms step wake_inv wake_ctl_inv in \<open>auto simp: crew_move_def\<close>)
qed

lemma crew_run_stop_inv: "stop_inv s \<Longrightarrow> crew_run strict ms s = Inr s' \<Longrightarrow> stop_inv s'"
  unfolding crew_run_def
  by (induction ms arbitrary: s) (auto simp: bind_res_eq_Inr intro: crew_move_stop_inv)

lemma crew_run_inv: "crew_inv s \<Longrightarrow> stop_inv s \<Longrightarrow> crew_run True ms s = Inr s' \<Longrightarrow> crew_inv s'"
  unfolding crew_run_def
  by (induction ms arbitrary: s) (auto simp: bind_res_eq_Inr intro: crew_move_stop_inv crew_move_inv)

section \<open>Properties\<close>

text \<open>The nodes threads have to themselves, as a list.\<close>

definition hand_nodes :: "wc \<Rightarrow> nat list" where
  "hand_nodes s = concat (map (\<lambda>th. if in_hand (th_role th) (th_pc th) then [the (th_node th)] else [])
     (wc_threads s))"

lemma mset_hand_nodes: "mset (hand_nodes s) = hands s"
proof -
  have "mset (concat (map (\<lambda>th. if in_hand (th_role th) (th_pc th) then [the (th_node th)] else []) ths))
      = sum_list (map owned ths)" for ths
    by (induction ths) (auto simp: owned_def)
  then show ?thesis by (simp add: hand_nodes_def hands_def)
qed

lemma distinct_mset_set:
  assumes "mset xs = mset_set A" and "finite A"
  shows "distinct xs"
proof -
  have "set xs = A" using assms by (metis finite_set_mset_mset_set set_mset_mset)
  then show ?thesis using assms by (simp add: distinct_count_atmost_1)
qed

text \<open>C35: whatever the threads of the work crew do, as long as none of them misuses a mutex or
  a queue, no job is lost or answered twice: each job number given out so far is held by
  exactly one node (in the accept queue, in the respond queue, or in the hands of one thread)
  or has been answered, exactly once; the three are disjoint, the queues are well formed, and
  no two threads are between lock and unlock of the same mutex.\<close>

theorem crew_conserves_jobs:
  assumes "start_server iok cok crew_blank = Inr s0" and "\<not> wc_abort s0" and "crew_run True ms s0 = Inr s"
  shows "(\<exists>as rs. queue_holds (wc_wnodes s) (wc_work s AQ) as \<and> queue_holds (wc_wnodes s) (wc_work s RQ) rs
      \<and> distinct (as @ rs @ hand_nodes s)
      \<and> mset (map (job_of s) (as @ rs @ hand_nodes s)) + mset (responses s) = mset [0..<wc_numconnects s])
    \<and> (\<forall>t u q. t < length (wc_threads s) \<and> u < length (wc_threads s) \<and> t \<noteq> u
        \<longrightarrow> \<not> (th_held (wc_threads s ! t) = Some q \<and> th_held (wc_threads s ! u) = Some q))"
proof
  have inv: "crew_inv s"
    by (rule crew_run_inv [OF start_server_inv(1,2) assms(3)]) (use assms in simp_all)
  then obtain as rs where n: "nodes_ok s as rs" and j: "jobs_ok s" unfolding crew_inv_def by blast
  have ms: "mset (as @ rs @ hand_nodes s) = mset_set (dom (wc_wnodes s))"
    using n by (simp add: nodes_ok_def mset_hand_nodes ac_simps)
  show "\<exists>as rs. queue_holds (wc_wnodes s) (wc_work s AQ) as \<and> queue_holds (wc_wnodes s) (wc_work s RQ) rs
      \<and> distinct (as @ rs @ hand_nodes s)
      \<and> mset (map (job_of s) (as @ rs @ hand_nodes s)) + mset (responses s) = mset [0..<wc_numconnects s]"
  proof (intro exI conjI)
    show "queue_holds (wc_wnodes s) (wc_work s AQ) as" "queue_holds (wc_wnodes s) (wc_work s RQ) rs"
      using n by (simp_all add: nodes_ok_def)
    show "distinct (as @ rs @ hand_nodes s)" by (rule distinct_mset_set [OF ms]) (use n in \<open>simp add: nodes_ok_def\<close>)
    show "mset (map (job_of s) (as @ rs @ hand_nodes s)) + mset (responses s) = mset [0..<wc_numconnects s]"
      using j unfolding jobs_ok_def mset_map ms by blast
  qed
  show "\<forall>t u q. t < length (wc_threads s) \<and> u < length (wc_threads s) \<and> t \<noteq> u
        \<longrightarrow> \<not> (th_held (wc_threads s ! t) = Some q \<and> th_held (wc_threads s ! u) = Some q)"
    using crew_mutex_unique [of s] inv unfolding crew_inv_def by blast
qed

section \<open>A server to try the properties on\<close>

definition crew_start :: "wc res" where
  "crew_start = start_server (\<lambda>_. (True, True)) (\<lambda>_. (True, True, True)) crew_blank"

lemma length_crew_roles: "length crew_roles = 12"
  by (simp add: crew_roles_def NUM_RESPONDER_def NUM_PRODUCER_def NUM_CONSUMER_def)

lemma create_loop_ok:
  "\<forall>x \<in> set xs. fst x = (True, True, True) \<Longrightarrow> \<exists>s'. create_loop xs s = (False, s')"
  by (induction xs arbitrary: s) (auto simp: create_thread_def Let_def)

lemma crew_start_ok: "\<exists>s0. crew_start = Inr s0 \<and> \<not> wc_abort s0"
proof -
  obtain s1 where s1: "initialize_structs (\<lambda>_. (True, True)) crew_blank = Inr s1"
    by (simp add: initialize_structs_def control_init_def control_activate_def)
  have "\<exists>s2. create_threads (\<lambda>_. (True, True, True)) s1 = (False, s2)"
    unfolding create_threads_def by (rule create_loop_ok) (auto dest: set_zip_leftD)
  then obtain s2 where "create_threads (\<lambda>_. (True, True, True)) s1 = (False, s2)" ..
  with s1 show ?thesis by (simp add: crew_start_def start_server_def)
qed

lemma crew_start_facts:
  assumes "crew_start = Inr s0" and "\<not> wc_abort s0"
  shows "length (wc_threads s0) = 12"
    and "t < 12 \<Longrightarrow> \<exists>c. wc_threads s0 ! t = \<lparr>th_role = crew_roles ! t, th_pc = Begin, th_node = None, th_cnode = c\<rparr>"
proof -
  have s0: "start_server (\<lambda>_. (True, True)) (\<lambda>_. (True, True, True)) crew_blank = Inr s0"
    using assms(1) by (simp add: crew_start_def)
  note f = start_server_started [OF s0 assms(2)]
  show len: "length (wc_threads s0) = 12" using arg_cong [OF f(3), of length] by (simp add: length_crew_roles)
  assume "t < 12"
  then have "th_role (wc_threads s0 ! t) = crew_roles ! t" "th_pc (wc_threads s0 ! t) = Begin"
    "th_node (wc_threads s0 ! t) = None"
    using f len by (auto simp: started_def simp flip: f(3))
  then show "\<exists>c. wc_threads s0 ! t = \<lparr>th_role = crew_roles ! t, th_pc = Begin, th_node = None, th_cnode = c\<rparr>"
    by (intro exI [of _ "th_cnode (wc_threads s0 ! t)"]) simp
qed

lemmas run_simps = crew_run_def crew_move_def crew_step_def acceptor_def processor_def responder_def
  lock_def unlock_def put_work_def get_work_def rd_work_def wr_work_def free_work_def await_def still_active_def
  queue_put_def queue_get_def new_work_def send_log_def set_node_def goto_def set_owner_def set_control_def set_work_def


lemma roles_at: "crew_roles ! 0 = Responder" "crew_roles ! 4 = Acceptor" "crew_roles ! 8 = Processor"
  by (simp_all add: crew_roles_def NUM_RESPONDER_def NUM_PRODUCER_def NUM_CONSUMER_def nth_append)



text \<open>C37: \<open>stop_server\<close> never returns. \<open>join_threads\<close> ends when \<open>numthreads + 2\<close> is 0, which
  counts the logger and the signal handler that \<open>initialize_structs\<close> has just forgotten: in
  every reachable state the count is 13 less the threads joined, and there are only 12. So
  \<open>cleanup_structs\<close> is never reached; this holds whatever the misuses above do.\<close>

theorem stop_server_never_returns:
  assumes "start_server iok cok crew_blank = Inr s0" and "\<not> wc_abort s0" and "crew_run strict ms s0 = Inr s"
  shows "wc_ctl s \<notin> {JoinReturn, Cleanup, CtlEnd} \<and> joined s \<le> 12
    \<and> (before_join s \<or> wc_numthreads s + 2 = 13 - int (joined s))"
proof -
  have st: "stop_inv s"
    by (rule crew_run_stop_inv [OF start_server_inv(2) assms(3)]) (use assms in simp_all)
  have "length (wc_threads s) = 12"
    using st by (simp add: stop_inv_def count_ok_def length_crew_roles)
  with st joined_le [of s] show ?thesis by (auto simp: stop_inv_def count_ok_def)
qed

section \<open>The properties on that server\<close>

theorem crew_conserves_jobs_witness:
  "\<exists>s0 s as rs. crew_start = Inr s0 \<and> crew_run True [Run 4, Run 4, Run 4] s0 = Inr s
    \<and> mset (map (job_of s) (as @ rs @ hand_nodes s)) + mset (responses s) = {#0#}"
proof -
  obtain s0 where s0: "crew_start = Inr s0" "\<not> wc_abort s0" using crew_start_ok by blast
  note f = start_server_started [OF s0(1) [unfolded crew_start_def] s0(2)]
  obtain c where c: "wc_threads s0 ! 4 = \<lparr>th_role = Acceptor, th_pc = Begin, th_node = None, th_cnode = c\<rparr>"
    using crew_start_facts(2) [OF s0, of 4] by (auto simp: roles_at)
  have q: "wc_queues s0 q = \<lparr>wq_control = \<lparr>dc_mutex = None, dc_active = True\<rparr>,
      wq_work = \<lparr>nq_head = None, nq_tail = None\<rparr>\<rparr>" for q using f(1) by (simp add: started_def)
  have "case crew_run True [Run 4, Run 4, Run 4] s0 of Inl e \<Rightarrow> False | Inr s \<Rightarrow> wc_numconnects s = 1"
    using f(1) by (simp add: run_simps c q crew_start_facts(1) [OF s0] started_def)
  then obtain s where s: "crew_run True [Run 4, Run 4, Run 4] s0 = Inr s" "wc_numconnects s = 1"
    by (auto split: sum.splits)
  from crew_conserves_jobs [OF s0(1) [unfolded crew_start_def] s0(2) s(1), THEN conjunct1]
  obtain as rs where "mset (map (job_of s) (as @ rs @ hand_nodes s)) + mset (responses s) = {#0#}"
    by (auto simp: s(2))
  with s0(1) s(1) show ?thesis by blast
qed


theorem stop_server_never_returns_witness:
  "\<exists>s0 s. crew_start = Inr s0 \<and> crew_run False [Ctl, Ctl, Ctl, Ctl, Ctl] s0 = Inr s
    \<and> wc_ctl s = JoinLoop \<and> wc_numthreads s + 2 = 13 - int (joined s)"
proof -
  obtain s0 where s0: "crew_start = Inr s0" "\<not> wc_abort s0" using crew_start_ok by blast
  note f = start_server_started [OF s0(1) [unfolded crew_start_def] s0(2)]
  have q: "wc_queues s0 q = \<lparr>wq_control = \<lparr>dc_mutex = None, dc_active = True\<rparr>,
      wq_work = \<lparr>nq_head = None, nq_tail = None\<rparr>\<rparr>" for q using f(1) by (simp add: started_def)
  have "case crew_run False [Ctl, Ctl, Ctl, Ctl, Ctl] s0 of Inl e \<Rightarrow> False | Inr s \<Rightarrow> wc_ctl s = JoinLoop"
    by (simp add: crew_run_def crew_move_def stop_server_def join_threads_def deactivate_def control_deactivate_def
        set_control_def q f(2))
  then obtain s where s: "crew_run False [Ctl, Ctl, Ctl, Ctl, Ctl] s0 = Inr s" "wc_ctl s = JoinLoop"
    by (auto split: sum.splits)
  from stop_server_never_returns [OF s0(1) [unfolded crew_start_def] s0(2) s(1)] s(2)
  have "wc_numthreads s + 2 = 13 - int (joined s)" by (simp add: before_join_def)
  with s0(1) s show ?thesis by blast
qed

end
