(* ===== verification/MsgLog.thy ===== *)
theory MsgLog
  imports Prelude
begin

text \<open>
  The message queue wrappers workcrew/message.c and their reader, the logger thread of
  workcrew-log8.c. The kernel's queues are a map from identifiers to lists of typed messages;
  whether there is room for a queue or a message is the kernel's decision and an argument.
  Messages and buffers are lists of bytes, a C string in one ends at its first 0.
\<close>

definition MSGSZ :: nat where "MSGSZ = 256"

definition KEY :: int where "KEY = 1249"

type_synonym kmsg = "int \<times> u8 list"

record kqueues =
  kq_id :: "int \<Rightarrow> int option"
  kq_msgs :: "int \<Rightarrow> kmsg list option"
  kq_next :: int

section \<open>message.c\<close>

text \<open>\<open>strcpy\<close> into a buffer of \<open>sz\<close> bytes: the bytes written.\<close>

definition c_str :: "u8 list \<Rightarrow> u8 list" where
  "c_str bs = takeWhile (\<lambda>b. b \<noteq> 0) bs"

definition strcpy :: "nat \<Rightarrow> u8 list \<Rightarrow> u8 list res" where
  "strcpy sz src = (if 0 \<notin> set src then Inl BadPointer
     else if sz \<le> length (c_str src) then Inl IndexFault else Inr (c_str src @ [0]))"

definition message_init :: "bool \<Rightarrow> kqueues \<Rightarrow> int \<times> kqueues" where
  "message_init room s = (case kq_id s KEY of
       Some q \<Rightarrow> (q, s)
     | None \<Rightarrow>
         (if room then (kq_next s, s\<lparr>kq_id := (kq_id s)(KEY := Some (kq_next s)),
             kq_msgs := (kq_msgs s)(kq_next s := Some []), kq_next := kq_next s + 1\<rparr>)
          else (- 1, s)))"

definition message_send ::
  "(kmsg list \<Rightarrow> u8 list \<Rightarrow> bool) \<Rightarrow> u8 list \<Rightarrow> int \<Rightarrow> kqueues \<Rightarrow> (int \<times> kqueues) res" where
  "message_send fits msg qid s = bind_res (strcpy MSGSZ msg) (\<lambda>mtext.
     case kq_msgs s qid of
       None \<Rightarrow> Inr (- 1, s)
     | Some ms \<Rightarrow>
         (if fits ms mtext then Inr (0, s\<lparr>kq_msgs := (kq_msgs s)(qid := Some (ms @ [(1, mtext)]))\<rparr>)
          else Inr (- 1, s)))"

text \<open>\<open>msgrcv\<close> takes the first message of type 1; one that is too long stays, with an error.\<close>

fun first_typed :: "kmsg list \<Rightarrow> (u8 list \<times> kmsg list) option" where
  "first_typed [] = None"
| "first_typed ((t, bs) # ms) = (if t = 1 then Some (bs, ms)
     else map_option (\<lambda>(b, r). (b, (t, bs) # r)) (first_typed ms))"

text \<open>The result is \<open>None\<close> while the call blocks; otherwise its value and the buffer at \<open>msg\<close>.\<close>

definition message_recv :: "u8 list \<Rightarrow> int \<Rightarrow> kqueues \<Rightarrow> (int \<times> u8 list \<times> kqueues) option res" where
  "message_recv msg qid s = (case kq_msgs s qid of
       None \<Rightarrow> Inr (Some (- 1, msg, s))
     | Some ms \<Rightarrow> (case first_typed ms of
           None \<Rightarrow> Inr None
         | Some (rbuf, ms') \<Rightarrow>
             if MSGSZ < length rbuf then Inr (Some (- 1, msg, s))
             else bind_res (strcpy (length msg) rbuf) (\<lambda>bs.
               Inr (Some (int (length (c_str rbuf)), bs @ drop (length bs) msg,
                 s\<lparr>kq_msgs := (kq_msgs s)(qid := Some ms')\<rparr>)))))"

section \<open>The logger\<close>

text \<open>
  One round of \<open>while (1)\<close>: what is printed (without the time), the buffer and the queues;
  \<open>None\<close> while it waits. The result of \<open>message_recv\<close> is not tested.
\<close>

definition logger_round :: "int \<Rightarrow> u8 list \<Rightarrow> kqueues \<Rightarrow> (u8 list \<times> u8 list \<times> kqueues) option res" where
  "logger_round qid msg s = bind_res (message_recv msg qid s) (\<lambda>r. case r of
       None \<Rightarrow> Inr None
     | Some (_, msg', s') \<Rightarrow> if 0 \<in> set msg' then Inr (Some (c_str msg', msg', s')) else Inl BadPointer)"

text \<open>What \<open>stop_logger\<close> does to the queue: \<open>msgctl\<close> with \<open>IPC_RMID\<close>.\<close>

definition remove_queue :: "int \<Rightarrow> kqueues \<Rightarrow> kqueues" where
  "remove_queue qid s = s\<lparr>kq_msgs := (kq_msgs s)(qid := None),
     kq_id := (\<lambda>k. if kq_id s k = Some qid then None else kq_id s k)\<rparr>"

text \<open>Senders and the logger in any order: the messages accepted, those printed, the rest.\<close>

datatype log_event = LogSend "u8 list" "kmsg list \<Rightarrow> u8 list \<Rightarrow> bool" | LogRound

record log_state =
  lg_queues :: kqueues
  lg_msg :: "u8 list"
  lg_accepted :: "u8 list list"
  lg_printed :: "u8 list list"

fun log_step :: "int \<Rightarrow> log_event \<Rightarrow> log_state \<Rightarrow> log_state res" where
  "log_step qid (LogSend m fits) s =
     bind_res (message_send fits m qid (lg_queues s)) (\<lambda>(r, q).
       Inr (s\<lparr>lg_queues := q, lg_accepted := lg_accepted s @ (if r = 0 then [c_str m] else [])\<rparr>))"
| "log_step qid LogRound s =
     bind_res (logger_round qid (lg_msg s) (lg_queues s)) (\<lambda>r. case r of
         None \<Rightarrow> Inr s
       | Some (line, msg, q) \<Rightarrow>
           Inr (s\<lparr>lg_queues := q, lg_msg := msg, lg_printed := lg_printed s @ [line]\<rparr>))"

section \<open>What is logged\<close>

lemma c_str_simps [simp]:
  "0 \<notin> set c \<Longrightarrow> c_str (c @ 0 # bs) = c"
  "0 \<notin> set (c_str bs)"
  "0 \<in> set bs \<Longrightarrow> length (c_str bs) < length bs"
proof -
  show "0 \<notin> set c \<Longrightarrow> c_str (c @ 0 # bs) = c"
    by (auto simp: c_str_def takeWhile_append)
  show "0 \<notin> set (c_str bs)" by (auto simp: c_str_def dest: set_takeWhileD)
  show "0 \<in> set bs \<Longrightarrow> length (c_str bs) < length bs"
    by (induction bs) (auto simp: c_str_def)
qed

lemma strcpy_string: "0 \<notin> set c \<Longrightarrow> length c < sz \<Longrightarrow> strcpy sz (c @ [0]) = Inr (c @ [0])"
  by (simp add: strcpy_def)

lemma first_typed_own: "first_typed (map (Pair 1) bss) = (case bss of [] \<Rightarrow> None | b # bs \<Rightarrow> Some (b, map (Pair 1) bs))"
  by (cases bss) simp_all

text \<open>The queue holds complete strings, and what was accepted is what was printed and what waits.\<close>

definition log_inv :: "int \<Rightarrow> log_state \<Rightarrow> bool" where
  "log_inv qid s \<longleftrightarrow> length (lg_msg s) = MSGSZ \<and>
     (\<exists>cs. kq_msgs (lg_queues s) qid = Some (map (\<lambda>c. (1, c @ [0])) cs) \<and>
       (\<forall>c \<in> set cs. 0 \<notin> set c \<and> length c < MSGSZ) \<and> lg_accepted s = lg_printed s @ cs)"

lemma log_send_inv:
  assumes "log_inv qid s" "0 \<in> set m" "length (c_str m) < MSGSZ"
  shows "\<exists>s'. log_step qid (LogSend m fits) s = Inr s' \<and> log_inv qid s'"
proof -
  from assms(1) obtain cs where cs: "length (lg_msg s) = MSGSZ"
    "kq_msgs (lg_queues s) qid = Some (map (\<lambda>c. (1, c @ [0])) cs)"
    "\<forall>c \<in> set cs. 0 \<notin> set c \<and> length c < MSGSZ" "lg_accepted s = lg_printed s @ cs"
    by (auto simp: log_inv_def)
  have cp: "strcpy MSGSZ m = Inr (c_str m @ [0])" using assms(2,3) by (simp add: strcpy_def)
  show ?thesis
  proof (cases "fits (map (\<lambda>c. (1, c @ [0])) cs) (c_str m @ [0])")
    case True
    with cs cp assms(3) show ?thesis
      by (auto simp: message_send_def log_inv_def intro!: exI [of _ "cs @ [c_str m]"])
  next
    case False
    with cs cp show ?thesis by (simp add: message_send_def log_inv_def)
  qed
qed

lemma log_round_inv:
  assumes "log_inv qid s"
  shows "\<exists>s'. log_step qid LogRound s = Inr s' \<and> log_inv qid s'"
proof -
  from assms obtain cs where cs: "length (lg_msg s) = MSGSZ"
    "kq_msgs (lg_queues s) qid = Some (map (\<lambda>c. (1, c @ [0])) cs)"
    "\<forall>c \<in> set cs. 0 \<notin> set c \<and> length c < MSGSZ" "lg_accepted s = lg_printed s @ cs"
    by (auto simp: log_inv_def)
  show ?thesis
  proof (cases cs)
    case Nil
    with cs assms show ?thesis by (simp add: logger_round_def message_recv_def)
  next
    case (Cons c cs')
    with cs have c: "0 \<notin> set c" "length c < MSGSZ" by auto
    then have "strcpy (length (lg_msg s)) (c @ [0]) = Inr (c @ [0])" using cs(1) by (simp add: strcpy_string)
    with cs c Cons show ?thesis
      by (auto simp: logger_round_def message_recv_def log_inv_def)
  qed
qed

text \<open>Whatever the order of senders and logger: no fault, and every accepted message is printed
  in order, exactly once, or still waits; one refused for lack of room is lost.\<close>

lemma logger_prints_accepted:
  assumes "log_inv qid s"
    and "\<forall>e \<in> set es. \<forall>m fits. e = LogSend m fits \<longrightarrow> 0 \<in> set m \<and> length (c_str m) < MSGSZ"
  shows "\<exists>s'. for_each es (log_step qid) s = Inr s' \<and> log_inv qid s'"
  using assms
proof (induction es arbitrary: s)
  case (Cons e es)
  have "\<exists>t. log_step qid e s = Inr t \<and> log_inv qid t"
    using Cons.prems log_send_inv log_round_inv by (cases e) auto
  then obtain t where "log_step qid e s = Inr t" "log_inv qid t" by auto
  with Cons show ?case by auto
qed auto

lemma log_start:
  assumes "message_init True s = (qid, s')" "kq_id s KEY = None" "length msg = MSGSZ"
  shows "log_inv qid \<lparr>lg_queues = s', lg_msg = msg, lg_accepted = [], lg_printed = []\<rparr>"
  using assms by (auto simp: message_init_def log_inv_def)

text \<open>A message of 256 characters or more runs over the buffer.\<close>

lemma message_send_overflow:
  "0 \<in> set m \<Longrightarrow> MSGSZ \<le> length (c_str m) \<Longrightarrow> message_send fits m qid s = Inl IndexFault"
  by (simp add: message_send_def strcpy_def)

text \<open>
  After \<open>stop_logger\<close> the logger does not stop: \<open>message_recv\<close> fails at once, and since its result
  is not tested the last message is printed over and over.
\<close>

lemma stopped_logger_repeats:
  assumes "0 \<in> set msg"
  shows "logger_round qid msg (remove_queue qid s) = Inr (Some (c_str msg, msg, remove_queue qid s))"
  using assms by (simp add: logger_round_def message_recv_def remove_queue_def)

end
