(* ===== verification/Runs.thy ===== *)
theory Runs
  imports Prelude
begin

text \<open>
  The contract a program meets when each of its runs ends, and ends well: an invariant, a rank
  that every step lowers, and a step from every state that is not final. The steps that make
  progress may be fewer than all steps.
\<close>

locale ending_runs =
  fixes step go :: "'s \<Rightarrow> 's \<Rightarrow> bool"
    and start :: 's
    and inv final :: "'s \<Rightarrow> bool"
    and rank :: "'s \<Rightarrow> nat"
  assumes inv_start: "inv start"
    and inv_step: "inv s \<Longrightarrow> step s s' \<Longrightarrow> inv s'"
    and rank_step: "inv s \<Longrightarrow> step s s' \<Longrightarrow> rank s' < rank s"
    and go_step: "go s s' \<Longrightarrow> step s s'"
    and progress: "inv s \<Longrightarrow> \<not> final s \<Longrightarrow> \<exists>s'. go s s'"
begin

lemma run_bound: "(step ^^ n) start s \<Longrightarrow> inv s \<and> n + rank s \<le> rank start"
proof (induction n arbitrary: s)
  case 0
  then show ?case using inv_start by auto
next
  case (Suc n)
  then obtain t where t: "(step ^^ n) start t" "step t s" by auto
  with Suc.IH [OF t(1)] inv_step [of t s] rank_step [of t s] show ?case by auto
qed

lemma run_ends: "(step ^^ n) start s \<Longrightarrow> (\<forall>s'. \<not> go s s') \<Longrightarrow> inv s \<and> final s"
  using run_bound progress by blast

lemma run_goes_on: "inv s \<Longrightarrow> \<exists>t. go\<^sup>*\<^sup>* s t \<and> inv t \<and> final t"
proof (induction "rank s" arbitrary: s rule: less_induct)
  case less
  show ?case
  proof (cases "final s")
    case False
    then obtain s' where s': "go s s'" using progress [OF less.prems] by auto
    with less.hyps [of s'] inv_step [OF less.prems] rank_step [OF less.prems] go_step
    obtain t where "go\<^sup>*\<^sup>* s' t" "inv t" "final t" by blast
    with s' show ?thesis by (meson converse_rtranclp_into_rtranclp)
  qed (use less.prems in auto)
qed

end

text \<open>A run given by the order of its moves.\<close>

primrec moves :: "('m \<Rightarrow> 's \<Rightarrow> 's option) \<Rightarrow> 'm list \<Rightarrow> 's \<Rightarrow> 's option" where
  "moves move [] s = Some s"
| "moves move (m # ms) s = (case move m s of None \<Rightarrow> None | Some s' \<Rightarrow> moves move ms s')"

lemma moves_steps:
  "(\<And>m s s'. move m s = Some s' \<Longrightarrow> step s s') \<Longrightarrow> moves move ms s = Some s' \<Longrightarrow>
    (step ^^ length ms) s s'"
proof (induction ms arbitrary: s)
  case (Cons m ms)
  then obtain t where t: "move m s = Some t" "moves move ms t = Some s'"
    by (auto split: option.splits)
  have "(step ^^ Suc (length ms)) s s'"
    using Cons.prems(1) [OF t(1)] Cons.IH [OF Cons.prems(1) t(2)] by (rule relpowp_Suc_I2)
  then show ?case by simp
qed simp

end
