(* ===== verification/LectureThreads.thy ===== *)
theory LectureThreads
  imports Runs
begin

text \<open>
  The three lecture programs pthreads/cs2106-lec05-race.c, -mutex.c and -cond.c: one thread takes
  nine from a shared number, another adds nine, first without protection, then under a mutex, then
  with the wish that the adding thread comes second. Every access of the shared number is a step
  of its own, so \<open>*x = *x - 1\<close> is a load and a store that the other thread may come between.

  \<open>pthread_mutex_lock\<close> blocks while the mutex is owned; \<open>pthread_cond_wait\<close> gives the mutex up,
  sleeps until a signal (or without one, as the library may), and takes the mutex again.
\<close>

datatype tid = Less | More

datatype less_pc = LNew | LHead | LLock | LLoad | LStore | LPrint | LUnlock | LSignal | LDone

datatype more_pc =
  MNew | MLock | MTest | MWait | MRelock | MHead | MLoad | MStore | MPrint | MUnlock | MDone

datatype main_pc = CreateMore | CreateLess | JoinMore | JoinLess | NewLine | MainDone

text \<open>The shared number, what was printed, the mutex, and each thread's place, loop variable and
  register.\<close>

record lecture =
  xval :: int
  printed :: "int list"
  owner :: "tid option"
  less_at :: less_pc
  less_i :: nat
  less_reg :: int
  more_at :: more_pc
  more_i :: nat
  more_reg :: int
  main_at :: main_pc

definition lecture_start :: lecture where
  "lecture_start = \<lparr>xval = 0, printed = [], owner = None, less_at = LNew, less_i = 0, less_reg = 0,
     more_at = MNew, more_i = 0, more_reg = 0, main_at = CreateMore\<rparr>"

text \<open>What one step of a thread does; \<open>None\<close>: it is blocked or not running.\<close>

definition print_x :: "lecture \<Rightarrow> lecture" where
  "print_x s = s\<lparr>printed := printed s @ [xval s]\<rparr>"

section \<open>cs2106-lec05-race.c\<close>

definition less_race :: "lecture \<Rightarrow> lecture option" where
  "less_race s = (case less_at s of
       LHead \<Rightarrow> Some (if less_i s < 9 then s\<lparr>less_at := LLoad\<rparr> else s\<lparr>less_at := LDone\<rparr>)
     | LLoad \<Rightarrow> Some (s\<lparr>less_reg := xval s, less_at := LStore\<rparr>)
     | LStore \<Rightarrow> Some (s\<lparr>xval := less_reg s - 1, less_at := LPrint\<rparr>)
     | LPrint \<Rightarrow> Some ((print_x s)\<lparr>less_i := less_i s + 1, less_at := LHead\<rparr>)
     | _ \<Rightarrow> None)"

definition more_race :: "lecture \<Rightarrow> lecture option" where
  "more_race s = (case more_at s of
       MHead \<Rightarrow> Some (if more_i s < 9 then s\<lparr>more_at := MLoad\<rparr> else s\<lparr>more_at := MDone\<rparr>)
     | MLoad \<Rightarrow> Some (s\<lparr>more_reg := xval s, more_at := MStore\<rparr>)
     | MStore \<Rightarrow> Some (s\<lparr>xval := more_reg s + 1, more_at := MPrint\<rparr>)
     | MPrint \<Rightarrow> Some ((print_x s)\<lparr>more_i := more_i s + 1, more_at := MHead\<rparr>)
     | _ \<Rightarrow> None)"

text \<open>\<open>main\<close> is the same in the three programs but for the places where the threads begin.\<close>

definition lecture_main :: "less_pc \<Rightarrow> more_pc \<Rightarrow> lecture \<Rightarrow> lecture option" where
  "lecture_main l m s = (case main_at s of
       CreateMore \<Rightarrow> Some (s\<lparr>more_at := m, main_at := CreateLess\<rparr>)
     | CreateLess \<Rightarrow> Some (s\<lparr>less_at := l, main_at := JoinMore\<rparr>)
     | JoinMore \<Rightarrow> (if more_at s = MDone then Some (s\<lparr>main_at := JoinLess\<rparr>) else None)
     | JoinLess \<Rightarrow> (if less_at s = LDone then Some (s\<lparr>main_at := NewLine\<rparr>) else None)
     | NewLine \<Rightarrow> Some (s\<lparr>main_at := MainDone\<rparr>)
     | MainDone \<Rightarrow> None)"

inductive race_step :: "lecture \<Rightarrow> lecture \<Rightarrow> bool" where
  race_less: "less_race s = Some s' \<Longrightarrow> race_step s s'"
| race_more: "more_race s = Some s' \<Longrightarrow> race_step s s'"
| race_main: "lecture_main LHead MHead s = Some s' \<Longrightarrow> race_step s s'"

section \<open>cs2106-lec05-mutex.c\<close>

definition less_mutex :: "lecture \<Rightarrow> lecture option" where
  "less_mutex s = (case less_at s of
       LHead \<Rightarrow> Some (if less_i s < 9 then s\<lparr>less_at := LLock\<rparr> else s\<lparr>less_at := LDone\<rparr>)
     | LLock \<Rightarrow> (if owner s = None then Some (s\<lparr>owner := Some Less, less_at := LLoad\<rparr>) else None)
     | LLoad \<Rightarrow> Some (s\<lparr>less_reg := xval s, less_at := LStore\<rparr>)
     | LStore \<Rightarrow> Some (s\<lparr>xval := less_reg s - 1, less_at := LPrint\<rparr>)
     | LPrint \<Rightarrow> Some ((print_x s)\<lparr>less_at := LUnlock\<rparr>)
     | LUnlock \<Rightarrow> Some (s\<lparr>owner := None, less_i := less_i s + 1, less_at := LHead\<rparr>)
     | _ \<Rightarrow> None)"

definition more_mutex :: "lecture \<Rightarrow> lecture option" where
  "more_mutex s = (case more_at s of
       MLock \<Rightarrow> (if owner s = None then Some (s\<lparr>owner := Some More, more_at := MHead\<rparr>) else None)
     | MHead \<Rightarrow> Some (if more_i s < 9 then s\<lparr>more_at := MLoad\<rparr> else s\<lparr>more_at := MUnlock\<rparr>)
     | MLoad \<Rightarrow> Some (s\<lparr>more_reg := xval s, more_at := MStore\<rparr>)
     | MStore \<Rightarrow> Some (s\<lparr>xval := more_reg s + 1, more_at := MPrint\<rparr>)
     | MPrint \<Rightarrow> Some ((print_x s)\<lparr>more_i := more_i s + 1, more_at := MHead\<rparr>)
     | MUnlock \<Rightarrow> Some (s\<lparr>owner := None, more_at := MDone\<rparr>)
     | _ \<Rightarrow> None)"

inductive mutex_step :: "lecture \<Rightarrow> lecture \<Rightarrow> bool" where
  mutex_less: "less_mutex s = Some s' \<Longrightarrow> mutex_step s s'"
| mutex_more: "more_mutex s = Some s' \<Longrightarrow> mutex_step s s'"
| mutex_main: "lecture_main LHead MLock s = Some s' \<Longrightarrow> mutex_step s s'"

section \<open>cs2106-lec05-cond.c\<close>

definition less_cond :: "lecture \<Rightarrow> lecture option" where
  "less_cond s = (case less_at s of
       LHead \<Rightarrow> Some (if less_i s < 9 then s\<lparr>less_at := LLock\<rparr> else s\<lparr>less_at := LSignal\<rparr>)
     | LSignal \<Rightarrow> Some (s\<lparr>more_at := (if more_at s = MWait then MRelock else more_at s),
         less_at := LDone\<rparr>)
     | _ \<Rightarrow> less_mutex s)"

definition more_cond :: "lecture \<Rightarrow> lecture option" where
  "more_cond s = (case more_at s of
       MLock \<Rightarrow> (if owner s = None then Some (s\<lparr>owner := Some More, more_at := MTest\<rparr>) else None)
     | MTest \<Rightarrow> Some (if xval s = 0 then s\<lparr>owner := None, more_at := MWait\<rparr>
         else s\<lparr>more_at := MHead\<rparr>)
     | MRelock \<Rightarrow> (if owner s = None then Some (s\<lparr>owner := Some More, more_at := MHead\<rparr>) else None)
     | _ \<Rightarrow> more_mutex s)"

text \<open>A step of the program, and any step: the waiting thread may also wake up unasked.\<close>

inductive cond_run :: "lecture \<Rightarrow> lecture \<Rightarrow> bool" where
  cond_less: "less_cond s = Some s' \<Longrightarrow> cond_run s s'"
| cond_more: "more_cond s = Some s' \<Longrightarrow> cond_run s s'"
| cond_main: "lecture_main LHead MLock s = Some s' \<Longrightarrow> cond_run s s'"

inductive cond_step :: "lecture \<Rightarrow> lecture \<Rightarrow> bool" where
  cond_go: "cond_run s s' \<Longrightarrow> cond_step s s'"
| cond_wake: "more_at s = MWait \<Longrightarrow> cond_step s (s\<lparr>more_at := MRelock\<rparr>)"

inductive_cases race_stepE: "race_step s s'"
inductive_cases mutex_stepE: "mutex_step s s'"
inductive_cases cond_runE: "cond_run s s'"
inductive_cases cond_stepE: "cond_step s s'"

section \<open>The protected programs\<close>

text \<open>
  What is printed when \<open>k\<close> subtractions came before the additions: the numbers on the way down
  to \<open>-k\<close>, the \<open>u\<close> additions in one piece, and the rest of the \<open>d\<close> subtractions.
\<close>

definition transcript :: "nat \<Rightarrow> nat \<Rightarrow> nat \<Rightarrow> int list" where
  "transcript k u d = map (\<lambda>j. - int j) [1..<k + 1] @ map (\<lambda>j. int j - int k) [1..<u + 1] @
     map (\<lambda>j. int u - int j) [k + 1..<d + 1]"

lemma transcript_down: "k \<le> d \<Longrightarrow> transcript k u (Suc d) = transcript k u d @ [int u - int (Suc d)]"
  by (simp add: transcript_def)

lemma transcript_up: "transcript d (Suc u) d = transcript d u d @ [int (Suc u) - int d]"
  by (simp add: transcript_def)

lemma transcript_enter: "k \<le> d \<Longrightarrow> transcript d 0 d = transcript k 0 d"
proof (induction d)
  case (Suc d)
  then show ?case by (cases "k = Suc d") (auto simp: transcript_def)
qed simp

text \<open>
  At each place: whether the thread owns the mutex, how far its loop can be, and whether the
  current round has already changed the number, or printed it.
\<close>

fun less_holds :: "less_pc \<Rightarrow> bool" where
  "less_holds LLoad = True" | "less_holds LStore = True" | "less_holds LPrint = True"
| "less_holds LUnlock = True" | "less_holds _ = False"

fun more_holds :: "more_pc \<Rightarrow> bool" where
  "more_holds MTest = True" | "more_holds MHead = True" | "more_holds MLoad = True"
| "more_holds MStore = True" | "more_holds MPrint = True" | "more_holds MUnlock = True"
| "more_holds _ = False"

fun less_range :: "less_pc \<Rightarrow> nat \<Rightarrow> bool" where
  "less_range LNew i \<longleftrightarrow> i = 0" | "less_range LHead i \<longleftrightarrow> i \<le> 9"
| "less_range LSignal i \<longleftrightarrow> i = 9" | "less_range LDone i \<longleftrightarrow> i = 9" | "less_range _ i \<longleftrightarrow> i < 9"

fun more_range :: "more_pc \<Rightarrow> nat \<Rightarrow> bool" where
  "more_range MHead i \<longleftrightarrow> i \<le> 9" | "more_range MLoad i \<longleftrightarrow> i < 9" | "more_range MStore i \<longleftrightarrow> i < 9"
| "more_range MPrint i \<longleftrightarrow> i < 9" | "more_range MUnlock i \<longleftrightarrow> i = 9" | "more_range MDone i \<longleftrightarrow> i = 9"
| "more_range _ i \<longleftrightarrow> i = 0"

fun main_fits :: "main_pc \<Rightarrow> less_pc \<Rightarrow> more_pc \<Rightarrow> bool" where
  "main_fits CreateMore l m \<longleftrightarrow> l = LNew \<and> m = MNew"
| "main_fits CreateLess l m \<longleftrightarrow> l = LNew \<and> m \<noteq> MNew"
| "main_fits JoinMore l m \<longleftrightarrow> l \<noteq> LNew \<and> m \<noteq> MNew"
| "main_fits JoinLess l m \<longleftrightarrow> l \<noteq> LNew \<and> m = MDone"
| "main_fits _ l m \<longleftrightarrow> l = LDone \<and> m = MDone"

fun down_done :: "less_pc \<Rightarrow> nat" where
  "down_done LPrint = 1" | "down_done LUnlock = 1" | "down_done _ = 0"

fun down_printed :: "less_pc \<Rightarrow> nat" where
  "down_printed LUnlock = 1" | "down_printed _ = 0"

fun up_done :: "more_pc \<Rightarrow> nat" where
  "up_done MPrint = 1" | "up_done _ = 0"

text \<open>The invariant: where each thread may be, what the number is, what was printed.\<close>

definition control_ok :: "lecture \<Rightarrow> bool" where
  "control_ok s \<longleftrightarrow> less_range (less_at s) (less_i s) \<and> more_range (more_at s) (more_i s) \<and>
     main_fits (main_at s) (less_at s) (more_at s)"

definition mutex_ok :: "lecture \<Rightarrow> bool" where
  "mutex_ok s \<longleftrightarrow> (owner s = Some Less \<longleftrightarrow> less_holds (less_at s)) \<and>
     (owner s = Some More \<longleftrightarrow> more_holds (more_at s))"

definition value_ok :: "lecture \<Rightarrow> bool" where
  "value_ok s \<longleftrightarrow>
     xval s = int (more_i s + up_done (more_at s)) - int (less_i s + down_done (less_at s)) \<and>
     (less_at s = LStore \<longrightarrow> less_reg s = xval s) \<and>
     (more_at s = MStore \<longrightarrow> more_reg s = xval s)"

definition down_prints :: "lecture \<Rightarrow> nat" where
  "down_prints s = less_i s + down_printed (less_at s)"

definition prints_ok :: "lecture \<Rightarrow> bool" where
  "prints_ok s \<longleftrightarrow> (\<exists>k \<le> down_prints s. printed s = transcript k (more_i s) (down_prints s) \<and>
     (owner s = Some More \<longrightarrow> k = down_prints s))"

definition lecture_ok :: "lecture \<Rightarrow> bool" where
  "lecture_ok s \<longleftrightarrow> control_ok s \<and> mutex_ok s \<and> value_ok s \<and> prints_ok s"

lemmas lecture_steps = less_mutex_def more_mutex_def less_cond_def more_cond_def lecture_main_def
  print_x_def

lemma lecture_start_ok: "lecture_ok lecture_start"
  by (simp add: lecture_ok_def control_ok_def mutex_ok_def value_ok_def prints_ok_def
      down_prints_def transcript_def lecture_start_def)

lemma control_less:
  assumes "less_mutex s = Some s' \<or> less_cond s = Some s'" "control_ok s"
  shows "control_ok s'"
  using assms
  by (cases "less_at s"; cases "main_at s")
    (auto simp: control_ok_def lecture_steps split: if_splits)

lemma control_more:
  assumes "more_mutex s = Some s' \<or> more_cond s = Some s'" "control_ok s"
  shows "control_ok s'"
  using assms
  by (cases "more_at s"; cases "main_at s")
    (auto simp: control_ok_def lecture_steps split: if_splits)

lemma mutex_ok_less:
  assumes "less_mutex s = Some s' \<or> less_cond s = Some s'" "mutex_ok s"
  shows "mutex_ok s'"
  using assms
  by (cases "less_at s") (auto simp: mutex_ok_def lecture_steps split: if_splits)

lemma mutex_ok_more:
  assumes "more_mutex s = Some s' \<or> more_cond s = Some s'" "mutex_ok s"
  shows "mutex_ok s'"
  using assms
  by (cases "more_at s") (auto simp: mutex_ok_def lecture_steps split: if_splits)

lemma value_less:
  assumes "less_mutex s = Some s' \<or> less_cond s = Some s'" "mutex_ok s" "value_ok s"
  shows "value_ok s'"
  using assms
  by (cases "less_at s"; cases "more_at s")
    (auto simp: mutex_ok_def value_ok_def lecture_steps split: if_splits)

lemma value_more:
  assumes "more_mutex s = Some s' \<or> more_cond s = Some s'" "mutex_ok s" "value_ok s" "control_ok s"
  shows "value_ok s'"
  using assms
  by (cases "more_at s"; cases "less_at s")
    (auto simp: mutex_ok_def value_ok_def control_ok_def lecture_steps split: if_splits)

lemma prints_okI:
  "k \<le> down_prints s \<Longrightarrow> printed s = transcript k (more_i s) (down_prints s) \<Longrightarrow>
    (owner s = Some More \<Longrightarrow> k = down_prints s) \<Longrightarrow> prints_ok s"
  by (auto simp: prints_ok_def)

lemma prints_less:
  assumes "less_mutex s = Some s' \<or> less_cond s = Some s'" "mutex_ok s" "value_ok s" "control_ok s"
    "prints_ok s"
  shows "prints_ok s'"
proof -
  obtain k where k: "k \<le> down_prints s" "printed s = transcript k (more_i s) (down_prints s)"
    "owner s = Some More \<longrightarrow> k = down_prints s" using assms(5) by (auto simp: prints_ok_def)
  show ?thesis
  proof (cases "less_at s = LPrint")
    case True
    with assms(1-4) have "up_done (more_at s) = 0" "owner s = Some Less"
      by (cases "more_at s"; simp add: mutex_ok_def)+
    with assms(1-4) True k show ?thesis
      by (intro prints_okI [of k])
        (auto simp: down_prints_def value_ok_def lecture_steps transcript_down)
  next
    case False
    with assms(1,2) k show ?thesis
      by (intro prints_okI [of k]; cases "less_at s")
        (auto simp: down_prints_def mutex_ok_def lecture_steps split: if_splits)
  qed
qed

lemma prints_more:
  assumes "more_mutex s = Some s' \<or> more_cond s = Some s'" "mutex_ok s" "value_ok s" "control_ok s"
    "prints_ok s"
  shows "prints_ok s'"
proof -
  obtain k where k: "k \<le> down_prints s" "printed s = transcript k (more_i s) (down_prints s)"
    "owner s = Some More \<longrightarrow> k = down_prints s" using assms(5) by (auto simp: prints_ok_def)
  consider "more_at s \<in> {MLock, MRelock}" | "more_at s = MPrint"
    | "more_at s \<notin> {MLock, MRelock, MPrint}" by auto
  then show ?thesis
  proof cases
    case 1
    with assms(4) have "more_i s = 0" by (auto simp: control_ok_def)
    with assms(1) 1 k show ?thesis
      by (intro prints_okI [of "down_prints s"])
        (auto simp: down_prints_def lecture_steps transcript_enter split: if_splits)
  next
    case 2
    with assms(2) have "owner s = Some More" "\<not> less_holds (less_at s)"
      by (auto simp: mutex_ok_def)
    then have "down_done (less_at s) = 0" "down_printed (less_at s) = 0" "k = less_i s"
      using k(3) by (cases "less_at s"; simp add: down_prints_def)+
    with assms(1,3) 2 k show ?thesis
      by (intro prints_okI [of k])
        (auto simp: down_prints_def value_ok_def lecture_steps transcript_up)
  next
    case 3
    with assms(1,2) k show ?thesis
      by (intro prints_okI [of k]; cases "more_at s")
        (auto simp: down_prints_def mutex_ok_def lecture_steps split: if_splits)
  qed
qed

lemma lecture_ok_main:
  assumes "lecture_main LHead MLock s = Some s'" "lecture_ok s"
  shows "lecture_ok s'"
proof -
  have ok: "control_ok s" "mutex_ok s" "value_ok s" "prints_ok s"
    using assms(2) by (auto simp: lecture_ok_def)
  have "control_ok s'"
    using assms(1) ok(1) by (cases "main_at s") (auto simp: control_ok_def lecture_steps split: if_splits)
  moreover have "mutex_ok s'"
    using assms(1) ok(1,2) by (cases "main_at s")
      (auto simp: control_ok_def mutex_ok_def lecture_steps split: if_splits)
  moreover have "value_ok s'"
    using assms(1) ok(1,3) by (cases "main_at s")
      (auto simp: control_ok_def value_ok_def lecture_steps split: if_splits)
  moreover have "owner s' = owner s \<and> printed s' = printed s \<and> more_i s' = more_i s \<and>
      down_prints s' = down_prints s"
    using assms(1) ok(1) by (cases "main_at s")
      (auto simp: control_ok_def down_prints_def lecture_steps split: if_splits)
  then have "prints_ok s'" using ok(4) by (simp add: prints_ok_def)
  ultimately show ?thesis by (simp add: lecture_ok_def)
qed

lemma lecture_ok_step:
  assumes "less_mutex s = Some s' \<or> less_cond s = Some s' \<or> more_mutex s = Some s' \<or>
      more_cond s = Some s' \<or> lecture_main LHead MLock s = Some s'"
    and "lecture_ok s"
  shows "lecture_ok s'"
  using assms control_less control_more mutex_ok_less mutex_ok_more value_less value_more
    prints_less prints_more lecture_ok_main unfolding lecture_ok_def by metis

text \<open>The invariants of the two programs: only the second one has a thread that waits.\<close>

definition mutex_inv :: "lecture \<Rightarrow> bool" where
  "mutex_inv s \<longleftrightarrow> lecture_ok s \<and> less_at s \<noteq> LSignal \<and> more_at s \<notin> {MTest, MWait, MRelock}"

definition cond_inv :: "lecture \<Rightarrow> bool" where
  "cond_inv s \<longleftrightarrow> lecture_ok s \<and> (more_at s = MWait \<longrightarrow> less_at s \<noteq> LDone)"

lemma mutex_inv_step: "mutex_inv s \<Longrightarrow> mutex_step s s' \<Longrightarrow> mutex_inv s'"
proof -
  assume inv: "mutex_inv s" and step: "mutex_step s s'"
  from step inv have "lecture_ok s'"
    by (cases rule: mutex_step.cases) (auto simp: mutex_inv_def intro: lecture_ok_step)
  moreover from step have "less_at s' \<noteq> LSignal \<and> more_at s' \<notin> {MTest, MWait, MRelock}"
  proof cases
    case mutex_less
    with inv show ?thesis
      by (cases "less_at s") (auto simp: mutex_inv_def lecture_steps split: if_splits)
  next
    case mutex_more
    with inv show ?thesis
      by (cases "more_at s") (auto simp: mutex_inv_def lecture_steps split: if_splits)
  next
    case mutex_main
    with inv show ?thesis
      by (cases "main_at s") (auto simp: mutex_inv_def lecture_steps split: if_splits)
  qed
  ultimately show ?thesis by (simp add: mutex_inv_def)
qed

text \<open>A thread that starts to wait has seen 0, so the other one is not yet done.\<close>

lemma wait_before_done:
  "lecture_ok s \<Longrightarrow> more_at s = MTest \<Longrightarrow> xval s = 0 \<Longrightarrow> less_at s \<noteq> LDone"
  by (auto simp: lecture_ok_def control_ok_def value_ok_def)

lemma cond_run_waits:
  assumes "cond_inv s" "cond_run s s'" "more_at s' = MWait"
  shows "less_at s' \<noteq> LDone"
  using assms(2)
proof cases
  case cond_less
  with assms show ?thesis
    by (cases "less_at s") (auto simp: cond_inv_def lecture_steps split: if_splits)
next
  case cond_more
  with assms wait_before_done [of s] show ?thesis
    by (cases "more_at s") (auto simp: cond_inv_def lecture_steps split: if_splits)
next
  case cond_main
  with assms show ?thesis
    by (cases "main_at s") (auto simp: cond_inv_def lecture_steps split: if_splits)
qed

lemma lecture_ok_wake: "more_at s = MWait \<Longrightarrow> lecture_ok s \<Longrightarrow> lecture_ok (s\<lparr>more_at := MRelock\<rparr>)"
  by (cases "main_at s") (auto simp: lecture_ok_def control_ok_def mutex_ok_def value_ok_def
      prints_ok_def down_prints_def)

lemma cond_inv_step: "cond_inv s \<Longrightarrow> cond_step s s' \<Longrightarrow> cond_inv s'"
proof -
  assume inv: "cond_inv s" and step: "cond_step s s'"
  from step show ?thesis
  proof cases
    case cond_go
    then have "lecture_ok s'"
      using inv by (cases rule: cond_run.cases) (auto simp: cond_inv_def intro: lecture_ok_step)
    with cond_run_waits [OF inv cond_go] show ?thesis by (auto simp: cond_inv_def)
  next
    case cond_wake
    with inv lecture_ok_wake show ?thesis by (auto simp: cond_inv_def)
  qed
qed

text \<open>The rank of a state: what each thread still has to do.\<close>

fun less_rank :: "less_pc \<Rightarrow> nat \<Rightarrow> nat" where
  "less_rank LNew i = 98" | "less_rank LHead i = 10 * (9 - i) + 7"
| "less_rank LLock i = 10 * (9 - i) + 6" | "less_rank LLoad i = 10 * (9 - i) + 5"
| "less_rank LStore i = 10 * (9 - i) + 4" | "less_rank LPrint i = 10 * (9 - i) + 3"
| "less_rank LUnlock i = 10 * (9 - i) + 2" | "less_rank LSignal i = 1" | "less_rank LDone i = 0"

fun more_rank :: "more_pc \<Rightarrow> nat \<Rightarrow> nat" where
  "more_rank MNew i = 102" | "more_rank MLock i = 101" | "more_rank MTest i = 100"
| "more_rank MWait i = 99" | "more_rank MRelock i = 98" | "more_rank MHead i = 10 * (9 - i) + 7"
| "more_rank MLoad i = 10 * (9 - i) + 6" | "more_rank MStore i = 10 * (9 - i) + 5"
| "more_rank MPrint i = 10 * (9 - i) + 4" | "more_rank MUnlock i = 1" | "more_rank MDone i = 0"

fun main_rank :: "main_pc \<Rightarrow> nat" where
  "main_rank CreateMore = 5" | "main_rank CreateLess = 4" | "main_rank JoinMore = 3"
| "main_rank JoinLess = 2" | "main_rank NewLine = 1" | "main_rank MainDone = 0"

definition lecture_rank :: "lecture \<Rightarrow> nat" where
  "lecture_rank s = main_rank (main_at s) + less_rank (less_at s) (less_i s) +
     more_rank (more_at s) (more_i s)"

lemma rank_less:
  "less_mutex s = Some s' \<or> less_cond s = Some s' \<or> less_race s = Some s' \<Longrightarrow> control_ok s \<Longrightarrow>
    lecture_rank s' < lecture_rank s"
  by (cases "less_at s") (auto simp: control_ok_def lecture_rank_def lecture_steps less_race_def
      split: if_splits)

lemma rank_more:
  "more_mutex s = Some s' \<or> more_cond s = Some s' \<or> more_race s = Some s' \<Longrightarrow> control_ok s \<Longrightarrow>
    lecture_rank s' < lecture_rank s"
  by (cases "more_at s") (auto simp: control_ok_def lecture_rank_def lecture_steps more_race_def
      split: if_splits)

lemma rank_main:
  "lecture_main LHead m s = Some s' \<Longrightarrow> m = MLock \<or> m = MHead \<Longrightarrow> control_ok s \<Longrightarrow>
    lecture_rank s' < lecture_rank s"
  by (cases "main_at s") (auto simp: control_ok_def lecture_rank_def lecture_steps split: if_splits)

lemma less_goes:
  assumes "less_at s \<notin> {LNew, LDone}" "owner s \<noteq> Some More" "mutex_ok s"
  shows "less_cond s \<noteq> None" "less_at s \<noteq> LSignal \<Longrightarrow> less_mutex s \<noteq> None"
  using assms by (cases "less_at s"; cases "owner s"; auto simp: mutex_ok_def lecture_steps
      intro: tid.exhaust)+

lemma more_goes:
  assumes "more_at s \<notin> {MNew, MWait, MDone}" "owner s \<noteq> Some Less" "mutex_ok s"
  shows "more_cond s \<noteq> None" "more_at s \<notin> {MTest, MRelock} \<Longrightarrow> more_mutex s \<noteq> None"
  using assms by (cases "more_at s"; cases "owner s"; auto simp: mutex_ok_def lecture_steps
      intro: tid.exhaust)+

text \<open>Unless \<open>main\<close> can go on or has ended, one of the threads still has something to do.\<close>

lemma who_goes:
  assumes "control_ok s" "mutex_ok s" "lecture_main l m s = None" "main_at s \<noteq> MainDone"
  shows "less_at s \<notin> {LNew, LDone} \<and> owner s \<noteq> Some More \<or>
    more_at s \<notin> {MNew, MDone} \<and> owner s \<noteq> Some Less"
proof (cases "owner s")
  case None
  with assms show ?thesis
    by (cases "main_at s") (auto simp: control_ok_def lecture_main_def split: if_splits)
next
  case (Some t)
  with assms(2) show ?thesis by (cases t) (auto simp: mutex_ok_def)
qed

lemma mutex_progress:
  assumes "mutex_inv s" "main_at s \<noteq> MainDone"
  shows "\<exists>s'. mutex_step s s'"
proof (cases "lecture_main LHead MLock s")
  case None
  from assms(1) have ok: "control_ok s" "mutex_ok s"
    and pcs: "less_at s \<noteq> LSignal" "more_at s \<notin> {MTest, MWait, MRelock}"
    by (auto simp: mutex_inv_def lecture_ok_def)
  from who_goes [OF ok None assms(2)] have "less_mutex s \<noteq> None \<or> more_mutex s \<noteq> None"
    using less_goes(2) [of s] more_goes(2) [of s] ok pcs by auto
  then show ?thesis by (auto intro: mutex_less mutex_more)
qed (auto intro: mutex_main)

lemma cond_progress:
  assumes "cond_inv s" "main_at s \<noteq> MainDone"
  shows "\<exists>s'. cond_run s s'"
proof (cases "lecture_main LHead MLock s")
  case None
  from assms(1) have ok: "control_ok s" "mutex_ok s"
    and wait: "more_at s = MWait \<longrightarrow> less_at s \<noteq> LDone"
    by (auto simp: cond_inv_def lecture_ok_def)
  have "less_at s \<notin> {LNew, LDone} \<and> owner s \<noteq> Some More \<or>
      more_at s \<notin> {MNew, MWait, MDone} \<and> owner s \<noteq> Some Less"
  proof (cases "more_at s = MWait")
    case True
    with ok wait None assms(2) show ?thesis
      by (cases "main_at s") (auto simp: control_ok_def mutex_ok_def lecture_main_def)
  qed (use who_goes [OF ok None assms(2)] in auto)
  then have "less_cond s \<noteq> None \<or> more_cond s \<noteq> None"
    using less_goes(1) [of s] more_goes(1) [of s] ok by auto
  then show ?thesis by (auto intro: cond_less cond_more)
qed (auto intro: cond_main)

interpretation mutexed: ending_runs mutex_step mutex_step lecture_start mutex_inv
    "\<lambda>s. main_at s = MainDone" lecture_rank
proof
  show "mutex_inv lecture_start"
    using lecture_start_ok by (simp add: mutex_inv_def lecture_start_def)
  show "lecture_rank s' < lecture_rank s" if "mutex_inv s" "mutex_step s s'" for s s'
    using that(2,1) by cases
      (auto simp: mutex_inv_def lecture_ok_def intro: rank_less rank_more rank_main)
qed (auto intro: mutex_inv_step mutex_progress)

interpretation waiting: ending_runs cond_step cond_run lecture_start cond_inv
    "\<lambda>s. main_at s = MainDone" lecture_rank
proof
  show "cond_inv lecture_start"
    using lecture_start_ok by (simp add: cond_inv_def lecture_start_def)
  show "lecture_rank s' < lecture_rank s" if "cond_inv s" "cond_step s s'" for s s'
    using that(2,1)
  proof cases
    case cond_go
    from cond_go that(1) show ?thesis
      by (cases rule: cond_run.cases)
        (auto simp: cond_inv_def lecture_ok_def intro: rank_less rank_more rank_main)
  qed (simp add: lecture_rank_def)
qed (auto intro: cond_inv_step cond_progress cond_go)

text \<open>What a finished run leaves behind.\<close>

lemma lecture_final:
  assumes "lecture_ok s" "main_at s = MainDone"
  shows "xval s = 0 \<and> (\<exists>k \<le> 9. printed s = transcript k 9 9)"
proof -
  have "less_at s = LDone" "more_at s = MDone" "less_i s = 9" "more_i s = 9"
    using assms by (auto simp: lecture_ok_def control_ok_def)
  with assms show ?thesis
    by (auto simp: lecture_ok_def value_ok_def prints_ok_def down_prints_def)
qed

lemma rank_start: "lecture_rank lecture_start = 205"
  by (simp add: lecture_rank_def lecture_start_def)

end
