(* ===== verification/LectureProps.thy ===== *)
theory LectureProps
  imports LectureThreads
begin

text \<open>
  What the three lecture programs guarantee: the unprotected one may end with any rest between
  -9 and 9, both bounds included; the protected ones always end, with 0, and the additions are
  printed in one piece.
\<close>

section \<open>The unprotected program\<close>

text \<open>Every value in memory or in a register lies between what each thread can have caused.\<close>

definition race_bounds :: "lecture \<Rightarrow> int \<Rightarrow> bool" where
  "race_bounds s v \<longleftrightarrow> - int (less_i s + down_done (less_at s)) \<le> v \<and>
     v \<le> int (more_i s + up_done (more_at s))"

definition race_places :: "lecture \<Rightarrow> bool" where
  "race_places s \<longleftrightarrow> control_ok s \<and> less_at s \<notin> {LLock, LUnlock, LSignal} \<and>
     more_at s \<notin> {MLock, MTest, MWait, MRelock, MUnlock}"

definition race_values :: "lecture \<Rightarrow> bool" where
  "race_values s \<longleftrightarrow> race_bounds s (xval s) \<and>
     (less_at s = LStore \<longrightarrow> race_bounds s (less_reg s)) \<and>
     (more_at s = MStore \<longrightarrow> race_bounds s (more_reg s)) \<and> length (printed s) = less_i s + more_i s"

definition race_inv :: "lecture \<Rightarrow> bool" where
  "race_inv s \<longleftrightarrow> race_places s \<and> race_values s"

lemma race_places_step: "race_step s s' \<Longrightarrow> race_places s \<Longrightarrow> race_places s'"
proof (induction rule: race_step.induct)
  case (race_less s s')
  then show ?case
    by (cases "less_at s"; cases "main_at s")
      (auto simp: race_places_def control_ok_def less_race_def print_x_def split: if_splits)
next
  case (race_more s s')
  then show ?case
    by (cases "more_at s"; cases "main_at s")
      (auto simp: race_places_def control_ok_def more_race_def print_x_def split: if_splits)
next
  case (race_main s s')
  then show ?case
    by (cases "main_at s")
      (auto simp: race_places_def control_ok_def lecture_main_def split: if_splits)
qed

lemma race_values_step: "race_step s s' \<Longrightarrow> race_places s \<Longrightarrow> race_values s \<Longrightarrow> race_values s'"
proof (induction rule: race_step.induct)
  case (race_less s s')
  then show ?case
    by (cases "less_at s")
      (auto simp: race_places_def race_values_def race_bounds_def less_race_def print_x_def
        split: if_splits)
next
  case (race_more s s')
  then show ?case
    by (cases "more_at s")
      (auto simp: race_places_def race_values_def race_bounds_def more_race_def print_x_def
        split: if_splits)
next
  case (race_main s s')
  then show ?case
    by (cases "main_at s")
      (auto simp: race_places_def race_values_def race_bounds_def control_ok_def lecture_main_def
        split: if_splits)
qed

lemma race_inv_step: "race_inv s \<Longrightarrow> race_step s s' \<Longrightarrow> race_inv s'"
  by (simp add: race_inv_def race_places_step race_values_step)

lemma less_race_goes:
  "less_at s \<notin> {LNew, LLock, LUnlock, LSignal, LDone} \<Longrightarrow> \<exists>s'. less_race s = Some s'"
  by (cases "less_at s") (simp_all add: less_race_def)

lemma more_race_goes:
  "more_at s \<notin> {MNew, MLock, MTest, MWait, MRelock, MUnlock, MDone} \<Longrightarrow> \<exists>s'. more_race s = Some s'"
  by (cases "more_at s") (simp_all add: more_race_def)

lemma race_progress:
  assumes "race_inv s" "main_at s \<noteq> MainDone"
  shows "\<exists>s'. race_step s s'"
proof (cases "lecture_main LHead MHead s")
  case None
  have "less_at s \<notin> {LNew, LDone} \<or> more_at s \<notin> {MNew, MDone}"
    using assms None
    by (cases "main_at s") (auto simp: race_inv_def race_places_def control_ok_def lecture_main_def split: if_splits)
  then have "(\<exists>s'. less_race s = Some s') \<or> (\<exists>s'. more_race s = Some s')"
    using assms(1) less_race_goes [of s] more_race_goes [of s] by (auto simp: race_inv_def race_places_def)
  then show ?thesis by (auto intro: race_less race_more)
qed (auto intro: race_main)

interpretation racing: ending_runs race_step race_step lecture_start race_inv
    "\<lambda>s. main_at s = MainDone" lecture_rank
proof
  show "race_inv lecture_start"
    by (simp add: race_inv_def race_places_def race_values_def race_bounds_def control_ok_def
        lecture_start_def)
  show "lecture_rank s' < lecture_rank s" if "race_inv s" "race_step s s'" for s s'
    using that(2,1) by cases
      (auto simp: race_inv_def race_places_def intro: rank_less rank_more rank_main)
qed (auto intro: race_inv_step race_progress)

text \<open>Runs given by the order in which the threads take their steps.\<close>

datatype mover = GoMain | GoLess | GoMore

primrec race_move :: "mover \<Rightarrow> lecture \<Rightarrow> lecture option" where
  "race_move GoMain s = lecture_main LHead MHead s"
| "race_move GoLess s = less_race s"
| "race_move GoMore s = more_race s"

primrec mutex_move :: "mover \<Rightarrow> lecture \<Rightarrow> lecture option" where
  "mutex_move GoMain s = lecture_main LHead MLock s"
| "mutex_move GoLess s = less_mutex s"
| "mutex_move GoMore s = more_mutex s"

primrec cond_move :: "mover \<Rightarrow> lecture \<Rightarrow> lecture option" where
  "cond_move GoMain s = lecture_main LHead MLock s"
| "cond_move GoLess s = less_cond s"
| "cond_move GoMore s = more_cond s"

lemma race_moves: "moves race_move ms s = Some s' \<Longrightarrow> (race_step ^^ length ms) s s'"
proof (rule moves_steps [of "race_move"])
  show "race_step t t'" if "race_move m t = Some t'" for m t t'
    using that by (cases m) (auto intro: race_step.intros)
qed

lemma mutex_moves: "moves mutex_move ms s = Some s' \<Longrightarrow> (mutex_step ^^ length ms) s s'"
proof (rule moves_steps [of "mutex_move"])
  show "mutex_step t t'" if "mutex_move m t = Some t'" for m t t'
    using that by (cases m) (auto intro: mutex_step.intros)
qed

lemma cond_moves: "moves cond_move ms s = Some s' \<Longrightarrow> (cond_run ^^ length ms) s s'"
proof (rule moves_steps [of "cond_move"])
  show "cond_run t t'" if "cond_move m t = Some t'" for m t t'
    using that by (cases m) (auto intro: cond_run.intros)
qed

lemmas move_defs = less_race_def more_race_def lecture_steps

text \<open>One thread loads 0, the other runs to its end, and the first overwrites all it has done.\<close>

definition more_wins :: "mover list" where
  "more_wins = [GoMain, GoMain, GoMore, GoMore] @ replicate 37 GoLess @ replicate 35 GoMore @
     replicate 3 GoMain"

definition less_wins :: "mover list" where
  "less_wins = [GoMain, GoMain, GoLess, GoLess] @ replicate 37 GoMore @ replicate 35 GoLess @
     replicate 3 GoMain"

lemma race_extremes:
  "map_option (\<lambda>s. (main_at s, xval s)) (moves race_move more_wins lecture_start) = Some (MainDone, 9)"
  "map_option (\<lambda>s. (main_at s, xval s)) (moves race_move less_wins lecture_start) = Some (MainDone, - 9)"
  by (simp_all add: more_wins_def less_wins_def move_defs lecture_start_def numeral_eq_Suc
      replicate_Suc)

lemma length_winners: "length more_wins = 79" "length less_wins = 79"
  by (simp_all add: more_wins_def less_wins_def)

lemma race_winners:
  "\<exists>t. (race_step ^^ 79) lecture_start t \<and> main_at t = MainDone \<and> xval t = 9"
  "\<exists>t. (race_step ^^ 79) lecture_start t \<and> main_at t = MainDone \<and> xval t = - 9"
  using race_extremes race_moves [of more_wins lecture_start] race_moves [of less_wins lecture_start]
  by (auto simp: length_winners)

lemma race_ended: "race_inv s \<Longrightarrow> main_at s = MainDone \<Longrightarrow> \<not> race_step s s'"
  by (auto simp: race_inv_def race_places_def control_ok_def less_race_def more_race_def
      lecture_main_def elim!: race_stepE)

lemma less_round: "less_range l i \<Longrightarrow> i + down_done l \<le> 9"
  by (cases l) simp_all

lemma more_round: "more_range m i \<Longrightarrow> i + up_done m \<le> 9"
  by (cases m) simp_all

lemma race_rounds:
  "race_inv s \<Longrightarrow> less_i s + down_done (less_at s) \<le> 9 \<and> more_i s + up_done (more_at s) \<le> 9"
  by (simp add: race_inv_def race_places_def control_ok_def less_round more_round)

section \<open>Properties\<close>

text \<open>
  C20: without the mutex every run of the two threads ends after at most 205 steps with a number
  between -9 and 9, and both -9 and 9 do occur: one thread can overwrite everything the other
  has done.
\<close>

theorem race_loses_updates:
  "((race_step ^^ n) lecture_start s \<longrightarrow> n \<le> 205 \<and> - 9 \<le> xval s \<and> xval s \<le> 9 \<and>
      ((\<forall>s'. \<not> race_step s s') \<longrightarrow> main_at s = MainDone \<and> length (printed s) = 18)) \<and>
   (\<exists>t. (race_step ^^ 79) lecture_start t \<and> main_at t = MainDone \<and> xval t = 9) \<and>
   (\<exists>t. (race_step ^^ 79) lecture_start t \<and> main_at t = MainDone \<and> xval t = - 9)"
proof (intro conjI impI)
  assume run: "(race_step ^^ n) lecture_start s"
  from racing.run_bound [OF run] rank_start show "n \<le> 205" by simp
  from racing.run_bound [OF run] have inv: "race_inv s" by simp
  then have "less_i s + down_done (less_at s) \<le> 9" "more_i s + up_done (more_at s) \<le> 9"
    using race_rounds by auto
  with inv show "- 9 \<le> xval s" "xval s \<le> 9"
    by (auto simp: race_inv_def race_values_def race_bounds_def)
  assume stuck: "\<forall>s'. \<not> race_step s s'"
  from racing.run_ends [OF run stuck] show "main_at s = MainDone" by simp
  with inv show "length (printed s) = 18"
    by (auto simp: race_inv_def race_places_def race_values_def control_ok_def)
qed (rule race_winners)+

lemma race_loses_updates_witness:
  "\<exists>t. (race_step ^^ 79) lecture_start t \<and> (\<forall>s'. \<not> race_step t s') \<and> 79 \<le> (205 :: nat) \<and>
    - 9 \<le> xval t \<and> xval t \<le> 9 \<and> main_at t = MainDone \<and> length (printed t) = 18"
proof -
  obtain t where t: "(race_step ^^ 79) lecture_start t" "main_at t = MainDone"
    using race_winners(1) by auto
  then have "\<forall>s'. \<not> race_step t s'" using racing.run_bound [OF t(1)] race_ended by auto
  with t race_loses_updates [of 79 t] show ?thesis by auto
qed

text \<open>
  The condition variable does not make the adding thread the second one: it waits only if it finds
  0, and one subtraction before its test is enough to let it run in the middle of the others.
\<close>

definition overtaking :: "mover list" where
  "overtaking = [GoMain, GoMain] @ replicate 6 GoLess @ replicate 40 GoMore"

lemma length_overtaking: "length overtaking = 48"
  by (simp add: overtaking_def)

lemma overtaking_run:
  "map_option (\<lambda>s. (less_i s, more_at s, printed s)) (moves cond_move overtaking lecture_start) =
     Some (1, MDone, transcript 1 9 1)"
  by (simp add: overtaking_def move_defs lecture_start_def transcript_def numeral_eq_Suc
      replicate_Suc upt_rec)

lemma cond_overtakes:
  "\<exists>s. (cond_run ^^ 48) lecture_start s \<and> less_i s = 1 \<and> more_at s = MDone \<and>
    printed s = transcript 1 9 1"
  using overtaking_run cond_moves [of overtaking lecture_start]
  by (auto simp: length_overtaking)

text \<open>Two complete runs of the protected programs; in the second one the adding thread waits.\<close>

definition mutex_order :: "mover list" where
  "mutex_order = [GoMain, GoMain] @ replicate 39 GoMore @ replicate 55 GoLess @ replicate 3 GoMain"

definition cond_order :: "mover list" where
  "cond_order = [GoMain, GoMain, GoMore, GoMore] @ replicate 56 GoLess @ replicate 39 GoMore @
     replicate 3 GoMain"

lemma length_orders: "length mutex_order = 99" "length cond_order = 102"
  by (simp_all add: mutex_order_def cond_order_def)

lemma protected_orders:
  "map_option main_at (moves mutex_move mutex_order lecture_start) = Some MainDone"
  "map_option main_at (moves cond_move cond_order lecture_start) = Some MainDone"
  by (simp_all add: mutex_order_def cond_order_def move_defs lecture_start_def numeral_eq_Suc
      replicate_Suc)

text \<open>
  C16: under the mutex, with or without the condition variable, every run ends after at most 205
  steps, whichever thread is quicker and however often the waiting thread wakes up unasked. A run
  in which the program cannot go on has ended: the number is 0 again and for some \<open>k\<close> the output
  is the numbers down to \<open>-k\<close>, nine additions in one piece, and the way back down to 0. The
  signal is never lost, although it is given without the mutex.
\<close>

theorem protected_runs_end:
  "((mutex_step ^^ n) lecture_start s \<longrightarrow> n \<le> 205 \<and> ((\<forall>s'. \<not> mutex_step s s') \<longrightarrow>
      main_at s = MainDone \<and> xval s = 0 \<and> (\<exists>k \<le> 9. printed s = transcript k 9 9))) \<and>
   ((cond_step ^^ n) lecture_start s \<longrightarrow> n \<le> 205 \<and> ((\<forall>s'. \<not> cond_run s s') \<longrightarrow>
      main_at s = MainDone \<and> xval s = 0 \<and> (\<exists>k \<le> 9. printed s = transcript k 9 9)))"
proof (intro conjI impI)
  assume run: "(mutex_step ^^ n) lecture_start s"
  from mutexed.run_bound [OF run] rank_start show "n \<le> 205" by simp
  assume "\<forall>s'. \<not> mutex_step s s'"
  from mutexed.run_ends [OF run this] have fin: "lecture_ok s" "main_at s = MainDone"
    by (auto simp: mutex_inv_def)
  from lecture_final [OF fin] fin(2)
  show "main_at s = MainDone" "xval s = 0" "\<exists>k \<le> 9. printed s = transcript k 9 9" by auto
next
  assume run: "(cond_step ^^ n) lecture_start s"
  from waiting.run_bound [OF run] rank_start show "n \<le> 205" by simp
  assume "\<forall>s'. \<not> cond_run s s'"
  from waiting.run_ends [OF run this] have fin: "lecture_ok s" "main_at s = MainDone"
    by (auto simp: cond_inv_def)
  from lecture_final [OF fin] fin(2)
  show "main_at s = MainDone" "xval s = 0" "\<exists>k \<le> 9. printed s = transcript k 9 9" by auto
qed

lemma cond_run_step: "(cond_run ^^ n) s t \<Longrightarrow> (cond_step ^^ n) s t"
  by (rule relpowp_mono [OF cond_go])

lemma protected_ended:
  "lecture_ok s \<Longrightarrow> main_at s = MainDone \<Longrightarrow> \<not> mutex_step s s'"
  "lecture_ok s \<Longrightarrow> main_at s = MainDone \<Longrightarrow> \<not> cond_run s s'"
  by (auto simp: lecture_ok_def control_ok_def lecture_steps elim!: mutex_stepE cond_runE)

lemma protected_runs_end_witness:
  "(\<exists>s. (mutex_step ^^ 99) lecture_start s \<and> (\<forall>s'. \<not> mutex_step s s') \<and> 99 \<le> (205 :: nat) \<and>
      main_at s = MainDone \<and> xval s = 0 \<and> (\<exists>k \<le> 9. printed s = transcript k 9 9)) \<and>
   (\<exists>s. (cond_step ^^ 102) lecture_start s \<and> (\<forall>s'. \<not> cond_run s s') \<and> 102 \<le> (205 :: nat) \<and>
      main_at s = MainDone \<and> xval s = 0 \<and> (\<exists>k \<le> 9. printed s = transcript k 9 9))"
proof -
  obtain s where s: "(mutex_step ^^ 99) lecture_start s" "main_at s = MainDone"
    using protected_orders(1) mutex_moves [of mutex_order lecture_start]
    by (auto simp: length_orders)
  then have "\<forall>s'. \<not> mutex_step s s'"
    using mutexed.run_bound [OF s(1)] protected_ended(1) by (auto simp: mutex_inv_def)
  moreover obtain t where t: "(cond_step ^^ 102) lecture_start t" "main_at t = MainDone"
    using protected_orders(2) cond_moves [of cond_order lecture_start]
      cond_run_step [of 102 lecture_start] by (auto simp: length_orders)
  then have "\<forall>s'. \<not> cond_run t s'"
    using waiting.run_bound [OF t(1)] protected_ended(2) by (auto simp: cond_inv_def)
  ultimately show ?thesis
    using s t protected_runs_end [of 99 s] protected_runs_end [of 102 t] by blast
qed

end
