(* ===== verification/DotProd.thy ===== *)
theory DotProd
  imports Runs
begin

text \<open>
  pthreads/dotprod_mutex.c: \<open>k\<close> threads compute the dot product of two vectors, each the part of
  its own \<open>len\<close> elements, and add their parts to a shared sum under a mutex; \<open>main\<close> creates the
  threads, waits for all, prints the sum and frees the vectors. The program has \<open>k\<close> = 4,
  \<open>len\<close> = 100 and vectors of ones. A \<open>double\<close> is a type with the C operators, so the order of
  additions matters. Threads are interleaved at every access of shared data.
\<close>

datatype dot_pc = DNew | DStart | DLoop | DLock | DLoad | DStore | DUnlock | DExit

record 'a dot_thread =
  dt_at :: dot_pc
  dt_i :: nat
  dt_my :: 'a
  dt_reg :: 'a

text \<open>\<open>main\<close> while it creates its \<open>i\<close>-th thread, waits for its \<open>i\<close>-th thread, and at its end.\<close>

datatype dot_main = Creating nat | Joining nat | Freeing | Finished

record 'a dotstr =
  d_a :: "'a list"
  d_b :: "'a list"
  d_sum :: 'a
  d_veclen :: nat
  d_freed :: bool
  d_mutex :: "nat option"
  d_thr :: "nat \<Rightarrow> 'a dot_thread"
  d_main :: dot_main
  d_out :: "'a list"

definition set_thr :: "nat \<Rightarrow> 'a dot_thread \<Rightarrow> 'a dotstr \<Rightarrow> 'a dotstr" where
  "set_thr t th s = s\<lparr>d_thr := (d_thr s)(t := th)\<rparr>"

text \<open>One step of \<open>dotprod\<close> in the thread with offset \<open>t\<close>; \<open>None\<close>: not running, or blocked.\<close>

definition dotprod :: "nat \<Rightarrow> 'a::{zero,plus,times} dotstr \<Rightarrow> 'a dotstr res option" where
  "dotprod t s = (let th = d_thr s t; i = dt_i th in
     case dt_at th of
       DStart \<Rightarrow> Some (Inr (set_thr t (th\<lparr>dt_at := DLoop, dt_i := t * d_veclen s, dt_my := 0\<rparr>) s))
     | DLoop \<Rightarrow>
         (if i < t * d_veclen s + d_veclen s then
            (if d_freed s \<or> length (d_a s) \<le> i \<or> length (d_b s) \<le> i then Some (Inl BadPointer)
             else Some (Inr (set_thr t (th\<lparr>dt_my := dt_my th + d_a s ! i * d_b s ! i, dt_i := i + 1\<rparr>) s)))
          else Some (Inr (set_thr t (th\<lparr>dt_at := DLock\<rparr>) s)))
     | DLock \<Rightarrow>
         (if d_mutex s = None
          then Some (Inr ((set_thr t (th\<lparr>dt_at := DLoad\<rparr>) s)\<lparr>d_mutex := Some t\<rparr>)) else None)
     | DLoad \<Rightarrow> Some (Inr (set_thr t (th\<lparr>dt_at := DStore, dt_reg := d_sum s\<rparr>) s))
     | DStore \<Rightarrow>
         Some (Inr ((set_thr t (th\<lparr>dt_at := DUnlock\<rparr>) s)\<lparr>d_sum := dt_reg th + dt_my th\<rparr>))
     | DUnlock \<Rightarrow> Some (Inr ((set_thr t (th\<lparr>dt_at := DExit\<rparr>) s)\<lparr>d_mutex := None\<rparr>))
     | _ \<Rightarrow> None)"

definition dotprod_main :: "nat \<Rightarrow> 'a dotstr \<Rightarrow> 'a dotstr option" where
  "dotprod_main k s = (case d_main s of
       Creating i \<Rightarrow> Some (if i < k
         then (set_thr i ((d_thr s i)\<lparr>dt_at := DStart\<rparr>) s)\<lparr>d_main := Creating (i + 1)\<rparr>
         else s\<lparr>d_main := Joining 0\<rparr>)
     | Joining i \<Rightarrow>
         (if i < k then (if dt_at (d_thr s i) = DExit then Some (s\<lparr>d_main := Joining (i + 1)\<rparr>) else None)
          else Some (s\<lparr>d_out := d_out s @ [d_sum s], d_main := Freeing\<rparr>))
     | Freeing \<Rightarrow> Some (s\<lparr>d_freed := True, d_main := Finished\<rparr>)
     | Finished \<Rightarrow> None)"

text \<open>\<open>main\<close> before its first \<open>pthread_create\<close>, with any contents of the vectors, and its own.\<close>

definition dot_ready :: "'a::zero list \<Rightarrow> 'a list \<Rightarrow> nat \<Rightarrow> 'a dotstr" where
  "dot_ready a b len = \<lparr>d_a = a, d_b = b, d_sum = 0, d_veclen = len, d_freed = False,
     d_mutex = None, d_thr = (\<lambda>t. \<lparr>dt_at = DNew, dt_i = 0, dt_my = 0, dt_reg = 0\<rparr>),
     d_main = Creating 0, d_out = []\<rparr>"

definition ones :: "nat \<Rightarrow> 'a::one list" where "ones n = replicate n 1"

inductive dot_step :: "nat \<Rightarrow> 'a::{zero,plus,times} dotstr \<Rightarrow> 'a dotstr \<Rightarrow> bool" for k where
  dot_go_thread: "t < k \<Longrightarrow> dotprod t s = Some (Inr s') \<Longrightarrow> dot_step k s s'"
| dot_go_main: "dotprod_main k s = Some s' \<Longrightarrow> dot_step k s s'"

section \<open>The invariant\<close>

text \<open>What thread \<open>t\<close> has summed up before its element \<open>i\<close>, and its whole part.\<close>

definition part :: "'a::{zero,plus,times} list \<Rightarrow> 'a list \<Rightarrow> nat \<Rightarrow> nat \<Rightarrow> 'a" where
  "part a b i j = foldl (\<lambda>s i. s + a ! i * b ! i) 0 [i..<j]"

definition chunk :: "'a::{zero,plus,times} list \<Rightarrow> 'a list \<Rightarrow> nat \<Rightarrow> nat \<Rightarrow> 'a" where
  "chunk a b len t = part a b (t * len) (t * len + len)"

lemma part_simps:
  "part a b i i = 0"
  "i \<le> j \<Longrightarrow> part a b i (Suc j) = part a b i j + a ! j * b ! j"
  by (simp_all add: part_def)

fun owns :: "dot_pc \<Rightarrow> bool" where
  "owns DLoad = True" | "owns DStore = True" | "owns DUnlock = True" | "owns _ = False"

fun added :: "dot_pc \<Rightarrow> bool" where
  "added DUnlock = True" | "added DExit = True" | "added _ = False"

definition thread_ok :: "'a::{zero,plus,times} list \<Rightarrow> 'a list \<Rightarrow> nat \<Rightarrow> 'a \<Rightarrow> nat \<Rightarrow> 'a dot_thread \<Rightarrow> bool" where
  "thread_ok a b len sm t th \<longleftrightarrow> (case dt_at th of
       DNew \<Rightarrow> True
     | DStart \<Rightarrow> True
     | DLoop \<Rightarrow> t * len \<le> dt_i th \<and> dt_i th \<le> t * len + len \<and> dt_my th = part a b (t * len) (dt_i th)
     | DStore \<Rightarrow> dt_my th = chunk a b len t \<and> dt_reg th = sm
     | _ \<Rightarrow> dt_my th = chunk a b len t)"

fun created :: "nat \<Rightarrow> dot_main \<Rightarrow> nat" where
  "created k (Creating i) = i" | "created k _ = k"

fun joined :: "nat \<Rightarrow> dot_main \<Rightarrow> nat" where
  "joined k (Creating i) = 0" | "joined k (Joining i) = i" | "joined k _ = k"

definition dot_data :: "'a list \<Rightarrow> 'a list \<Rightarrow> nat \<Rightarrow> nat \<Rightarrow> 'a dotstr \<Rightarrow> bool" where
  "dot_data a b len k s \<longleftrightarrow> d_a s = a \<and> d_b s = b \<and> d_veclen s = len \<and>
     (d_freed s \<longleftrightarrow> d_main s = Finished) \<and>
     d_out s = (if d_main s \<in> {Freeing, Finished} then [d_sum s] else [])"

definition dot_control :: "nat \<Rightarrow> 'a dotstr \<Rightarrow> bool" where
  "dot_control k s \<longleftrightarrow> created k (d_main s) \<le> k \<and> joined k (d_main s) \<le> k \<and>
     (\<forall>t. dt_at (d_thr s t) = DNew \<longleftrightarrow> created k (d_main s) \<le> t) \<and>
     (\<forall>t < joined k (d_main s). dt_at (d_thr s t) = DExit) \<and>
     (\<forall>t. d_mutex s = Some t \<longleftrightarrow> owns (dt_at (d_thr s t)))"

definition dot_sum_ok :: "'a::{zero,plus,times} list \<Rightarrow> 'a list \<Rightarrow> nat \<Rightarrow> 'a dotstr \<Rightarrow> bool" where
  "dot_sum_ok a b len s \<longleftrightarrow> (\<exists>order. distinct order \<and> set order = {t. added (dt_at (d_thr s t))} \<and>
     d_sum s = foldl (+) 0 (map (chunk a b len) order))"

definition dot_inv :: "'a::{zero,plus,times} list \<Rightarrow> 'a list \<Rightarrow> nat \<Rightarrow> nat \<Rightarrow> 'a dotstr \<Rightarrow> bool" where
  "dot_inv a b len k s \<longleftrightarrow> dot_data a b len k s \<and> dot_control k s \<and>
     (\<forall>t. thread_ok a b len (d_sum s) t (d_thr s t)) \<and> dot_sum_ok a b len s"

lemma dot_inv_ready: "dot_inv a b len k (dot_ready a b len)"
  by (simp add: dot_inv_def dot_data_def dot_control_def thread_ok_def dot_sum_ok_def dot_ready_def)

section \<open>The steps keep the invariant\<close>

text \<open>A step of thread \<open>t\<close> replaces its own record, and perhaps the mutex and the sum.\<close>

lemma dotprod_frame:
  assumes "dotprod t s = Some (Inr s')"
  shows "d_a s' = d_a s" "d_b s' = d_b s" "d_veclen s' = d_veclen s" "d_freed s' = d_freed s"
    "d_main s' = d_main s" "d_out s' = d_out s" "t' \<noteq> t \<Longrightarrow> d_thr s' t' = d_thr s t'"
  using assms by (cases "dt_at (d_thr s t)"; auto simp: dotprod_def set_thr_def Let_def split: if_splits)+

lemma dotprod_places:
  assumes "dotprod t s = Some (Inr s')"
  shows "dt_at (d_thr s t) \<noteq> DNew \<and> dt_at (d_thr s t) \<noteq> DExit \<and> dt_at (d_thr s' t) \<noteq> DNew"
  using assms by (cases "dt_at (d_thr s t)") (auto simp: dotprod_def set_thr_def Let_def split: if_splits)

lemma dotprod_mutex:
  assumes "dotprod t s = Some (Inr s')" "\<forall>t. d_mutex s = Some t \<longleftrightarrow> owns (dt_at (d_thr s t))"
  shows "d_mutex s' = Some t' \<longleftrightarrow> owns (dt_at (d_thr s' t'))"
proof -
  have "u = t" if "owns (dt_at (d_thr s u))" "owns (dt_at (d_thr s t))" for u
    using assms(2) that by (metis option.inject)
  with assms show ?thesis
    by (cases "dt_at (d_thr s t)") (auto simp: dotprod_def set_thr_def Let_def split: if_splits)
qed

lemma dotprod_control:
  assumes "dotprod t s = Some (Inr s')" "dot_control k s"
  shows "dot_control k s'"
proof -
  have "\<not> t < joined k (d_main s)" using assms dotprod_places by (fastforce simp: dot_control_def)
  moreover have "(dt_at (d_thr s' u) = DNew) = (dt_at (d_thr s u) = DNew)" for u
    using dotprod_places [OF assms(1)] dotprod_frame(7) [OF assms(1), of u] by (cases "u = t") auto
  ultimately show ?thesis
    using assms dotprod_mutex [OF assms(1)] dotprod_frame [OF assms(1)]
    by (auto simp: dot_control_def)
qed

text \<open>Only the owner of the mutex changes the sum, and it was the value it had loaded.\<close>

lemma dotprod_sum:
  assumes "dotprod t s = Some (Inr s')" "thread_ok a b len (d_sum s) t (d_thr s t)"
  shows "added (dt_at (d_thr s' t)) = added (dt_at (d_thr s t)) \<and> d_sum s' = d_sum s \<or>
    dt_at (d_thr s t) = DStore \<and> added (dt_at (d_thr s' t)) \<and> d_sum s' = d_sum s + chunk a b len t"
  using assms
  by (cases "dt_at (d_thr s t)")
    (auto simp: dotprod_def set_thr_def Let_def thread_ok_def split: if_splits)

lemma dotprod_own_ok:
  assumes "dotprod t s = Some (Inr s')" "thread_ok a b len (d_sum s) t (d_thr s t)" "dot_data a b len k s"
  shows "thread_ok a b len (d_sum s') t (d_thr s' t)"
  using assms
  by (cases "dt_at (d_thr s t)")
    (auto simp: dotprod_def set_thr_def Let_def thread_ok_def dot_data_def part_simps chunk_def
      split: if_splits)

lemma thread_ok_sum: "dt_at th \<noteq> DStore \<Longrightarrow> thread_ok a b len sm t th \<Longrightarrow> thread_ok a b len sm' t th"
  by (auto simp: thread_ok_def split: dot_pc.splits)

lemma dotprod_inv:
  assumes step: "dotprod t s = Some (Inr s')" and inv: "dot_inv a b len k s"
  shows "dot_inv a b len k s'"
proof -
  from inv have data: "dot_data a b len k s" and ctrl: "dot_control k s"
    and thr: "\<And>u. thread_ok a b len (d_sum s) u (d_thr s u)" and sm: "dot_sum_ok a b len s"
    by (auto simp: dot_inv_def)
  note change = dotprod_sum [OF step thr]
  have joining: "d_main s \<notin> {Freeing, Finished} \<or> d_sum s' = d_sum s"
    using change ctrl dotprod_places [OF step] by (auto simp: dot_control_def)
  have "dot_data a b len k s'"
    using data joining dotprod_frame [OF step] by (auto simp: dot_data_def)
  moreover have "thread_ok a b len (d_sum s') u (d_thr s' u)" for u
  proof (cases "u = t")
    case True
    then show ?thesis using dotprod_own_ok [OF step thr data] by simp
  next
    case False
    then have "dt_at (d_thr s u) \<noteq> DStore \<or> d_sum s' = d_sum s"
      using change ctrl by (auto simp: dot_control_def) (metis option.inject owns.simps(2))
    then show ?thesis using thr [of u] thread_ok_sum dotprod_frame(7) [OF step False] by metis
  qed
  moreover have "dot_sum_ok a b len s'"
  proof -
    from sm obtain order where order: "distinct order"
      "set order = {t. added (dt_at (d_thr s t))}" "d_sum s = foldl (+) 0 (map (chunk a b len) order)"
      by (auto simp: dot_sum_ok_def)
    have others: "added (dt_at (d_thr s' u)) = added (dt_at (d_thr s u))" if "u \<noteq> t" for u
      using dotprod_frame(7) [OF step that] by simp
    from change show ?thesis
    proof (elim disjE conjE)
      assume "added (dt_at (d_thr s' t)) = added (dt_at (d_thr s t))" "d_sum s' = d_sum s"
      with order others show ?thesis by (auto simp: dot_sum_ok_def intro!: exI [of _ order]) metis+
    next
      assume "dt_at (d_thr s t) = DStore" "added (dt_at (d_thr s' t))"
        "d_sum s' = d_sum s + chunk a b len t"
      with order others show ?thesis
        by (auto simp: dot_sum_ok_def intro!: exI [of _ "order @ [t]"]) metis+
    qed
  qed
  ultimately show ?thesis
    using dotprod_control [OF step ctrl] by (simp add: dot_inv_def)
qed

lemma dotprod_main_inv:
  assumes step: "dotprod_main k s = Some s'" and inv: "dot_inv a b len k s"
  shows "dot_inv a b len k s'"
proof (cases "\<exists>i. d_main s = Creating i \<and> i < k")
  case True
  then obtain i where i: "d_main s = Creating i" "i < k" by auto
  with inv have new: "dt_at (d_thr s i) = DNew" by (simp add: dot_inv_def dot_control_def)
  have s': "s' = (set_thr i ((d_thr s i)\<lparr>dt_at := DStart\<rparr>) s)\<lparr>d_main := Creating (i + 1)\<rparr>"
    using step i by (simp add: dotprod_main_def)
  have "dot_data a b len k s'" "\<forall>t. thread_ok a b len (d_sum s') t (d_thr s' t)"
    using inv i s' by (auto simp: dot_inv_def dot_data_def set_thr_def thread_ok_def)
  moreover have "\<not> owns (dt_at (d_thr s i))" using new by simp
  then have "dot_control k s'"
    using inv i s' by (auto simp: dot_inv_def dot_control_def set_thr_def)
  moreover have "{t. added (dt_at (d_thr s' t))} = {t. added (dt_at (d_thr s t))}"
    using s' new by (auto simp: set_thr_def)
  then have "dot_sum_ok a b len s'"
    using inv s' by (auto simp: dot_inv_def dot_sum_ok_def set_thr_def)
  ultimately show ?thesis by (simp add: dot_inv_def)
next
  case False
  with step inv show ?thesis
    by (cases "d_main s") (auto simp: dot_inv_def dotprod_main_def dot_data_def dot_control_def
        dot_sum_ok_def less_Suc_eq split: if_splits)
qed

lemma dot_step_inv: "dot_inv a b len k s \<Longrightarrow> dot_step k s s' \<Longrightarrow> dot_inv a b len k s'"
  by (auto elim!: dot_step.cases intro: dotprod_inv dotprod_main_inv)

section \<open>No fault, no deadlock, an end\<close>

lemma dotprod_no_fault:
  assumes inv: "dot_inv a b len k s" and len: "length a = k * len" "length b = k * len" and t: "t < k"
  shows "dotprod t s \<noteq> Some (Inl e)"
proof
  assume fault: "dotprod t s = Some (Inl e)"
  then have at: "dt_at (d_thr s t) = DLoop" and i: "dt_i (d_thr s t) < t * d_veclen s + d_veclen s"
    and bad: "d_freed s \<or> length (d_a s) \<le> dt_i (d_thr s t) \<or> length (d_b s) \<le> dt_i (d_thr s t)"
    by (cases "dt_at (d_thr s t)"; auto simp: dotprod_def Let_def split: if_splits)+
  from inv at t have "\<not> d_freed s" by (auto simp: dot_inv_def dot_data_def dot_control_def)
  moreover have "Suc t * len \<le> k * len" using t by (intro mult_right_mono) auto
  ultimately show False using inv i bad len by (auto simp: dot_inv_def dot_data_def)
qed

definition thread_rank :: "nat \<Rightarrow> nat \<Rightarrow> 'a dot_thread \<Rightarrow> nat" where
  "thread_rank len t th = (case dt_at th of DNew \<Rightarrow> len + 8 | DStart \<Rightarrow> len + 7
     | DLoop \<Rightarrow> t * len + len - dt_i th + 6 | DLock \<Rightarrow> 5 | DLoad \<Rightarrow> 4 | DStore \<Rightarrow> 3 | DUnlock \<Rightarrow> 2
     | DExit \<Rightarrow> 0)"

lemma thread_rank_new:
  "dt_at th = DNew \<Longrightarrow> dt_at th' = DStart \<Longrightarrow> thread_rank len t th' \<le> thread_rank len t th"
  by (simp add: thread_rank_def)

fun dot_main_rank :: "nat \<Rightarrow> dot_main \<Rightarrow> nat" where
  "dot_main_rank k (Creating i) = 2 * k + 4 - i"
| "dot_main_rank k (Joining i) = k + 3 - i"
| "dot_main_rank k Freeing = 1"
| "dot_main_rank k Finished = 0"

definition dot_rank :: "nat \<Rightarrow> nat \<Rightarrow> 'a dotstr \<Rightarrow> nat" where
  "dot_rank len k s = (\<Sum>t<k. thread_rank len t (d_thr s t)) + dot_main_rank k (d_main s)"

lemma sum_one_less:
  fixes f g :: "nat \<Rightarrow> nat"
  assumes "t < k" "g t < f t" "\<And>u. u \<noteq> t \<Longrightarrow> g u = f u"
  shows "(\<Sum>u<k. g u) < (\<Sum>u<k. f u)"
  using assms by (intro sum_strict_mono_ex1) (auto, metis less_or_eq_imp_le)

lemma dotprod_rank:
  assumes "dotprod t s = Some (Inr s')" "dot_inv a b len k s"
  shows "thread_rank len t (d_thr s' t) < thread_rank len t (d_thr s t)"
  using assms
  by (cases "dt_at (d_thr s t)")
    (auto simp: dotprod_def set_thr_def Let_def thread_rank_def dot_inv_def dot_data_def split: if_splits)

lemma dot_step_rank:
  assumes inv: "dot_inv a b len k s" and step: "dot_step k s s'"
  shows "dot_rank len k s' < dot_rank len k s"
  using step
proof cases
  case (dot_go_thread t)
  have "(\<Sum>u<k. thread_rank len u (d_thr s' u)) < (\<Sum>u<k. thread_rank len u (d_thr s u))"
    using dotprod_rank [OF dot_go_thread(2) inv] dotprod_frame(7) [OF dot_go_thread(2)]
    by (intro sum_one_less [OF dot_go_thread(1)]) simp_all
  then show ?thesis using dotprod_frame(5) [OF dot_go_thread(2)] by (simp add: dot_rank_def)
next
  case dot_go_main
  have "d_thr s' u = d_thr s u \<or> dt_at (d_thr s u) = DNew \<and> dt_at (d_thr s' u) = DStart" for u
    using dot_go_main inv
    by (cases "d_main s")
      (auto simp: dotprod_main_def set_thr_def dot_inv_def dot_control_def split: if_splits)
  then have "thread_rank len u (d_thr s' u) \<le> thread_rank len u (d_thr s u)" for u
    using thread_rank_new by (metis order_refl)
  then have "(\<Sum>u<k. thread_rank len u (d_thr s' u)) \<le> (\<Sum>u<k. thread_rank len u (d_thr s u))"
    by (intro sum_mono)
  moreover have "dot_main_rank k (d_main s') < dot_main_rank k (d_main s)"
    using dot_go_main inv
    by (cases "d_main s") (auto simp: dotprod_main_def set_thr_def dot_inv_def dot_control_def
        split: if_splits)
  ultimately show ?thesis by (simp add: dot_rank_def)
qed

lemma dot_progress:
  assumes inv: "dot_inv a b len k s" and len: "length a = k * len" "length b = k * len"
    and main: "d_main s \<noteq> Finished"
  shows "\<exists>s'. dot_step k s s'"
proof (cases "dotprod_main k s")
  case None
  then obtain i where i: "d_main s = Joining i" "i < k" "dt_at (d_thr s i) \<noteq> DExit"
    using main by (cases "d_main s") (auto simp: dotprod_main_def split: if_splits)
  define t where "t = (case d_mutex s of None \<Rightarrow> i | Some u \<Rightarrow> u)"
  have own: "d_mutex s = Some u \<longleftrightarrow> owns (dt_at (d_thr s u))" and
    new: "dt_at (d_thr s u) = DNew \<longleftrightarrow> k \<le> u" for u
    using inv i by (auto simp: dot_inv_def dot_control_def)
  have "t < k"
    using i own [of t] new [of t] by (cases "d_mutex s") (auto simp: t_def not_le [symmetric])
  moreover have "dotprod t s \<noteq> None"
    using i own [of t] new [of t] \<open>t < k\<close>
    by (cases "d_mutex s"; cases "dt_at (d_thr s t)") (auto simp: t_def dotprod_def Let_def)
  moreover have "dotprod t s \<noteq> Some (Inl e)" for e
    by (rule dotprod_no_fault [OF inv len \<open>t < k\<close>])
  ultimately obtain s' where "dotprod t s = Some (Inr s')"
    by (metis not_None_eq sum.exhaust)
  with \<open>t < k\<close> show ?thesis by (auto intro: dot_go_thread)
qed (auto intro: dot_go_main)

text \<open>Every vector of \<open>k * len\<close> elements is given by a function.\<close>

definition vec :: "nat \<Rightarrow> (nat \<Rightarrow> 'a) \<Rightarrow> 'a list" where
  "vec n f = map f [0..<n]"

lemma vec_nth: "length xs = n \<Longrightarrow> vec n ((!) xs) = xs"
  by (auto simp: vec_def map_nth)

interpretation dots: ending_runs "dot_step k" "dot_step k"
    "dot_ready (vec (k * len) f) (vec (k * len) g) len"
    "dot_inv (vec (k * len) f) (vec (k * len) g) len k" "\<lambda>s. d_main s = Finished" "dot_rank len k"
  for k len and f g :: "nat \<Rightarrow> 'a::{zero,plus,times}"
proof
  show "dot_inv (vec (k * len) f) (vec (k * len) g) len k
      (dot_ready (vec (k * len) f) (vec (k * len) g) len)" by (rule dot_inv_ready)
qed (auto intro: dot_step_inv dot_step_rank dot_progress simp: vec_def)

lemma dot_rank_ready: "dot_rank len k (dot_ready a b len) = k * (len + 10) + 4"
  by (simp add: dot_rank_def dot_ready_def thread_rank_def algebra_simps)

lemma dot_finished:
  assumes "dot_inv a b len k s" "d_main s = Finished"
  shows "\<exists>order. distinct order \<and> set order = {..<k} \<and>
    d_out s = [foldl (+) 0 (map (chunk a b len) order)]"
proof -
  have "dt_at (d_thr s t) = (if t < k then DExit else DNew)" for t
    using assms by (auto simp: dot_inv_def dot_control_def not_less)
  then have "{t. added (dt_at (d_thr s t))} = {..<k}" by auto
  with assms show ?thesis by (auto simp: dot_inv_def dot_data_def dot_sum_ok_def)
qed

lemma dot_run:
  fixes a b :: "'a::{zero,plus,times} list"
  assumes "length a = k * len" "length b = k * len" "(dot_step k ^^ n) (dot_ready a b len) s"
  shows "dot_inv a b len k s \<and> n \<le> k * (len + 10) + 4 \<and>
    ((\<forall>s'. \<not> dot_step k s s') \<longrightarrow> d_main s = Finished)"
proof -
  have run: "(dot_step k ^^ n) (dot_ready (vec (k * len) ((!) a)) (vec (k * len) ((!) b)) len) s"
    using assms by (simp add: vec_nth)
  show ?thesis
    using dots.run_bound [OF run] dots.run_ends [OF run] assms(1,2)
    by (simp add: vec_nth dot_rank_ready)
qed

section \<open>Properties\<close>

text \<open>
  C17: for any vectors of \<open>k * len\<close> elements and every interleaving of the \<open>k\<close> threads: no thread
  reads outside a vector or after it was freed, every run ends after at most \<open>k * (len + 10) + 4\<close>
  steps, and then the sum printed is that of the \<open>k\<close> partial products, each added exactly once,
  in the order in which the threads got the mutex.
\<close>

theorem dotprod_every_interleaving:
  fixes a b :: "'a::{zero,plus,times} list"
  assumes "length a = k * len" "length b = k * len" "(dot_step k ^^ n) (dot_ready a b len) s"
  shows "(\<forall>t < k. \<forall>e. dotprod t s \<noteq> Some (Inl e)) \<and> n \<le> k * (len + 10) + 4 \<and>
    ((\<forall>s'. \<not> dot_step k s s') \<longrightarrow> d_main s = Finished \<and>
      (\<exists>order. distinct order \<and> set order = {..<k} \<and>
        d_out s = [foldl (+) 0 (map (chunk a b len) order)]))"
  using dot_run [OF assms] dot_finished [of a b len k s] dotprod_no_fault [of a b len k s] assms(1,2)
  by auto

definition dot_move :: "nat \<Rightarrow> nat option \<Rightarrow> 'a::{zero,plus,times} dotstr \<Rightarrow> 'a dotstr option" where
  "dot_move k m s = (case m of
       None \<Rightarrow> dotprod_main k s
     | Some t \<Rightarrow> (if t < k then (case dotprod t s of Some (Inr s') \<Rightarrow> Some s' | _ \<Rightarrow> None) else None))"

lemma dot_moves: "moves (dot_move k) ms s = Some s' \<Longrightarrow> (dot_step k ^^ length ms) s s'"
proof (rule moves_steps [of "dot_move k"])
  show "dot_step k t t'" if "dot_move k m t = Some t'" for m and t t' :: "'a dotstr"
    using that by (auto simp: dot_move_def split: option.splits sum.splits if_splits
        intro: dot_step.intros)
qed

text \<open>Two threads with one element each, the second one first.\<close>

definition dot_order :: "nat option list" where
  "dot_order = replicate 3 None @ replicate 7 (Some 1) @ replicate 7 (Some 0) @ replicate 4 None"

lemma dot_order_run:
  "map_option (\<lambda>s. (d_main s, d_out s)) (moves (dot_move 2) dot_order (dot_ready [2, 3] [5, 7] 1)) =
     Some (Finished, [31 :: int])"
  by (simp add: dot_order_def dot_move_def dotprod_def dotprod_main_def set_thr_def dot_ready_def
      numeral_eq_Suc replicate_Suc Let_def)

lemma dotprod_every_interleaving_witness:
  "\<exists>s :: int dotstr. (dot_step 2 ^^ 21) (dot_ready [2, 3] [5, 7] 1) s \<and> (\<forall>s'. \<not> dot_step 2 s s') \<and>
     (\<forall>t < 2. \<forall>e. dotprod t s \<noteq> Some (Inl e)) \<and> 21 \<le> 2 * (1 + 10) + (4 :: nat) \<and>
     d_main s = Finished \<and> (\<exists>order. distinct order \<and> set order = {..<2} \<and>
       d_out s = [foldl (+) 0 (map (chunk [2, 3] [5, 7] 1) order)])"
proof -
  obtain s :: "int dotstr" where s: "(dot_step 2 ^^ 21) (dot_ready [2, 3] [5, 7] 1) s"
    "d_main s = Finished"
    using dot_order_run dot_moves [of 2 dot_order "dot_ready [2, 3] [5, 7] 1"]
    by (auto simp: dot_order_def)
  have inv: "dot_inv [2, 3] [5, 7] 1 2 s"
    using dot_run [of "[2, 3]" 2 1 "[5, 7]" 21 s] s(1) by simp
  have "dotprod t s = None" if "t < 2" for t
    using inv s(2) that by (auto simp: dot_inv_def dot_control_def dotprod_def Let_def)
  then have "\<forall>s'. \<not> dot_step 2 s s'"
    using s(2) by (auto simp: dotprod_main_def elim!: dot_step.cases)
  with s dotprod_every_interleaving [of "[2, 3]" 2 1 "[5, 7]" 21 s] show ?thesis by auto
qed

section \<open>Exact arithmetic\<close>

text \<open>Where addition is exact the order does not matter: the sum is the dot product.\<close>

lemma foldl_sum_list: "foldl (+) x xs = x + sum_list (xs :: 'a::comm_monoid_add list)"
  by (induction xs arbitrary: x) (simp_all add: add.assoc)

lemma part_sum:
  "i \<le> j \<Longrightarrow> part a b i j = (\<Sum>l = i..<j. a ! l * b ! l :: 'a::comm_semiring_0)"
  by (induction j rule: nat_induct_at_least) (simp_all add: part_simps)

lemma chunks_sum:
  "(\<Sum>t<k. chunk a b len t) = (\<Sum>l<k * len. a ! l * b ! l :: 'a::comm_semiring_0)"
proof (induction k)
  case (Suc k)
  have "(\<Sum>l<Suc k * len. a ! l * b ! l) =
      (\<Sum>l<k * len. a ! l * b ! l) + (\<Sum>l = k * len..<k * len + len. a ! l * b ! l)"
    by (simp add: lessThan_atLeast0 sum.atLeastLessThan_concat add.commute)
  with Suc show ?case by (simp add: chunk_def part_sum)
qed simp

lemma dotprod_exact:
  fixes a b :: "'a::comm_semiring_0 list"
  assumes "distinct order" "set order = {..<k}"
  shows "foldl (+) 0 (map (chunk a b len) order) = (\<Sum>l<k * len. a ! l * b ! l)"
  using assms chunks_sum [of a b len k]
  by (simp add: foldl_sum_list sum_list_distinct_conv_sum_set)

text \<open>What the program itself prints.\<close>

lemma dotprod_ones:
  "(dot_step 4 ^^ n) (dot_ready (ones 400) (ones 400) 100) s \<Longrightarrow> \<forall>s'. \<not> dot_step 4 s s' \<Longrightarrow>
    d_out s = [400 :: 'a::comm_semiring_1]"
proof -
  assume run: "(dot_step 4 ^^ n) (dot_ready (ones 400) (ones 400) 100 :: 'a dotstr) s"
    and stuck: "\<forall>s'. \<not> dot_step 4 s s'"
  have "length (ones 400 :: 'a list) = 4 * 100" by (simp add: ones_def)
  from dot_run [OF this this run] stuck
  have "dot_inv (ones 400) (ones 400) 100 4 s" "d_main s = Finished" by auto
  then obtain order where "distinct order" "set order = {..<4}"
    "d_out s = [foldl (+) 0 (map (chunk (ones 400) (ones 400) 100) order)]"
    using dot_finished by blast
  with dotprod_exact [of order 4 "ones 400 :: 'a list" "ones 400" 100] show ?thesis
    by (simp add: ones_def)
qed

end
