(* ===== verification/LineIO.thy ===== *)
theory LineIO
  imports Prelude
begin

text \<open>
  The line input and output of the pipe and socket programs (pthreads/pipes-6.c; the echo server
  pg-server-1.c carries a copy): \<open>writeLine\<close> repeats \<open>write\<close> until all bytes are gone,
  \<open>readLine\<close> reads byte by byte up to a newline.

  The kernel is an argument: a list of answers, one for each coming call. A \<open>write\<close> takes as many
  of the bytes as the answer says, or fails with an error number; a \<open>read\<close> of one byte gives the
  next byte of the stream (or the end of the file when there is none), or fails. A call without an
  answer does not return, and neither does the routine (\<open>None\<close>). \<open>errno\<close> keeps its value
  until a call fails. \<open>size_t\<close> is a 64-bit word.
\<close>

type_synonym u64 = "64 word"

definition EINTR :: int where "EINTR = 4"

text \<open>The character codes compared: newline is 10, and 0 ends a string.\<close>

definition newline :: u8 where "newline = 10"

section \<open>writeLine\<close>

datatype write_answer = Wrote nat | WriteFails int

record wchan =
  w_answers :: "write_answer list"
  w_sent :: "u8 list"
  w_errno :: int

text \<open>\<open>write\<close>: what the call returns, never more than it was asked to write.\<close>

definition sys_write :: "u8 list \<Rightarrow> wchan \<Rightarrow> (int \<times> wchan) option" where
  "sys_write bs c = (case w_answers c of
       [] \<Rightarrow> None
     | Wrote k # e \<Rightarrow>
         Some (int (min k (length bs)), c\<lparr>w_answers := e, w_sent := w_sent c @ take k bs\<rparr>)
     | WriteFails er # e \<Rightarrow> Some (- 1, c\<lparr>w_answers := e, w_errno := er\<rparr>))"

lemma sys_write_answers [termination_simp]:
  "sys_write bs c = Some (r, c') \<Longrightarrow> length (w_answers c') < length (w_answers c)"
  by (auto simp: sys_write_def split: list.splits write_answer.splits)

text \<open>
  The loop; \<open>buffer\<close> is the memory from the pointer on. Writing more than the memory holds is a
  fault. What is returned is the value of the function.
\<close>

function writeLine_loop :: "u64 \<Rightarrow> u64 \<Rightarrow> u8 list \<Rightarrow> wchan \<Rightarrow> (u64 \<times> wchan) option res" where
  "writeLine_loop n nleft buffer c =
     (if nleft > 0 then
        (if unat nleft > length buffer then Inl IndexFault
         else case sys_write (take (unat nleft) buffer) c of
           None \<Rightarrow> Inr None
         | Some (nwritten, c') \<Rightarrow>
             if nwritten \<le> 0 then
               (if w_errno c' = EINTR then writeLine_loop n nleft buffer c'
                else Inr (Some (- 1, c')))
             else writeLine_loop n (nleft - of_int nwritten) (drop (nat nwritten) buffer) c')
      else Inr (Some (n, c)))"
  by pat_completeness auto
termination by (relation "measure (\<lambda>(n, nleft, buffer, c). length (w_answers c))")
  (auto dest: sys_write_answers)

declare writeLine_loop.simps [simp del]

definition writeLine :: "u8 list \<Rightarrow> u64 \<Rightarrow> wchan \<Rightarrow> (u64 \<times> wchan) option res" where
  "writeLine vptr n c = writeLine_loop n n vptr c"

section \<open>readLine\<close>

datatype read_answer = Ready | ReadFails int

record rchan =
  r_answers :: "read_answer list"
  r_stream :: "u8 list"
  r_errno :: int

text \<open>\<open>read\<close> of one byte: the value returned and the byte (0 when there is none).\<close>

definition sys_read :: "rchan \<Rightarrow> (int \<times> u8 \<times> rchan) option" where
  "sys_read c = (case r_answers c of
       [] \<Rightarrow> None
     | Ready # e \<Rightarrow> (case r_stream c of
           [] \<Rightarrow> Some (0, 0, c\<lparr>r_answers := e\<rparr>)
         | b # bs \<Rightarrow> Some (1, b, c\<lparr>r_answers := e, r_stream := bs\<rparr>))
     | ReadFails er # e \<Rightarrow> Some (- 1, 0, c\<lparr>r_answers := e, r_errno := er\<rparr>))"

lemma sys_read_answers [termination_simp]:
  "sys_read c = Some (rc, b, c') \<Longrightarrow> length (r_answers c') < length (r_answers c)"
  by (auto simp: sys_read_def split: list.splits read_answer.splits)

text \<open>\<open>mem\<close> is the memory at \<open>vptr\<close>, \<open>p\<close> the position of \<open>buffer\<close> in it.\<close>

definition readLine_end :: "u64 \<Rightarrow> nat \<Rightarrow> u8 list \<Rightarrow> rchan \<Rightarrow> (u64 \<times> u8 list \<times> rchan) option res" where
  "readLine_end n p mem c =
     (if p < length mem then Inr (Some (n, mem[p := 0], c)) else Inl IndexFault)"

function readLine_loop ::
  "u64 \<Rightarrow> nat \<Rightarrow> u8 list \<Rightarrow> u64 \<Rightarrow> rchan \<Rightarrow> (u64 \<times> u8 list \<times> rchan) option res" where
  "readLine_loop n p mem maxlen c =
     (if n < maxlen then
        (case sys_read c of
           None \<Rightarrow> Inr None
         | Some (rc, b, c') \<Rightarrow>
             if rc = 1 then
               (if p < length mem then
                  (if b = newline then readLine_end n (p + 1) (mem[p := b]) c'
                   else readLine_loop (n + 1) (p + 1) (mem[p := b]) maxlen c')
                else Inl IndexFault)
             else if rc = 0 then
               (if n = 1 then Inr (Some (0, mem, c')) else readLine_end n p mem c')
             else if r_errno c' = EINTR then readLine_loop (n + 1) p mem maxlen c'
             else Inr (Some (- 1, mem, c')))
      else readLine_end n p mem c)"
  by pat_completeness auto
termination by (relation "measure (\<lambda>(n, p, mem, maxlen, c). length (r_answers c))")
  (auto dest: sys_read_answers)

declare readLine_loop.simps [simp del]

definition readLine :: "u8 list \<Rightarrow> u64 \<Rightarrow> rchan \<Rightarrow> (u64 \<times> u8 list \<times> rchan) option res" where
  "readLine mem maxlen c = readLine_loop 1 0 mem maxlen c"

section \<open>What writeLine does\<close>

lemma unat_minus_of_nat [simp]:
  assumes "m \<le> unat (w :: u64)"
  shows "unat (w - of_nat m) = unat w - m"
proof -
  have "unat w < 2 ^ 64" using unsigned_less [of w, where ?'a = nat] by simp
  with assms have "unat (of_nat m :: u64) = m" by (simp add: unat_of_nat)
  with assms show ?thesis by (simp add: unat_sub word_le_nat_alt)
qed





text \<open>
  A kernel that makes progress: every call either writes at least one byte or is interrupted,
  and there are as many writing calls as bytes.
\<close>

definition write_progress :: "nat \<Rightarrow> write_answer list \<Rightarrow> bool" where
  "write_progress k e \<longleftrightarrow> (\<forall>a \<in> set e. a = WriteFails EINTR \<or> (\<exists>m > 0. a = Wrote m)) \<and>
     k \<le> length (filter (\<lambda>a. a \<noteq> WriteFails EINTR) e)"

lemma write_progress_simps [simp]:
  "write_progress k [] \<longleftrightarrow> k = 0"
  "write_progress k (WriteFails er # e) \<longleftrightarrow> er = EINTR \<and> write_progress k e"
  "write_progress k (Wrote m # e) \<longleftrightarrow> 0 < m \<and> write_progress (k - 1) e"
  by (auto simp: write_progress_def)

lemma write_progress_mono: "write_progress k e \<Longrightarrow> j \<le> k \<Longrightarrow> write_progress j e"
  by (auto simp: write_progress_def)

lemma writeLine_loop_returns:
  assumes "unat nleft \<le> length buffer" "write_progress (unat nleft) (w_answers c)"
  shows "\<exists>c'. writeLine_loop n nleft buffer c = Inr (Some (n, c')) \<and>
    w_sent c' = w_sent c @ take (unat nleft) buffer"
  using assms
proof (induction n nleft buffer c rule: writeLine_loop.induct)
  case (1 n nleft buffer c)
  show ?case
  proof (cases "nleft = 0")
    case True
    then show ?thesis by (subst writeLine_loop.simps) simp
  next
    case False
    then have pos: "nleft > 0" and upos: "0 < unat nleft"
      by (simp_all add: word_gt_0 unat_gt_0)
    have le: "\<not> length buffer < unat nleft" using "1.prems" by simp
    from upos "1.prems"(2) obtain a e where e: "w_answers c = a # e"
      by (cases "w_answers c") auto
    show ?thesis
    proof (cases a)
      case (WriteFails er)
      let ?c = "c\<lparr>w_answers := e, w_errno := er\<rparr>"
      have w: "sys_write (take (unat nleft) buffer) c = Some (- 1, ?c)"
        using e WriteFails by (simp add: sys_write_def)
      have "writeLine_loop n nleft buffer c = writeLine_loop n nleft buffer ?c"
        using pos le w "1.prems"(2) e WriteFails by (subst writeLine_loop.simps) simp
      with "1.IH"(1) [OF pos le w refl] "1.prems" e WriteFails show ?thesis by simp
    next
      case (Wrote k)
      define m where "m = min k (unat nleft)"
      let ?c = "c\<lparr>w_answers := e, w_sent := w_sent c @ take m buffer\<rparr>"
      have k: "0 < k" "write_progress (unat nleft - 1) e"
        using "1.prems"(2) e Wrote by simp_all
      have m: "0 < m" "m \<le> unat nleft" using k upos by (simp_all add: m_def)
      have w: "sys_write (take (unat nleft) buffer) c = Some (int m, ?c)"
        using e Wrote "1.prems"(1) by (simp add: sys_write_def m_def min_def)
      have rec: "writeLine_loop n nleft buffer c =
          writeLine_loop n (nleft - of_int (int m)) (drop m buffer) ?c"
        using pos le w m by (subst writeLine_loop.simps) simp
      have prog: "write_progress (unat nleft - m) (w_answers ?c)"
        using write_progress_mono [OF k(2), of "unat nleft - m"] m by simp
      have bytes: "take m buffer @ take (unat nleft - m) (drop m buffer) = take (unat nleft) buffer"
        using m take_add [of m "unat nleft - m" buffer] by simp
      have "\<exists>c'. writeLine_loop n (nleft - of_int (int m)) (drop m buffer) ?c = Inr (Some (n, c')) \<and>
          w_sent c' = w_sent ?c @ take (unat nleft - m) (drop m buffer)"
        using "1.IH"(2) [OF pos le w refl] m prog "1.prems"(1) by (simp add: diff_le_mono)
      then show ?thesis using rec bytes by simp
    qed
  qed
qed

section \<open>What readLine does\<close>



lemma unat_succ: "(n :: u64) < maxlen \<Longrightarrow> unat (n + 1) = unat n + 1"
proof -
  assume lt: "n < maxlen"
  then have "1 + n \<noteq> 0" by (metis add_eq_0_iff word_not_simps(3))
  then show ?thesis using unatSuc [of n] by (simp add: add.commute)
qed

lemma upd_between:
  "p < length xs \<Longrightarrow> xs[p := v] = take p xs @ v # drop (p + 1) xs"
  by (simp add: upd_conv_take_nth_drop)

lemma readLine_end_eq:
  "p < length mem \<Longrightarrow>
    readLine_end n p mem c = Inr (Some (n, take p mem @ 0 # drop (p + 1) mem, c))"
  "p + 1 < length mem \<Longrightarrow>
    readLine_end n (p + 1) (mem[p := b]) c = Inr (Some (n, take p mem @ b # 0 # drop (p + 2) mem, c))"
  by (simp_all add: readLine_end_def upd_between)



text \<open>
  When no call is interrupted the line is a function of the stream: all bytes up to the first
  newline, but at most \<open>k\<close>.
\<close>

fun next_line :: "nat \<Rightarrow> u8 list \<Rightarrow> u8 list" where
  "next_line 0 bs = []"
| "next_line (Suc k) [] = []"
| "next_line (Suc k) (b # bs) = b # (if b = newline then [] else next_line k bs)"

definition line_count :: "u8 list \<Rightarrow> nat" where
  "line_count l = (if l \<noteq> [] \<and> last l = newline then length l else length l + 1)"

lemma line_count_simps [simp]:
  "line_count [] = 1"
  "line_count [newline] = 1"
  "b \<noteq> newline \<Longrightarrow> line_count (b # l) = Suc (line_count l)"
  by (simp_all add: line_count_def)

lemma next_line_append:
  "newline \<notin> set xs \<Longrightarrow> next_line k (xs @ ys) = take k xs @ next_line (k - length xs) ys"
proof (induction xs arbitrary: k)
  case (Cons b xs)
  then show ?case by (cases k) auto
qed simp

lemma next_line_body:
  "newline \<notin> set body \<Longrightarrow> length body < k \<Longrightarrow>
    next_line k (body @ newline # rest) = body @ [newline]"
  by (cases "k - length body") (simp_all add: next_line_append)

definition reads_line :: "nat \<Rightarrow> u8 list \<Rightarrow> u8 list \<Rightarrow> rchan \<Rightarrow> (u64 \<times> u8 list \<times> rchan) option res \<Rightarrow> bool" where
  "reads_line p mem l c out \<longleftrightarrow> (\<exists>c'. r_stream c' = drop (length l) (r_stream c) \<and>
     out = Inr (Some (of_nat (p + line_count l), take p mem @ l @ 0 # drop (p + length l + 1) mem, c')))"

lemma readLine_loop_uninterrupted:
  assumes "unat n = p + 1" "unat n \<le> unat maxlen" "unat maxlen \<le> length mem"
    "set (r_answers c) \<subseteq> {Ready}"
    "length (next_line (unat maxlen - unat n) (r_stream c)) < length (r_answers c)"
    "p = 0 \<Longrightarrow> r_stream c = [] \<Longrightarrow> unat maxlen = 1"
  shows "reads_line p mem (next_line (unat maxlen - unat n) (r_stream c)) c
    (readLine_loop n p mem maxlen c)"
  using assms
proof (induction n p mem maxlen c rule: readLine_loop.induct)
  case (1 n p mem maxlen c)
  have p: "p < length mem" using "1.prems" by simp
  have nn: "of_nat (Suc p) = n" using "1.prems"(1) by (metis Suc_eq_plus1 of_nat_unat ucast_id)
  from "1.prems"(5) obtain a e where e: "r_answers c = a # e" by (cases "r_answers c") auto
  with "1.prems"(4) have a: "a = Ready" by simp
  show ?case
  proof (cases "n < maxlen")
    case False
    then have "unat maxlen - unat n = 0" by (simp add: word_le_nat_alt not_less)
    moreover have "readLine_loop n p mem maxlen c = readLine_end n p mem c"
      using False by (subst readLine_loop.simps) simp
    ultimately show ?thesis
      using p nn by (auto simp: reads_line_def readLine_end_eq [simplified])
  next
    case lt: True
    have n: "unat (n + 1) = unat n + 1" "unat n < unat maxlen"
      using lt by (simp_all add: unat_succ word_less_nat_alt)
    then obtain k where k: "unat maxlen - unat n = Suc k" "unat maxlen - unat (n + 1) = k"
      by (metis Suc_diff_Suc add.commute diff_diff_left plus_1_eq_Suc)
    show ?thesis
    proof (cases "r_stream c")
      case Nil
      let ?c = "c\<lparr>r_answers := e\<rparr>"
      have "sys_read c = Some (0, 0, ?c)" using e a Nil by (simp add: sys_read_def)
      moreover have "n \<noteq> 1" using "1.prems"(1,6) Nil n by auto
      ultimately have "readLine_loop n p mem maxlen c = readLine_end n p mem ?c"
        using lt by (subst readLine_loop.simps) simp
      then show ?thesis
        using p nn k Nil by (auto simp: reads_line_def readLine_end_eq [simplified])
    next
      case (Cons b bs)
      let ?c = "c\<lparr>r_answers := e, r_stream := bs\<rparr>"
      have rd: "sys_read c = Some (1, b, ?c)" using e a Cons by (simp add: sys_read_def)
      show ?thesis
      proof (cases "b = newline")
        case True
        have "readLine_loop n p mem maxlen c = readLine_end n (p + 1) (mem[p := b]) ?c"
          using lt rd p True by (subst readLine_loop.simps) simp
        also have "\<dots> = Inr (Some (n, take p mem @ b # 0 # drop (p + 2) mem, ?c))"
          using n "1.prems"(1,3) by (intro readLine_end_eq(2)) simp
        finally show ?thesis
          using nn k Cons True by (auto simp: reads_line_def)
      next
        case False
        have "readLine_loop n p mem maxlen c =
            readLine_loop (n + 1) (p + 1) (mem[p := b]) maxlen ?c"
          using lt rd p False by (subst readLine_loop.simps) simp
        moreover have "reads_line (p + 1) (mem[p := b]) (next_line k bs) ?c
            (readLine_loop (n + 1) (p + 1) (mem[p := b]) maxlen ?c)"
          using "1.IH"(1) [OF lt rd refl refl refl p False] "1.prems" n k e Cons False by auto
        ultimately show ?thesis
          using p k Cons False by (auto simp: reads_line_def upd_between ac_simps)
      qed
    qed
  qed
qed

section \<open>Properties\<close>

lemma writeLine_returns:
  assumes "unat n \<le> length v" "write_progress (unat n) (w_answers c)"
  shows "\<exists>c'. writeLine v n c = Inr (Some (n, c')) \<and> w_sent c' = w_sent c @ take (unat n) v"
  using writeLine_loop_returns [OF assms] by (simp add: writeLine_def)

lemma readLine_uninterrupted:
  assumes "0 < unat maxlen" "unat maxlen \<le> length mem" "set (r_answers c) \<subseteq> {Ready}"
    "length (next_line (unat maxlen - 1) (r_stream c)) < length (r_answers c)" "r_stream c \<noteq> []"
  shows "reads_line 0 mem (next_line (unat maxlen - 1) (r_stream c)) c (readLine mem maxlen c)"
  using readLine_loop_uninterrupted [of 1 0 maxlen mem c] assms by (simp add: readLine_def)

text \<open>
  The programs pass \<open>sizeof message\<close>, which is 256, for both lengths, and their messages have no
  newline: the reader takes 255 bytes and reports 256, and the last byte of each message is the
  first one of the next.
\<close>

lemma messages_out_of_step:
  assumes "length message = 256" "newline \<notin> set message" "length mem = 256"
    "set (r_answers d) \<subseteq> {Ready}" "256 \<le> length (r_answers d)" "r_stream d = message @ later"
  shows "\<exists>d'. readLine mem 256 d = Inr (Some (256, take 255 message @ [0], d')) \<and>
    r_stream d' = last message # later"
proof -
  have split: "message = take 255 message @ [last message]"
    using assms(1) append_butlast_last_id [of message]
    by (cases "message = []") (auto simp: butlast_conv_take)
  have nl: "newline \<notin> set (take 255 message)" using assms(2) by (auto dest: in_set_takeD)
  then have line: "next_line 255 (r_stream d) = take 255 message"
    using assms(1) by (subst assms(6), subst split) (simp add: next_line_append)
  have "take 255 message \<noteq> []" using assms(1) by auto
  then have "last (take 255 message) \<noteq> newline" using nl last_in_set by metis
  then have "line_count (take 255 message) = 256"
    using assms(1) by (simp add: line_count_def)
  moreover have "drop 255 (r_stream d) = last message # later"
    using assms(1) by (subst assms(6), subst split) simp
  moreover have "r_stream d \<noteq> []" using assms(1,6) by auto
  then have "reads_line 0 mem (take 255 message) d (readLine mem 256 d)"
    using readLine_uninterrupted [of 256 mem d] assms(1,3,4,5) line by simp
  ultimately show ?thesis using assms(1,3) by (auto simp: reads_line_def)
qed

text \<open>
  Every interrupted \<open>read\<close> raises the count although nothing was stored, and with \<open>maxlen\<close> 0 the
  end of the string is still written.
\<close>

lemma readLine_interrupt_counts:
  "readLine [1, 1, 1, 1] 4 \<lparr>r_answers = [ReadFails EINTR, Ready, Ready], r_stream = [65, 10], r_errno = 0\<rparr> =
     Inr (Some (3, [65, 10, 0, 1], \<lparr>r_answers = [], r_stream = [], r_errno = EINTR\<rparr>))"
  by (simp add: readLine_def readLine_loop.simps sys_read_def readLine_end_def newline_def EINTR_def)

lemma readLine_zero_maxlen: "readLine [] 0 c = Inl IndexFault"
  by (simp add: readLine_def readLine_loop.simps readLine_end_def)

text \<open>
  C19: a line written by \<open>writeLine\<close> comes back from \<open>readLine\<close> whole, however the kernel cuts the
  writes into pieces or interrupts them: the reader stores exactly its bytes and a terminating 0,
  returns its length, and leaves what was written after it in the stream.
\<close>

lemma line_roundtrip:
  assumes "newline \<notin> set body" "unat n = length body + 1"
    "write_progress (unat n) (w_answers c)"
    "unat n < unat maxlen" "unat maxlen \<le> length mem"
    "set (r_answers d) \<subseteq> {Ready}" "unat n < length (r_answers d)"
  shows "\<exists>c' d'. writeLine (body @ newline # junk) n c = Inr (Some (n, c')) \<and>
    readLine mem maxlen (d\<lparr>r_stream := drop (length (w_sent c)) (w_sent c') @ later\<rparr>) =
      Inr (Some (n, body @ newline # 0 # drop (length body + 2) mem, d')) \<and>
    r_stream d' = later"
proof -
  obtain c' where w: "writeLine (body @ newline # junk) n c = Inr (Some (n, c'))"
    and sent: "w_sent c' = w_sent c @ body @ [newline]"
    using writeLine_returns [of n "body @ newline # junk" c] assms(2,3) by auto
  let ?d = "d\<lparr>r_stream := drop (length (w_sent c)) (w_sent c') @ later\<rparr>"
  have line: "next_line (unat maxlen - 1) (r_stream ?d) = body @ [newline]"
    using next_line_body [OF assms(1), of "unat maxlen - 1" later] assms(2,4) sent by simp
  have n: "of_nat (Suc (length body)) = n"
    using assms(2) by (metis Suc_eq_plus1 of_nat_unat ucast_id)
  have "reads_line 0 mem (body @ [newline]) ?d (readLine mem maxlen ?d)"
    using readLine_uninterrupted [of maxlen mem ?d] assms(2,4-7) line sent by simp
  with w n sent show ?thesis by (auto simp: reads_line_def line_count_def)
qed

lemma line_roundtrip_witness:
  "\<exists>c' d'. writeLine ([72, 105] @ newline # [7]) 3
      \<lparr>w_answers = [Wrote 1, WriteFails EINTR, Wrote 9, Wrote 1], w_sent = [1], w_errno = 0\<rparr> =
      Inr (Some (3, c')) \<and>
    readLine [1, 1, 1, 1, 1] 5 (\<lparr>r_answers = replicate 4 Ready, r_stream = [], r_errno = 0\<rparr>
        \<lparr>r_stream := drop (length [1 :: u8]) (w_sent c') @ [66]\<rparr>) =
      Inr (Some (3, [72, 105] @ newline # 0 # drop 4 [1, 1, 1, 1, 1], d')) \<and>
    r_stream d' = [66]"
  using line_roundtrip [of "[72, 105]" 3
      "\<lparr>w_answers = [Wrote 1, WriteFails EINTR, Wrote 9, Wrote 1], w_sent = [1], w_errno = 0\<rparr>" 5
      "[1, 1, 1, 1, 1]" "\<lparr>r_answers = replicate 4 Ready, r_stream = [], r_errno = 0\<rparr>" "[7]" "[66]"]
  by (simp add: newline_def)



end
