(* ===== verification/Bubblesort.thy ===== *)
theory Bubblesort
  imports Prelude
begin

text \<open>
  bubbleSort.c: the sorting routine and the program around it. The array is a list, and an
  access outside it is \<open>IndexFault\<close>; the random numbers are the argument \<open>rnd\<close>, what the
  array holds at first is \<open>garbage\<close>.
\<close>

section \<open>The program\<close>

definition swap :: "nat \<Rightarrow> nat \<Rightarrow> int list \<Rightarrow> int list" where
  "swap x y xs = (let temp = xs ! x; xs1 = xs[x := xs ! y] in xs1[y := temp])"

definition sort_step :: "nat \<Rightarrow> int list \<Rightarrow> int list res" where
  "sort_step j xs = (if length xs \<le> Suc j then Inl IndexFault
     else Inr (if xs ! j > xs ! Suc j then swap j (Suc j) xs else xs))"

definition sort_pass :: "int \<Rightarrow> nat \<Rightarrow> int list \<Rightarrow> int list res" where
  "sort_pass n i = for_each [0..<nat (n - (int i + 1))] sort_step"

definition bubblesort :: "int \<Rightarrow> int list \<Rightarrow> int list res" where
  "bubblesort n xs = for_each [0..<nat (n - 1)] (sort_pass n) xs"

definition printlist :: "int \<Rightarrow> int list \<Rightarrow> int list" where
  "printlist n xs = map ((!) xs) [0..<nat n]"

definition fill_step :: "(nat \<Rightarrow> int) \<Rightarrow> nat \<Rightarrow> int list \<Rightarrow> int list res" where
  "fill_step rnd i xs = (if length xs \<le> i then Inl IndexFault else Inr (xs[i := rnd i]))"

definition sort_main :: "int list \<Rightarrow> (nat \<Rightarrow> int) \<Rightarrow> int \<Rightarrow> (int list \<times> int list) res" where
  "sort_main garbage rnd n = bind_res (for_each [0..<nat n] (fill_step rnd) garbage) (\<lambda>xs.
     bind_res (bubblesort n xs) (\<lambda>ys. Inr (printlist n xs, ys)))"

section \<open>Correctness\<close>

lemma length_swap [simp]: "length (swap x y xs) = length xs"
  by (simp add: swap_def Let_def)

lemma mset_swap': "x < length xs \<Longrightarrow> y < length xs \<Longrightarrow> mset (swap x y xs) = mset xs"
  by (simp add: swap_def Let_def mset_swap)

lemma nth_swap: "x < length xs \<Longrightarrow> y < length xs
    \<Longrightarrow> swap x y xs ! k = (if k = y then xs ! x else if k = x then xs ! y else xs ! k)"
  by (auto simp: swap_def Let_def nth_upd)

text \<open>A pass carries the largest element of the first \<open>m + 1\<close> to index \<open>m\<close>.\<close>

lemma sort_pass_bubbles:
  assumes "m < length xs"
  shows "\<exists>ys. for_each [0..<m] sort_step xs = Inr ys \<and> length ys = length xs \<and> mset ys = mset xs
    \<and> (\<forall>k \<le> m. ys ! k \<le> ys ! m) \<and> drop (Suc m) ys = drop (Suc m) xs
    \<and> mset (take (Suc m) ys) = mset (take (Suc m) xs)"
  using assms
proof (induction m)
  case 0
  then show ?case by simp
next
  case (Suc m)
  then obtain ys where ys: "for_each [0..<m] sort_step xs = Inr ys" "length ys = length xs" "mset ys = mset xs"
    "\<forall>k \<le> m. ys ! k \<le> ys ! m" "drop (Suc m) ys = drop (Suc m) xs" by auto
  define zs where "zs = (if ys ! m > ys ! Suc m then swap m (Suc m) ys else ys)"
  have m: "m < length ys" "Suc m < length ys" using Suc.prems ys(2) by simp_all
  have run: "for_each [0..<Suc m] sort_step xs = Inr zs"
    using ys(1) m by (simp add: for_each_append sort_step_def zs_def)
  have len: "length zs = length xs" using ys(2) by (simp add: zs_def)
  have ms: "mset zs = mset xs" using ys(3) m by (simp add: zs_def mset_swap')
  have "\<forall>k \<le> Suc m. zs ! k \<le> zs ! Suc m"
    using ys(4) m by (auto simp: zs_def nth_swap le_Suc_eq intro: order.trans)
  moreover have "drop (Suc (Suc m)) zs = drop (Suc (Suc m)) xs"
  proof -
    have "drop (Suc (Suc m)) zs = drop (Suc (Suc m)) ys" by (simp add: zs_def swap_def Let_def)
    also have "\<dots> = drop 1 (drop (Suc m) ys)" by simp
    finally show ?thesis by (simp add: ys(5))
  qed
  moreover from this have "mset (take (Suc (Suc m)) zs) = mset (take (Suc (Suc m)) xs)"
    using ms by (metis add_right_cancel append_take_drop_id mset_append)
  ultimately show ?case using run len ms by blast
qed

text \<open>After \<open>i\<close> passes every element of the last \<open>i\<close> is at least all before it.\<close>

definition settled :: "nat \<Rightarrow> nat \<Rightarrow> int list \<Rightarrow> bool" where
  "settled n i xs \<longleftrightarrow> (\<forall>a b. a < b \<and> b < n \<and> n - i \<le> b \<longrightarrow> xs ! a \<le> xs ! b)"

lemma settled_sorted: "settled n (n - 1) xs \<Longrightarrow> n \<le> length xs \<Longrightarrow> sorted (take n xs)"
  by (auto simp: settled_def sorted_iff_nth_mono_less)

lemma sort_pass_settles:
  assumes n: "n \<le> length xs" and i: "Suc i < n" and s: "settled n i xs"
  shows "\<exists>ys. sort_pass (int n) i xs = Inr ys \<and> length ys = length xs \<and> mset (take n ys) = mset (take n xs)
    \<and> drop n ys = drop n xs \<and> settled n (Suc i) ys"
proof -
  define m where "m = n - Suc i"
  have m: "m < length xs" "Suc m \<le> n" "n - i = Suc m" "n - Suc i = m" using n i by (simp_all add: m_def)
  have "nat (int n - (int i + 1)) = m" using i by (simp add: m_def)
  moreover from sort_pass_bubbles [OF m(1)] obtain ys where ys: "for_each [0..<m] sort_step xs = Inr ys"
    "length ys = length xs" "mset ys = mset xs" "\<forall>k \<le> m. ys ! k \<le> ys ! m" "drop (Suc m) ys = drop (Suc m) xs"
    "mset (take (Suc m) ys) = mset (take (Suc m) xs)" by blast
  ultimately have "sort_pass (int n) i xs = Inr ys" by (simp add: sort_pass_def)
  moreover have dr: "drop n ys = drop n xs"
  proof -
    have "drop n zs = drop (n - Suc m) (drop (Suc m) zs)" for zs :: "int list" using m(2) by simp
    from this [of ys] this [of xs] show ?thesis by (simp only: ys(5))
  qed
  moreover have "mset (take n ys) = mset (take n xs)"
    using ys(3) dr by (metis add_right_cancel append_take_drop_id mset_append)
  moreover have "settled n (Suc i) ys"
    unfolding settled_def m
  proof (intro allI impI, elim conjE)
    fix a b
    assume ab: "a < b" "b < n" "m \<le> b"
    have high: "ys ! k = xs ! k" if "m < k" "k < n" for k
    proof -
      have "zs ! k = drop (Suc m) zs ! (k - Suc m)" if "length zs = length xs" for zs :: "int list"
        using \<open>m < k\<close> \<open>k < n\<close> n that by simp
      then show ?thesis using ys(2,5) by simp
    qed
    show "ys ! a \<le> ys ! b"
    proof (cases "b = m")
      case True
      with ys(4) ab show ?thesis by simp
    next
      case False
      with ab have b: "m < b" by simp
      have le: "xs ! c \<le> xs ! b" if "c < b" for c
        using s that ab b m(3) unfolding settled_def by (metis Suc_leI)
      show ?thesis
      proof (cases "m < a")
        case True
        with high [of a] high [OF b ab(2)] le [OF ab(1)] ab show ?thesis by simp
      next
        case False
        have "set (take (Suc m) ys) = set (take (Suc m) xs)" using ys(6) by (rule mset_eq_setD)
        moreover have "ys ! a \<in> set (take (Suc m) ys)"
          using False m(1) ys(2) by (auto simp: in_set_conv_nth intro!: exI [of _ a])
        ultimately obtain c where "c < Suc m" "ys ! a = xs ! c" using m(1) by (auto simp: in_set_conv_nth)
        with le [of c] b high [OF b ab(2)] show ?thesis by simp
      qed
    qed
  qed
  ultimately show ?thesis using ys(2) by blast
qed

lemma bubblesort_sorts:
  assumes n: "nat n \<le> length xs"
  shows "\<exists>ys. bubblesort n xs = Inr ys \<and> length ys = length xs \<and> sorted (take (nat n) ys)
    \<and> mset (take (nat n) ys) = mset (take (nat n) xs) \<and> drop (nat n) ys = drop (nat n) xs"
proof (cases "n \<le> 1")
  case True
  have "sorted (take (nat n) xs)" using True
    by (cases xs) (auto simp: take_Cons' nat_le_iff)
  with True show ?thesis by (simp add: bubblesort_def)
next
  case False
  define k where "k = nat n"
  have k: "int k = n" "1 < k" "k \<le> length xs" using False n by (simp_all add: k_def)
  let ?P = "\<lambda>done ys. length ys = length xs \<and> mset (take k ys) = mset (take k xs) \<and> drop k ys = drop k xs
    \<and> settled k (length done) ys"
  have "\<exists>ys. for_each [0..<nat (n - 1)] (sort_pass n) xs = Inr ys \<and> ?P [0..<nat (n - 1)] ys"
  proof (rule for_each_prefix)
    show "?P [] xs" using k by (simp add: settled_def)
    fix us x vs u
    assume e: "[0..<nat (n - 1)] = us @ x # vs" and P: "?P us u"
    have l: "length us < nat (n - 1)" using arg_cong [OF e, of length] by simp
    have x: "x = length us" using arg_cong [OF e, of "\<lambda>zs. zs ! length us"] l by (simp add: nth_append)
    have "Suc x < k" using l x k(1) by simp
    then obtain v where "sort_pass n x u = Inr v" "length v = length u" "mset (take k v) = mset (take k u)"
      "drop k v = drop k u" "settled k (Suc x) v"
      using sort_pass_settles [of k u x] P k x by auto
    with P show "\<exists>v. sort_pass n x u = Inr v \<and> ?P (us @ [x]) v" by (simp add: x)
  qed
  then obtain ys where ys: "bubblesort n xs = Inr ys" "?P [0..<nat (n - 1)] ys" by (auto simp: bubblesort_def)
  have "nat (n - 1) = k - 1" using k(1) by linarith
  then have "settled k (k - 1) ys" using ys(2) by simp
  then have "sorted (take k ys)" by (rule settled_sorted) (use ys(2) k in simp)
  with ys k_def show ?thesis by auto
qed

lemma fill_loop:
  "for_each [0..<m] (fill_step rnd) xs =
     (if m \<le> length xs then Inr (map rnd [0..<m] @ drop m xs) else Inl IndexFault)"
proof (induction m)
  case 0
  then show ?case by simp
next
  case (Suc m)
  then show ?case
    by (auto simp: for_each_append fill_step_def list_update_append Cons_nth_drop_Suc [symmetric] split: nat.splits)
qed

text \<open>C38: the program sorts as many random numbers as it is asked for, up to the 999 its array
  has room for: what it prints is what it drew, the first \<open>n\<close> elements end up sorted and are the
  numbers drawn, and the rest of the array is untouched. For a larger \<open>n\<close>, which the code does
  not check, it writes outside the array.\<close>

theorem sort_main_sorts:
  assumes "length garbage = 999"
  shows "if 999 < n then sort_main garbage rnd n = Inl IndexFault
    else \<exists>ys. sort_main garbage rnd n = Inr (map rnd [0..<nat n], ys) \<and> length ys = 999 \<and> sorted (take (nat n) ys)
      \<and> mset (take (nat n) ys) = mset (map rnd [0..<nat n]) \<and> drop (nat n) ys = drop (nat n) garbage"
proof (cases "999 < n")
  case True
  then have "\<not> nat n \<le> length garbage" using assms by simp
  with True show ?thesis by (simp add: sort_main_def fill_loop)
next
  case False
  then have n: "nat n \<le> length garbage" using assms by simp
  let ?xs = "map rnd [0..<nat n] @ drop (nat n) garbage"
  have "nat n \<le> length ?xs" by simp
  from bubblesort_sorts [OF this] obtain ys where ys: "bubblesort n ?xs = Inr ys" "length ys = length ?xs"
    "sorted (take (nat n) ys)" "mset (take (nat n) ys) = mset (take (nat n) ?xs)"
    "drop (nat n) ys = drop (nat n) ?xs" by blast
  have "printlist n ?xs = map rnd [0..<nat n]"
    unfolding printlist_def by (rule nth_equalityI) (simp_all add: nth_append)
  with False n ys assms show ?thesis by (simp add: sort_main_def fill_loop)
qed

theorem sort_main_sorts_witness:
  "(\<exists>ys. sort_main (replicate 999 0) (\<lambda>i. 5 - int i) 3 = Inr ([5, 4, 3], ys) \<and> sorted (take 3 ys))
    \<and> sort_main (replicate 999 0) (\<lambda>i. int i) 1000 = Inl IndexFault"
proof
  have "\<exists>ys. sort_main (replicate 999 0) (\<lambda>i. 5 - int i) 3 = Inr (map (\<lambda>i. 5 - int i) [0..<nat 3], ys)
      \<and> sorted (take (nat 3) ys)"
    using sort_main_sorts [of "replicate 999 0" 3 "\<lambda>i. 5 - int i"] by auto
  moreover have "map (\<lambda>i. 5 - int i) [0..<nat 3] = [5, 4, 3]" by (simp add: upt_rec)
  ultimately show "\<exists>ys. sort_main (replicate 999 0) (\<lambda>i. 5 - int i) 3 = Inr ([5, 4, 3], ys) \<and> sorted (take 3 ys)"
    by simp
  show "sort_main (replicate 999 0) (\<lambda>i. int i) 1000 = Inl IndexFault"
    using sort_main_sorts [of "replicate 999 0" 1000 "\<lambda>i. int i"] by simp
qed

end
