(* ===== verification/Codec.thy ===== *)
theory Codec
  imports Prelude
begin

text \<open>
  Two byte filters: hide.c, which shifts a file by half a byte, and XOR2.c, which combines its
  input with a key. Files are lists of bytes; \<open>read\<close> of one byte and the end of the file are
  the two cases of the list.
\<close>

section \<open>hide.c\<close>

text \<open>The loops of \<open>encode\<close> and \<open>decode\<close>; \<open>d\<close> is the half byte carried over.\<close>

primrec encode_loop :: "u8 \<Rightarrow> u8 list \<Rightarrow> u8 list" where
  "encode_loop d [] = [d]"
| "encode_loop d (b # bs) = (drop_bit 4 b OR d) # encode_loop (push_bit 4 b) bs"

definition encode :: "u8 list \<Rightarrow> u8 list" where
  "encode bs = encode_loop 0 bs"

primrec decode_loop :: "u8 \<Rightarrow> u8 list \<Rightarrow> u8 list" where
  "decode_loop d [] = []"
| "decode_loop d (b # bs) = (drop_bit 4 b OR d) # decode_loop (push_bit 4 b) bs"

definition decode :: "u8 list \<Rightarrow> u8 list" where
  "decode bs = (case bs of [] \<Rightarrow> [] | b # bs' \<Rightarrow> decode_loop (push_bit 4 b) bs')"

text \<open>
  \<open>main\<close>: the file system maps names to contents; \<open>writable\<close> says where a file can be opened
  for writing. The target is not truncated, so bytes of an older, longer file stay. The names
  are copied into buffers of 50 bytes. What is returned is the exit code.
\<close>

type_synonym files = "string \<Rightarrow> u8 list option"

definition overwrite :: "u8 list \<Rightarrow> u8 list option \<Rightarrow> u8 list" where
  "overwrite out old = (case old of None \<Rightarrow> out | Some bs \<Rightarrow> out @ drop (length out) bs)"

definition hide_main :: "(string \<Rightarrow> bool) \<Rightarrow> string list \<Rightarrow> files \<Rightarrow> (nat \<times> files) res" where
  "hide_main writable argv fs =
     (if length argv < 3 then Inr (1, fs)
      else if 50 \<le> length (argv ! 1) \<or> 50 \<le> length (argv ! 2) then Inl IndexFault
      else case fs (argv ! 1) of None \<Rightarrow> Inr (1, fs)
        | Some bs \<Rightarrow>
            if \<not> writable (argv ! 2) then Inr (1, fs)
            else let out = (if length argv = 4 \<and> argv ! 3 = ''u'' then decode bs else encode bs)
                 in Inr (0, fs(argv ! 2 \<mapsto> overwrite out (fs (argv ! 2)))))"

section \<open>XOR2.c\<close>

text \<open>\<open>cp\<close> is what is left of the key.\<close>

primrec xor_loop :: "u8 list \<Rightarrow> u8 list \<Rightarrow> u8 list \<Rightarrow> u8 list" where
  "xor_loop key cp [] = []"
| "xor_loop key cp (c # cs) =
     (let cp' = (if cp = [] then key else cp) in (c XOR hd cp') # xor_loop key (tl cp') cs)"

definition xor_main :: "u8 list list \<Rightarrow> u8 list \<Rightarrow> nat \<times> u8 list" where
  "xor_main argv input = (if length argv \<noteq> 2 \<or> argv ! 1 = [] then (1, [])
     else (0, xor_loop (argv ! 1) (argv ! 1) input))"

section \<open>Round trips\<close>

lemma nibbles:
  fixes a b d :: u8
  shows "drop_bit 4 (drop_bit 4 b OR push_bit 4 a) OR push_bit 4 (drop_bit 4 a OR push_bit 4 d) = a"
proof (rule bit_eqI)
  fix n
  assume "possible_bit TYPE(u8) n"
  then have n: "n < 8" by simp
  have high: "\<not> bit b (8 + n)" "8 \<le> 4 + n \<Longrightarrow> \<not> bit a (4 + n)"
    using bit_imp_le_length [of b "8 + n"] bit_imp_le_length [of a "4 + n"] by auto
  show "bit (drop_bit 4 (drop_bit 4 b OR push_bit 4 a) OR push_bit 4 (drop_bit 4 a OR push_bit 4 d)) n = bit a n"
    using n high by (cases "n < 4") (auto simp: bit_simps)
qed

lemma decode_encode_loop:
  "decode_loop (push_bit 4 (drop_bit 4 b OR push_bit 4 d)) (encode_loop (push_bit 4 b) bs) = b # bs"
proof (induction bs arbitrary: b d)
  case Nil
  show ?case using nibbles [of 0 b d] by simp
next
  case (Cons c bs)
  show ?case using nibbles [of c b d] Cons [of c b] by simp
qed

lemma decode_encode: "decode (encode bs) = bs"
proof (cases bs)
  case Nil
  then show ?thesis by (simp add: encode_def decode_def)
next
  case (Cons b bs')
  with decode_encode_loop [of b 0 bs'] show ?thesis by (simp add: encode_def decode_def)
qed

lemma length_encode_loop: "length (encode_loop d bs) = Suc (length bs)"
  by (induction bs arbitrary: d) simp_all

lemma xor_loop_twice: "xor_loop key cp (xor_loop key cp cs) = cs"
  by (induction cs arbitrary: cp) (simp_all add: Let_def xor.assoc)

text \<open>Running XOR2 a second time with the same key gives the input back.\<close>

lemma xor_main_twice:
  "key \<noteq> [] \<Longrightarrow> xor_main [name, key] (snd (xor_main [name, key] input)) = (0, input)"
  by (simp add: xor_main_def xor_loop_twice)

text \<open>C39: a file encoded by \<open>hide\<close> and decoded again by \<open>hide ... u\<close> into files that do not exist
  yet comes back byte for byte; the encoded file is one byte longer than the original. Both
  runs exit with 0 and change no other file.\<close>

theorem hide_roundtrip:
  assumes "fs src = Some bs" and "fs enc = None" and "fs out = None" and "enc \<noteq> out"
    and "writable enc" and "writable out"
    and "length src < 50" and "length enc < 50" and "length out < 50"
  shows "\<exists>es. hide_main writable [name, src, enc] fs = Inr (0, fs(enc \<mapsto> es)) \<and> length es = Suc (length bs)
    \<and> hide_main writable [name, enc, out, ''u''] (fs(enc \<mapsto> es)) = Inr (0, fs(enc \<mapsto> es, out \<mapsto> bs))"
  by (rule exI [of _ "encode bs"])
    (use assms in \<open>simp add: hide_main_def overwrite_def decode_encode, simp add: encode_def length_encode_loop\<close>)

theorem hide_roundtrip_witness:
  "\<exists>es. hide_main (\<lambda>_. True) [''hide'', ''a'', ''b''] [''a'' \<mapsto> [1, 255]] = Inr (0, [''a'' \<mapsto> [1, 255], ''b'' \<mapsto> es])
    \<and> hide_main (\<lambda>_. True) [''hide'', ''b'', ''c'', ''u''] [''a'' \<mapsto> [1, 255], ''b'' \<mapsto> es]
      = Inr (0, [''a'' \<mapsto> [1, 255], ''b'' \<mapsto> es, ''c'' \<mapsto> [1, 255]])"
proof -
  have "\<exists>es. hide_main (\<lambda>_. True) [''hide'', ''a'', ''b''] [''a'' \<mapsto> [1, 255]] = Inr (0, [''a'' \<mapsto> [1, 255], ''b'' \<mapsto> es])
    \<and> length es = Suc (length [1, 255 :: u8])
    \<and> hide_main (\<lambda>_. True) [''hide'', ''b'', ''c'', ''u''] [''a'' \<mapsto> [1, 255], ''b'' \<mapsto> es]
      = Inr (0, [''a'' \<mapsto> [1, 255], ''b'' \<mapsto> es, ''c'' \<mapsto> [1, 255]])"
    by (rule hide_roundtrip) simp_all
  then show ?thesis by blast
qed

end
