(* ===== verification/Automaton.thy ===== *)
theory Automaton
  imports Prelude
begin

text \<open>
  cellular_automata.c: one step of an elementary cellular automaton on the eight bits of an
  \<open>unsigned char\<close>, which form a ring. The values of type \<open>unsigned char\<close> are 8-bit words;
  \<open>pow (2, k)\<close> is exact on the arguments the code has. A rule without a table leaves the
  pointer \<open>rule_set\<close> uninitialised: reading through it is \<open>BadPointer\<close>.
\<close>

section \<open>The program\<close>

definition neighborhood_bit_7 :: "u8 \<Rightarrow> u8" where
  "neighborhood_bit_7 input = (let shift_left_2 = push_bit 2 (input AND 1);
     shift_right_6 = drop_bit 6 (input AND 192) in shift_left_2 OR shift_right_6)"

definition neighborhood_bit_0 :: "u8 \<Rightarrow> u8" where
  "neighborhood_bit_0 input = (let shift_left_1 = push_bit 1 (input AND 3);
     shift_right_7 = drop_bit 7 (input AND 128) in shift_left_1 OR shift_right_7)"

definition neighborhood_bit_1_to_6 :: "u8 \<Rightarrow> nat \<Rightarrow> u8" where
  "neighborhood_bit_1_to_6 input position =
     (let mask = word_of_nat (2 ^ (position - 1) + 2 ^ (position + 1) + 2 ^ position)
      in drop_bit (position - 1) (input AND mask))"

definition rule_set :: "nat \<Rightarrow> u8 list option" where
  "rule_set rule =
     (if rule = 195 then Some [1,1,0,0,0,0,1,1]
      else if rule = 153 then Some [1,0,1,1,0,0,0,1]
      else if rule = 90 then Some [0,1,0,1,1,0,1,0]
      else if rule = 15 then Some [0,0,0,0,1,1,1,1]
      else if rule = 170 then Some [1,0,1,0,1,0,1,0]
      else if rule = 51 then Some [0,0,1,1,0,0,1,1]
      else if rule = 204 then Some [1,1,0,0,0,1,1,0]
      else if rule = 150 then Some [1,0,0,1,0,1,1,0]
      else None)"

definition cellular_rule :: "u8 \<Rightarrow> nat \<Rightarrow> u8 res" where
  "cellular_rule input rule =
     (if unat input \<le> 7
      then (case rule_set rule of None \<Rightarrow> Inl BadPointer | Some ts \<Rightarrow> Inr (ts ! unat input))
      else Inr 0)"

definition neighborhood :: "u8 \<Rightarrow> nat \<Rightarrow> u8" where
  "neighborhood x i = (if i = 0 then neighborhood_bit_0 x
     else if i = 7 then neighborhood_bit_7 x else neighborhood_bit_1_to_6 x i)"

definition apply_rule :: "nat \<Rightarrow> u8 list \<Rightarrow> nat \<Rightarrow> u8 \<Rightarrow> u8 res" where
  "apply_rule rule a i d = bind_res (cellular_rule (a ! i) rule) (\<lambda>c. Inr (d + c * 2 ^ i))"

text \<open>\<open>main\<close> with its two loops; the rule is the constant 195 there.\<close>

definition automaton :: "nat \<Rightarrow> u8 \<Rightarrow> u8 res" where
  "automaton rule x = (let a = map (neighborhood x) [0..<8] in for_each [0..<8] (apply_rule rule a) 0)"

definition automaton_main :: "u8 \<Rightarrow> u8 res" where
  "automaton_main x = automaton 195 x"

section \<open>What it computes\<close>

text \<open>The number of a cell's neighbourhood: the cell above it, itself, the cell below it.\<close>

definition cells :: "u8 \<Rightarrow> nat \<Rightarrow> nat" where
  "cells x i = 4 * of_bool (bit x (Suc i mod 8)) + 2 * of_bool (bit x i) + of_bool (bit x ((i + 7) mod 8))"

lemmas neighborhood_simps = neighborhood_def neighborhood_bit_0_def neighborhood_bit_7_def neighborhood_bit_1_to_6_def Let_def bit_or_iff bit_and_iff
  bit_push_bit_iff bit_drop_bit_eq
lemma high_bits: "8 \<le> n \<Longrightarrow> \<not> bit (x :: u8) n" using bit_imp_le_length [of x n] by auto

lemma neighborhood_bit_0:
  "bit (neighborhood x 0) n \<longleftrightarrow> n \<noteq> 0 \<and> n < 8 \<and> bit (x AND 3) (n - 1) \<or> bit (drop_bit 7 (x AND 128)) n"
proof -
  have "bit (push_bit 1 w) n \<longleftrightarrow> n \<noteq> 0 \<and> n < 8 \<and> bit w (n - 1)" for w :: u8
    by (simp only: bit_push_bit_iff) auto
  then show ?thesis by (simp only: neighborhood_def neighborhood_bit_0_def Let_def bit_or_iff simp_thms if_True)
qed

lemma neighborhood_bit:
  assumes "n < 8" and "i < 8"
  shows "bit (neighborhood x i) n \<longleftrightarrow>
     n = 0 \<and> bit x ((i + 7) mod 8) \<or> n = 1 \<and> bit x i \<or> n = 2 \<and> bit x (Suc i mod 8)"
proof -
  have n: "n = 0 \<or> n = 1 \<or> n = 2 \<or> n = 3 \<or> n = 4 \<or> n = 5 \<or> n = 6 \<or> n = 7" using assms(1) by auto
  have i: "i = 0 \<or> i = 1 \<or> i = 2 \<or> i = 3 \<or> i = 4 \<or> i = 5 \<or> i = 6 \<or> i = 7" using assms(2) by auto
  show ?thesis
    using i
  proof (elim disjE)
    assume "i = 0"
    then show ?thesis using n by (elim disjE) (simp_all add: neighborhood_bit_0 bit_and_iff bit_drop_bit_eq high_bits)
  next
    assume "i = 1"
    then show ?thesis using n by (elim disjE) (simp_all add: neighborhood_simps high_bits flip: numeral_2_eq_2 numeral_3_eq_3 del: push_bit_Suc)
  next
    assume "i = 2"
    then show ?thesis using n by (elim disjE) (simp_all add: neighborhood_simps high_bits flip: numeral_2_eq_2 numeral_3_eq_3 del: push_bit_Suc)
  next
    assume "i = 3"
    then show ?thesis using n by (elim disjE) (simp_all add: neighborhood_simps high_bits del: push_bit_Suc)
  next
    assume "i = 4"
    then show ?thesis using n by (elim disjE) (simp_all add: neighborhood_simps high_bits del: push_bit_Suc)
  next
    assume "i = 5"
    then show ?thesis using n by (elim disjE) (simp_all add: neighborhood_simps high_bits del: push_bit_Suc)
  next
    assume "i = 6"
    then show ?thesis using n by (elim disjE) (simp_all add: neighborhood_simps high_bits del: push_bit_Suc)
  next
    assume "i = 7"
    then show ?thesis using n by (elim disjE) (simp_all add: neighborhood_simps high_bits del: push_bit_Suc)
  qed
qed

text \<open>A byte from its bits, least significant first.\<close>

lemma bit_sum_of_bools:
  "bit (horner_sum of_bool 2 bs :: u8) n \<longleftrightarrow> n < 8 \<and> n < length bs \<and> bs ! n"
  by (auto simp: bit_horner_sum_bit_word_iff)

lemma neighborhood_cells:
  assumes "i < 8"
  shows "unat (neighborhood x i) = cells x i"
proof -
  have "neighborhood x i = horner_sum of_bool 2 [bit x ((i + 7) mod 8), bit x i, bit x (Suc i mod 8)]"
  proof (rule bit_eqI)
    fix n
    assume "possible_bit TYPE(u8) n"
    then have n: "n < 8" by simp
    show "bit (neighborhood x i) n
        \<longleftrightarrow> bit (horner_sum of_bool 2 [bit x ((i + 7) mod 8), bit x i, bit x (Suc i mod 8)] :: u8) n"
      unfolding bit_sum_of_bools neighborhood_bit [OF n assms] using n
      by (auto simp: nth_Cons' less_Suc_eq numeral_2_eq_2)
  qed
  then show ?thesis
    by (cases "bit x ((i + 7) mod 8)"; cases "bit x i"; cases "bit x (Suc i mod 8)") (simp_all add: cells_def)
qed

lemma cells_less: "cells x i < 8"
  by (simp add: cells_def split: if_splits)

text \<open>The tables hold zeros and ones.\<close>

lemma rule_set_bits:
  assumes "rule_set r = Some ts"
  shows "length ts = 8" and "k < 8 \<Longrightarrow> ts ! k = of_bool (ts ! k = 1)"
proof -
  have *: "length ts = 8 \<and> (\<forall>t \<in> set ts. t = 0 \<or> t = 1)"
    using assms by (auto simp: rule_set_def split: if_splits)
  then show "length ts = 8" by simp
  assume "k < 8"
  with * have "ts ! k = 0 \<or> ts ! k = 1" by simp
  then show "ts ! k = of_bool (ts ! k = 1)" by auto
qed

lemma automaton_sum:
  assumes "rule_set r = Some ts"
  shows "automaton r x = Inr (horner_sum of_bool 2 (map (\<lambda>i. ts ! cells x i = 1) [0..<8]))"
proof -
  let ?a = "map (neighborhood x) [0..<8]" and ?b = "\<lambda>i. ts ! cells x i = 1"
  have step: "apply_rule r ?a i d = Inr (d + of_bool (?b i) * 2 ^ i)" if "i < 8" for i d
  proof -
    have "unat (?a ! i) = cells x i" using that neighborhood_cells by simp
    then have "cellular_rule (?a ! i) r = Inr (ts ! cells x i)"
      using assms cells_less [of x i] by (simp add: cellular_rule_def)
    moreover have "ts ! cells x i = of_bool (?b i)" by (rule rule_set_bits(2) [OF assms cells_less])
    ultimately show ?thesis by (simp add: apply_rule_def)
  qed
  have "for_each [0..<8] (apply_rule r ?a) 0 = Inr (fold (\<lambda>i d. d + of_bool (?b i) * 2 ^ i) [0..<8] 0)"
    by (rule for_each_pure) (simp add: step)
  also have "fold (\<lambda>i d. d + of_bool (?b i) * 2 ^ i) [0..<8] 0 = (horner_sum of_bool 2 (map ?b [0..<8]) :: u8)"
    by (simp add: upt_rec numeral_eq_Suc algebra_simps)
  finally show ?thesis by (simp add: automaton_def)
qed

text \<open>
  A table holds Wolfram's rule of its number when entry \<open>k\<close> is bit \<open>k\<close> of the number. Of the
  eight tables two do; the others are written from the other end, or mistyped.
\<close>

definition wolfram :: "nat \<Rightarrow> bool" where
  "wolfram r \<longleftrightarrow> (case rule_set r of None \<Rightarrow> False
     | Some ts \<Rightarrow> list_all (\<lambda>k. (ts ! k = 1) = odd (r div 2 ^ k)) [0..<8])"

lemma wolfram_tables: "wolfram r \<longleftrightarrow> r = 90 \<or> r = 195"
proof -
  have "wolfram r \<Longrightarrow> r \<in> {195, 153, 90, 15, 170, 51, 204, 150}"
    by (auto simp: wolfram_def rule_set_def split: if_splits)
  moreover have "wolfram 90 \<and> wolfram 195 \<and> \<not> wolfram 153 \<and> \<not> wolfram 15 \<and> \<not> wolfram 170
      \<and> \<not> wolfram 51 \<and> \<not> wolfram 204 \<and> \<not> wolfram 150" by code_simp
  ultimately show ?thesis by auto
qed

text \<open>C40: the program computes one step of Wolfram's rule 195 on the ring of eight cells: bit
  \<open>i\<close> of its result is bit \<open>k\<close> of 195, where \<open>k\<close> is the number of the neighbourhood of cell
  \<open>i\<close>. So does rule 90; of the other six rules the file has tables for, none computes the rule
  of its number.\<close>

theorem automaton_rule:
  "(\<forall>i < 8. \<exists>y. automaton_main x = Inr y \<and> (bit y i \<longleftrightarrow> odd ((195 :: nat) div 2 ^ cells x i)))
    \<and> (\<forall>i < 8. \<exists>y. automaton 90 x = Inr y \<and> (bit y i \<longleftrightarrow> odd ((90 :: nat) div 2 ^ cells x i)))
    \<and> (\<forall>r. wolfram r \<longleftrightarrow> r = 90 \<or> r = 195)"
proof -
  have "\<exists>y. automaton r x = Inr y \<and> (bit y i \<longleftrightarrow> odd (r div 2 ^ cells x i))" if "wolfram r" "i < 8" for r i
  proof -
    from that(1) obtain ts where ts: "rule_set r = Some ts"
      and t: "\<And>k. k < 8 \<Longrightarrow> (ts ! k = 1) = odd (r div 2 ^ k)"
      by (auto simp: wolfram_def list_all_iff split: option.splits)
    have "bit (horner_sum of_bool 2 (map (\<lambda>i. ts ! cells x i = 1) [0..<8]) :: u8) i \<longleftrightarrow> odd (r div 2 ^ cells x i)"
      using that(2) t [OF cells_less] by (simp add: bit_sum_of_bools)
    with automaton_sum [OF ts, of x] show ?thesis by blast
  qed
  then show ?thesis unfolding automaton_main_def by (simp add: wolfram_tables)
qed

theorem automaton_rule_witness:
  "\<exists>y. automaton_main 1 = Inr y \<and> bit y 0 = odd ((195 :: nat) div 2 ^ cells 1 0) \<and> cells 1 0 = 2"
proof -
  have "\<forall>i < 8. \<exists>y. automaton_main 1 = Inr y \<and> (bit y i \<longleftrightarrow> odd ((195 :: nat) div 2 ^ cells 1 i))"
    using automaton_rule [of 1] by blast
  then obtain y where "automaton_main 1 = Inr y" "bit y 0 \<longleftrightarrow> odd ((195 :: nat) div 2 ^ cells 1 0)"
    by (metis zero_less_numeral)
  moreover have "cells 1 0 = 2" by (simp add: cells_def)
  ultimately show ?thesis by blast
qed

end
