(* ===== verification/Spec2Isabelle.thy ===== *)
theory Spec2Isabelle
  imports PageProps BestFit VmList VmDma SchedProps ThrPoolProps PoolRing SefdmProps SorProps ConjGradProps
    LinkedListProps RingMain WorkcrewProps MsgLog LectureProps DotProd LineIO Bubblesort Codec Automaton
begin

text \<open>
  \<^bold>\<open>A verification library for the C programs of this repository\<close>

  The repository is a collection of programs that do not call each other: parts of a modified
  MINIX (memory manager and scheduler), programs with POSIX threads (a thread pool, a work
  crew and its logger, producer and consumer, lecture examples, linked lists), line input and
  output over pipes, numerical programs (the SEFDM signal chain and iterative solvers on linked
  lists), and small tools. Each is modelled by theories of its own
  over \<open>Prelude\<close>; what they share is stated there or in a locale.

  \<^bold>\<open>Conventions\<close>

  A C routine is a function on an explicit state and returns \<open>fault + result\<close>: dereferencing
  NULL or a freed or uninitialised pointer, an index outside its array, a failed \<open>assert\<close>, a
  \<open>panic\<close> and a loop that never ends are values (\<open>Prelude\<close>), so that "the routine returns" is
  part of what is proved. Pointers to nodes are numbers, NULL is \<open>None\<close>, and linked structures
  are abstracted by \<open>chain\<close>. \<open>phys_clicks\<close>, \<open>unsigned\<close> and \<open>unsigned char\<close> are words that wrap.
  Uninitialised memory is an argument of the definition that reads it. A walk along a list has
  as fuel the number of nodes there are, and one more: a walk that visits more visits one twice
  and never ends, so running out of fuel is the fault \<open>Diverges\<close> and nothing else; \<open>cg_loop\<close> of
  \<open>ConjGrad\<close> has fuel for two passes, since from the second on its counter is the same. Two loops
  take their fuel from outside: \<open>sweep_loop\<close> of \<open>Sor\<close>, whose end depends on numbers (C12 speaks of
  every fuel), and \<open>alloc_retry\<close> of \<open>VmList\<close>, which lasts as long as another module yields memory.
  What the kernel answers to a call is an argument, too: a list of answers, one for each call.

  \<^bold>\<open>minix/alloc.c: the memory manager\<close>

  \<^item> \<open>VmEnv\<close>: constants, the flag \<open>vm_paged\<close> and the result of \<open>sys_memset\<close>, which come from
    headers and the kernel.
  \<^item> \<open>Holes\<close>: the hole table with its two lists; \<open>del_slot\<close>, \<open>merge\<close>, the hole branches of
    \<open>alloc_mem\<close> and \<open>free_mem\<close>, \<open>holes_sanity_f\<close>. \<open>HoleRep\<close>, \<open>HoleSim\<close>, \<open>HoleInv\<close> relate it to a
    list of regions, and \<open>Regions\<close> is that abstract specification: first fit, coalescing free,
    each with its effect on the set of free addresses.
  \<^item> \<open>Sanity\<close>: what the sanity check decides.
  \<^item> \<open>Pages\<close>: the page allocator on an AVL tree. The tree (generated from cavlc.h) and the slab
    allocator are the parameter \<open>avl_ops\<close> with the laws \<open>avl_laws\<close>, which a sorted list satisfies.
    \<open>PageSim\<close>, \<open>PageLaws\<close>: its refinement of the same regions.
  \<^item> \<open>Allocator\<close>: the locale \<open>region_allocator\<close>, the contract between an allocator and its clients,
    and what a client may conclude from it. \<open>VmAlloc\<close> has \<open>alloc_mem\<close>, \<open>free_mem\<close>, \<open>mem_init\<close> and
    interprets the locale on both allocators (\<open>first_fit_alloc\<close>, \<open>page_tree_alloc\<close>).
  \<^item> \<open>VmInit\<close>, \<open>VmProps\<close> (C1 to C4), \<open>PageProps\<close> (C7 to C10): initialisation and the properties.
  \<^item> \<open>VmList\<close> (C5): \<open>alloc_mem_in_list\<close> and \<open>free_mem_list\<close>, over the same contract.
  \<^item> \<open>BestFit\<close> (C11): \<open>alloc_mem\<close> of minix/3.1.7-bestfit-alloc.c, over the same table.
  \<^item> \<open>VmDma\<close> (C18): the table of memory lent to devices and the bitmap of used pages.

  \<^bold>\<open>minix/schedule.c: the scheduler\<close>

  \<open>Sched\<close> has every handler with its early returns, the rebalancing timer and the reachable
  states (\<open>sched_reach\<close>); endpoint lookups, \<open>nice_to_priority\<close> and the answers of the kernel are
  the parameter \<open>sched_env\<close> with \<open>sched_laws\<close>. \<open>SchedProps\<close>: C13 to C15.

  \<^bold>\<open>pthreads: threads\<close>

  \<^item> \<open>ThrPool\<close>: thr_pool.c as a monitor; a worker is its position in \<open>worker_thread\<close>, a step runs
    to the next point where the mutex is given up, and \<open>pool_reach\<close> interleaves workers and
    clients, spurious wake-ups included. \<open>ThrPoolInv\<close>, \<open>ThrPoolProps\<close>: C21 to C24. \<open>PoolRing\<close>: the
    ring of all pools, as a list to which a pool is appended and from which it is removed.
  \<^item> \<open>RingBuffer\<close>: pc-9.c. The threads are a step relation over any queue; the locale
    \<open>bounded_fifo\<close> says what they need of it and \<open>ring\<close> is the code's queue. \<open>RingMain\<close> adds
    \<open>main\<close> and the deletion of the queue, which is never reached. C34.
  \<^item> \<open>WorkQueue\<close>: workcrew/queue.c and control.c; the locale \<open>node_stack\<close>, interpreted as \<open>workq\<close>,
    and the lemma \<open>stack_lifo\<close>: the queue is a stack. \<open>Workcrew\<close>: the threads of
    workcrew-log8.c, their creation and \<open>stop_server\<close>. The argument \<open>strict\<close> says whether
    undefined use of a mutex is a fault or behaves as in NPTL. \<open>WorkcrewInv\<close>, \<open>WorkcrewSteps\<close>,
    \<open>WorkcrewStop\<close>: the invariants, thread by thread. \<open>WorkcrewProps\<close>: C35 to C37.
  \<^item> \<open>MsgLog\<close>: workcrew/message.c and the loop of the logger: what is accepted is printed, in order.
  \<^item> \<open>Runs\<close>: the locale \<open>ending_runs\<close>, the contract of a program all of whose runs end: an invariant,
    a rank that every step lowers, a step from every state that is not final. Its interpretations:
    \<open>racing\<close>, \<open>mutexed\<close>, \<open>waiting\<close> and \<open>dots\<close>.
  \<^item> \<open>LectureThreads\<close>, \<open>LectureProps\<close>: the three cs2106-lec05 programs, two threads that count a shared
    number down and up, at every interleaving of single memory accesses. Unprotected (C20), with a
    mutex and with a condition variable (C16).
  \<^item> \<open>DotProd\<close> (C17): dotprod_mutex.c, for any number of threads and any vectors.
  \<^item> \<open>LineIO\<close>: \<open>writeLine\<close> and \<open>readLine\<close> of pipes-6.c, for any answers of the kernel: what is kept
    (C32), and that a line written is the line read (C19).
  \<^item> \<open>LinkedList\<close>, \<open>LinkedListProps\<close>: linkedlist.c and its menu, refining a list of names. C33.

  \<^bold>\<open>sefdm/algorythms: numerical programs\<close>

  A \<open>double\<close> is a type with the C operators; a statement asks for exact arithmetic only where it
  needs it, and math.h is the parameter \<open>libm\<close>.
  \<^item> test.list.161.c: \<open>SefdmTable\<close> (columns as linked lists in a node store), \<open>SefdmOps\<close> (signal
    chain and matrix routines), \<open>SefdmInvert\<close> (elimination), \<open>SefdmMain\<close>. \<open>SefdmBuild\<close>,
    \<open>SefdmInvertSim\<close>, \<open>SefdmColumns\<close>, \<open>SefdmRounds\<close>, \<open>SefdmInverse\<close> and \<open>SefdmMult\<close> refine them to
    matrices as functions. \<open>SefdmProps\<close>: C26 to C31.
  \<^item> sor.list.c and guass-seidel.list.c: \<open>Sor\<close>, \<open>SorLemmas\<close>, \<open>SorProps\<close>: the system a sweep
    solves (C25) and when \<open>main\<close> ends (C12).
  \<^item> conjugate-gradient.list.c: \<open>ConjGrad\<close>, \<open>ConjGradProps\<close>: what its single round computes (C6).

  \<^bold>\<open>Small programs\<close>

  \<open>Bubblesort\<close> (bubbleSort.c, C38), \<open>Codec\<close> (hide.c and XOR2.c, C39), \<open>Automaton\<close>
  (cellular_automata.c, C40).

  \<^bold>\<open>Not modelled\<close>

  \<^item> Earlier versions of modelled files: test.list.148.c to 160.c and the mult_matrix files of
    sefdm, pthread_cancel and workcrew/semaphore, dynamic-schedule-2.c (two constants differ),
    the other solvers.
  \<^item> Programs that do not compile, so that they have no behaviour to state: bestfit-alloc.c and
    quickfit-alloc.c (undeclared names, syntax errors), workcrew.c, stack-pipe-e.c,
    guass-seidel.c, openMP/cellular_automata.c. job-queue-2.c exits before it starts its threads.
  \<^item> Programs that are calls of sockets, pipes, MPI, PVM or OpenMP with hardly any state of their
    own, and the Java, C++, Processing and Matlab sources.
  \<^item> Of modelled programs: output other than what a property needs, the clock, the signal handler
    thread of the work crew and its restart by \<open>main\<close>, the processes that \<open>main\<close> of pipes-6.c forks.
\<close>

end
